(* ===== verification/Prelude.thy ===== *)
theory Prelude
  imports Main "HOL-Library.Word"
begin

text \<open>
  Shared vocabulary of the Plasma runtime library: the error values a C++ operation can end
  with, the sequencing operator for fallible operations, the type names used by every
  component, and the generic lemmas on lists, options and function updates that the
  component proofs rest on.

  A C++ pointer is an \<open>option\<close> of an identifier (\<open>None\<close> is the null pointer).  Objects are
  garbage collected in this program, so an identifier never dangles; the only failures of a
  dereference are null pointers and indices out of range.
\<close>

section \<open>Names for machine types\<close>

type_synonym u32 = "32 word"
type_synonym u64 = "64 word"
type_synonym byte = "8 word"
type_synonym ptime = "64 word"
type_synonym tid = nat
type_synonym pid = nat
type_synonym qvid = nat

section \<open>Errors as values\<close>

text \<open>
  \<open>NullDeref\<close>: a member access through a null pointer.  \<open>AssertFail\<close>: a failed
  \<^verbatim>\<open>assert\<close>.  \<open>OutOfRange\<close>: an array or vector access outside its bounds, or a read from an
  empty container.  \<open>DivZero\<close>: an integer division by zero.  \<open>Diverge\<close>: a loop that never
  ends.  \<open>RuntimeError\<close>: a thrown \<^verbatim>\<open>std::runtime_error\<close>.  \<open>Panic\<close>: the process was aborted by
  \<^verbatim>\<open>pPanic\<close> with a message.  \<open>EndOfStream\<close>: a binary read past the end of its stream, which
  leaves the variable read into uninitialised.
\<close>

datatype err = NullDeref | AssertFail | OutOfRange | DivZero | Diverge
  | RuntimeError string | Panic string | EndOfStream

type_synonym 'a res = "err + 'a"

fun bindE :: "'a res \<Rightarrow> ('a \<Rightarrow> 'b res) \<Rightarrow> 'b res" where
  "bindE (Inl e) f = Inl e"
| "bindE (Inr x) f = f x"

definition assertE :: "bool \<Rightarrow> unit res" where
  "assertE b = (if b then Inr () else Inl AssertFail)"

fun derefE :: "'a option \<Rightarrow> 'a res" where
  "derefE None = Inl NullDeref"
| "derefE (Some x) = Inr x"

fun returnsE :: "'a option \<Rightarrow> 'a res" where
  "returnsE None = Inl Diverge"
| "returnsE (Some x) = Inr x"

definition nthE :: "'a list \<Rightarrow> nat \<Rightarrow> 'a res" where
  "nthE xs i = (if i < length xs then Inr (xs ! i) else Inl OutOfRange)"

named_theorems resE \<open>inversion of fallible operations that returned a value\<close>

lemma bindE_Inr [simp, resE]: "bindE m f = Inr y \<longleftrightarrow> (\<exists>x. m = Inr x \<and> f x = Inr y)"
  by (cases m) auto

lemma bindE_Inl: "bindE m f = Inl e \<longleftrightarrow> m = Inl e \<or> (\<exists>x. m = Inr x \<and> f x = Inl e)"
  by (cases m) auto

lemma bindE_return [simp]: "bindE m Inr = m"
  by (cases m) auto

lemma bindE_assoc: "bindE (bindE m f) g = bindE m (\<lambda>x. bindE (f x) g)"
  by (cases m) auto

lemma bindE_cong [fundef_cong]:
  "m = m' \<Longrightarrow> (\<And>x. m' = Inr x \<Longrightarrow> f x = g x) \<Longrightarrow> bindE m f = bindE m' g"
  by (cases m') auto

lemma assertE_Inr [simp, resE]: "assertE b = Inr u \<longleftrightarrow> b"
  by (simp add: assertE_def)

lemma assertE_True [simp]: "assertE True = Inr ()"
  by (simp add: assertE_def)

lemma assertE_False [simp]: "assertE False = Inl AssertFail"
  by (simp add: assertE_def)

lemma derefE_Inr [simp, resE]: "derefE p = Inr x \<longleftrightarrow> p = Some x"
  by (cases p) auto

lemma returnsE_Inr [simp, resE]: "returnsE p = Inr x \<longleftrightarrow> p = Some x"
  by (cases p) auto

lemma nthE_Inr [simp, resE]: "nthE xs i = Inr x \<longleftrightarrow> i < length xs \<and> xs ! i = x"
  by (auto simp: nthE_def)

lemma nthE_ok [simp]: "i < length xs \<Longrightarrow> nthE xs i = Inr (xs ! i)"
  by (simp add: nthE_def)

section \<open>Words\<close>

lemma unat_lt_u32: "unat (x :: u32) < 4294967296"
  using unsigned_less [where ?'a = nat, of x] by simp

lemma unat_lt_u64: "unat (x :: u64) < 18446744073709551616"
  using unsigned_less [where ?'a = nat, of x] by simp

lemma unat_ucast_u64 [simp]: "unat (ucast (x :: u32) :: u64) = unat x"
proof -
  have "unat x < 2 ^ 64" using unat_lt_u32 [of x] by simp
  then show ?thesis by (simp add: unsigned_ucast_eq take_bit_nat_eq_self)
qed

lemma unat_ucast_u32: "unat (ucast (x :: u64) :: u32) = unat x mod 4294967296"
  by (simp add: unsigned_ucast_eq take_bit_eq_mod)

lemma mod_once: "(a :: nat) < 2 * n \<Longrightarrow> a mod n = (if a < n then a else a - n)"
  by (simp add: mod_if [of a n])

section \<open>Lists\<close>

lemma upt_join: "i \<le> j \<Longrightarrow> j \<le> k \<Longrightarrow> [i..<j] @ [j..<k] = [i..<k]"
  using upt_add_eq_append [of i j "k - j"] by simp

lemma upt_snoc: "i < k \<Longrightarrow> [i..<k] = [i..<k - 1] @ [k - 1]"
  by (cases k) auto

lemma distinct_remove1_append:
  "distinct (xs @ x # ys) \<Longrightarrow> remove1 x (xs @ x # ys) = xs @ ys"
  by (simp add: remove1_append)

lemma sum_list_update_nat:
  fixes xs :: "nat list"
  assumes "i < length xs"
  shows "sum_list (xs[i := v]) + xs ! i = sum_list xs + v"
proof -
  have "xs ! i \<le> sum_list xs" using assms by (simp add: elem_le_sum_list)
  then show ?thesis using assms by (simp add: sum_list_update)
qed

lemma mset_swap_update:
  "i < length xs \<Longrightarrow> set (xs[i := v]) \<subseteq> insert v (set xs)"
  by (rule set_update_subset_insert)

end
