(* ===== verification/Rand_Spec.thy ===== *)
theory Rand_Spec
  imports Prelude Complex_Main
begin

text \<open>
  The random number facility of \<^verbatim>\<open>src/Random.h\<close> and \<^verbatim>\<open>src/Random.C\<close>: the binary stream
  helpers, the class template \<^verbatim>\<open>Random<Gen>\<close>, and the interface it asks of a generator, as a
  locale.  The three generators of the library (\<^verbatim>\<open>LcgRand\<close>, \<^verbatim>\<open>KissRand\<close>, \<^verbatim>\<open>MtRand\<close>) are
  interpretations in their own theories.

  A binary stream is the list of bytes still to be read, or the bytes written.  Integers are
  written as they lie in memory; the byte order is that of the i386 the runtime is built for.
\<close>

unbundle bit_operations_syntax

section \<open>Binary streams\<close>

definition writeInt :: "u32 \<Rightarrow> byte list" where
  "writeInt x = map (\<lambda>i. ucast (drop_bit (8 * i) x)) [0, 1, 2, 3]"

fun readInt :: "byte list \<Rightarrow> (u32 \<times> byte list) res" where
  "readInt (b0 # b1 # b2 # b3 # is) =
     Inr (ucast b0 OR push_bit 8 (ucast b1) OR push_bit 16 (ucast b2) OR push_bit 24 (ucast b3), is)"
| "readInt _ = Inl EndOfStream"

lemma join_bytes:
  fixes x :: u32
  shows "ucast (ucast x :: byte) OR push_bit 8 (ucast (ucast (drop_bit 8 x) :: byte))
     OR push_bit 16 (ucast (ucast (drop_bit 16 x) :: byte))
     OR push_bit 24 (ucast (ucast (drop_bit 24 x) :: byte)) = x"
proof (rule bit_word_eqI)
  fix n :: nat
  assume "n < LENGTH(32)"
  then consider "n < 8" | "8 \<le> n" "n < 16" | "16 \<le> n" "n < 24" | "24 \<le> n" "n < 32"
    by fastforce
  then show "bit (ucast (ucast x :: byte) OR push_bit 8 (ucast (ucast (drop_bit 8 x) :: byte))
     OR push_bit 16 (ucast (ucast (drop_bit 16 x) :: byte))
     OR push_bit 24 (ucast (ucast (drop_bit 24 x) :: byte)) :: u32) n = bit x n"
    by cases (auto simp: bit_simps)
qed

lemma readInt_writeInt [simp]: "readInt (writeInt x @ is) = Inr (x, is)"
  by (simp add: writeInt_def join_bytes)

lemma length_writeInt [simp]: "length (writeInt x) = 4"
  by (simp add: writeInt_def)

section \<open>The class template Random\<close>

record 'g random =
  rnd_seed :: u32
  rnd_gens :: "'g list"

text \<open>
  \<open>dseed\<close> stands for \<^verbatim>\<open>defaultSeed()\<close>, the system time xored with the process id; \<open>g0\<close> is the
  default-constructed generator.
\<close>

definition defaultSeed :: "u32 \<Rightarrow> u32 \<Rightarrow> u32" where
  "defaultSeed tv_sec pid = tv_sec XOR pid"

definition random_reset :: "(u32 \<Rightarrow> 'g \<Rightarrow> 'g) \<Rightarrow> 'g random \<Rightarrow> 'g random" where
  "random_reset seed_g r = r\<lparr>rnd_gens :=
     map (\<lambda>i. seed_g (rnd_seed r + of_nat i) (rnd_gens r ! i)) [0..<length (rnd_gens r)]\<rparr>"

definition random_init :: "(u32 \<Rightarrow> 'g \<Rightarrow> 'g) \<Rightarrow> 'g \<Rightarrow> u32 \<Rightarrow> nat \<Rightarrow> u32 \<Rightarrow> 'g random" where
  "random_init seed_g g0 dseed n seed = random_reset seed_g
     \<lparr>rnd_seed = (if seed \<noteq> 0 then seed else dseed), rnd_gens = replicate n g0\<rparr>"

definition random_num_streams :: "'g random \<Rightarrow> nat" where
  "random_num_streams r = length (rnd_gens r)"

definition random_genrand :: "('g \<Rightarrow> (u32 \<times> 'g) res) \<Rightarrow> nat \<Rightarrow> 'g random \<Rightarrow> (u32 \<times> 'g random) res" where
  "random_genrand gen s r =
     bindE (assertE (s < random_num_streams r)) (\<lambda>_.
     bindE (gen (rnd_gens r ! s)) (\<lambda>(v, g). Inr (v, r\<lparr>rnd_gens := (rnd_gens r)[s := g]\<rparr>)))"

definition random_uniform ::
  "('g \<Rightarrow> (u32 \<times> 'g) res) \<Rightarrow> nat \<Rightarrow> u32 \<Rightarrow> u32 \<Rightarrow> 'g random \<Rightarrow> (u32 \<times> 'g random) res" where
  "random_uniform gen s base limit r =
     bindE (assertE (base \<le> limit)) (\<lambda>_.
     if base = limit then Inr (base, r)
     else bindE (random_genrand gen s r) (\<lambda>(v, r).
       let result = v mod (limit - base) in Inr (base + result, r)))"

text \<open>A program draws samples one after the other; a request is a stream and two bounds.\<close>

primrec samples :: "('g \<Rightarrow> (u32 \<times> 'g) res) \<Rightarrow> (nat \<times> u32 \<times> u32) list \<Rightarrow> 'g random \<Rightarrow> (u32 list \<times> 'g random) res" where
  "samples gen [] r = Inr ([], r)"
| "samples gen (q # qs) r =
     (case q of (s, base, limit) \<Rightarrow>
      bindE (random_uniform gen s base limit r) (\<lambda>(v, r).
      bindE (samples gen qs r) (\<lambda>(vs, r). Inr (v # vs, r))))"

definition in_interval :: "nat \<times> u32 \<times> u32 \<Rightarrow> u32 \<Rightarrow> bool" where
  "in_interval q v \<longleftrightarrow> (case q of (s, base, limit) \<Rightarrow> base \<le> v \<and> (if base = limit then v = base else v < limit))"

definition random_save :: "('g \<Rightarrow> byte list) \<Rightarrow> 'g random \<Rightarrow> byte list" where
  "random_save save_g r = writeInt (of_nat (length (rnd_gens r))) @ concat (map save_g (rnd_gens r))"

primrec load_all :: "('g \<Rightarrow> byte list \<Rightarrow> ('g \<times> byte list) res) \<Rightarrow> 'g list \<Rightarrow> byte list
    \<Rightarrow> ('g list \<times> byte list) res" where
  "load_all load_g [] is = Inr ([], is)"
| "load_all load_g (g # gs) is =
     bindE (load_g g is) (\<lambda>(g, is).
     bindE (load_all load_g gs is) (\<lambda>(gs, is). Inr (g # gs, is)))"

definition random_load ::
  "('g \<Rightarrow> byte list \<Rightarrow> ('g \<times> byte list) res) \<Rightarrow> 'g random \<Rightarrow> byte list
    \<Rightarrow> ('g random \<times> byte list) res" where
  "random_load load_g r is =
     bindE (readInt is) (\<lambda>(n, is).
     if n \<noteq> of_nat (length (rnd_gens r))
     then Inl (RuntimeError ''Size mismatch on number of random streams.'')
     else bindE (load_all load_g (rnd_gens r) is) (\<lambda>(gs, is). Inr (r\<lparr>rnd_gens := gs\<rparr>, is)))"

text \<open>
  The triangle distribution.  The two samples are doubles in \<open>[0, 1]\<close>; they are modelled as
  reals, and the conversion to \<^verbatim>\<open>unsigned\<close> as rounding towards zero.
\<close>

definition trunc32 :: "real \<Rightarrow> u32" where
  "trunc32 x = of_int \<lfloor>x\<rfloor>"

definition triangleImpl :: "u32 \<Rightarrow> u32 \<Rightarrow> u32 \<Rightarrow> bool \<Rightarrow> real \<Rightarrow> real \<Rightarrow> u32" where
  "triangleImpl lower0 mode upper0 upper_half r1 r2 =
     (let lower = (if upper_half then mode else lower0);
          upper = (if upper_half then upper0 else mode);
          range = upper - lower in
      if range = 0 then upper
      else let rv = trunc32 (r1 * real (unat range));
               upper = (if upper_half then upper - rv else upper);
               lower = (if upper_half then lower else rv + lower);
               range = upper - lower in
           if range = 0 then upper
           else lower + trunc32 (r2 * real (unat range)))"

section \<open>What Random asks of a generator\<close>

locale generator =
  fixes wf_gen :: "'g \<Rightarrow> bool"
    and g_init :: 'g
    and g_set_seed :: "u32 \<Rightarrow> 'g \<Rightarrow> 'g"
    and g_genrand :: "'g \<Rightarrow> (u32 \<times> 'g) res"
    and g_save :: "'g \<Rightarrow> byte list"
    and g_load :: "'g \<Rightarrow> byte list \<Rightarrow> ('g \<times> byte list) res"
  assumes wf_init: "wf_gen g_init"
    and wf_set_seed: "wf_gen g \<Longrightarrow> wf_gen (g_set_seed s g)"
    and gen_total: "wf_gen g \<Longrightarrow> \<exists>v g'. g_genrand g = Inr (v, g') \<and> wf_gen g'"
    and load_save: "wf_gen g \<Longrightarrow> g_load g0 (g_save g @ is) = Inr (g, is)"
begin

lemma load_all_save:
  "list_all wf_gen gs \<Longrightarrow> length ds = length gs \<Longrightarrow>
   load_all g_load ds (concat (map g_save gs) @ is) = Inr (gs, is)"
proof (induction gs arbitrary: ds)
  case Nil
  then show ?case by simp
next
  case (Cons g gs)
  then obtain d ds' where "ds = d # ds'" by (cases ds) auto
  with Cons show ?case by (simp add: load_save)
qed

lemma save_load_streams:
  assumes "list_all wf_gen (rnd_gens r)" and "length (rnd_gens r') = length (rnd_gens r)"
  shows "random_load g_load r' (random_save g_save r @ is) = Inr (r'\<lparr>rnd_gens := rnd_gens r\<rparr>, is)"
  using assms by (simp add: random_load_def random_save_def load_all_save)

lemma genrand_stream:
  assumes "list_all wf_gen (rnd_gens r)" and "s < random_num_streams r"
  shows "\<exists>v r'. random_genrand g_genrand s r = Inr (v, r') \<and> list_all wf_gen (rnd_gens r') \<and>
    (\<forall>i. i \<noteq> s \<longrightarrow> rnd_gens r' ! i = rnd_gens r ! i)"
proof -
  have "wf_gen (rnd_gens r ! s)"
    using assms by (simp add: list_all_length random_num_streams_def)
  then obtain v g' where g': "g_genrand (rnd_gens r ! s) = Inr (v, g')" "wf_gen g'"
    using gen_total by blast
  have "list_all wf_gen ((rnd_gens r)[s := g'])"
    using assms(1) g'(2) by (auto simp: list_all_iff dest!: subsetD [OF set_update_subset_insert])
  then show ?thesis using g' assms(2) by (simp add: random_genrand_def)
qed

text \<open>A uniform sample lies between its bounds, and only the chosen stream moves.\<close>

lemma uniform_range:
  assumes "list_all wf_gen (rnd_gens r)" and "s < random_num_streams r" and "base < limit"
  shows "\<exists>v r'. random_uniform g_genrand s base limit r = Inr (v, r') \<and> base \<le> v \<and> v < limit \<and>
    list_all wf_gen (rnd_gens r') \<and> length (rnd_gens r') = length (rnd_gens r) \<and>
    (\<forall>i. i \<noteq> s \<longrightarrow> rnd_gens r' ! i = rnd_gens r ! i)"
proof -
  obtain v r' where g: "random_genrand g_genrand s r = Inr (v, r')" "list_all wf_gen (rnd_gens r')"
      "\<forall>i. i \<noteq> s \<longrightarrow> rnd_gens r' ! i = rnd_gens r ! i"
    using genrand_stream [OF assms(1,2)] by blast
  have "length (rnd_gens r') = length (rnd_gens r)" using g(1) by (auto simp: random_genrand_def)
  have "unat (v mod (limit - base)) < unat limit - unat base"
  proof -
    have "unat (limit - base) = unat limit - unat base"
      using assms(3) by (intro unat_sub) simp
    then show ?thesis using assms(3) by (simp add: unat_mod word_less_nat_alt)
  qed
  then have "unat (base + v mod (limit - base)) = unat base + unat (v mod (limit - base))"
    using unat_lt_u32 [of limit] by (intro unat_add_lem [THEN iffD1]) simp
  then have "base \<le> base + v mod (limit - base) \<and> base + v mod (limit - base) < limit"
    using \<open>unat (v mod (limit - base)) < unat limit - unat base\<close>
    by (simp add: word_le_nat_alt word_less_nat_alt)
  then show ?thesis using g assms(3) \<open>length (rnd_gens r') = _\<close> by (auto simp: random_uniform_def Let_def)
qed

text \<open>So do the samples of any sequence of requests; a stream that is not asked for does not move.\<close>

lemma samples_range:
  "list_all wf_gen (rnd_gens r) \<Longrightarrow> \<forall>(s, base, limit)\<in>set qs. s < random_num_streams r \<and> base \<le> limit \<Longrightarrow>
   \<exists>vs r'. samples g_genrand qs r = Inr (vs, r') \<and> list_all2 in_interval qs vs \<and> (\<forall>i. i \<notin> fst ` set qs \<longrightarrow> rnd_gens r' ! i = rnd_gens r ! i)"
proof (induction qs arbitrary: r)
  case (Cons q qs)
  obtain s base limit where q: "q = (s, base, limit)" by (cases q)
  obtain v r1 where u: "random_uniform g_genrand s base limit r = Inr (v, r1)" "in_interval q v"
    "list_all wf_gen (rnd_gens r1)" "length (rnd_gens r1) = length (rnd_gens r)" "\<forall>i. i \<noteq> s \<longrightarrow> rnd_gens r1 ! i = rnd_gens r ! i"
  proof (cases "base = limit")
    case True
    then show ?thesis using that [of base r] Cons.prems by (simp add: random_uniform_def in_interval_def q)
  next
    case False
    then show ?thesis using that uniform_range [of r s base limit] Cons.prems by (fastforce simp: in_interval_def q)
  qed
  obtain vs r2 where "samples g_genrand qs r1 = Inr (vs, r2)" "list_all2 in_interval qs vs" "\<forall>i. i \<notin> fst ` set qs \<longrightarrow> rnd_gens r2 ! i = rnd_gens r1 ! i"
    using Cons.IH [OF u(3)] Cons.prems(2) u(4) by (auto simp: random_num_streams_def)
  then show ?case using u q by auto
qed simp

lemma reset_wf:
  "list_all wf_gen (rnd_gens r) \<Longrightarrow> list_all wf_gen (rnd_gens (random_reset g_set_seed r))"
  by (simp add: random_reset_def list_all_length wf_set_seed)

lemma init_wf:
  "list_all wf_gen (rnd_gens (random_init g_set_seed g_init d n s))
   \<and> random_num_streams (random_init g_set_seed g_init d n s) = n"
  by (simp add: random_init_def random_reset_def list_all_length wf_set_seed wf_init
      random_num_streams_def)

end

end
