(* ===== verification/Lcg_Rand.thy ===== *)
theory Lcg_Rand
  imports Rand_Spec
begin

text \<open>
  The linear congruential generator of \<^verbatim>\<open>src/LcgRand.h\<close> and \<^verbatim>\<open>src/LcgRand.C\<close>.  Its state is
  one 32-bit word; the products are computed in 64 bits.
\<close>

unbundle bit_operations_syntax

record lcg = lcg_x :: u32

definition lcg_a :: u64 where "lcg_a = 279470273"
definition lcg_m :: u64 where "lcg_m = 4294967291"
definition lcg_b :: u64 where "lcg_b = 1815976680"

definition lcg_set_seed :: "u32 \<Rightarrow> lcg \<Rightarrow> lcg" where
  "lcg_set_seed seed g = g\<lparr>lcg_x := seed AND 0xffffffff\<rparr>"

definition lcg_init :: lcg where
  "lcg_init = lcg_set_seed 4937 \<lparr>lcg_x = 0\<rparr>"

definition lcg_genrand :: "lcg \<Rightarrow> u32 \<times> lcg" where
  "lcg_genrand g = (let x = ucast ((lcg_a * ucast (lcg_x g)) mod lcg_m) in (x, g\<lparr>lcg_x := x\<rparr>))"

definition lcg_rgenrand :: "lcg \<Rightarrow> u32 \<times> lcg" where
  "lcg_rgenrand g =
     (let res = lcg_x g in (res, g\<lparr>lcg_x := ucast ((lcg_b * ucast (lcg_x g)) mod lcg_m)\<rparr>))"

definition lcg_save :: "lcg \<Rightarrow> byte list" where
  "lcg_save g = writeInt (lcg_x g)"

definition lcg_load :: "lcg \<Rightarrow> byte list \<Rightarrow> (lcg \<times> byte list) res" where
  "lcg_load g is = bindE (readInt is) (\<lambda>(x, is). Inr (g\<lparr>lcg_x := x\<rparr>, is))"

section \<open>Arithmetic of one step\<close>

text \<open>The modulus, and one step of the generator as arithmetic on naturals.\<close>

abbreviation lcg_mod :: nat where "lcg_mod \<equiv> 4294967291"

lemma lcg_step_nat:
  fixes c :: u64 and x :: u32
  assumes "unat c < 2 ^ 31"
  shows "unat (ucast ((c * ucast x) mod lcg_m) :: u32) = (unat c * unat x) mod lcg_mod"
proof -
  have x: "unat x < 2 ^ 32" using unat_lt_u32 [of x] by simp
  have "unat c * unat x < 2 ^ 31 * 2 ^ 32"
    using assms x by (intro mult_strict_mono) auto
  then have "unat (c * ucast x) = unat c * unat x"
    by (simp add: unat_word_ariths)
  then have r: "unat ((c * ucast x) mod lcg_m) = (unat c * unat x) mod lcg_mod"
    by (simp add: unat_mod lcg_m_def)
  also have "\<dots> < 2 ^ 32" by (rule less_trans [OF mod_less_divisor]) simp_all
  finally show ?thesis using r by (simp add: unat_ucast_u32)
qed

lemma lcg_gen_nat: "unat (lcg_x (snd (lcg_genrand g))) = (279470273 * unat (lcg_x g)) mod lcg_mod"
  using lcg_step_nat [of lcg_a "lcg_x g"] by (simp add: lcg_genrand_def lcg_a_def Let_def)

lemma lcg_rgen_nat: "unat (lcg_x (snd (lcg_rgenrand g))) = (1815976680 * unat (lcg_x g)) mod lcg_mod"
  using lcg_step_nat [of lcg_b "lcg_x g"] by (simp add: lcg_rgenrand_def lcg_b_def Let_def)

lemma lcg_genrand_fst: "fst (lcg_genrand g) = lcg_x (snd (lcg_genrand g))"
  by (simp add: lcg_genrand_def Let_def)

lemma lcg_inverse: "(1815976680 * ((279470273 * x) mod lcg_mod)) mod lcg_mod = x mod lcg_mod"
proof -
  have "(1815976680 * ((279470273 * x) mod lcg_mod)) mod lcg_mod
      = (1815976680 * (279470273 * x)) mod lcg_mod"
    by (rule mod_mult_right_eq)
  also have "1815976680 * (279470273 * x) = x + lcg_mod * (118164229 * x)" by simp
  also have "(x + lcg_mod * (118164229 * x)) mod lcg_mod = x mod lcg_mod" by (rule mod_mult_self2)
  finally show ?thesis .
qed

definition lcg_ok :: "lcg \<Rightarrow> bool" where
  "lcg_ok g \<longleftrightarrow> unat (lcg_x g) < lcg_mod"

lemma lcg_gen_ok: "lcg_ok (snd (lcg_genrand g))"
  by (simp add: lcg_ok_def lcg_gen_nat)

lemma lcg_reverse_step:
  assumes "lcg_ok g"
  shows "lcg_rgenrand (snd (lcg_genrand g)) = (fst (lcg_genrand g), g)"
proof -
  have "unat (lcg_x (snd (lcg_rgenrand (snd (lcg_genrand g))))) = unat (lcg_x g)"
    using assms by (simp only: lcg_rgen_nat lcg_gen_nat lcg_inverse) (simp add: lcg_ok_def)
  then have "snd (lcg_rgenrand (snd (lcg_genrand g))) = g"
    by (intro lcg.equality) (auto intro: unsigned_word_eqI)
  moreover have "fst (lcg_rgenrand (snd (lcg_genrand g))) = fst (lcg_genrand g)"
    by (simp add: lcg_rgenrand_def lcg_genrand_def Let_def)
  ultimately show ?thesis by (metis prod.collapse)
qed

interpretation lcg: generator "\<lambda>_. True" lcg_init lcg_set_seed "\<lambda>g. Inr (lcg_genrand g)"
  lcg_save lcg_load
  by unfold_locales (auto simp: lcg_save_def lcg_load_def intro: prod.collapse [symmetric])

section \<open>Sequences\<close>

primrec lcg_run :: "nat \<Rightarrow> lcg \<Rightarrow> u32 list \<times> lcg" where
  "lcg_run 0 g = ([], g)"
| "lcg_run (Suc n) g =
     (let (v, g) = lcg_genrand g; (vs, g) = lcg_run n g in (v # vs, g))"

primrec lcg_rrun :: "nat \<Rightarrow> lcg \<Rightarrow> u32 list \<times> lcg" where
  "lcg_rrun 0 g = ([], g)"
| "lcg_rrun (Suc n) g =
     (let (v, g) = lcg_rgenrand g; (vs, g) = lcg_rrun n g in (v # vs, g))"

lemma lcg_rrun_snoc:
  "lcg_rrun (Suc n) g =
     (let (vs, g1) = lcg_rrun n g; (v, g2) = lcg_rgenrand g1 in (vs @ [v], g2))"
proof (induction n arbitrary: g)
  case 0
  then show ?case by (simp split: prod.splits)
next
  case (Suc n)
  show ?case
    by (subst lcg_rrun.simps(2), subst Suc.IH) (simp split: prod.splits)
qed

text \<open>
  C12. Reversing the generator undoes it: from a state below the modulus, generating \<open>n\<close> values and
  then reversing \<open>n\<close> times returns the same values in the opposite order and the initial state.
\<close>

theorem lcg_reversible:
  assumes "lcg_ok g" and "lcg_run n g = (vs, g')"
  shows "lcg_rrun n g' = (rev vs, g)"
  using assms
proof (induction n arbitrary: g vs)
  case 0
  then show ?case by simp
next
  case (Suc n)
  obtain v g1 where g1: "lcg_genrand g = (v, g1)" by fastforce
  obtain ws where ws: "lcg_run n g1 = (ws, g')" "vs = v # ws"
    using Suc.prems(2) g1 by (auto split: prod.splits)
  have "lcg_ok g1" using lcg_gen_ok [of g] g1 by simp
  then have "lcg_rrun n g' = (rev ws, g1)" using ws by (intro Suc.IH)
  moreover have "lcg_rgenrand g1 = (v, g)" using lcg_reverse_step [OF Suc.prems(1)] g1 by simp
  ultimately show ?case using ws(2) by (subst lcg_rrun_snoc) simp
qed

lemma lcg_init_ok: "lcg_ok lcg_init"
  by (simp add: lcg_ok_def lcg_init_def lcg_set_seed_def)

theorem lcg_reversible_witness:
  "lcg_ok lcg_init \<and> lcg_rrun 3 (snd (lcg_run 3 lcg_init)) = (rev (fst (lcg_run 3 lcg_init)), lcg_init)"
  using lcg_init_ok lcg_reversible [OF lcg_init_ok, of 3 "fst (lcg_run 3 lcg_init)" "snd (lcg_run 3 lcg_init)"]
  by simp

text \<open>
  The states the generator visits: every value is below the modulus \<open>2\<^sup>32 - 5\<close>, from a state
  other than 0 it is never 0, and from 0 it is always 0.  So a period is at most
  \<open>2\<^sup>32 - 6\<close>, and a seed of 0 gives the constant sequence.
\<close>

theorem lcg_value_range:
  "unat (fst (lcg_genrand g)) < lcg_mod
   \<and> (lcg_ok g \<longrightarrow> (fst (lcg_genrand g) = 0 \<longleftrightarrow> lcg_x g = 0))"
proof -
  have v: "unat (fst (lcg_genrand g)) = (279470273 * unat (lcg_x g)) mod lcg_mod"
    by (simp only: lcg_genrand_fst lcg_gen_nat)
  moreover have "unat (lcg_x g) = 0"
    if "lcg_ok g" and z: "(279470273 * unat (lcg_x g)) mod lcg_mod = 0"
    using lcg_inverse [of "unat (lcg_x g)"] that(1) unfolding z by (simp add: lcg_ok_def)
  ultimately show ?thesis by (auto simp: unat_eq_zero [symmetric])
qed

theorem lcg_value_range_witness:
  "unat (fst (lcg_genrand lcg_init)) < lcg_mod \<and> fst (lcg_genrand lcg_init) \<noteq> 0"
  using lcg_value_range [of lcg_init] lcg_init_ok by (simp add: lcg_init_def lcg_set_seed_def)

end
