(* ===== verification/Kiss_Rand.thy ===== *)
theory Kiss_Rand
  imports Rand_Spec
begin

text \<open>
  The KISS generator of \<^verbatim>\<open>src/KissRand.h\<close> and \<^verbatim>\<open>src/KissRand.C\<close>.  The five state variables
  are declared \<^verbatim>\<open>int\<close>: additions wrap as in two's complement and the right shifts keep the sign.
\<close>

unbundle bit_operations_syntax

record kiss =
  kiss_x :: u32
  kiss_y :: u32
  kiss_z :: u32
  kiss_w :: u32
  kiss_carry :: u32

definition kiss_set_seed :: "u32 \<Rightarrow> kiss \<Rightarrow> kiss" where
  "kiss_set_seed seed g = g\<lparr>kiss_x := seed OR 1, kiss_y := seed OR 2, kiss_z := seed OR 4,
     kiss_w := seed OR 8, kiss_carry := 0\<rparr>"

definition kiss_init :: kiss where
  "kiss_init = kiss_set_seed 4937 \<lparr>kiss_x = 0, kiss_y = 0, kiss_z = 0, kiss_w = 0, kiss_carry = 0\<rparr>"

definition kiss_y_step :: "u32 \<Rightarrow> u32" where
  "kiss_y_step y =
     (let y = y XOR push_bit 13 y; y = y XOR signed_drop_bit 17 y in y XOR push_bit 5 y)"

definition kiss_genrand :: "kiss \<Rightarrow> u32 \<times> kiss" where
  "kiss_genrand g =
     (let x = kiss_x g * 69069 + 1;
          y = kiss_y_step (kiss_y g);
          k = signed_drop_bit 2 (kiss_z g) + signed_drop_bit 3 (kiss_w g)
                + signed_drop_bit 2 (kiss_carry g);
          m = kiss_w g + kiss_w g + kiss_z g + kiss_carry g;
          z = kiss_w g;
          w = m;
          carry = signed_drop_bit 30 k
      in (x + y + w, \<lparr>kiss_x = x, kiss_y = y, kiss_z = z, kiss_w = w, kiss_carry = carry\<rparr>))"

definition kiss_rgenrand :: "kiss \<Rightarrow> (u32 \<times> kiss) res" where
  "kiss_rgenrand g = Inl (RuntimeError ''Reverse generation not supported by KissRand.'')"

definition kiss_save :: "kiss \<Rightarrow> byte list" where
  "kiss_save g = writeInt (kiss_x g) @ writeInt (kiss_y g) @ writeInt (kiss_z g) @
     writeInt (kiss_w g) @ writeInt (kiss_carry g)"

definition kiss_load :: "kiss \<Rightarrow> byte list \<Rightarrow> (kiss \<times> byte list) res" where
  "kiss_load g is =
     bindE (readInt is) (\<lambda>(x, is).
     bindE (readInt is) (\<lambda>(y, is).
     bindE (readInt is) (\<lambda>(z, is).
     bindE (readInt is) (\<lambda>(w, is).
     bindE (readInt is) (\<lambda>(c, is).
     Inr (\<lparr>kiss_x = x, kiss_y = y, kiss_z = z, kiss_w = w, kiss_carry = c\<rparr>, is))))))"

interpretation kiss: generator "\<lambda>_. True" kiss_init kiss_set_seed "\<lambda>g. Inr (kiss_genrand g)"
  kiss_save kiss_load
  by unfold_locales (auto simp: kiss_save_def kiss_load_def intro: prod.collapse [symmetric])

primrec kiss_run :: "nat \<Rightarrow> kiss \<Rightarrow> u32 list \<times> kiss" where
  "kiss_run 0 g = ([], g)"
| "kiss_run (Suc n) g =
     (let (v, g) = kiss_genrand g; (vs, g) = kiss_run n g in (v # vs, g))"

section \<open>The shift register with a signed shift\<close>

text \<open>
  After the signed shift the top bit of the register is always clear, so the step is not a
  bijection of the 32-bit words, and some non-zero words lead to 0, where the register stays.
\<close>

lemma kiss_y_zero [simp]: "kiss_y_step 0 = 0"
  by (simp add: kiss_y_step_def)

lemma kiss_run_Suc: "snd (kiss_run (Suc n) g) = snd (kiss_run n (snd (kiss_genrand g)))"
  by (simp split: prod.splits)

lemma kiss_gen_y: "kiss_y (snd (kiss_genrand g)) = kiss_y_step (kiss_y g)"
  by (simp add: kiss_genrand_def Let_def)

lemma kiss_run_y_zero: "kiss_y g = 0 \<Longrightarrow> kiss_y (snd (kiss_run n g)) = 0"
  by (induction n arbitrary: g) (simp_all add: kiss_run_Suc kiss_gen_y del: kiss_run.simps(2))

text \<open>
  The shift register of KISS can die: the non-zero state \<open>0xfc001fff\<close> is mapped to 0, and from a
  zero register every further state has a zero register.  (With a signed right shift the
  step loses the top bit; the comment in the source claims a period of \<open>2\<^sup>127\<close>.)
\<close>

theorem kiss_register_dies:
  "kiss_y_step 0xfc001fff = 0 \<and> kiss_y (snd (kiss_run (Suc n) (g\<lparr>kiss_y := 0xfc001fff\<rparr>))) = 0"
proof -
  have s: "kiss_y_step 0xfc001fff = 0"
    by code_simp
  then show ?thesis by (simp add: kiss_run_Suc kiss_run_y_zero kiss_gen_y del: kiss_run.simps(2))
qed

end
