(* ===== verification/Mt_Rand.thy ===== *)
theory Mt_Rand
  imports Rand_Spec
begin

text \<open>
  The Mersenne Twister of \<^verbatim>\<open>src/MtRand.h\<close> and \<^verbatim>\<open>src/MtRand.C\<close>: seeding, generation of a block
  of 624 words in place, tempering, reverse generation, and saving and loading with a
  checksum.  In \<^verbatim>\<open>genrand\<close> the variable \<open>y\<close> is an \<^verbatim>\<open>unsigned long\<close> (64 bits on the LP64
  target), in \<^verbatim>\<open>rgenrand\<close> it is an \<^verbatim>\<open>unsigned\<close>; both widths are kept.
\<close>

unbundle bit_operations_syntax

section \<open>State and parameters\<close>

definition MT_N :: nat where "MT_N = 624"
definition MT_M :: nat where "MT_M = 397"
definition MATRIX_A :: u32 where "MATRIX_A = 0x9908b0df"
definition UPPER_MASK :: u32 where "UPPER_MASK = 0x80000000"
definition LOWER_MASK :: u32 where "LOWER_MASK = 0x7fffffff"

record mt =
  mt_arr :: "u32 list"
  mt_mti :: int

lemma MT_NM: "MT_M < MT_N" "0 < MT_M" "1 < MT_N" "MT_N - MT_M < MT_M"
  by (simp_all add: MT_N_def MT_M_def)

section \<open>Operations\<close>

definition mt_reset :: "mt \<Rightarrow> mt" where
  "mt_reset g = g\<lparr>mt_mti := int MT_N + 1\<rparr>"

definition mt_seed_next :: "u32 \<Rightarrow> nat \<Rightarrow> u32" where
  "mt_seed_next w i = ucast (1812433253 * (ucast (w XOR drop_bit 30 w) :: u64) + of_nat i) AND 0xffffffff"

definition mt_set_seed :: "u32 \<Rightarrow> mt \<Rightarrow> mt" where
  "mt_set_seed seed g =
     (let g = mt_reset g;
          a = (mt_arr g)[0 := seed AND 0xffffffff];
          a = fold (\<lambda>i a. a[i := mt_seed_next (a ! (i - 1)) i]) [1..<MT_N] a
      in g\<lparr>mt_arr := a, mt_mti := int MT_N\<rparr>)"

definition mt_init :: mt where
  "mt_init = mt_set_seed 4937 \<lparr>mt_arr = replicate MT_N 0, mt_mti = 0\<rparr>"

definition mag01 :: "'a::len word \<Rightarrow> u32" where
  "mag01 x = (if x = 0 then 0 else MATRIX_A)"

text \<open>One assignment of the generation loops: \<open>mid ^ (y >> 1) ^ mag01[y & 1]\<close>.\<close>

definition mt_mix :: "u32 \<Rightarrow> u32 \<Rightarrow> u32 \<Rightarrow> u32" where
  "mt_mix mid u l =
     (let y = (ucast ((u AND UPPER_MASK) OR (l AND LOWER_MASK)) :: u64)
      in ucast (ucast mid XOR drop_bit 1 y XOR ucast (mag01 (y AND 1))))"

definition mt_generate :: "u32 list \<Rightarrow> u32 list" where
  "mt_generate a =
     (let a = fold (\<lambda>kk a. a[kk := mt_mix (a ! (kk + MT_M)) (a ! kk) (a ! (kk + 1))])
                [0..<MT_N - MT_M] a;
          a = fold (\<lambda>kk a. a[kk := mt_mix (a ! (kk + MT_M - MT_N)) (a ! kk) (a ! (kk + 1))])
                [MT_N - MT_M..<MT_N - 1] a
      in a[MT_N - 1 := mt_mix (a ! (MT_M - 1)) (a ! (MT_N - 1)) (a ! 0)])"

definition temper64 :: "u64 \<Rightarrow> u64" where
  "temper64 y =
     (let y = y XOR drop_bit 11 y;
          y = y XOR (push_bit 7 y AND 0x9d2c5680);
          y = y XOR (push_bit 15 y AND 0xefc60000)
      in y XOR drop_bit 18 y)"

definition temper32 :: "u32 \<Rightarrow> u32" where
  "temper32 y =
     (let y = y XOR drop_bit 11 y;
          y = y XOR (push_bit 7 y AND 0x9d2c5680);
          y = y XOR (push_bit 15 y AND 0xefc60000)
      in y XOR drop_bit 18 y)"

definition mt_index :: "u32 list \<Rightarrow> int \<Rightarrow> u32 res" where
  "mt_index a i = (if i < 0 then Inl OutOfRange else nthE a (nat i))"

definition mt_genrand :: "mt \<Rightarrow> (u32 \<times> mt) res" where
  "mt_genrand g =
     (let g = (if mt_mti g \<ge> int MT_N
               then let g = (if mt_mti g = int MT_N + 1 then mt_set_seed 5489 g else g)
                    in g\<lparr>mt_arr := mt_generate (mt_arr g), mt_mti := 0\<rparr>
               else g)
      in bindE (mt_index (mt_arr g) (mt_mti g)) (\<lambda>y.
         Inr (ucast (temper64 (ucast y)), g\<lparr>mt_mti := mt_mti g + 1\<rparr>)))"

text \<open>The word \<open>y\<close> before its shift, recovered from \<open>(y >> 1) ^ mag01[y & 1]\<close>.\<close>

definition mt_unmix :: "u32 \<Rightarrow> u32" where
  "mt_unmix z =
     (let x = drop_bit 31 z; y = z XOR mag01 x in (push_bit 1 y AND (- 2)) XOR x)"

definition mt_rev_step :: "(nat \<Rightarrow> nat) \<Rightarrow> nat \<Rightarrow> u32 list \<times> u32 \<Rightarrow> u32 list \<times> u32" where
  "mt_rev_step off kk s = (case s of (a, p) \<Rightarrow>
     let q = mt_unmix (a ! (kk - 1) XOR a ! off kk)
     in (a[kk := (UPPER_MASK AND p) OR (LOWER_MASK AND q)], q))"

definition mt_ungenerate :: "u32 list \<Rightarrow> u32 list \<times> u32" where
  "mt_ungenerate a =
     (let p = mt_unmix (a ! (MT_N - 1) XOR a ! (MT_M - 1));
          mt0L = LOWER_MASK AND p;
          a = a[0 := (a ! 0 AND UPPER_MASK) OR mt0L];
          mt0 = a ! 0;
          (a, p) = fold (mt_rev_step (\<lambda>kk. kk - 1 + MT_M - MT_N)) (rev [MT_N - MT_M + 1..<MT_N]) (a, p);
          (a, p) = fold (mt_rev_step (\<lambda>kk. kk - 1 + MT_M)) (rev [1..<MT_N - MT_M + 1]) (a, p)
      in (a[0 := (UPPER_MASK AND p) OR mt0L], mt0))"

definition mt_rgenrand :: "mt \<Rightarrow> (u32 \<times> mt) res" where
  "mt_rgenrand g =
     (let g = g\<lparr>mt_mti := mt_mti g - 1\<rparr> in
      bindE (mt_index (mt_arr g) (mt_mti g)) (\<lambda>y.
      if mt_mti g = 0
      then let (a, mt0) = mt_ungenerate (mt_arr g)
           in Inr (temper32 mt0, g\<lparr>mt_arr := a, mt_mti := int MT_N\<rparr>)
      else Inr (temper32 y, g)))"

definition mt_save :: "mt \<Rightarrow> byte list" where
  "mt_save g =
     (let cs = fold (\<lambda>w cs. cs XOR w) (mt_arr g) 0xa5a5a5a5;
          cs = cs XOR of_int (mt_mti g)
      in concat (map writeInt (mt_arr g)) @ writeInt (of_int (mt_mti g)) @ writeInt cs)"

primrec read_words :: "nat \<Rightarrow> byte list \<Rightarrow> (u32 list \<times> byte list) res" where
  "read_words 0 is = Inr ([], is)"
| "read_words (Suc n) is =
     bindE (readInt is) (\<lambda>(w, is). bindE (read_words n is) (\<lambda>(ws, is). Inr (w # ws, is)))"

definition mt_load :: "mt \<Rightarrow> byte list \<Rightarrow> (mt \<times> byte list) res" where
  "mt_load g is =
     bindE (read_words MT_N is) (\<lambda>(a, is).
     bindE (readInt is) (\<lambda>(i, is).
     bindE (readInt is) (\<lambda>(ics, is).
     let cs = fold (\<lambda>w cs. cs XOR w) a 0xa5a5a5a5 XOR i
     in if ics \<noteq> cs
        then Inl (RuntimeError ''Bad checksum when reading Mersenne Twist info.'')
        else Inr (\<lparr>mt_arr = a, mt_mti = sint i\<rparr>, is))))"

section \<open>Words\<close>

definition join_ul :: "u32 \<Rightarrow> u32 \<Rightarrow> u32" where
  "join_ul u l = (u AND UPPER_MASK) OR (l AND LOWER_MASK)"

definition twist :: "u32 \<Rightarrow> u32" where
  "twist y = drop_bit 1 y XOR mag01 (y AND 1)"

lemma mask_bits:
  "bit UPPER_MASK n \<longleftrightarrow> n = 31" "bit LOWER_MASK n \<longleftrightarrow> n < 31"
proof -
  have u: "UPPER_MASK = 2 ^ 31" and l: "LOWER_MASK = mask 31"
    by (simp_all add: UPPER_MASK_def LOWER_MASK_def mask_eq_exp_minus_1)
  show "bit UPPER_MASK n \<longleftrightarrow> n = 31" unfolding u bit_exp_iff by auto
  show "bit LOWER_MASK n \<longleftrightarrow> n < 31" unfolding l bit_mask_iff by auto
qed

lemma bit_join_ul: "n < 32 \<Longrightarrow> bit (join_ul u l) n = (if n = 31 then bit u n else bit l n)"
  by (auto simp: join_ul_def bit_simps mask_bits)

lemma join_join:
  "(UPPER_MASK AND join_ul u v) OR (LOWER_MASK AND join_ul w l) = join_ul u l"
  "(join_ul u v AND UPPER_MASK) OR (LOWER_MASK AND join_ul w l) = join_ul u l"
  by (auto intro!: bit_word_eqI simp: bit_simps mask_bits bit_join_ul)

lemma join_ul_same [simp]: "join_ul u u = u"
  by (auto intro!: bit_word_eqI simp: bit_join_ul)

lemma join_ul_cong: "join_ul (join_ul u v) l = join_ul u l" "join_ul u (join_ul v l) = join_ul u l"
  by (auto intro!: bit_word_eqI simp: bit_join_ul)

lemma xor_cancel_mid: "(a XOR b) XOR a = (b :: u32)"
  by (rule bit_word_eqI) (auto simp: bit_simps)

lemma odd_as_bit: "(y :: 'a::len word) AND 1 = (if bit y 0 then 1 else 0)"
  by (auto simp: and_one_eq mod_2_eq_odd bit_0)

lemma twist_top: "drop_bit 31 (twist y) = y AND 1"
proof -
  have "bit MATRIX_A 31" by (simp add: MATRIX_A_def)
  then show ?thesis
    by (intro bit_word_eqI) (auto simp: twist_def mag01_def odd_as_bit bit_simps dest: bit_imp_le_length)
qed

lemma mt_unmix_twist [simp]: "mt_unmix (twist y) = y"
proof -
  have "twist y XOR mag01 (y AND 1) = drop_bit 1 y"
    by (simp add: twist_def xor.assoc)
  moreover have "(push_bit 1 (drop_bit 1 y) AND (- 2)) XOR (y AND 1) = y"
  proof -
    have m2: "- 2 = NOT (1 :: u32)" by (simp add: not_eq_complement)
    have sh: "bit (push_bit k (drop_bit k y)) n \<longleftrightarrow> k \<le> n \<and> n < 32 \<and> bit y n" for k n
      by (auto simp: bit_simps)
    have "bit ((push_bit 1 (drop_bit 1 y) AND NOT 1) XOR (y AND 1)) n = bit y n" if "n < 32" for n
      unfolding bit_xor_iff bit_and_iff sh using that by (cases n) (auto simp: bit_simps)
    then show ?thesis unfolding m2 by (intro bit_word_eqI) simp
  qed
  ultimately show ?thesis by (simp add: mt_unmix_def twist_top Let_def)
qed

lemma mt_mix_eq: "mt_mix mid u l = mid XOR twist (join_ul u l)"
proof -
  have "mag01 ((ucast y :: u64) AND 1) = mag01 (y AND 1)" for y :: u32
    by (simp add: mag01_def odd_as_bit bit_simps)
  then show ?thesis
    by (intro bit_word_eqI)
      (auto simp: mt_mix_def twist_def join_ul_def [symmetric] bit_simps Let_def)
qed

text \<open>Tempering in 64 and in 32 bits agree.\<close>

lemma temper_shift_right:
  "(ucast y :: u64) XOR drop_bit k (ucast y) = ucast (y XOR drop_bit k y)" for y :: u32
  by (intro bit_word_eqI) (auto simp: bit_simps dest: bit_imp_le_length)

lemma temper_shift_left:
  "(ucast y :: u64) XOR (push_bit k (ucast y) AND ucast m) = ucast (y XOR (push_bit k y AND m))"
  for y m :: u32
  by (intro bit_word_eqI) (auto simp: bit_simps dest: bit_imp_le_length)

lemma temper64_32: "ucast (temper64 (ucast y)) = temper32 y"
proof -
  have m: "0x9d2c5680 = (ucast (0x9d2c5680 :: u32) :: u64)"
      "0xefc60000 = (ucast (0xefc60000 :: u32) :: u64)" by simp_all
  show ?thesis
    unfolding temper64_def temper32_def Let_def m temper_shift_right temper_shift_left
    by (intro bit_word_eqI) (simp add: bit_simps)
qed

section \<open>One block\<close>

text \<open>The reference step: word \<open>k\<close> from the words \<open>k\<close>, \<open>k + 1\<close> and \<open>k + M\<close>, indices modulo \<open>N\<close>.\<close>

definition mt_step :: "nat \<Rightarrow> u32 list \<Rightarrow> u32 list" where
  "mt_step k a = a[k := a ! ((k + MT_M) mod MT_N) XOR
     twist (join_ul (a ! k) (a ! ((k + 1) mod MT_N)))]"

definition mt_steps :: "nat \<Rightarrow> u32 list \<Rightarrow> u32 list" where
  "mt_steps n a = fold mt_step [0..<n] a"

lemma length_mt_step [simp]: "length (mt_step k a) = length a"
  by (simp add: mt_step_def)

lemma mt_steps_simps [simp]: "mt_steps 0 a = a" "mt_steps (Suc n) a = mt_step n (mt_steps n a)"
  by (simp_all add: mt_steps_def)

lemma length_mt_steps [simp]: "length (mt_steps n a) = length a"
  by (induction n) auto

text \<open>The three loops of \<^verbatim>\<open>genrand\<close> are the reference step for every index in turn.\<close>

lemma mt_generate_steps: "mt_generate a = mt_steps MT_N a"
proof -
  have l1: "fold (\<lambda>kk a. a[kk := mt_mix (a ! (kk + MT_M)) (a ! kk) (a ! (kk + 1))]) [0..<MT_N - MT_M] a
      = fold mt_step [0..<MT_N - MT_M] a"
    using MT_NM by (intro fold_cong) (auto simp: fun_eq_iff mt_step_def mt_mix_eq)
  have l2: "fold (\<lambda>kk a. a[kk := mt_mix (a ! (kk + MT_M - MT_N)) (a ! kk) (a ! (kk + 1))])
        [MT_N - MT_M..<MT_N - 1] b = fold mt_step [MT_N - MT_M..<MT_N - 1] b" for b
    using MT_NM by (intro fold_cong) (auto simp: fun_eq_iff mt_step_def mt_mix_eq mod_once)
  have l3: "b[MT_N - 1 := mt_mix (b ! (MT_M - 1)) (b ! (MT_N - 1)) (b ! 0)] = mt_step (MT_N - 1) b" for b
    using MT_NM by (simp add: mt_step_def mt_mix_eq mod_once)
  have "[0..<MT_N] = [0..<MT_N - MT_M] @ [MT_N - MT_M..<MT_N - 1] @ [MT_N - 1]"
    using MT_NM upt_join [of 0 "MT_N - MT_M" "MT_N - 1"] upt_snoc [of 0 MT_N] by simp
  then show ?thesis
    by (simp only: mt_generate_def Let_def l1 l2 l3 mt_steps_def fold_append fold.simps o_apply id_apply)
qed

lemma length_mt_generate [simp]: "length (mt_generate a) = length a"
  by (simp add: mt_generate_steps)

lemma mt_steps_later: "n \<le> i \<Longrightarrow> mt_steps n a ! i = a ! i"
  by (induction n) (auto simp: mt_step_def)

lemma mt_steps_earlier: "i < n \<Longrightarrow> mt_steps n a ! i = mt_steps (Suc i) a ! i"
proof (induction n)
  case 0
  then show ?case by simp
next
  case (Suc n)
  then show ?case by (cases "i = n") (auto simp: mt_step_def)
qed

text \<open>The word the last loop iteration but \<open>i\<close> is computed from.\<close>

definition mt_y :: "u32 list \<Rightarrow> nat \<Rightarrow> u32" where
  "mt_y a i = join_ul (a ! i) (if i + 1 < MT_N then a ! (i + 1) else mt_generate a ! 0)"

lemma mt_generate_nth:
  assumes "length a = MT_N" and "i < MT_N"
  shows "mt_generate a ! i =
    (if i + MT_M < MT_N then a ! (i + MT_M) else mt_generate a ! (i + MT_M - MT_N)) XOR twist (mt_y a i)"
proof -
  let ?b = "mt_steps i a"
  have "mt_generate a ! i = mt_steps (Suc i) a ! i"
    using mt_steps_earlier [OF assms(2), of a] by (simp only: mt_generate_steps)
  also have "\<dots> = ?b ! ((i + MT_M) mod MT_N) XOR twist (join_ul (?b ! i) (?b ! ((i + 1) mod MT_N)))"
    using assms by (simp add: mt_step_def)
  also have "?b ! i = a ! i" by (simp add: mt_steps_later)
  also have "?b ! ((i + 1) mod MT_N) = (if i + 1 < MT_N then a ! (i + 1) else mt_generate a ! 0)"
  proof (cases "i + 1 < MT_N")
    case True
    then show ?thesis by (simp add: mt_steps_later)
  next
    case False
    then have "i = MT_N - 1" "0 < i" using assms MT_NM by auto
    then show ?thesis
      using False MT_NM mt_steps_earlier [of 0 i a] mt_steps_earlier [of 0 MT_N a]
      by (simp add: mt_generate_steps)
  qed
  also have "?b ! ((i + MT_M) mod MT_N) =
      (if i + MT_M < MT_N then a ! (i + MT_M) else mt_generate a ! (i + MT_M - MT_N))"
  proof (cases "i + MT_M < MT_N")
    case True
    then show ?thesis by (simp add: mt_steps_later)
  next
    case False
    then have m: "(i + MT_M) mod MT_N = i + MT_M - MT_N" "i + MT_M - MT_N < i"
      using assms MT_NM by (auto simp: mod_once)
    then show ?thesis
      using False assms mt_steps_earlier [OF m(2)] mt_steps_earlier [of "i + MT_M - MT_N" MT_N a]
      by (simp add: mt_generate_steps)
  qed
  finally show ?thesis by (simp add: mt_y_def)
qed

section \<open>Going back one block\<close>

text \<open>
  Arrays that agree everywhere except in the lower 31 bits of word 0.  Those bits are not part
  of the generator's state: the next block does not depend on them, and \<^verbatim>\<open>rgenrand\<close>
  recomputes them when it reaches word 0.
\<close>

definition same_block :: "u32 list \<Rightarrow> u32 list \<Rightarrow> bool" where
  "same_block a b \<longleftrightarrow> length a = MT_N \<and> length b = MT_N \<and>
     (\<forall>i. 0 < i \<longrightarrow> i < MT_N \<longrightarrow> a ! i = b ! i) \<and> (\<forall>l. join_ul (a ! 0) l = join_ul (b ! 0) l)"

lemma same_block_refl: "length a = MT_N \<Longrightarrow> same_block a a"
  by (simp add: same_block_def)

lemma same_block_nth: "same_block a b \<Longrightarrow> 1 \<le> i \<Longrightarrow> i < int MT_N \<Longrightarrow> a ! nat i = b ! nat i"
  by (simp add: same_block_def nat_less_iff)

lemma same_block_step: "same_block a b \<Longrightarrow> mt_step 0 a = mt_step 0 b"
  using MT_NM
  by (intro nth_equalityI) (auto simp: same_block_def mt_step_def nth_list_update mod_once)

lemma same_block_generate: "same_block a b \<Longrightarrow> mt_generate a = mt_generate b"
proof -
  assume "same_block a b"
  then have "mt_steps (Suc n) a = mt_steps (Suc n) b" for n
    by (induction n) (auto simp: same_block_step)
  from this [of "MT_N - 1"] show ?thesis using MT_NM by (simp add: mt_generate_steps)
qed

text \<open>
  The state of the backward loops before index \<open>kk\<close> is restored: words above \<open>kk\<close> are those of
  the old block \<open>a\<close>, the others still those of the new one, and \<open>p\<close> is the word \<open>mt_y a kk\<close>.
\<close>

definition rev_state :: "u32 list \<Rightarrow> nat \<Rightarrow> u32 list \<times> u32" where
  "rev_state a kk = (map (\<lambda>i. if kk < i then a ! i else mt_generate a ! i) [0..<MT_N], mt_y a kk)"

lemma mt_rev_step_state:
  assumes a: "length a = MT_N" and kk: "0 < kk" "kk < MT_N"
    and off: "off = (if MT_N - MT_M < kk then kk - 1 + MT_M - MT_N else kk - 1 + MT_M)"
  shows "mt_rev_step (\<lambda>_. off) kk (rev_state a kk) = rev_state a (kk - 1)"
proof -
  let ?n = "mt_generate a"
  let ?b = "fst (rev_state a kk)"
  have b: "?b ! i = (if kk < i then a ! i else ?n ! i)" if "i < MT_N" for i
    using that by (simp add: rev_state_def)
  have "off < MT_N" using off kk MT_NM by (auto split: if_splits)
  then have "?b ! off = (if kk - 1 + MT_M < MT_N then a ! (kk - 1 + MT_M) else ?n ! (kk - 1 + MT_M - MT_N))"
    using b [of off] off kk MT_NM by (auto split: if_splits)
  then have "?b ! (kk - 1) XOR ?b ! off = twist (mt_y a (kk - 1))"
    using mt_generate_nth [OF a, of "kk - 1"] b [of "kk - 1"] kk by (auto simp: xor.assoc xor.left_commute)
  then have q: "mt_unmix (?b ! (kk - 1) XOR ?b ! off) = mt_y a (kk - 1)" by simp
  have w: "(UPPER_MASK AND mt_y a kk) OR (LOWER_MASK AND mt_y a (kk - 1)) = a ! kk"
    using kk by (simp add: mt_y_def join_join)
  have "?b[kk := a ! kk] = fst (rev_state a (kk - 1))"
    using kk by (intro nth_equalityI) (auto simp: rev_state_def nth_list_update)
  then show ?thesis using q w by (simp add: mt_rev_step_def rev_state_def Let_def)
qed

lemma fold_rev_state:
  assumes a: "length a = MT_N" and lo: "0 < lo" and hi: "lo \<le> hi" "hi \<le> MT_N"
    and off: "\<And>kk. lo \<le> kk \<Longrightarrow> kk < hi \<Longrightarrow>
      off kk = (if MT_N - MT_M < kk then kk - 1 + MT_M - MT_N else kk - 1 + MT_M)"
  shows "fold (mt_rev_step off) (rev [lo..<hi]) (rev_state a (hi - 1)) = rev_state a (lo - 1)"
  using hi off
proof (induction hi rule: dec_induct)
  case base
  then show ?case by simp
next
  case (step n)
  have "mt_rev_step off n (rev_state a n) = mt_rev_step (\<lambda>_. off n) n (rev_state a n)"
    by (simp add: mt_rev_step_def)
  also have "\<dots> = rev_state a (n - 1)"
    using step lo by (intro mt_rev_step_state [OF a]) auto
  finally show ?case using step by simp
qed

lemma mt_ungenerate_generate:
  assumes a: "length a = MT_N" and b: "same_block b (mt_generate a)"
  shows "\<exists>c. mt_ungenerate b = (c, mt_generate a ! 0) \<and> same_block c a"
proof -
  let ?n = "mt_generate a"
  have lb: "length b = MT_N" using b by (simp add: same_block_def)
  have "b ! (MT_N - 1) XOR b ! (MT_M - 1) = ?n ! (MT_N - 1) XOR ?n ! (MT_M - 1)"
    using b MT_NM by (simp add: same_block_def)
  also have "\<dots> = twist (mt_y a (MT_N - 1))"
  proof -
    have "\<not> MT_N - 1 + MT_M < MT_N" "MT_N - 1 + MT_M - MT_N = MT_M - 1" "MT_N - 1 < MT_N"
      using MT_NM by auto
    then have "?n ! (MT_N - 1) = ?n ! (MT_M - 1) XOR twist (mt_y a (MT_N - 1))"
      using mt_generate_nth [OF a, of "MT_N - 1"] by (simp only: if_False)
    then show ?thesis by (simp only: xor_cancel_mid)
  qed
  finally have p: "mt_unmix (b ! (MT_N - 1) XOR b ! (MT_M - 1)) = mt_y a (MT_N - 1)" by simp
  have w0: "(b ! 0 AND UPPER_MASK) OR (LOWER_MASK AND mt_y a (MT_N - 1)) = ?n ! 0"
  proof -
    have "(b ! 0 AND UPPER_MASK) OR (LOWER_MASK AND mt_y a (MT_N - 1)) = join_ul (b ! 0) (?n ! 0)"
      using join_join(2) [of "b ! 0" "b ! 0"] MT_NM by (simp add: mt_y_def)
    then show ?thesis using b by (simp add: same_block_def)
  qed
  have start: "(b[0 := ?n ! 0], mt_y a (MT_N - 1)) = rev_state a (MT_N - 1)"
    using b lb a unfolding rev_state_def
    by (auto intro!: nth_equalityI simp: nth_list_update same_block_def)
  have f1: "fold (mt_rev_step (\<lambda>kk. kk - 1 + MT_M - MT_N)) (rev [MT_N - MT_M + 1..<MT_N])
      (rev_state a (MT_N - 1)) = rev_state a (MT_N - MT_M)"
    using fold_rev_state [OF a, of "MT_N - MT_M + 1" MT_N] MT_NM by simp
  have f2: "fold (mt_rev_step (\<lambda>kk. kk - 1 + MT_M)) (rev [1..<MT_N - MT_M + 1])
      (rev_state a (MT_N - MT_M)) = rev_state a 0"
    using fold_rev_state [OF a, of 1 "MT_N - MT_M + 1"] MT_NM by simp
  have "mt_ungenerate b = ((fst (rev_state a 0))[0 :=
      (UPPER_MASK AND mt_y a 0) OR (LOWER_MASK AND mt_y a (MT_N - 1))], ?n ! 0)"
  proof -
    have b0: "b[0 := ?n ! 0] ! 0 = ?n ! 0" using lb MT_NM by simp
    have y0: "snd (rev_state a 0) = mt_y a 0" by (simp add: rev_state_def)
    show ?thesis
      unfolding mt_ungenerate_def Let_def p w0
      by (simp only: b0 start f1 case_prod_beta prod.collapse f2 y0)
  qed
  moreover have "same_block ((fst (rev_state a 0))[0 :=
      (UPPER_MASK AND mt_y a 0) OR (LOWER_MASK AND mt_y a (MT_N - 1))]) a"
    using a MT_NM by (auto simp: same_block_def rev_state_def nth_list_update mt_y_def join_join join_ul_cong)
  ultimately show ?thesis by blast
qed

section \<open>The generator\<close>

definition mt_ok :: "mt \<Rightarrow> bool" where
  "mt_ok g \<longleftrightarrow> length (mt_arr g) = MT_N \<and> 1 \<le> mt_mti g \<and> mt_mti g \<le> int MT_N"

text \<open>Equal up to the lower bits of word 0.\<close>

definition mt_same :: "mt \<Rightarrow> mt \<Rightarrow> bool" where
  "mt_same g h \<longleftrightarrow> mt_mti g = mt_mti h \<and> same_block (mt_arr g) (mt_arr h)"

lemma length_mt_set_seed [simp]: "length (mt_arr (mt_set_seed s g)) = length (mt_arr g)"
proof -
  have "length (fold (\<lambda>i a. a[i := mt_seed_next (a ! (i - 1)) i]) is a) = length a" for "is" a
    by (induction "is" arbitrary: a) auto
  then show ?thesis by (simp add: mt_set_seed_def mt_reset_def Let_def)
qed

lemma mt_mti_set_seed [simp]: "mt_mti (mt_set_seed s g) = int MT_N"
  by (simp add: mt_set_seed_def Let_def)

lemma mt_ok_set_seed: "length (mt_arr g) = MT_N \<Longrightarrow> mt_ok (mt_set_seed s g)"
  using MT_NM by (simp add: mt_ok_def)

lemma mt_ok_reseed: "mt_ok g \<Longrightarrow> mt_ok (mt_set_seed s g)"
  by (rule mt_ok_set_seed) (simp add: mt_ok_def)

lemma mt_ok_init: "mt_ok mt_init"
  by (simp add: mt_init_def mt_ok_set_seed)

text \<open>What one call of \<^verbatim>\<open>genrand\<close> does, within a block and at its end.\<close>

lemma mt_genrand_within:
  assumes "length (mt_arr g) = MT_N" and "0 \<le> mt_mti g" and "mt_mti g < int MT_N"
  shows "mt_genrand g = Inr (temper32 (mt_arr g ! nat (mt_mti g)), g\<lparr>mt_mti := mt_mti g + 1\<rparr>)"
  using assms by (simp add: mt_genrand_def mt_index_def temper64_32 Let_def nat_less_iff)

lemma mt_genrand_block:
  assumes "length (mt_arr g) = MT_N" and "mt_mti g = int MT_N"
  shows "mt_genrand g = Inr (temper32 (mt_generate (mt_arr g) ! 0),
    g\<lparr>mt_arr := mt_generate (mt_arr g), mt_mti := 1\<rparr>)"
  using assms MT_NM by (simp add: mt_genrand_def mt_index_def temper64_32 Let_def)

lemma mt_genrand_ok:
  assumes "mt_ok g"
  shows "\<exists>v g'. mt_genrand g = Inr (v, g') \<and> mt_ok g'"
proof (cases "mt_mti g < int MT_N")
  case True
  then show ?thesis using assms mt_genrand_within [of g] by (simp add: mt_ok_def)
next
  case False
  then have "mt_mti g = int MT_N" using assms by (simp add: mt_ok_def)
  then show ?thesis using assms MT_NM mt_genrand_block [of g] by (simp add: mt_ok_def)
qed

text \<open>The bits that are not part of the state do not matter to what follows.\<close>

lemma mt_same_genrand:
  assumes "mt_ok g" and "mt_same h g" and "mt_genrand g = Inr (v, g')"
  shows "\<exists>h'. mt_genrand h = Inr (v, h') \<and> mt_same h' g'"
proof (cases "mt_mti g < int MT_N")
  case True
  then have "mt_arr h ! nat (mt_mti g) = mt_arr g ! nat (mt_mti g)"
    using assms by (auto simp: mt_same_def mt_ok_def intro: same_block_nth)
  then show ?thesis
    using assms True mt_genrand_within [of g] mt_genrand_within [of h]
    by (auto simp: mt_same_def same_block_def mt_ok_def)
next
  case False
  then have "mt_mti g = int MT_N" using assms by (simp add: mt_ok_def)
  then show ?thesis
    using assms mt_genrand_block [of g] mt_genrand_block [of h] same_block_generate [of "mt_arr h" "mt_arr g"]
    by (auto simp: mt_same_def same_block_def mt_ok_def)
qed

lemma mt_rgenrand_genrand:
  assumes g: "mt_ok g" and gen: "mt_genrand g = Inr (v, g1)" and h: "mt_same h g1"
  shows "\<exists>g'. mt_rgenrand h = Inr (v, g') \<and> mt_same g' g"
proof (cases "mt_mti g < int MT_N")
  case True
  then have g1: "g1 = g\<lparr>mt_mti := mt_mti g + 1\<rparr>" "v = temper32 (mt_arr g ! nat (mt_mti g))"
    using mt_genrand_within [of g] g gen by (auto simp: mt_ok_def)
  then have "mt_arr h ! nat (mt_mti g) = mt_arr g ! nat (mt_mti g)" "length (mt_arr h) = MT_N"
      "mt_mti h = mt_mti g + 1"
    using g h True by (auto simp: mt_same_def same_block_def mt_ok_def)
  then show ?thesis using g h g1 True
    by (auto simp: mt_rgenrand_def mt_index_def mt_same_def mt_ok_def nat_less_iff)
next
  case False
  then have n: "mt_mti g = int MT_N" and len: "length (mt_arr g) = MT_N"
    using g by (auto simp: mt_ok_def)
  then have g1: "g1 = g\<lparr>mt_arr := mt_generate (mt_arr g), mt_mti := 1\<rparr>"
      "v = temper32 (mt_generate (mt_arr g) ! 0)"
    using mt_genrand_block [of g] gen by auto
  then have hb: "same_block (mt_arr h) (mt_generate (mt_arr g))" "mt_mti h = 1"
    using h by (auto simp: mt_same_def)
  obtain c where c: "mt_ungenerate (mt_arr h) = (c, mt_generate (mt_arr g) ! 0)" "same_block c (mt_arr g)"
    using mt_ungenerate_generate [OF len hb(1)] by blast
  have "0 < length (mt_arr h)" using hb MT_NM by (simp add: same_block_def)
  then show ?thesis using c hb g1 n
    by (simp add: mt_rgenrand_def mt_index_def mt_same_def nthE_def)
qed

primrec mt_run :: "nat \<Rightarrow> mt \<Rightarrow> (u32 list \<times> mt) res" where
  "mt_run 0 g = Inr ([], g)"
| "mt_run (Suc n) g =
     bindE (mt_genrand g) (\<lambda>(v, g). bindE (mt_run n g) (\<lambda>(vs, g). Inr (v # vs, g)))"

primrec mt_rrun :: "nat \<Rightarrow> mt \<Rightarrow> (u32 list \<times> mt) res" where
  "mt_rrun 0 g = Inr ([], g)"
| "mt_rrun (Suc n) g =
     bindE (mt_rrun n g) (\<lambda>(vs, g). bindE (mt_rgenrand g) (\<lambda>(v, g). Inr (vs @ [v], g)))"

text \<open>
  C10. Reverse generation of the Mersenne Twister is correct, also across the 624-word blocks: from
  any initialised state, generating \<open>n\<close> values succeeds, reversing \<open>n\<close> times returns the same
  values in the opposite order, and the state reached behaves as the initial one (the next
  values generated from both are the same).
\<close>

theorem mt_reversible:
  assumes "mt_ok g"
  shows "\<exists>vs g1 g2. mt_run n g = Inr (vs, g1) \<and> length vs = n \<and> mt_rrun n g1 = Inr (rev vs, g2)
    \<and> mt_same g2 g"
  using assms
proof (induction n arbitrary: g)
  case 0
  then show ?case by (simp add: mt_same_def same_block_def mt_ok_def)
next
  case (Suc n)
  obtain v h where h: "mt_genrand g = Inr (v, h)" "mt_ok h" using mt_genrand_ok [OF Suc.prems] by blast
  obtain ws h1 h2 where w: "mt_run n h = Inr (ws, h1)" "length ws = n"
      "mt_rrun n h1 = Inr (rev ws, h2)" "mt_same h2 h"
    using Suc.IH [OF h(2)] by blast
  obtain g2 where "mt_rgenrand h2 = Inr (v, g2)" "mt_same g2 g"
    using mt_rgenrand_genrand [OF Suc.prems h(1) w(4)] by blast
  with h w show ?case by simp
qed

theorem mt_reversible_witness:
  "mt_ok mt_init \<and> (\<exists>vs g1 g2. mt_run 1000 mt_init = Inr (vs, g1) \<and> length vs = 1000
    \<and> mt_rrun 1000 g1 = Inr (rev vs, g2) \<and> mt_same g2 mt_init)"
  using mt_reversible [OF mt_ok_init, of 1000] mt_ok_init by blast

section \<open>The recurrence\<close>

text \<open>
  The sequence the Mersenne Twister is defined by: word \<open>k\<close> of an unbounded sequence that starts
  with the given block.
\<close>

function mt_ref :: "u32 list \<Rightarrow> nat \<Rightarrow> u32" where
  "mt_ref a k = (if k < MT_N then a ! k
     else mt_ref a (k - MT_N + MT_M) XOR twist (join_ul (mt_ref a (k - MT_N)) (mt_ref a (k - MT_N + 1))))"
  by pat_completeness auto
termination
  by (relation "measure snd") (use MT_NM in auto)

declare mt_ref.simps [simp del]

lemma mt_ref_generate:
  assumes "length a = MT_N"
  shows "mt_ref (mt_generate a) k = mt_ref a (MT_N + k)"
proof (induction k rule: less_induct)
  case (less k)
  have low: "mt_ref a i = a ! i" if "i < MT_N" for i using that by (subst mt_ref.simps) simp
  have glow: "mt_ref (mt_generate a) i = mt_generate a ! i" if "i < MT_N" for i
    using that by (subst mt_ref.simps) simp
  have unf: "mt_ref a (MT_N + k) = mt_ref a (k + MT_M) XOR twist (join_ul (mt_ref a k) (mt_ref a (k + 1)))"
    by (subst mt_ref.simps) simp
  have step: "mt_ref a i = (if i < MT_N then a ! i else mt_ref (mt_generate a) (i - MT_N))"
    if "i < MT_N + k" for i
    using that less.IH [of "i - MT_N"] low by auto
  show ?case
  proof (cases "k < MT_N")
    case True
    have "mt_ref (mt_generate a) k = mt_generate a ! k" using True by (rule glow)
    also have "\<dots> = mt_ref a (MT_N + k)"
      using True MT_NM step [of "k + MT_M"] step [of k] step [of "k + 1"]
      by (subst mt_generate_nth [OF assms True]) (auto simp: unf mt_y_def glow)
    finally show ?thesis .
  next
    case False
    then have "mt_ref (mt_generate a) k = mt_ref (mt_generate a) (k - MT_N + MT_M) XOR
        twist (join_ul (mt_ref (mt_generate a) (k - MT_N)) (mt_ref (mt_generate a) (k - MT_N + 1)))"
      by (subst mt_ref.simps) simp
    also have "\<dots> = mt_ref a (MT_N + k)"
      using False MT_NM step [of "k + MT_M"] step [of k] step [of "k + 1"]
      by (auto simp: unf Suc_diff_le)
    finally show ?thesis .
  qed
qed

lemma mt_run_ref:
  assumes "mt_ok g"
  shows "\<exists>g'. mt_run n g =
    Inr (map (\<lambda>k. temper32 (mt_ref (mt_arr g) (nat (mt_mti g) + k))) [0..<n], g')"
  using assms
proof (induction n arbitrary: g)
  case 0
  then show ?case by simp
next
  case (Suc n)
  obtain v h where h: "mt_genrand g = Inr (v, h)" "mt_ok h" using mt_genrand_ok [OF Suc.prems] by blast
  have len: "length (mt_arr g) = MT_N" using Suc.prems by (simp add: mt_ok_def)
  have vh: "v = temper32 (mt_ref (mt_arr g) (nat (mt_mti g))) \<and>
      (\<forall>k. mt_ref (mt_arr h) (nat (mt_mti h) + k) = mt_ref (mt_arr g) (nat (mt_mti g) + Suc k))"
  proof (cases "mt_mti g < int MT_N")
    case True
    then have "mt_ref (mt_arr g) (nat (mt_mti g)) = mt_arr g ! nat (mt_mti g)"
      using Suc.prems by (subst mt_ref.simps) (simp add: nat_less_iff mt_ok_def)
    then show ?thesis
      using True h(1) Suc.prems mt_genrand_within [of g] by (auto simp: mt_ok_def nat_add_distrib)
  next
    case False
    then have n: "mt_mti g = int MT_N" using Suc.prems by (simp add: mt_ok_def)
    have "mt_ref (mt_generate (mt_arr g)) 0 = mt_generate (mt_arr g) ! 0"
      using MT_NM by (subst mt_ref.simps) simp
    then show ?thesis
      using n h(1) mt_genrand_block [OF len n] mt_ref_generate [OF len, of 0] mt_ref_generate [OF len]
      by auto
  qed
  obtain g' where "mt_run n h =
      Inr (map (\<lambda>k. temper32 (mt_ref (mt_arr h) (nat (mt_mti h) + k))) [0..<n], g')"
    using Suc.IH [OF h(2)] by blast
  then show ?case using h(1) vh by (simp add: upt_conv_Cons map_Suc_upt [symmetric] del: upt_Suc)
qed

text \<open>
  C11. The values \<^verbatim>\<open>genrand\<close> returns are the tempered words of the recurrence
  \<open>x\<^sub>k = x\<^sub>k\<^sub>-\<^sub>N\<^sub>+\<^sub>M XOR twist (upper x\<^sub>k\<^sub>-\<^sub>N | lower x\<^sub>k\<^sub>-\<^sub>N\<^sub>+\<^sub>1)\<close> started with the
  current block: the in-place generation in three loops, the 64-bit tempering and the index
  bookkeeping across blocks compute exactly that sequence, for any number of values.
\<close>

theorem mt_computes_recurrence:
  assumes "mt_ok g"
  shows "map_sum id fst (mt_run n g) =
    Inr (map (\<lambda>k. temper32 (mt_ref (mt_arr g) (nat (mt_mti g) + k))) [0..<n])"
  using mt_run_ref [OF assms, of n] by auto

theorem mt_computes_recurrence_witness:
  "mt_ok mt_init \<and> map_sum id fst (mt_run 700 mt_init) =
    Inr (map (\<lambda>k. temper32 (mt_ref (mt_arr mt_init) (nat (mt_mti mt_init) + k))) [0..<700])"
  using mt_computes_recurrence [OF mt_ok_init, of 700] mt_ok_init by blast

section \<open>Saving and loading\<close>

lemma read_words_write: "read_words (length ws) (concat (map writeInt ws) @ is) = Inr (ws, is)"
  by (induction ws) auto

lemma mt_load_save:
  assumes "mt_ok g"
  shows "mt_load g0 (mt_save g @ is) = Inr (g, is)"
proof -
  have "- (2 ^ 31) \<le> mt_mti g" "mt_mti g < 2 ^ 31" using assms by (auto simp: mt_ok_def MT_N_def)
  then have "sint (of_int (mt_mti g) :: u32) = mt_mti g"
    by (simp add: signed_of_int signed_take_bit_int_eq_self)
  then show ?thesis
    using assms read_words_write [of "mt_arr g"]
    by (simp add: mt_save_def mt_load_def mt_ok_def Let_def)
qed

interpretation mt: generator mt_ok mt_init mt_set_seed mt_genrand mt_save mt_load
  by unfold_locales (auto simp: mt_ok_init mt_load_save mt_genrand_ok intro: mt_ok_reseed)

end
