(* ===== verification/Random_Props.thy ===== *)
theory Random_Props
  imports Lcg_Rand Kiss_Rand Mt_Rand
begin

text \<open>
  Properties of the stream class \<^verbatim>\<open>Random\<close> (\<^verbatim>\<open>src/Random.h\<close>, \<^verbatim>\<open>src/Random.C\<close>) over the three
  generators, obtained from the interpretations of the generator contract.
\<close>

text \<open>
  C13. Saving and loading: what \<^verbatim>\<open>Random::save\<close> wrote for an object with any of the three generators,
  \<^verbatim>\<open>Random::load\<close> reads back into an object with the same number of streams, which then has
  the same generator states; the rest of the input is left.  With another number of streams
  loading throws.
\<close>

theorem random_save_load:
  assumes "list_all mt_ok (rnd_gens r)"
  shows "(length (rnd_gens r') = length (rnd_gens r) \<longrightarrow>
      random_load mt_load r' (random_save mt_save r @ is) = Inr (r'\<lparr>rnd_gens := rnd_gens r\<rparr>, is)) \<and>
    (length (rnd_gens l') = length (rnd_gens l) \<longrightarrow>
      random_load lcg_load l' (random_save lcg_save l @ is) = Inr (l'\<lparr>rnd_gens := rnd_gens l\<rparr>, is)) \<and>
    (length (rnd_gens x') = length (rnd_gens x) \<longrightarrow>
      random_load kiss_load x' (random_save kiss_save x @ is) = Inr (x'\<lparr>rnd_gens := rnd_gens x\<rparr>, is)) \<and>
    ((of_nat (length (rnd_gens r)) :: u32) \<noteq> of_nat (length (rnd_gens r')) \<longrightarrow>
      (\<exists>msg. random_load mt_load r' (random_save mt_save r @ is) = Inl (RuntimeError msg))) \<and>
    ((of_nat (length (rnd_gens l)) :: u32) \<noteq> of_nat (length (rnd_gens l')) \<longrightarrow>
      (\<exists>msg. random_load lcg_load l' (random_save lcg_save l @ is) = Inl (RuntimeError msg))) \<and>
    ((of_nat (length (rnd_gens x)) :: u32) \<noteq> of_nat (length (rnd_gens x')) \<longrightarrow>
      (\<exists>msg. random_load kiss_load x' (random_save kiss_save x @ is) = Inl (RuntimeError msg)))"
proof (intro conjI impI)
  show "\<exists>msg. random_load mt_load r' (random_save mt_save r @ is) = Inl (RuntimeError msg)"
    if "(of_nat (length (rnd_gens r)) :: u32) \<noteq> of_nat (length (rnd_gens r'))" using that by (simp add: random_load_def random_save_def)
  show "\<exists>msg. random_load lcg_load l' (random_save lcg_save l @ is) = Inl (RuntimeError msg)"
    if "(of_nat (length (rnd_gens l)) :: u32) \<noteq> of_nat (length (rnd_gens l'))" using that by (simp add: random_load_def random_save_def)
  show "\<exists>msg. random_load kiss_load x' (random_save kiss_save x @ is) = Inl (RuntimeError msg)"
    if "(of_nat (length (rnd_gens x)) :: u32) \<noteq> of_nat (length (rnd_gens x'))" using that by (simp add: random_load_def random_save_def)
qed (use assms in \<open>simp_all add: mt.save_load_streams lcg.save_load_streams kiss.save_load_streams list_all_iff\<close>)

definition saved_demo :: "u32 \<Rightarrow> mt random" where
  "saved_demo seed = random_init mt_set_seed mt_init 1 2 seed"

lemma saved_demo_ok: "list_all mt_ok (rnd_gens (saved_demo seed))" "length (rnd_gens (saved_demo seed)) = 2"
  using mt.init_wf [of 1 2 seed] by (simp_all add: saved_demo_def random_num_streams_def)

theorem random_save_load_witness:
  "random_load mt_load (saved_demo 9) (random_save mt_save (saved_demo 7) @ [42])
     = Inr ((saved_demo 9)\<lparr>rnd_gens := rnd_gens (saved_demo 7)\<rparr>, [42])"
  using random_save_load [OF saved_demo_ok(1) [of 7], of "saved_demo 9" "[42]"] by (simp add: saved_demo_ok(2))

text \<open>
  C14. A \<^verbatim>\<open>Random\<close> object with \<open>n\<close> streams of any of the three generators: every sequence of uniform samples of
  valid streams with \<open>base \<le> limit\<close> returns, each sample is in \<open>[base, limit)\<close> (it is \<open>base\<close> when the bounds
  are equal), and a stream that is not asked for keeps its state.
\<close>

theorem random_uniform_range:
  assumes "\<forall>(s, base, limit)\<in>set qs. s < n \<and> base \<le> limit"
  shows "(\<exists>vs r'. samples mt_genrand qs (random_init mt_set_seed mt_init d n seed) = Inr (vs, r') \<and> list_all2 in_interval qs vs \<and>
      (\<forall>i. i \<notin> fst ` set qs \<longrightarrow> rnd_gens r' ! i = rnd_gens (random_init mt_set_seed mt_init d n seed) ! i)) \<and>
    (\<exists>vs r'. samples (\<lambda>g. Inr (lcg_genrand g)) qs (random_init lcg_set_seed lcg_init d n seed) = Inr (vs, r') \<and> list_all2 in_interval qs vs \<and>
      (\<forall>i. i \<notin> fst ` set qs \<longrightarrow> rnd_gens r' ! i = rnd_gens (random_init lcg_set_seed lcg_init d n seed) ! i)) \<and>
    (\<exists>vs r'. samples (\<lambda>g. Inr (kiss_genrand g)) qs (random_init kiss_set_seed kiss_init d n seed) = Inr (vs, r') \<and> list_all2 in_interval qs vs \<and>
      (\<forall>i. i \<notin> fst ` set qs \<longrightarrow> rnd_gens r' ! i = rnd_gens (random_init kiss_set_seed kiss_init d n seed) ! i))"
  using mt.samples_range [of "random_init mt_set_seed mt_init d n seed" qs] mt.init_wf [of d n seed]
    lcg.samples_range [of "random_init lcg_set_seed lcg_init d n seed" qs] lcg.init_wf [of d n seed]
    kiss.samples_range [of "random_init kiss_set_seed kiss_init d n seed" qs] kiss.init_wf [of d n seed] assms
  by (intro conjI) simp_all

theorem random_uniform_range_witness:
  "\<exists>v w r'. samples mt_genrand [(1, 10, 20), (0, 5, 6)] (random_init mt_set_seed mt_init 1 2 7) = Inr ([v, w], r') \<and> 10 \<le> v \<and> v < 20 \<and> w = 5"
proof -
  have "\<forall>(s, base, limit)\<in>set [(1, 10, 20), (0, 5, 6)]. s < (2 :: nat) \<and> (base :: u32) \<le> limit" by simp
  from random_uniform_range [OF this, of 1 7] obtain vs r' where
    v: "samples mt_genrand [(1, 10, 20), (0, 5, 6)] (random_init mt_set_seed mt_init 1 2 7) = Inr (vs, r')" "list_all2 in_interval [(1, 10, 20), (0, 5, 6)] vs"
    by blast
  obtain x y where xy: "vs = [x, y]" "in_interval (1, 10, 20) x" "in_interval (0, 5, 6) y"
    using v(2) by (auto simp: list_all2_Cons1)
  then have "10 \<le> x" "x < 20" "5 \<le> y" "y < 6" by (simp_all add: in_interval_def)
  moreover have "y = 5" using \<open>5 \<le> y\<close> \<open>y < 6\<close> by (simp add: word_le_nat_alt word_less_nat_alt word_unat_eq_iff)
  ultimately show ?thesis using v(1) xy(1) by blast
qed

section \<open>The triangle distribution\<close>

lemma trunc32_le:
  assumes "0 \<le> r" and "r \<le> 1"
  shows "trunc32 (r * real (unat n)) \<le> n"
proof -
  define m where "m = unat n"
  let ?f = "\<lfloor>r * real m\<rfloor>"
  have f0: "0 \<le> ?f" using assms by simp
  have "r * real m \<le> 1 * real m" using assms by (intro mult_right_mono) auto
  then have "?f \<le> \<lfloor>real m\<rfloor>" by (intro floor_mono) simp
  then have le: "nat ?f \<le> m" by simp
  have "trunc32 (r * real m) = of_nat (nat ?f)" using f0 by (simp add: trunc32_def)
  moreover have "unat (of_nat (nat ?f) :: u32) = nat ?f"
    using le unat_lt_u32 [of n] m_def by (simp add: unsigned_of_nat take_bit_nat_eq_self)
  ultimately show ?thesis using le by (simp add: word_le_nat_alt m_def)
qed

lemma unat_diff: "(l :: u32) \<le> u \<Longrightarrow> unat (u - l) = unat u - unat l"
  by (rule unat_sub)

lemma add_in_range:
  assumes "(l :: u32) \<le> u" and "r \<le> u - l"
  shows "l \<le> l + r \<and> l + r \<le> u"
proof -
  have "unat l + unat r \<le> unat u" using assms unat_diff [OF assms(1)] by (simp add: word_le_nat_alt)
  then have "unat (l + r) = unat l + unat r" using unat_lt_u32 [of u] by (intro unat_add_lem [THEN iffD1]) simp
  then show ?thesis using \<open>unat l + unat r \<le> unat u\<close> by (simp add: word_le_nat_alt)
qed

lemma sub_in_range:
  assumes "(l :: u32) \<le> u" and "r \<le> u - l"
  shows "l \<le> u - r \<and> u - r \<le> u"
proof -
  have "unat r \<le> unat u - unat l" using assms unat_diff [OF assms(1)] by (simp add: word_le_nat_alt)
  moreover have "unat (u - r) = unat u - unat r"
    using calculation by (intro unat_diff) (simp add: word_le_nat_alt)
  ultimately show ?thesis using assms(1) by (simp add: word_le_nat_alt)
qed

text \<open>
  The triangle distribution returns a value between its bounds, on both halves, for samples in
  \<open>[0, 1]\<close>.  The upper bound itself is returned, for every pair of samples, when the mode is the
  upper bound and the upper half is drawn.
\<close>

theorem triangle_bounds:
  assumes "lower \<le> mode" and "mode \<le> upper" and "0 \<le> r1" "r1 \<le> 1" "0 \<le> r2" "r2 \<le> 1"
  shows "lower \<le> triangleImpl lower mode upper h r1 r2 \<and> triangleImpl lower mode upper h r1 r2 \<le> upper \<and>
    triangleImpl lower upper upper True r1 r2 = upper"
proof -
  define l u where "l = (if h then mode else lower)" and "u = (if h then upper else mode)"
  have lu: "l \<le> u" "lower \<le> l" "u \<le> upper" using assms(1,2) by (auto simp: l_def u_def)
  define rv where "rv = trunc32 (r1 * real (unat (u - l)))"
  define u' l' where "u' = (if h then u - rv else u)" and "l' = (if h then l else rv + l)"
  have rv: "rv \<le> u - l" unfolding rv_def by (rule trunc32_le) (use assms in auto)
  have ul': "l \<le> l'" "l' \<le> u'" "u' \<le> u"
    using add_in_range [OF lu(1) rv] sub_in_range [OF lu(1) rv] lu(1) by (auto simp: u'_def l'_def add.commute)
  define w where "w = l' + trunc32 (r2 * real (unat (u' - l')))"
  have w: "l' \<le> w \<and> w \<le> u'" unfolding w_def by (rule add_in_range [OF ul'(2) trunc32_le]) (use assms in auto)
  have "triangleImpl lower mode upper h r1 r2 = (if u - l = 0 then u else if u' - l' = 0 then u' else w)"
    by (simp add: triangleImpl_def Let_def l_def u_def rv_def u'_def l'_def w_def)
  moreover have "lower \<le> (if u - l = 0 then u else if u' - l' = 0 then u' else w)"
    "(if u - l = 0 then u else if u' - l' = 0 then u' else w) \<le> upper"
    using lu ul' w by (auto intro: order_trans)
  moreover have "triangleImpl lower upper upper True r1 r2 = upper" by (simp add: triangleImpl_def)
  ultimately show ?thesis by simp
qed

theorem triangle_bounds_witness:
  "5 \<le> triangleImpl 5 7 9 False (1/2) 1 \<and> triangleImpl 5 7 9 False (1/2) 1 \<le> 9"
  using triangle_bounds [of 5 7 9 "1/2" 1 False] by simp

end
