(* ===== verification/Fifo_Spec.thy ===== *)
theory Fifo_Spec
  imports Prelude
begin

text \<open>
  The first-in first-out contract of the intrusive queues of threads and processors.  It is a
  locale; its client lemma says that any sequence of enqueue and dequeue operations that the
  implementation accepts returns what the list specification returns.
\<close>

datatype 'a fifo_op = Enq 'a | Deq

text \<open>The specification: a list, filled at the back and emptied at the front.\<close>

fun spec_ops :: "'a fifo_op list \<Rightarrow> 'a list \<Rightarrow> 'a option list \<times> 'a list" where
  "spec_ops [] xs = ([], xs)"
| "spec_ops (Enq x # ops) xs = spec_ops ops (xs @ [x])"
| "spec_ops (Deq # ops) [] = (let (rs, ys) = spec_ops ops [] in (None # rs, ys))"
| "spec_ops (Deq # ops) (x # xs) = (let (rs, ys) = spec_ops ops xs in (Some x # rs, ys))"

text \<open>The same operations on an implementation, and when the implementation accepts them.\<close>

fun run_ops :: "('a \<Rightarrow> 's \<Rightarrow> 's res) \<Rightarrow> ('s \<Rightarrow> 'a option \<times> 's) \<Rightarrow> 'a fifo_op list \<Rightarrow> 's
    \<Rightarrow> ('a option list \<times> 's) res" where
  "run_ops enq deq [] s = Inr ([], s)"
| "run_ops enq deq (Enq x # ops) s = bindE (enq x s) (run_ops enq deq ops)"
| "run_ops enq deq (Deq # ops) s =
     (let (r, s') = deq s in
      bindE (run_ops enq deq ops s') (\<lambda>(rs, s''). Inr (r # rs, s'')))"

fun legal_ops :: "('a list \<Rightarrow> 'a \<Rightarrow> bool) \<Rightarrow> 'a fifo_op list \<Rightarrow> 'a list \<Rightarrow> bool" where
  "legal_ops acc [] xs = True"
| "legal_ops acc (Enq x # ops) xs = (acc xs x \<and> legal_ops acc ops (xs @ [x]))"
| "legal_ops acc (Deq # ops) xs = legal_ops acc ops (tl xs)"

locale fifo_queue =
  fixes rep :: "'s \<Rightarrow> 'a list \<Rightarrow> bool"
    and accepts :: "'a list \<Rightarrow> 'a \<Rightarrow> bool"
    and enq :: "'a \<Rightarrow> 's \<Rightarrow> 's res"
    and deq :: "'s \<Rightarrow> 'a option \<times> 's"
  assumes enq_rep: "rep s xs \<Longrightarrow> accepts xs x \<Longrightarrow> \<exists>s'. enq x s = Inr s' \<and> rep s' (xs @ [x])"
    and deq_Nil: "rep s [] \<Longrightarrow> \<exists>s'. deq s = (None, s') \<and> rep s' []"
    and deq_Cons: "rep s (x # xs) \<Longrightarrow> \<exists>s'. deq s = (Some x, s') \<and> rep s' xs"
begin

lemma run_refines:
  "rep s xs \<Longrightarrow> legal_ops accepts ops xs \<Longrightarrow>
   \<exists>s'. run_ops enq deq ops s = Inr (fst (spec_ops ops xs), s') \<and> rep s' (snd (spec_ops ops xs))"
proof (induction ops xs arbitrary: s rule: spec_ops.induct)
  case (1 xs)
  then show ?case by simp
next
  case (2 x ops xs)
  then obtain s1 where s1: "enq x s = Inr s1" "rep s1 (xs @ [x])"
    using enq_rep by fastforce
  with 2 show ?case by simp
next
  case (3 ops)
  then obtain s1 where "deq s = (None, s1)" "rep s1 []" using deq_Nil by blast
  with 3 show ?case by (fastforce split: prod.splits)
next
  case (4 ops x xs)
  then obtain s1 where "deq s = (Some x, s1)" "rep s1 xs" using deq_Cons by blast
  with 4 show ?case by (fastforce split: prod.splits)
qed

text \<open>Filling an empty queue and emptying it again returns the elements in order.\<close>

lemma fill_then_drain:
  assumes "rep s []" and "legal_ops accepts (map Enq xs @ replicate (length xs) Deq) []"
  shows "\<exists>s'. run_ops enq deq (map Enq xs @ replicate (length xs) Deq) s = Inr (map Some xs, s')
              \<and> rep s' []"
proof -
  have fill: "spec_ops (map Enq xs @ ops) ys = spec_ops ops (ys @ xs)" for ops ys
    by (induction xs arbitrary: ys) auto
  have drain: "spec_ops (replicate (length zs) Deq) zs = (map Some zs, [])" for zs :: "'a list"
    by (induction zs) auto
  show ?thesis using run_refines [OF assms] by (simp add: fill drain)
qed

end

end
