(* ===== verification/Queue_Impl.thy ===== *)
theory Queue_Impl
  imports Fifo_Spec
begin

text \<open>
  The intrusive doubly linked queue of \<^verbatim>\<open>src/Queue.h\<close> and \<^verbatim>\<open>src/Queue.C\<close>.

  The objects of the program that can be queued (\<^verbatim>\<open>Thread\<close> and \<^verbatim>\<open>Proc\<close>) inherit the two
  pointers of \<^verbatim>\<open>QBase\<close>; the heap of these pointers is a record of two functions from object
  identifiers to pointers.  Every operation takes the queue and the heap and returns both.
  The loops that follow \<open>next\<close> pointers may run forever on a cyclic heap and are therefore
  partial functions; on the queues the invariant describes they are proved to return.
\<close>

section \<open>Data\<close>

record qheap =
  qprev :: "nat \<Rightarrow> nat option"
  qnext :: "nat \<Rightarrow> nat option"

record queue =
  q_head :: "nat option"
  q_tail :: "nat option"

definition queue_init :: queue where
  "queue_init = \<lparr>q_head = None, q_tail = None\<rparr>"

definition qbase_init :: "nat \<Rightarrow> qheap \<Rightarrow> qheap" where
  "qbase_init n h = h\<lparr>qprev := (qprev h)(n := None), qnext := (qnext h)(n := None)\<rparr>"

definition setprev :: "nat \<Rightarrow> nat option \<Rightarrow> qheap \<Rightarrow> qheap" where
  "setprev n p h = h\<lparr>qprev := (qprev h)(n := p)\<rparr>"

definition setnext :: "nat \<Rightarrow> nat option \<Rightarrow> qheap \<Rightarrow> qheap" where
  "setnext n p h = h\<lparr>qnext := (qnext h)(n := p)\<rparr>"

lemma links_simps [simp]:
  "qprev (setprev n p h) = (qprev h)(n := p)" "qnext (setprev n p h) = qnext h"
  "qnext (setnext n p h) = (qnext h)(n := p)" "qprev (setnext n p h) = qprev h"
  "qprev (qbase_init n h) = (qprev h)(n := None)" "qnext (qbase_init n h) = (qnext h)(n := None)"
  by (simp_all add: setprev_def setnext_def qbase_init_def)

section \<open>Operations\<close>

definition q_empty :: "queue \<Rightarrow> bool" where
  "q_empty q = (q_head q = None)"

definition q_front :: "queue \<Rightarrow> nat option" where
  "q_front q = q_head q"

definition q_back :: "queue \<Rightarrow> nat option" where
  "q_back q = q_tail q"

definition q_add :: "nat \<Rightarrow> queue \<times> qheap \<Rightarrow> (queue \<times> qheap) res" where
  "q_add n s = (case s of (q, h) \<Rightarrow>
     bindE (assertE (qnext h n = None \<and> qprev h n = None)) (\<lambda>_.
     let h = setnext n None h in
     Inr (case q_tail q of
        Some t \<Rightarrow> (q\<lparr>q_tail := Some n\<rparr>, setprev n (Some t) (setnext t (Some n) h))
      | None \<Rightarrow> (q\<lparr>q_head := Some n, q_tail := Some n\<rparr>, setprev n None h))))"

definition q_push :: "nat \<Rightarrow> queue \<times> qheap \<Rightarrow> (queue \<times> qheap) res" where
  "q_push n s = (case s of (q, h) \<Rightarrow>
     bindE (assertE (qnext h n = None \<and> qprev h n = None)) (\<lambda>_.
     let h = setprev n None h in
     Inr (case q_head q of
        Some t \<Rightarrow> (q\<lparr>q_head := Some n\<rparr>, setnext n (Some t) (setprev t (Some n) h))
      | None \<Rightarrow> (q\<lparr>q_tail := Some n, q_head := Some n\<rparr>, setnext n None h))))"

definition q_get :: "queue \<times> qheap \<Rightarrow> nat option \<times> queue \<times> qheap" where
  "q_get s = (case s of (q, h) \<Rightarrow>
     (case q_head q of
        None \<Rightarrow> (None, q, h)
      | Some n \<Rightarrow>
          let q = q\<lparr>q_head := qnext h n\<rparr>;
              (q, h) = (case q_head q of
                  None \<Rightarrow> (q\<lparr>q_tail := None\<rparr>, h)
                | Some m \<Rightarrow> (q, setprev m None h))
          in (Some n, q, setnext n None (setprev n None h))))"

partial_function (option) q_find :: "qheap \<Rightarrow> nat \<Rightarrow> nat option \<Rightarrow> nat option option" where
  "q_find h t cur = (case cur of
       None \<Rightarrow> Some None
     | Some c \<Rightarrow> if qnext h c = Some t then Some (Some c) else q_find h t (qnext h c))"

definition q_get_item :: "nat option \<Rightarrow> queue \<times> qheap \<Rightarrow> (nat option \<times> queue \<times> qheap) res" where
  "q_get_item p s = (case s of (q, h) \<Rightarrow>
     (case (q_head q, p) of
        (Some f, Some t) \<Rightarrow>
          if f = t then Inr (q_get (q, h))
          else bindE (returnsE (q_find h t (q_head q))) (\<lambda>c.
            Inr (case c of
               None \<Rightarrow> (None, q, h)
             | Some c \<Rightarrow>
                 let h = setnext c (qnext h t) h;
                     q = (if qnext h c = None then q\<lparr>q_tail := Some c\<rparr> else q)
                 in (Some t, q, h)))
      | _ \<Rightarrow> Inr (None, q, h)))"

definition q_remove :: "nat \<Rightarrow> queue \<times> qheap \<Rightarrow> queue \<times> qheap" where
  "q_remove x s = (case s of (q, h) \<Rightarrow>
     (case qprev h x of
        None \<Rightarrow> snd (q_get (q, h))
      | Some p \<Rightarrow>
          let h = setnext p (qnext h x) h;
              q = (if qnext h x = None then q\<lparr>q_tail := qprev h x\<rparr> else q)
          in (q, setprev x None (setnext x None h))))"

partial_function (option) q_size_loop :: "qheap \<Rightarrow> nat option \<Rightarrow> u32 \<Rightarrow> u32 option" where
  "q_size_loop h i n = (case i of
       None \<Rightarrow> Some n
     | Some c \<Rightarrow> q_size_loop h (qnext h c) (n + 1))"

definition q_size :: "queue \<times> qheap \<Rightarrow> u32 res" where
  "q_size s = (case s of (q, h) \<Rightarrow> returnsE (q_size_loop h (q_head q) 0))"

text \<open>The elements in order, as \<^verbatim>\<open>operator<<\<close> prints them.\<close>

partial_function (option) q_elems_loop :: "qheap \<Rightarrow> nat option \<Rightarrow> nat list option" where
  "q_elems_loop h i = (case i of
       None \<Rightarrow> Some []
     | Some c \<Rightarrow> Option.bind (q_elems_loop h (qnext h c)) (\<lambda>cs. Some (c # cs)))"

definition q_elems :: "queue \<times> qheap \<Rightarrow> nat list res" where
  "q_elems s = (case s of (q, h) \<Rightarrow> returnsE (q_elems_loop h (q_head q)))"

section \<open>The queue invariant\<close>

text \<open>
  \<open>chain nx p xs r\<close>: following \<open>nx\<close> from \<open>p\<close> visits exactly \<open>xs\<close> and arrives at \<open>r\<close>.
  \<open>is_queue\<close> is what the forward operations rely on: the \<open>next\<close> pointers spell the elements
  and the tail is the last of them.  \<open>is_dqueue\<close> adds the \<open>prev\<close> pointers, which only
  \<^verbatim>\<open>Queue::remove\<close> reads.
\<close>

primrec chain :: "(nat \<Rightarrow> nat option) \<Rightarrow> nat option \<Rightarrow> nat list \<Rightarrow> nat option \<Rightarrow> bool" where
  "chain nx p [] r \<longleftrightarrow> p = r"
| "chain nx p (x # xs) r \<longleftrightarrow> p = Some x \<and> chain nx (nx x) xs r"

primrec back_linked :: "(nat \<Rightarrow> nat option) \<Rightarrow> nat option \<Rightarrow> nat list \<Rightarrow> bool" where
  "back_linked pv p [] \<longleftrightarrow> True"
| "back_linked pv p (x # xs) \<longleftrightarrow> pv x = p \<and> back_linked pv (Some x) xs"

definition last_opt :: "nat list \<Rightarrow> nat option" where
  "last_opt xs = (if xs = [] then None else Some (last xs))"

definition is_queue :: "qheap \<Rightarrow> queue \<Rightarrow> nat list \<Rightarrow> bool" where
  "is_queue h q xs \<longleftrightarrow>
     distinct xs \<and> chain (qnext h) (q_head q) xs None \<and> q_tail q = last_opt xs"

definition is_dqueue :: "qheap \<Rightarrow> queue \<Rightarrow> nat list \<Rightarrow> bool" where
  "is_dqueue h q xs \<longleftrightarrow> is_queue h q xs \<and> back_linked (qprev h) None xs"

definition unlinked :: "qheap \<Rightarrow> nat \<Rightarrow> bool" where
  "unlinked h n \<longleftrightarrow> qnext h n = None \<and> qprev h n = None"

text \<open>Objects outside \<open>S\<close> keep both pointers.\<close>

definition same_links :: "nat set \<Rightarrow> qheap \<Rightarrow> qheap \<Rightarrow> bool" where
  "same_links S h h' \<longleftrightarrow> (\<forall>m. m \<notin> S \<longrightarrow> qnext h' m = qnext h m \<and> qprev h' m = qprev h m)"

lemma last_opt_simps [simp]:
  "last_opt [] = None" "last_opt (xs @ [x]) = Some x" "last_opt [x] = Some x"
  "last_opt (x # y # ys) = last_opt (y # ys)" "last_opt (xs @ y # ys) = last_opt (y # ys)"
  "last_opt xs = None \<longleftrightarrow> xs = []"
  by (simp_all add: last_opt_def)

lemma chain_append [simp]:
  "chain nx p (xs @ ys) r \<longleftrightarrow> (\<exists>m. chain nx p xs m \<and> chain nx m ys r)"
  by (induction xs arbitrary: p) auto

lemma chain_None_start [simp]: "chain nx None xs r \<longleftrightarrow> xs = [] \<and> r = None"
  by (cases xs) auto

lemma chain_upd [simp]: "a \<notin> set xs \<Longrightarrow> chain (nx(a := v)) p xs r = chain nx p xs r"
  by (induction xs arbitrary: p) auto

lemma chain_cong:
  "(\<And>x. x \<in> set xs \<Longrightarrow> nx x = nx' x) \<Longrightarrow> chain nx p xs r = chain nx' p xs r"
  by (induction xs arbitrary: p) auto

lemma back_linked_append [simp]:
  "back_linked pv p (xs @ ys) \<longleftrightarrow>
     back_linked pv p xs \<and> back_linked pv (if xs = [] then p else Some (last xs)) ys"
  by (induction xs arbitrary: p) auto

lemma back_linked_upd [simp]:
  "a \<notin> set xs \<Longrightarrow> back_linked (pv(a := v)) p xs = back_linked pv p xs"
  by (induction xs arbitrary: p) auto

lemma back_linked_cong:
  "(\<And>x. x \<in> set xs \<Longrightarrow> pv x = pv' x) \<Longrightarrow> back_linked pv p xs = back_linked pv' p xs"
  by (induction xs arbitrary: p) auto

lemma is_queue_frame:
  "is_queue h q xs \<Longrightarrow> same_links S h h' \<Longrightarrow> S \<inter> set xs = {} \<Longrightarrow> is_queue h' q xs"
  using chain_cong [of xs "qnext h'" "qnext h"]
  by (fastforce simp: is_queue_def same_links_def)

lemma is_dqueue_frame:
  "is_dqueue h q xs \<Longrightarrow> same_links S h h' \<Longrightarrow> S \<inter> set xs = {} \<Longrightarrow> is_dqueue h' q xs"
  using back_linked_cong [of xs "qprev h'" "qprev h"] is_queue_frame [of h q xs S h']
  by (fastforce simp: is_dqueue_def same_links_def)

lemma is_queue_init [simp]: "is_queue h queue_init []"
  by (simp add: is_queue_def queue_init_def)

lemma is_dqueue_init [simp]: "is_dqueue h queue_init []"
  by (simp add: is_dqueue_def)

lemma is_dqueue_is_queue: "is_dqueue h q xs \<Longrightarrow> is_queue h q xs"
  by (simp add: is_dqueue_def)

lemma is_queue_unique: "is_queue h q xs \<Longrightarrow> is_queue h q ys \<Longrightarrow> xs = ys"
proof -
  have "chain nx p xs None \<Longrightarrow> chain nx p ys None \<Longrightarrow> xs = ys" for nx p
  proof (induction xs arbitrary: p ys)
    case Nil
    then show ?case by simp
  next
    case (Cons x xs)
    then show ?case by (cases ys) auto
  qed
  then show "is_queue h q xs \<Longrightarrow> is_queue h q ys \<Longrightarrow> xs = ys"
    by (auto simp: is_queue_def)
qed

lemma is_queue_Nil_iff: "is_queue h q [] \<longleftrightarrow> q_head q = None \<and> q_tail q = None"
  by (auto simp: is_queue_def)

lemma is_queue_head: "is_queue h q xs \<Longrightarrow> q_head q = (case xs of [] \<Rightarrow> None | x # _ \<Rightarrow> Some x)"
  by (cases xs) (auto simp: is_queue_def)

lemma is_queue_empty_iff: "is_queue h q xs \<Longrightarrow> q_empty q \<longleftrightarrow> xs = []"
  by (auto simp: q_empty_def is_queue_head split: list.splits)

lemma is_queue_back: "is_queue h q xs \<Longrightarrow> q_back q = last_opt xs"
  by (simp add: q_back_def is_queue_def)

section \<open>Correctness of the operations\<close>

lemma q_add_spec:
  assumes q: "is_queue h q xs" and n: "n \<notin> set xs" and u: "unlinked h n"
  obtains q' h' where "q_add n (q, h) = Inr (q', h')" and "is_queue h' q' (xs @ [n])"
    and "is_dqueue h q xs \<Longrightarrow> is_dqueue h' q' (xs @ [n])"
    and "same_links (insert n (set xs)) h h'"
proof (cases xs rule: rev_cases)
  case Nil
  then show thesis using q u
    by (intro that) (auto simp: q_add_def is_queue_def is_dqueue_def unlinked_def same_links_def)
next
  case (snoc ys y)
  then show thesis using q n u
    by (intro that) (auto simp: q_add_def is_queue_def is_dqueue_def unlinked_def same_links_def)
qed

lemma q_push_spec:
  assumes q: "is_queue h q xs" and n: "n \<notin> set xs" and u: "unlinked h n"
  obtains q' h' where "q_push n (q, h) = Inr (q', h')" and "is_queue h' q' (n # xs)"
    and "is_dqueue h q xs \<Longrightarrow> is_dqueue h' q' (n # xs)"
    and "same_links (insert n (set xs)) h h'"
proof (cases xs)
  case Nil
  then show thesis using q u
    by (intro that) (auto simp: q_push_def is_queue_def is_dqueue_def unlinked_def same_links_def)
next
  case (Cons y ys)
  then show thesis using q n u
    by (intro that)
      (auto simp: q_push_def is_queue_def is_dqueue_def unlinked_def same_links_def last_opt_def)
qed

lemma q_add_linked:
  "\<not> unlinked h n \<Longrightarrow> q_add n (q, h) = Inl AssertFail"
  by (auto simp: q_add_def unlinked_def assertE_def)

lemma q_get_Nil: "is_queue h q [] \<Longrightarrow> q_get (q, h) = (None, q, h)"
  by (simp add: q_get_def is_queue_def)

lemma q_get_Cons:
  assumes q: "is_queue h q (x # xs)"
  obtains q' h' where "q_get (q, h) = (Some x, q', h')" and "is_queue h' q' xs"
    and "is_dqueue h q (x # xs) \<Longrightarrow> is_dqueue h' q' xs"
    and "unlinked h' x" and "same_links (set (x # xs)) h h'"
proof (cases xs)
  case Nil
  then show thesis using q
    by (intro that) (auto simp: q_get_def is_queue_def is_dqueue_def unlinked_def same_links_def)
next
  case (Cons y ys)
  then show thesis using q
    by (intro that) (auto simp: q_get_def is_queue_def is_dqueue_def unlinked_def same_links_def)
qed

lemma q_find_chain:
  assumes "chain (qnext h) p (c # cs) None" and "t \<notin> {c}"
  shows "q_find h t p = Some (if t \<in> set cs
           then Some (last (c # takeWhile (\<lambda>y. y \<noteq> t) cs)) else None)"
  using assms
proof (induction cs arbitrary: c p)
  case Nil
  then show ?case by (simp add: q_find.simps)
next
  case (Cons d ds)
  show ?case
  proof (cases "d = t")
    case True
    then show ?thesis using Cons.prems by (simp add: q_find.simps)
  next
    case False
    have "q_find h t p = q_find h t (Some d)"
      using Cons.prems False by (subst q_find.simps) simp
    also have "\<dots> = Some (if t \<in> set ds
        then Some (last (d # takeWhile (\<lambda>y. y \<noteq> t) ds)) else None)"
      using Cons.prems False by (intro Cons.IH) auto
    finally show ?thesis using False by auto
  qed
qed

lemma q_find_split:
  assumes "chain (qnext h) p (as @ c # t # bs) None" and "distinct (as @ c # t # bs)"
  shows "q_find h t p = Some (Some c)"
proof (cases as)
  case Nil
  then show ?thesis using assms by (simp add: q_find.simps)
next
  case (Cons a as')
  have "takeWhile (\<lambda>y. y \<noteq> t) (as' @ c # t # bs) = as' @ [c]"
    using assms(2) Cons by (auto simp: takeWhile_append)
  then show ?thesis using assms Cons q_find_chain [of h p a "as' @ c # t # bs" t] by auto
qed

text \<open>
  \<^verbatim>\<open>Queue::get(t)\<close> finds \<open>t\<close> and takes it out of the forward chain; it leaves the pointers of
  \<open>t\<close> itself and the \<open>prev\<close> pointer of its successor as they were.
\<close>

lemma q_get_item_found:
  assumes q: "is_queue h q xs" and t: "t \<in> set xs"
  obtains q' h' where "q_get_item (Some t) (q, h) = Inr (Some t, q', h')"
    and "is_queue h' q' (remove1 t xs)" and "same_links (set xs) h h'"
proof -
  from t obtain as bs where xs: "xs = as @ t # bs" by (auto simp: in_set_conv_decomp)
  show thesis
  proof (cases as rule: rev_cases)
    case Nil
    then have "is_queue h q (t # bs)" using q xs by simp
    then obtain q' h' where g: "q_get (q, h) = (Some t, q', h')" "is_queue h' q' bs"
        "same_links (set (t # bs)) h h'" by (rule q_get_Cons)
    have "q_head q = Some t" using q xs Nil by (simp add: is_queue_def)
    then show thesis using that g xs Nil by (simp add: q_get_item_def)
  next
    case (snoc as' c)
    have d: "distinct (as' @ c # t # bs)" and ch: "chain (qnext h) (q_head q) (as' @ c # t # bs) None"
      using q xs snoc by (auto simp: is_queue_def)
    have f: "q_find h t (q_head q) = Some (Some c)" by (rule q_find_split [OF ch d])
    obtain hd0 where h0: "q_head q = Some hd0" "hd0 \<noteq> t"
      using ch d by (cases as') auto
    have r: "remove1 t xs = as' @ c # bs"
      using d xs snoc by (simp add: remove1_append)
    have nt: "qnext h t = (case bs of [] \<Rightarrow> None | b # _ \<Rightarrow> Some b)"
      using ch by (cases bs) auto
    show thesis
    proof (rule that)
      show "q_get_item (Some t) (q, h) = Inr (Some t,
          (if qnext h t = None then q\<lparr>q_tail := Some c\<rparr> else q), setnext c (qnext h t) h)"
        using f h0 by (simp add: q_get_item_def)
      show "is_queue (setnext c (qnext h t) h)
          (if qnext h t = None then q\<lparr>q_tail := Some c\<rparr> else q) (remove1 t xs)"
        unfolding r using q d ch nt xs snoc
        by (cases bs) (auto simp: is_queue_def last_opt_def)
      show "same_links (set xs) h (setnext c (qnext h t) h)"
        using xs snoc by (simp add: same_links_def)
    qed
  qed
qed

lemma q_get_item_absent:
  assumes q: "is_queue h q xs" and t: "t \<notin> set xs"
  shows "q_get_item (Some t) (q, h) = Inr (None, q, h)"
proof (cases xs)
  case Nil
  then show ?thesis using q by (simp add: q_get_item_def is_queue_def)
next
  case (Cons x ys)
  then have "q_find h t (q_head q) = Some None"
    using q t q_find_chain [of h "q_head q" x ys t] by (auto simp: is_queue_def)
  then show ?thesis using q t Cons by (auto simp: q_get_item_def is_queue_def)
qed

text \<open>
  \<^verbatim>\<open>Queue::remove\<close> trusts the \<open>prev\<close> pointer of its argument.  With correct \<open>prev\<close> pointers it
  takes the element out of the forward chain and unlinks it.  It never repairs the \<open>prev\<close>
  pointer of the successor, so the \<open>prev\<close> pointers are again correct only when the element
  was the first or the last one.
\<close>

lemma q_remove_spec:
  assumes q: "is_dqueue h q (as @ x # bs)"
  obtains q' h' where "q_remove x (q, h) = (q', h')" and "is_queue h' q' (as @ bs)"
    and "unlinked h' x" and "same_links (set (as @ x # bs)) h h'"
    and "as = [] \<or> bs = [] \<Longrightarrow> is_dqueue h' q' (as @ bs)"
    and "as \<noteq> [] \<Longrightarrow> bs \<noteq> [] \<Longrightarrow> qprev h' (hd bs) = Some x"
proof (cases as rule: rev_cases)
  case Nil
  then have "is_queue h q (x # bs)" and p: "qprev h x = None"
    using q by (auto simp: is_dqueue_def)
  then obtain q' h' where "q_get (q, h) = (Some x, q', h')" "is_queue h' q' bs"
      "is_dqueue h q (x # bs) \<Longrightarrow> is_dqueue h' q' bs" "unlinked h' x"
      "same_links (set (x # bs)) h h'"
    using q_get_Cons by blast
  then show thesis using p Nil q
    by (intro that [of q' h']) (auto simp: q_remove_def)
next
  case (snoc as' c)
  have p: "qprev h x = Some c" and d: "distinct (as' @ c # x # bs)"
    and ch: "chain (qnext h) (q_head q) (as' @ c # x # bs) None"
    using q snoc by (auto simp: is_dqueue_def is_queue_def)
  have nx: "qnext h x = (case bs of [] \<Rightarrow> None | b # _ \<Rightarrow> Some b)"
    using ch by (cases bs) auto
  let ?h = "setprev x None (setnext x None (setnext c (qnext h x) h))"
  let ?q = "if qnext h x = None then q\<lparr>q_tail := Some c\<rparr> else q"
  show thesis
  proof (rule that)
    show "q_remove x (q, h) = (?q, ?h)"
      using p d by (auto simp: q_remove_def Let_def)
    show "is_queue ?h ?q (as @ bs)"
      using q d ch nx snoc by (cases bs) (auto simp: is_dqueue_def is_queue_def last_opt_def)
    show "unlinked ?h x" by (simp add: unlinked_def)
    show "same_links (set (as @ x # bs)) h ?h" using snoc by (simp add: same_links_def)
    show "is_dqueue ?h ?q (as @ bs)" if "as = [] \<or> bs = []"
      using that q d ch nx snoc by (auto simp: is_dqueue_def is_queue_def last_opt_def)
    show "qprev ?h (hd bs) = Some x" if "as \<noteq> []" "bs \<noteq> []"
      using that q d by (cases bs) (auto simp: is_dqueue_def)
  qed
qed

lemma q_size_loop_chain:
  "chain (qnext h) p xs None \<Longrightarrow> q_size_loop h p n = Some (n + of_nat (length xs))"
proof (induction xs arbitrary: p n)
  case Nil
  then show ?case by (simp add: q_size_loop.simps)
next
  case (Cons x xs)
  then have "q_size_loop h p n = q_size_loop h (qnext h x) (n + 1)"
    by (subst q_size_loop.simps) simp
  with Cons show ?case by (simp add: algebra_simps)
qed

lemma q_size_spec: "is_queue h q xs \<Longrightarrow> q_size (q, h) = Inr (of_nat (length xs))"
  by (auto simp: q_size_def is_queue_def q_size_loop_chain)

lemma q_elems_loop_chain: "chain (qnext h) p xs None \<Longrightarrow> q_elems_loop h p = Some xs"
proof (induction xs arbitrary: p)
  case Nil
  then show ?case by (simp add: q_elems_loop.simps)
next
  case (Cons x xs)
  then show ?case by (subst q_elems_loop.simps) simp
qed

lemma q_elems_spec: "is_queue h q xs \<Longrightarrow> q_elems (q, h) = Inr xs"
  by (auto simp: q_elems_def is_queue_def q_elems_loop_chain)

section \<open>The queue as a first-in first-out queue\<close>

text \<open>
  While only \<^verbatim>\<open>add\<close> and \<^verbatim>\<open>get\<close> are used on a heap, the queue meets the contract: the
  representation relation says that the queue is fully linked and that no other object
  carries links.  The \<^verbatim>\<open>assert\<close> of \<^verbatim>\<open>Queue::add\<close> then never fires for an object that is not
  in the queue.
\<close>

definition queue_rep :: "queue \<times> qheap \<Rightarrow> nat list \<Rightarrow> bool" where
  "queue_rep s xs \<longleftrightarrow> is_dqueue (snd s) (fst s) xs \<and> (\<forall>n. n \<notin> set xs \<longrightarrow> unlinked (snd s) n)"

lemma queue_rep_add:
  assumes "queue_rep s xs" and "x \<notin> set xs"
  shows "\<exists>s'. q_add x s = Inr s' \<and> queue_rep s' (xs @ [x])"
proof -
  obtain q h where s: "s = (q, h)" by (cases s)
  have d: "is_dqueue h q xs" and u: "unlinked h x"
    using assms s by (auto simp: queue_rep_def)
  obtain q' h' where r: "q_add x (q, h) = Inr (q', h')" "is_dqueue h' q' (xs @ [x])"
      "same_links (insert x (set xs)) h h'"
    using q_add_spec [OF is_dqueue_is_queue [OF d] assms(2) u] d by metis
  then have "queue_rep (q', h') (xs @ [x])"
    using assms s by (auto simp: queue_rep_def same_links_def unlinked_def)
  with r s show ?thesis by blast
qed

lemma queue_rep_get:
  assumes "queue_rep s (x # xs)"
  shows "\<exists>s'. q_get s = (Some x, s') \<and> queue_rep s' xs"
proof -
  obtain q h where s: "s = (q, h)" by (cases s)
  have d: "is_dqueue h q (x # xs)" using assms s by (simp add: queue_rep_def)
  obtain q' h' where r: "q_get (q, h) = (Some x, q', h')" "is_dqueue h' q' xs"
      "unlinked h' x" "same_links (set (x # xs)) h h'"
    using q_get_Cons [OF is_dqueue_is_queue [OF d]] d by metis
  moreover have "unlinked h' n" if "n \<notin> set xs" for n
    using that r assms s by (cases "n = x") (auto simp: queue_rep_def same_links_def unlinked_def)
  ultimately have "queue_rep (q', h') xs" by (simp add: queue_rep_def)
  with r s show ?thesis by blast
qed

interpretation lq: fifo_queue queue_rep "\<lambda>xs x. x \<notin> set xs" q_add q_get
proof unfold_locales
  show "\<exists>s'. q_get s = (None, s') \<and> queue_rep s' []" if "queue_rep s []" for s
    using that by (cases s) (auto simp: queue_rep_def is_dqueue_def intro: q_get_Nil)
qed (rule queue_rep_add queue_rep_get, assumption+)+

text \<open>
  C4. Any sequence of \<^verbatim>\<open>Queue::add\<close> and \<^verbatim>\<open>Queue::get\<close> calls that never adds an object which is
  in the queue at that moment runs without an assertion failure and returns what a
  first-in first-out list returns, and the queue again represents that list.
\<close>

theorem queue_refines_fifo:
  assumes "queue_rep s xs" and "legal_ops (\<lambda>ys y. y \<notin> set ys) ops xs"
  shows "\<exists>s'. run_ops q_add q_get ops s = Inr (fst (spec_ops ops xs), s')
              \<and> queue_rep s' (snd (spec_ops ops xs))"
  using assms by (rule lq.run_refines)

definition empty_qheap :: qheap where
  "empty_qheap = \<lparr>qprev = (\<lambda>_. None), qnext = (\<lambda>_. None)\<rparr>"

lemma queue_rep_init: "queue_rep (queue_init, empty_qheap) []"
  by (simp add: queue_rep_def unlinked_def empty_qheap_def)

theorem queue_refines_fifo_witness:
  "\<exists>s'. run_ops q_add q_get [Enq 4, Enq 7, Deq, Enq 4, Deq, Deq, Deq] (queue_init, empty_qheap)
        = Inr ([Some 4, Some 7, Some 4, None], s') \<and> queue_rep s' []"
  using queue_refines_fifo [OF queue_rep_init, of "[Enq 4, Enq 7, Deq, Enq 4, Deq, Deq, Deq]"]
  by simp

text \<open>
  C39. \<^verbatim>\<open>Queue::get(t)\<close> on a well-formed queue returns (the search loop ends), gives back \<open>t\<close>
  exactly when \<open>t\<close> is an element, and leaves the queue with the other elements in their order,
  whether or not the \<open>prev\<close> pointers are correct.
\<close>

theorem get_item_removes:
  assumes "is_queue h q xs"
  shows "\<exists>q' h'. q_get_item (Some t) (q, h) = Inr (if t \<in> set xs then Some t else None, q', h')
                 \<and> is_queue h' q' (remove1 t xs)"
proof (cases "t \<in> set xs")
  case True
  then show ?thesis using q_get_item_found [OF assms True] by metis
next
  case False
  then show ?thesis using q_get_item_absent [OF assms False] assms by (simp add: remove1_idem)
qed

definition three_queue :: "queue \<times> qheap" where
  "three_queue = (\<lparr>q_head = Some 1, q_tail = Some 3\<rparr>,
     \<lparr>qprev = (\<lambda>_. None)(2 := Some 1, 3 := Some 2), qnext = (\<lambda>_. None)(1 := Some 2, 2 := Some 3)\<rparr>)"

lemma three_queue_ok: "is_dqueue (snd three_queue) (fst three_queue) [1, 2, 3]"
  by (simp add: three_queue_def is_dqueue_def is_queue_def last_opt_def)

theorem get_item_removes_witness:
  "\<exists>q' h'. q_get_item (Some 3) three_queue = Inr (Some 3, q', h') \<and> is_queue h' q' [1, 2]"
  using get_item_removes [OF is_dqueue_is_queue [OF three_queue_ok], of 3] by simp

text \<open>
  \<^verbatim>\<open>Queue::remove(x)\<close> on a queue whose \<open>prev\<close> pointers are correct takes exactly \<open>x\<close> out and
  clears its links; the \<open>prev\<close> pointers stay correct when \<open>x\<close> was the first or last element.
\<close>

theorem remove_takes_out:
  assumes "is_dqueue h q (as @ x # bs)"
  shows "\<exists>q' h'. q_remove x (q, h) = (q', h') \<and> is_queue h' q' (as @ bs) \<and> unlinked h' x
                 \<and> (as = [] \<or> bs = [] \<longrightarrow> is_dqueue h' q' (as @ bs))"
  using q_remove_spec [OF assms] by metis

theorem remove_takes_out_witness:
  "\<exists>q' h'. q_remove 3 three_queue = (q', h') \<and> is_queue h' q' [1, 2] \<and> unlinked h' 3
           \<and> is_dqueue h' q' [1, 2]"
  using remove_takes_out [of "snd three_queue" "fst three_queue" "[1, 2]" 3 "[]"] three_queue_ok
  by simp

text \<open>
  \<^verbatim>\<open>Queue::remove\<close> does not repair the \<open>prev\<close> pointer of the successor of the element it takes
  out.  Removing the second element of a fully linked queue and then the element after it
  leaves that element in the queue, and the tail of the queue is the object removed first.
\<close>

theorem remove_twice_corrupts:
  "is_dqueue (snd three_queue) (fst three_queue) [1, 2, 3] \<and>
   (let s = q_remove 3 (q_remove 2 three_queue) in
    q_elems s = Inr [1, 3] \<and> q_back (fst s) = Some 2)"
  by (simp add: three_queue_def is_dqueue_def is_queue_def last_opt_def q_remove_def q_elems_def
      q_elems_loop.simps q_back_def Let_def)

end
