(* ===== verification/Heap_PQ.thy ===== *)
theory Heap_PQ
  imports Prelude "HOL-Library.Multiset"
begin

text \<open>
  The \<^verbatim>\<open>std::priority_queue\<close> behind \<^verbatim>\<open>TPriQueue\<close> and \<^verbatim>\<open>PPriQueue\<close> of \<^verbatim>\<open>src/System.h\<close>: a binary
  heap in a vector, ordered by \<^verbatim>\<open>greater_time\<close>, so that the element with the least end time is
  in front.  \<open>key\<close> is the end time of an element.  The operations follow the library's
  \<^verbatim>\<open>push_heap\<close> and \<^verbatim>\<open>pop_heap\<close> (sift up; sift the hole down to a leaf and then up), because
  the runtime changes end times of elements that are in the queue, and what the queue then
  does depends on where the elements lie.
\<close>

section \<open>Operations\<close>

definition greater_time :: "('a \<Rightarrow> 'k::linorder) \<Rightarrow> 'a \<Rightarrow> 'a \<Rightarrow> bool" where
  "greater_time key x y = (key x > key y)"

function sift_up :: "('a \<Rightarrow> 'k::linorder) \<Rightarrow> 'a list \<Rightarrow> nat \<Rightarrow> 'a \<Rightarrow> 'a list" where
  "sift_up key xs hole v =
     (if 0 < hole \<and> greater_time key (xs ! ((hole - 1) div 2)) v
      then sift_up key (xs[hole := xs ! ((hole - 1) div 2)]) ((hole - 1) div 2) v
      else xs[hole := v])"
  by pat_completeness auto
termination
  by (relation "measure (\<lambda>(key, xs, hole, v). hole)") auto

definition min_child :: "('a \<Rightarrow> 'k::linorder) \<Rightarrow> 'a list \<Rightarrow> nat \<Rightarrow> nat" where
  "min_child key xs hole =
     (let c = 2 * (hole + 1) in if greater_time key (xs ! c) (xs ! (c - 1)) then c - 1 else c)"

lemma min_child_cases: "min_child key xs hole = 2 * hole + 1 \<or> min_child key xs hole = 2 * hole + 2"
  by (auto simp: min_child_def Let_def)

function adjust_heap :: "('a \<Rightarrow> 'k::linorder) \<Rightarrow> 'a list \<Rightarrow> nat \<Rightarrow> 'a \<Rightarrow> 'a list" where
  "adjust_heap key xs hole v =
     (if hole < (length xs - 1) div 2
      then adjust_heap key (xs[hole := xs ! min_child key xs hole]) (min_child key xs hole) v
      else if even (length xs) \<and> 2 \<le> length xs \<and> hole = (length xs - 2) div 2
      then sift_up key (xs[hole := xs ! (2 * (hole + 1) - 1)]) (2 * (hole + 1) - 1) v
      else sift_up key xs hole v)"
  by pat_completeness auto
termination
proof (relation "measure (\<lambda>(key, xs, hole, v). length xs - hole)")
  fix key :: "'a \<Rightarrow> 'k::linorder" and xs :: "'a list" and hole v
  assume "hole < (length xs - 1) div 2"
  then show "((key, xs[hole := xs ! min_child key xs hole], min_child key xs hole, v), key, xs, hole, v)
      \<in> measure (\<lambda>(key, xs, hole, v). length xs - hole)"
    using min_child_cases [of key xs hole] by auto
qed auto

declare sift_up.simps [simp del] adjust_heap.simps [simp del]

lemma sift_up_move:
  "0 < hole \<and> greater_time key (xs ! ((hole - 1) div 2)) v \<Longrightarrow>
   sift_up key xs hole v = sift_up key (xs[hole := xs ! ((hole - 1) div 2)]) ((hole - 1) div 2) v"
  by (subst sift_up.simps) (rule if_P)

lemma sift_up_stop:
  "\<not> (0 < hole \<and> greater_time key (xs ! ((hole - 1) div 2)) v) \<Longrightarrow> sift_up key xs hole v = xs[hole := v]"
  by (subst sift_up.simps) (rule if_not_P)

lemma adjust_heap_two:
  "hole < (length xs - 1) div 2 \<Longrightarrow> adjust_heap key xs hole v =
   adjust_heap key (xs[hole := xs ! min_child key xs hole]) (min_child key xs hole) v"
  by (subst adjust_heap.simps) (rule if_P)

lemma adjust_heap_one:
  "\<not> hole < (length xs - 1) div 2 \<Longrightarrow> even (length xs) \<and> 2 \<le> length xs \<and> hole = (length xs - 2) div 2 \<Longrightarrow>
   adjust_heap key xs hole v = sift_up key (xs[hole := xs ! (2 * (hole + 1) - 1)]) (2 * (hole + 1) - 1) v"
  by (subst adjust_heap.simps) (simp only: if_False if_True HOL.simp_thms)

lemma adjust_heap_leaf:
  "\<not> hole < (length xs - 1) div 2 \<Longrightarrow> \<not> (even (length xs) \<and> 2 \<le> length xs \<and> hole = (length xs - 2) div 2) \<Longrightarrow>
   adjust_heap key xs hole v = sift_up key xs hole v"
  by (subst adjust_heap.simps) (simp only: if_False HOL.simp_thms)

definition pq_push :: "('a \<Rightarrow> 'k::linorder) \<Rightarrow> 'a \<Rightarrow> 'a list \<Rightarrow> 'a list" where
  "pq_push key x xs = sift_up key (xs @ [x]) (length xs) x"

definition pq_top :: "'a list \<Rightarrow> 'a res" where
  "pq_top xs = nthE xs 0"

definition pq_pop :: "('a \<Rightarrow> 'k::linorder) \<Rightarrow> 'a list \<Rightarrow> 'a list" where
  "pq_pop key xs =
     (if length xs \<le> 1 then butlast xs else adjust_heap key (butlast xs) 0 (last xs))"

section \<open>Lengths and contents\<close>

lemma length_sift_up [simp]: "length (sift_up key xs hole v) = length xs"
proof (induction key xs hole v rule: sift_up.induct)
  case (1 key xs hole v)
  then show ?case by (subst sift_up.simps) simp
qed

lemma length_adjust_heap [simp]: "length (adjust_heap key xs hole v) = length xs"
proof (induction key xs hole v rule: adjust_heap.induct)
  case (1 key xs hole v)
  then show ?case by (subst adjust_heap.simps) simp
qed

lemma length_pq_push [simp]: "length (pq_push key x xs) = Suc (length xs)"
  by (simp add: pq_push_def)

lemma length_pq_pop [simp]: "length (pq_pop key xs) = length xs - 1"
  by (simp add: pq_pop_def)

lemma mset_move_hole:
  assumes "i < length xs" and "j < length xs"
  shows "mset (xs[i := xs ! j, j := v]) = mset (xs[i := v])"
  using assms by (cases "i = j") (simp_all add: mset_update nth_list_update)

lemma mset_sift_up: "hole < length xs \<Longrightarrow> mset (sift_up key xs hole v) = mset (xs[hole := v])"
proof (induction key xs hole v rule: sift_up.induct)
  case (1 key xs hole v)
  show ?case
  proof (cases "0 < hole \<and> greater_time key (xs ! ((hole - 1) div 2)) v")
    case True
    then have "mset (sift_up key xs hole v) =
        mset (xs[hole := xs ! ((hole - 1) div 2), (hole - 1) div 2 := v])"
      using 1 by (simp add: sift_up_move)
    also have "\<dots> = mset (xs[hole := v])" using 1(2) by (intro mset_move_hole) auto
    finally show ?thesis .
  next
    case False
    then show ?thesis by (simp only: sift_up_stop [OF False])
  qed
qed

lemma mset_adjust_heap: "hole < length xs \<Longrightarrow> mset (adjust_heap key xs hole v) = mset (xs[hole := v])"
proof (induction key xs hole v rule: adjust_heap.induct)
  case (1 key xs hole v)
  consider (two) "hole < (length xs - 1) div 2"
    | (one) "\<not> hole < (length xs - 1) div 2" "even (length xs) \<and> 2 \<le> length xs \<and> hole = (length xs - 2) div 2"
    | (leaf) "\<not> hole < (length xs - 1) div 2" "\<not> (even (length xs) \<and> 2 \<le> length xs \<and> hole = (length xs - 2) div 2)"
    by blast
  then show ?case
  proof cases
    case two
    then have c: "min_child key xs hole < length xs" using min_child_cases [of key xs hole] by auto
    have "mset (adjust_heap key xs hole v) =
        mset (xs[hole := xs ! min_child key xs hole, min_child key xs hole := v])"
      using 1 two c by (simp add: adjust_heap_two)
    then show ?thesis using mset_move_hole [OF 1(2) c] by simp
  next
    case one
    have c: "2 * (hole + 1) - 1 < length xs" using one by (auto elim!: evenE)
    then have "mset (adjust_heap key xs hole v) =
        mset (xs[hole := xs ! (2 * (hole + 1) - 1), 2 * (hole + 1) - 1 := v])"
      unfolding adjust_heap_one [OF one] by (simp add: mset_sift_up)
    then show ?thesis using mset_move_hole [OF 1(2) c] by simp
  next
    case leaf
    then show ?thesis using 1(2) by (simp only: adjust_heap_leaf [OF leaf] mset_sift_up)
  qed
qed

lemma mset_pq_push [simp]: "mset (pq_push key x xs) = add_mset x (mset xs)"
  by (simp add: pq_push_def mset_sift_up)

lemma mset_pq_pop:
  assumes "xs \<noteq> []"
  shows "mset xs = add_mset (xs ! 0) (mset (pq_pop key xs))"
proof (cases "length xs \<le> 1")
  case True
  then obtain x where "xs = [x]" using assms by (cases xs) auto
  then show ?thesis by (simp add: pq_pop_def)
next
  case False
  then obtain x zs where "xs = x # zs" "zs \<noteq> []" by (cases xs) auto
  then obtain ys y where xs: "xs = x # ys @ [y]" by (cases zs rule: rev_cases) auto
  then show ?thesis by (simp add: pq_pop_def mset_adjust_heap butlast_append)
qed

section \<open>The heap property\<close>

definition heap_ok :: "('a \<Rightarrow> 'k::linorder) \<Rightarrow> 'a list \<Rightarrow> bool" where
  "heap_ok key xs \<longleftrightarrow> (\<forall>i. 0 < i \<longrightarrow> i < length xs \<longrightarrow> key (xs ! ((i - 1) div 2)) \<le> key (xs ! i))"

text \<open>
  A heap with a hole: the order holds between all other elements, and also between the parent
  and the children of the hole.
\<close>

definition heap_hole :: "('a \<Rightarrow> 'k::linorder) \<Rightarrow> 'a list \<Rightarrow> nat \<Rightarrow> bool" where
  "heap_hole key xs hole \<longleftrightarrow>
     (\<forall>i. 0 < i \<longrightarrow> i < length xs \<longrightarrow> i \<noteq> hole \<longrightarrow> (i - 1) div 2 \<noteq> hole \<longrightarrow>
        key (xs ! ((i - 1) div 2)) \<le> key (xs ! i)) \<and>
     (\<forall>c. 0 < c \<longrightarrow> c < length xs \<longrightarrow> (c - 1) div 2 = hole \<longrightarrow> 0 < hole \<longrightarrow>
        key (xs ! ((hole - 1) div 2)) \<le> key (xs ! c))"

definition hole_above :: "('a \<Rightarrow> 'k::linorder) \<Rightarrow> 'a list \<Rightarrow> nat \<Rightarrow> 'a \<Rightarrow> bool" where
  "hole_above key xs hole v \<longleftrightarrow>
     (\<forall>c. 0 < c \<longrightarrow> c < length xs \<longrightarrow> (c - 1) div 2 = hole \<longrightarrow> key v \<le> key (xs ! c))"

lemma heap_holeD:
  assumes "heap_hole key xs hole"
  shows "0 < i \<Longrightarrow> i < length xs \<Longrightarrow> i \<noteq> hole \<Longrightarrow> (i - 1) div 2 \<noteq> hole \<Longrightarrow>
      key (xs ! ((i - 1) div 2)) \<le> key (xs ! i)"
    and "0 < c \<Longrightarrow> c < length xs \<Longrightarrow> (c - 1) div 2 = hole \<Longrightarrow> 0 < hole \<Longrightarrow>
      key (xs ! ((hole - 1) div 2)) \<le> key (xs ! c)"
  using assms by (auto simp: heap_hole_def)

lemma heap_hole_up:
  assumes h: "heap_hole key xs hole" and "0 < hole" "hole < length xs"
    and par: "par = (hole - 1) div 2" and v: "key v < key (xs ! par)"
  shows "heap_hole key (xs[hole := xs ! par]) par \<and> hole_above key (xs[hole := xs ! par]) par v"
proof -
  have lt: "par < hole" using assms by auto
  have parent: "0 < par \<Longrightarrow> key (xs ! ((par - 1) div 2)) \<le> key (xs ! par)"
    using heap_holeD(1) [OF h, of par] lt assms(3) by auto
  have sib: "0 < c \<Longrightarrow> c < length xs \<Longrightarrow> c \<noteq> hole \<Longrightarrow> (c - 1) div 2 = par \<Longrightarrow> key (xs ! par) \<le> key (xs ! c)" for c
    using heap_holeD(1) [OF h, of c] lt by auto
  have "key (xs[hole := xs ! par] ! ((i - 1) div 2)) \<le> key (xs[hole := xs ! par] ! i)"
    if i: "0 < i" "i < length xs" "i \<noteq> par" "(i - 1) div 2 \<noteq> par" for i
  proof (cases "(i - 1) div 2 = hole")
    case True
    then show ?thesis
      using heap_holeD(2) [OF h i(1,2) True assms(2)] i assms by (auto simp: nth_list_update)
  next
    case False
    then show ?thesis using heap_holeD(1) [OF h i(1,2)] i assms by (auto simp: nth_list_update)
  qed
  moreover have "key (xs[hole := xs ! par] ! ((par - 1) div 2)) \<le> key (xs[hole := xs ! par] ! c)"
    if "0 < c" "c < length xs" "(c - 1) div 2 = par" "0 < par" for c
  proof -
    have "key (xs ! ((par - 1) div 2)) \<le> key (xs ! (if c = hole then par else c))"
      using that parent sib [of c] order_trans by fastforce
    moreover have "(par - 1) div 2 \<noteq> hole" using lt by auto
    ultimately show ?thesis using that assms(3) by (cases "c = hole") auto
  qed
  moreover have "hole_above key (xs[hole := xs ! par]) par v"
    unfolding hole_above_def
  proof (intro allI impI)
    fix c assume "0 < c" "c < length (xs[hole := xs ! par])" "(c - 1) div 2 = par"
    then show "key v \<le> key (xs[hole := xs ! par] ! c)"
      using v sib [of c] assms(3) by (cases "c = hole") auto
  qed
  ultimately show ?thesis by (simp add: heap_hole_def)
qed

lemma heap_fill:
  assumes h: "heap_hole key xs hole" and a: "hole_above key xs hole v" and "hole < length xs"
    and top: "0 < hole \<Longrightarrow> key (xs ! ((hole - 1) div 2)) \<le> key v"
  shows "heap_ok key (xs[hole := v])"
  unfolding heap_ok_def
proof (intro allI impI)
  fix i assume i: "0 < i" "i < length (xs[hole := v])"
  have ne: "(i - 1) div 2 \<noteq> i" using i by auto
  consider "i = hole" | "i \<noteq> hole" "(i - 1) div 2 = hole" | "i \<noteq> hole" "(i - 1) div 2 \<noteq> hole" by blast
  then show "key (xs[hole := v] ! ((i - 1) div 2)) \<le> key (xs[hole := v] ! i)"
  proof cases
    case 1
    then show ?thesis using top i assms(3) ne by (auto simp: nth_list_update)
  next
    case 2
    then show ?thesis using a i by (auto simp: hole_above_def nth_list_update)
  next
    case 3
    then show ?thesis using heap_holeD(1) [OF h, of i] i by (auto simp: nth_list_update)
  qed
qed

lemma heap_sift_up:
  "heap_hole key xs hole \<Longrightarrow> hole_above key xs hole v \<Longrightarrow> hole < length xs \<Longrightarrow>
   heap_ok key (sift_up key xs hole v)"
proof (induction key xs hole v rule: sift_up.induct)
  case (1 key xs hole v)
  show ?case
  proof (cases "0 < hole \<and> greater_time key (xs ! ((hole - 1) div 2)) v")
    case True
    then have up: "heap_hole key (xs[hole := xs ! ((hole - 1) div 2)]) ((hole - 1) div 2) \<and>
        hole_above key (xs[hole := xs ! ((hole - 1) div 2)]) ((hole - 1) div 2) v"
      using 1(2,4) by (intro heap_hole_up) (auto simp: greater_time_def)
    have "heap_ok key (sift_up key (xs[hole := xs ! ((hole - 1) div 2)]) ((hole - 1) div 2) v)"
      using True up 1(4) by (intro 1(1)) auto
    then show ?thesis by (simp only: sift_up_move [OF True])
  next
    case False
    then have "heap_ok key (xs[hole := v])"
      using 1 by (intro heap_fill) (auto simp: greater_time_def)
    then show ?thesis by (simp only: sift_up_stop [OF False])
  qed
qed

lemma heap_hole_down:
  assumes h: "heap_hole key xs hole" and c: "c < length xs" "0 < c" "(c - 1) div 2 = hole"
    and least: "\<And>d. 0 < d \<Longrightarrow> d < length xs \<Longrightarrow> (d - 1) div 2 = hole \<Longrightarrow> key (xs ! c) \<le> key (xs ! d)"
  shows "heap_hole key (xs[hole := xs ! c]) c"
proof -
  have lt: "hole < c" using c by auto
  have "key (xs[hole := xs ! c] ! ((i - 1) div 2)) \<le> key (xs[hole := xs ! c] ! i)"
    if i: "0 < i" "i < length xs" "i \<noteq> c" "(i - 1) div 2 \<noteq> c" for i
  proof -
    have ne: "(i - 1) div 2 \<noteq> i" using i by auto
    consider "i = hole" | "i \<noteq> hole" "(i - 1) div 2 = hole" | "i \<noteq> hole" "(i - 1) div 2 \<noteq> hole" by blast
    then show ?thesis
    proof cases
      case 1
      then show ?thesis using heap_holeD(2) [OF h c(2,1,3)] i ne by (auto simp: nth_list_update)
    next
      case 2
      then show ?thesis using least [OF i(1,2)] i by (auto simp: nth_list_update)
    next
      case 3
      then show ?thesis using heap_holeD(1) [OF h i(1,2)] i by (auto simp: nth_list_update)
    qed
  qed
  moreover have "key (xs[hole := xs ! c] ! ((c - 1) div 2)) \<le> key (xs[hole := xs ! c] ! d)"
    if "0 < d" "d < length xs" "(d - 1) div 2 = c" for d
  proof -
    have "d \<noteq> hole" "c \<noteq> hole" using that lt by auto
    then show ?thesis using heap_holeD(1) [OF h that(1,2)] that c by (auto simp: nth_list_update)
  qed
  ultimately show ?thesis by (simp add: heap_hole_def)
qed

lemma heap_adjust: "heap_hole key xs hole \<Longrightarrow> hole < length xs \<Longrightarrow> heap_ok key (adjust_heap key xs hole v)"
proof (induction key xs hole v rule: adjust_heap.induct)
  case (1 key xs hole v)
  consider (two) "hole < (length xs - 1) div 2"
    | (one) "\<not> hole < (length xs - 1) div 2" "even (length xs) \<and> 2 \<le> length xs \<and> hole = (length xs - 2) div 2"
    | (leaf) "\<not> hole < (length xs - 1) div 2" "\<not> (even (length xs) \<and> 2 \<le> length xs \<and> hole = (length xs - 2) div 2)"
    by blast
  then show ?case
  proof cases
    case two
    let ?c = "min_child key xs hole"
    have c: "?c < length xs" "0 < ?c" "(?c - 1) div 2 = hole"
      using two min_child_cases [of key xs hole] by auto
    have "key (xs ! ?c) \<le> key (xs ! d)" if "(d - 1) div 2 = hole" "0 < d" for d
    proof -
      have "d = 2 * hole + 1 \<or> d = 2 * hole + 2" using that by auto
      then show ?thesis by (auto simp: min_child_def greater_time_def Let_def)
    qed
    then have "heap_hole key (xs[hole := xs ! ?c]) ?c" using c by (intro heap_hole_down [OF 1(2)]) auto
    then have "heap_ok key (adjust_heap key (xs[hole := xs ! ?c]) ?c v)" using c two by (intro 1(1)) auto
    then show ?thesis using two by (simp only: adjust_heap_two)
  next
    case one
    let ?c = "2 * (hole + 1) - 1"
    obtain m where m: "length xs = 2 * m" "0 < m" "hole = m - 1" using one by (auto elim!: evenE)
    have only: "d = ?c" if "(d - 1) div 2 = hole" "0 < d" "d < length xs" for d using that m by auto
    have "heap_hole key (xs[hole := xs ! ?c]) ?c"
      using m only by (intro heap_hole_down [OF 1(2)]) auto
    moreover have "hole_above key (xs[hole := xs ! ?c]) ?c v" using m by (auto simp: hole_above_def)
    ultimately have "heap_ok key (sift_up key (xs[hole := xs ! ?c]) ?c v)"
      using m by (intro heap_sift_up) auto
    then show ?thesis by (simp only: adjust_heap_one [OF one])
  next
    case leaf
    have "hole_above key xs hole v"
      unfolding hole_above_def
    proof (intro allI impI)
      fix c assume "0 < c" "c < length xs" "(c - 1) div 2 = hole"
      then have False using leaf by (cases "even (length xs)") (auto elim!: evenE oddE)
      then show "key v \<le> key (xs ! c)" ..
    qed
    then have "heap_ok key (sift_up key xs hole v)" using 1 by (intro heap_sift_up)
    then show ?thesis by (simp only: adjust_heap_leaf [OF leaf])
  qed
qed

lemma heap_push: "heap_ok key xs \<Longrightarrow> heap_ok key (pq_push key x xs)"
  unfolding pq_push_def
  by (rule heap_sift_up) (auto simp: heap_hole_def hole_above_def heap_ok_def nth_append)

lemma heap_pop:
  assumes "heap_ok key xs"
  shows "heap_ok key (pq_pop key xs)"
proof (cases "length xs \<le> 1")
  case True
  then show ?thesis by (auto simp: pq_pop_def heap_ok_def)
next
  case False
  have "heap_hole key (butlast xs) 0" using assms by (auto simp: heap_hole_def heap_ok_def nth_butlast)
  then show ?thesis using False by (simp add: pq_pop_def heap_adjust)
qed

lemma heap_top_least:
  assumes "heap_ok key xs" and "i < length xs"
  shows "key (xs ! 0) \<le> key (xs ! i)"
  using assms(2)
proof (induction i rule: less_induct)
  case (less i)
  show ?case
  proof (cases "i = 0")
    case False
    then have "key (xs ! 0) \<le> key (xs ! ((i - 1) div 2))" using less by (intro less.IH) auto
    also have "\<dots> \<le> key (xs ! i)" using assms(1) less False by (simp add: heap_ok_def)
    finally show ?thesis .
  qed simp
qed

section \<open>The contract\<close>

text \<open>Taking the front element \<open>n\<close> times.\<close>

primrec drain_by :: "('a list \<Rightarrow> 'a list) \<Rightarrow> nat \<Rightarrow> 'a list \<Rightarrow> 'a list" where
  "drain_by pop 0 xs = []"
| "drain_by pop (Suc n) xs = (if xs = [] then [] else xs ! 0 # drain_by pop n (pop xs))"

text \<open>A priority queue for one fixed assignment of end times.\<close>

locale time_queue =
  fixes key :: "'a \<Rightarrow> 'k::linorder"
    and inv :: "'a list \<Rightarrow> bool"
    and push :: "'a \<Rightarrow> 'a list \<Rightarrow> 'a list"
    and pop :: "'a list \<Rightarrow> 'a list"
  assumes inv_empty: "inv []"
    and inv_push: "inv xs \<Longrightarrow> inv (push x xs)"
    and inv_pop: "inv xs \<Longrightarrow> inv (pop xs)"
    and push_mset: "mset (push x xs) = add_mset x (mset xs)"
    and pop_mset: "xs \<noteq> [] \<Longrightarrow> mset xs = add_mset (xs ! 0) (mset (pop xs))"
    and top_least: "inv xs \<Longrightarrow> x \<in> set xs \<Longrightarrow> key (xs ! 0) \<le> key x"
begin

lemma drain_sorted:
  "inv xs \<Longrightarrow> length xs = n \<Longrightarrow> sorted (map key (drain_by pop n xs)) \<and> mset (drain_by pop n xs) = mset xs"
proof (induction n arbitrary: xs)
  case 0
  then show ?case by simp
next
  case (Suc n)
  then have ne: "xs \<noteq> []" by auto
  note ms = pop_mset [OF ne]
  have "length (pop xs) = n" using ms Suc.prems(2) by (metis add_Suc_right size_add_mset size_mset nat.inject)
  then have IH: "sorted (map key (drain_by pop n (pop xs)))" "mset (drain_by pop n (pop xs)) = mset (pop xs)"
    using Suc.IH [OF inv_pop [OF Suc.prems(1)]] by auto
  have "set (drain_by pop n (pop xs)) \<subseteq> set xs"
    using IH(2) ms by (metis mset_subset_eq_add_right set_mset_add_mset_insert set_mset_mset subset_insertI)
  then have "\<forall>y \<in> set (drain_by pop n (pop xs)). key (xs ! 0) \<le> key y"
    using top_least [OF Suc.prems(1)] by blast
  then show ?case using IH ms ne by auto
qed

end

interpretation heap: time_queue key "heap_ok key" "pq_push key" "pq_pop key"
  for key :: "'a \<Rightarrow> 'k::linorder"
proof unfold_locales
  show "key (xs ! 0) \<le> key x" if "heap_ok key xs" "x \<in> set xs" for xs x
    using that heap_top_least by (metis in_set_conv_nth)
qed (auto simp: heap_ok_def [of _ "[]"] heap_push heap_pop intro: mset_pq_pop)

text \<open>
  C9. While end times do not change, the event queue is a priority queue: a push adds exactly its element
  and a pop of a non-empty queue removes exactly the front element, both keep the heap order,
  the front element has the least end time, and emptying the queue returns its elements sorted
  by end time, each exactly once.
\<close>

theorem event_queue_sorted:
  assumes "heap_ok key xs"
  shows "heap_ok key (pq_push key x xs) \<and> mset (pq_push key x xs) = add_mset x (mset xs)
    \<and> heap_ok key (pq_pop key xs) \<and> (xs \<noteq> [] \<longrightarrow> mset xs = add_mset (xs ! 0) (mset (pq_pop key xs)))
    \<and> (\<forall>y \<in> set xs. key (xs ! 0) \<le> key y)
    \<and> sorted (map key (drain_by (pq_pop key) (length xs) xs)) \<and> mset (drain_by (pq_pop key) (length xs) xs) = mset xs"
  using heap_push [OF assms] heap_pop [OF assms] heap.top_least [OF assms]
    heap.drain_sorted [OF assms refl] mset_pq_pop [of xs key] by (intro conjI ballI impI) simp_all

theorem event_queue_sorted_witness:
  "heap_ok id [3, 5, 4 :: nat] \<and> heap_ok id (pq_push id 1 [3, 5, 4 :: nat]) \<and> mset (pq_push id 1 [3, 5, 4 :: nat]) = {#1, 3, 5, 4#}"
  using event_queue_sorted [of id "[3, 5, 4 :: nat]" 1]
  by (auto simp: heap_ok_def less_Suc_eq numeral_3_eq_3)

end
