(* ===== verification/Kernel_State.thy ===== *)
theory Kernel_State
  imports Queue_Impl Heap_PQ
begin

text \<open>
  The state of the Plasma kernel: the objects of \<^verbatim>\<open>src/Thread.h\<close>, \<^verbatim>\<open>src/ThreadQ.h\<close>,
  \<^verbatim>\<open>src/Proc.h\<close>, \<^verbatim>\<open>src/System.h\<close>, \<^verbatim>\<open>src/Cluster.h\<close> and the configuration record of
  \<^verbatim>\<open>src/Interface.h\<close>.  The C++ object graph is a store: threads, processors and the ready
  vectors are indexed by identifiers, and the two queue pointers that \<^verbatim>\<open>Thread\<close> and \<^verbatim>\<open>Proc\<close>
  inherit from \<^verbatim>\<open>QBase\<close> live in one heap each (\<open>k_tlinks\<close>, \<open>k_plinks\<close>).  The two global
  objects \<^verbatim>\<open>thesystem\<close> and \<^verbatim>\<open>thecluster\<close> are records inside the state.

  A context switch abandons the C++ stack of the thread that blocks.  What the kernel code on
  that stack does when the thread runs again is recorded as the thread's continuation.  User
  code is not modelled: a thread whose continuation is \<open>CUser\<close> may make any kernel call next.
\<close>

section \<open>Threads, processors, ready vectors\<close>

type_synonym addr = nat

datatype tstate = TDone | TReady | TBusy | TRun

datatype pstate = PWaiting | PRunning | PBusy

text \<open>
  \<open>th_thread\<close> is the saved stack pointer, \<open>th_start\<close> the user function and argument that
  \<^verbatim>\<open>QT_ARGS\<close> stored on the new stack.
\<close>

record thread =
  th_state :: tstate
  th_valid :: bool
  th_waiters :: "tid list"
  th_thread :: "addr option"
  th_stack :: "addr option"
  th_stackend :: "addr option"
  th_proc :: "pid option"
  th_priority :: nat
  th_time :: ptime
  th_starttime :: ptime
  th_pt :: "tid option"
  th_nt :: "tid option"
  th_extraspace :: "byte list"
  th_start :: "(nat \<times> nat) option"

definition thread_init :: thread where
  "thread_init = \<lparr>th_state = TRun, th_valid = True, th_waiters = [], th_thread = None,
     th_stack = None, th_stackend = None, th_proc = None, th_priority = 0, th_time = 0,
     th_starttime = 0, th_pt = None, th_nt = None, th_extraspace = [], th_start = None\<rparr>"

definition th_done :: "thread \<Rightarrow> bool" where
  "th_done t = (th_state t = TDone)"

definition th_endtime :: "thread \<Rightarrow> ptime" where
  "th_endtime t = th_starttime t + th_time t"

record qvect =
  qv_queues :: "queue list"
  qv_count :: int

definition qvect_init :: "nat \<Rightarrow> qvect" where
  "qvect_init np = \<lparr>qv_queues = replicate np queue_init, qv_count = 0\<rparr>"

definition thread_empty :: "qvect \<Rightarrow> bool" where
  "thread_empty v = (qv_count v = 0)"

definition thread_size :: "qvect \<Rightarrow> u32" where
  "thread_size v = of_int (qv_count v)"

record proc =
  pr_name :: "string option"
  pr_ready :: qvid
  pr_busythread :: "tid option"
  pr_state :: pstate

section \<open>The global objects\<close>

record config =
  cp_stacksize :: int
  cp_verbose :: bool
  cp_preempt :: bool
  cp_timeslice :: u32
  cp_numpriorities :: int
  cp_busyokay :: bool
  cp_simtimeslice :: ptime

definition StackMin :: int where "StackMin = 0x8000"

definition config_init :: config where
  "config_init = \<lparr>cp_stacksize = StackMin, cp_verbose = False, cp_preempt = True,
     cp_timeslice = 50000, cp_numpriorities = 32, cp_busyokay = False, cp_simtimeslice = 10\<rparr>"

record system =
  sy_size :: int
  sy_code :: int
  sy_wantshutdown :: bool
  sy_busyokay :: bool
  sy_active_list :: "tid option"
  sy_time :: ptime
  sy_delay :: "tid list"
  sy_busy :: "pid list"

definition system_init :: system where
  "system_init = \<lparr>sy_size = 0x1000, sy_code = 0, sy_wantshutdown = False, sy_busyokay = False,
     sy_active_list = None, sy_time = 0, sy_delay = [], sy_busy = []\<rparr>"

text \<open>
  \<open>cl_alarm_blocked\<close> is the signal mask for the alarm signal, \<open>cl_alarm\<close> the interval of the
  virtual timer.
\<close>

record cluster =
  cl_preemptOkay :: bool
  cl_timeslice :: u32
  cl_busyts :: ptime
  cl_procs :: queue
  cl_curproc :: "pid option"
  cl_main :: tid
  cl_cur :: "tid option"
  cl_kernel :: bool
  cl_alarm_blocked :: bool
  cl_alarm :: u32

section \<open>The kernel state\<close>

text \<open>
  What a thread does when it is switched to again: return to user code, return from the
  preemption handler, run the scheduler loop, or continue the loop of \<^verbatim>\<open>busy\<close> (with the time
  still to use and the time slice) or of \<^verbatim>\<open>busysleep\<close>.
\<close>

datatype cont = CUser | CPreempt | CSched | CBusy ptime ptime | CBusySleep ptime

text \<open>
  \<open>k_ntid\<close>, \<open>k_npid\<close>, \<open>k_nqv\<close> are the identifiers \<^verbatim>\<open>new\<close> returns next; \<open>k_stacks\<close> are the
  stacks allocated and not yet freed; \<open>k_sp\<close> is the machine's stack pointer.
\<close>

record kernel =
  k_threads :: "tid \<Rightarrow> thread"
  k_procs :: "pid \<Rightarrow> proc"
  k_qvects :: "qvid \<Rightarrow> qvect"
  k_tlinks :: qheap
  k_plinks :: qheap
  k_sys :: system
  k_cl :: cluster
  k_numpri :: nat
  k_ntid :: nat
  k_npid :: nat
  k_nqv :: nat
  k_stacks :: "addr list"
  k_sp :: addr
  k_cont :: "tid \<Rightarrow> cont"

definition upd_th :: "tid \<Rightarrow> (thread \<Rightarrow> thread) \<Rightarrow> kernel \<Rightarrow> kernel" where
  "upd_th t f k = k\<lparr>k_threads := (k_threads k)(t := f (k_threads k t))\<rparr>"

definition upd_pr :: "pid \<Rightarrow> (proc \<Rightarrow> proc) \<Rightarrow> kernel \<Rightarrow> kernel" where
  "upd_pr p f k = k\<lparr>k_procs := (k_procs k)(p := f (k_procs k p))\<rparr>"

definition upd_qv :: "qvid \<Rightarrow> (qvect \<Rightarrow> qvect) \<Rightarrow> kernel \<Rightarrow> kernel" where
  "upd_qv v f k = k\<lparr>k_qvects := (k_qvects k)(v := f (k_qvects k v))\<rparr>"

definition upd_sys :: "(system \<Rightarrow> system) \<Rightarrow> kernel \<Rightarrow> kernel" where
  "upd_sys f k = k\<lparr>k_sys := f (k_sys k)\<rparr>"

definition upd_cl :: "(cluster \<Rightarrow> cluster) \<Rightarrow> kernel \<Rightarrow> kernel" where
  "upd_cl f k = k\<lparr>k_cl := f (k_cl k)\<rparr>"

definition set_tlinks :: "qheap \<Rightarrow> kernel \<Rightarrow> kernel" where
  "set_tlinks h k = k\<lparr>k_tlinks := h\<rparr>"

definition set_plinks :: "qheap \<Rightarrow> kernel \<Rightarrow> kernel" where
  "set_plinks h k = k\<lparr>k_plinks := h\<rparr>"

definition set_cont :: "tid \<Rightarrow> cont \<Rightarrow> kernel \<Rightarrow> kernel" where
  "set_cont t c k = k\<lparr>k_cont := (k_cont k)(t := c)\<rparr>"

lemma upd_th_sel [simp]:
  "k_threads (upd_th t f k) = (k_threads k)(t := f (k_threads k t))"
  "k_procs (upd_th t f k) = k_procs k"
  "k_qvects (upd_th t f k) = k_qvects k"
  "k_tlinks (upd_th t f k) = k_tlinks k"
  "k_plinks (upd_th t f k) = k_plinks k"
  "k_sys (upd_th t f k) = k_sys k"
  "k_cl (upd_th t f k) = k_cl k"
  "k_numpri (upd_th t f k) = k_numpri k"
  "k_ntid (upd_th t f k) = k_ntid k"
  "k_npid (upd_th t f k) = k_npid k"
  "k_nqv (upd_th t f k) = k_nqv k"
  "k_stacks (upd_th t f k) = k_stacks k"
  "k_sp (upd_th t f k) = k_sp k"
  "k_cont (upd_th t f k) = k_cont k"
  by (simp_all add: upd_th_def)

lemma upd_pr_sel [simp]:
  "k_threads (upd_pr p f k) = k_threads k"
  "k_procs (upd_pr p f k) = (k_procs k)(p := f (k_procs k p))"
  "k_qvects (upd_pr p f k) = k_qvects k"
  "k_tlinks (upd_pr p f k) = k_tlinks k"
  "k_plinks (upd_pr p f k) = k_plinks k"
  "k_sys (upd_pr p f k) = k_sys k"
  "k_cl (upd_pr p f k) = k_cl k"
  "k_numpri (upd_pr p f k) = k_numpri k"
  "k_ntid (upd_pr p f k) = k_ntid k"
  "k_npid (upd_pr p f k) = k_npid k"
  "k_nqv (upd_pr p f k) = k_nqv k"
  "k_stacks (upd_pr p f k) = k_stacks k"
  "k_sp (upd_pr p f k) = k_sp k"
  "k_cont (upd_pr p f k) = k_cont k"
  by (simp_all add: upd_pr_def)

lemma upd_qv_sel [simp]:
  "k_threads (upd_qv v f k) = k_threads k"
  "k_procs (upd_qv v f k) = k_procs k"
  "k_qvects (upd_qv v f k) = (k_qvects k)(v := f (k_qvects k v))"
  "k_tlinks (upd_qv v f k) = k_tlinks k"
  "k_plinks (upd_qv v f k) = k_plinks k"
  "k_sys (upd_qv v f k) = k_sys k"
  "k_cl (upd_qv v f k) = k_cl k"
  "k_numpri (upd_qv v f k) = k_numpri k"
  "k_ntid (upd_qv v f k) = k_ntid k"
  "k_npid (upd_qv v f k) = k_npid k"
  "k_nqv (upd_qv v f k) = k_nqv k"
  "k_stacks (upd_qv v f k) = k_stacks k"
  "k_sp (upd_qv v f k) = k_sp k"
  "k_cont (upd_qv v f k) = k_cont k"
  by (simp_all add: upd_qv_def)

lemma upd_sys_sel [simp]:
  "k_threads (upd_sys f k) = k_threads k"
  "k_procs (upd_sys f k) = k_procs k"
  "k_qvects (upd_sys f k) = k_qvects k"
  "k_tlinks (upd_sys f k) = k_tlinks k"
  "k_plinks (upd_sys f k) = k_plinks k"
  "k_sys (upd_sys f k) = f (k_sys k)"
  "k_cl (upd_sys f k) = k_cl k"
  "k_numpri (upd_sys f k) = k_numpri k"
  "k_ntid (upd_sys f k) = k_ntid k"
  "k_npid (upd_sys f k) = k_npid k"
  "k_nqv (upd_sys f k) = k_nqv k"
  "k_stacks (upd_sys f k) = k_stacks k"
  "k_sp (upd_sys f k) = k_sp k"
  "k_cont (upd_sys f k) = k_cont k"
  by (simp_all add: upd_sys_def)

lemma upd_cl_sel [simp]:
  "k_threads (upd_cl f k) = k_threads k"
  "k_procs (upd_cl f k) = k_procs k"
  "k_qvects (upd_cl f k) = k_qvects k"
  "k_tlinks (upd_cl f k) = k_tlinks k"
  "k_plinks (upd_cl f k) = k_plinks k"
  "k_sys (upd_cl f k) = k_sys k"
  "k_cl (upd_cl f k) = f (k_cl k)"
  "k_numpri (upd_cl f k) = k_numpri k"
  "k_ntid (upd_cl f k) = k_ntid k"
  "k_npid (upd_cl f k) = k_npid k"
  "k_nqv (upd_cl f k) = k_nqv k"
  "k_stacks (upd_cl f k) = k_stacks k"
  "k_sp (upd_cl f k) = k_sp k"
  "k_cont (upd_cl f k) = k_cont k"
  by (simp_all add: upd_cl_def)

lemma set_tlinks_sel [simp]:
  "k_threads (set_tlinks h k) = k_threads k"
  "k_procs (set_tlinks h k) = k_procs k"
  "k_qvects (set_tlinks h k) = k_qvects k"
  "k_tlinks (set_tlinks h k) = h"
  "k_plinks (set_tlinks h k) = k_plinks k"
  "k_sys (set_tlinks h k) = k_sys k"
  "k_cl (set_tlinks h k) = k_cl k"
  "k_numpri (set_tlinks h k) = k_numpri k"
  "k_ntid (set_tlinks h k) = k_ntid k"
  "k_npid (set_tlinks h k) = k_npid k"
  "k_nqv (set_tlinks h k) = k_nqv k"
  "k_stacks (set_tlinks h k) = k_stacks k"
  "k_sp (set_tlinks h k) = k_sp k"
  "k_cont (set_tlinks h k) = k_cont k"
  by (simp_all add: set_tlinks_def)

lemma set_plinks_sel [simp]:
  "k_threads (set_plinks h k) = k_threads k"
  "k_procs (set_plinks h k) = k_procs k"
  "k_qvects (set_plinks h k) = k_qvects k"
  "k_tlinks (set_plinks h k) = k_tlinks k"
  "k_plinks (set_plinks h k) = h"
  "k_sys (set_plinks h k) = k_sys k"
  "k_cl (set_plinks h k) = k_cl k"
  "k_numpri (set_plinks h k) = k_numpri k"
  "k_ntid (set_plinks h k) = k_ntid k"
  "k_npid (set_plinks h k) = k_npid k"
  "k_nqv (set_plinks h k) = k_nqv k"
  "k_stacks (set_plinks h k) = k_stacks k"
  "k_sp (set_plinks h k) = k_sp k"
  "k_cont (set_plinks h k) = k_cont k"
  by (simp_all add: set_plinks_def)

lemma set_cont_sel [simp]:
  "k_threads (set_cont t c k) = k_threads k"
  "k_procs (set_cont t c k) = k_procs k"
  "k_qvects (set_cont t c k) = k_qvects k"
  "k_tlinks (set_cont t c k) = k_tlinks k"
  "k_plinks (set_cont t c k) = k_plinks k"
  "k_sys (set_cont t c k) = k_sys k"
  "k_cl (set_cont t c k) = k_cl k"
  "k_numpri (set_cont t c k) = k_numpri k"
  "k_ntid (set_cont t c k) = k_ntid k"
  "k_npid (set_cont t c k) = k_npid k"
  "k_nqv (set_cont t c k) = k_nqv k"
  "k_stacks (set_cont t c k) = k_stacks k"
  "k_sp (set_cont t c k) = k_sp k"
  "k_cont (set_cont t c k) = (k_cont k)(t := c)"
  by (simp_all add: set_cont_def)

section \<open>Observers\<close>

definition proc_empty :: "kernel \<Rightarrow> pid \<Rightarrow> bool" where
  "proc_empty k p = thread_empty (k_qvects k (pr_ready (k_procs k p)))"

definition proc_size :: "kernel \<Rightarrow> pid \<Rightarrow> u32" where
  "proc_size k p = thread_size (k_qvects k (pr_ready (k_procs k p)))"

definition proc_endtime :: "kernel \<Rightarrow> pid \<Rightarrow> ptime" where
  "proc_endtime k p = (case pr_busythread (k_procs k p) of
     Some t \<Rightarrow> th_endtime (k_threads k t) | None \<Rightarrow> 0)"

definition thread_endtime :: "kernel \<Rightarrow> tid \<Rightarrow> ptime" where
  "thread_endtime k t = th_endtime (k_threads k t)"

definition cl_lock :: "kernel \<Rightarrow> kernel" where
  "cl_lock = upd_cl (\<lambda>c. c\<lparr>cl_kernel := True\<rparr>)"

definition cl_unlock :: "kernel \<Rightarrow> kernel" where
  "cl_unlock = upd_cl (\<lambda>c. c\<lparr>cl_kernel := False\<rparr>)"

definition cl_locked :: "kernel \<Rightarrow> bool" where
  "cl_locked k = cl_kernel (k_cl k)"

definition cl_setCur :: "tid option \<Rightarrow> kernel \<Rightarrow> kernel" where
  "cl_setCur t = upd_cl (\<lambda>c. c\<lparr>cl_cur := t\<rparr>)"

definition cl_in_scheduler :: "kernel \<Rightarrow> bool" where
  "cl_in_scheduler k = (cl_cur (k_cl k) = Some (cl_main (k_cl k)))"

lemma cl_lock_sel [simp]:
  "k_threads (cl_lock k) = k_threads k"
  "k_procs (cl_lock k) = k_procs k"
  "k_qvects (cl_lock k) = k_qvects k"
  "k_tlinks (cl_lock k) = k_tlinks k"
  "k_plinks (cl_lock k) = k_plinks k"
  "k_sys (cl_lock k) = k_sys k"
  "k_cl (cl_lock k) = (k_cl k)\<lparr>cl_kernel := True\<rparr>"
  "k_numpri (cl_lock k) = k_numpri k"
  "k_ntid (cl_lock k) = k_ntid k"
  "k_npid (cl_lock k) = k_npid k"
  "k_nqv (cl_lock k) = k_nqv k"
  "k_stacks (cl_lock k) = k_stacks k"
  "k_sp (cl_lock k) = k_sp k"
  "k_cont (cl_lock k) = k_cont k"
  by (simp_all add: cl_lock_def)

lemma cl_unlock_sel [simp]:
  "k_threads (cl_unlock k) = k_threads k"
  "k_procs (cl_unlock k) = k_procs k"
  "k_qvects (cl_unlock k) = k_qvects k"
  "k_tlinks (cl_unlock k) = k_tlinks k"
  "k_plinks (cl_unlock k) = k_plinks k"
  "k_sys (cl_unlock k) = k_sys k"
  "k_cl (cl_unlock k) = (k_cl k)\<lparr>cl_kernel := False\<rparr>"
  "k_numpri (cl_unlock k) = k_numpri k"
  "k_ntid (cl_unlock k) = k_ntid k"
  "k_npid (cl_unlock k) = k_npid k"
  "k_nqv (cl_unlock k) = k_nqv k"
  "k_stacks (cl_unlock k) = k_stacks k"
  "k_sp (cl_unlock k) = k_sp k"
  "k_cont (cl_unlock k) = k_cont k"
  by (simp_all add: cl_unlock_def)

lemma cl_setCur_sel [simp]:
  "k_threads (cl_setCur t k) = k_threads k"
  "k_procs (cl_setCur t k) = k_procs k"
  "k_qvects (cl_setCur t k) = k_qvects k"
  "k_tlinks (cl_setCur t k) = k_tlinks k"
  "k_plinks (cl_setCur t k) = k_plinks k"
  "k_sys (cl_setCur t k) = k_sys k"
  "k_cl (cl_setCur t k) = (k_cl k)\<lparr>cl_cur := t\<rparr>"
  "k_numpri (cl_setCur t k) = k_numpri k"
  "k_ntid (cl_setCur t k) = k_ntid k"
  "k_npid (cl_setCur t k) = k_npid k"
  "k_nqv (cl_setCur t k) = k_nqv k"
  "k_stacks (cl_setCur t k) = k_stacks k"
  "k_sp (cl_setCur t k) = k_sp k"
  "k_cont (cl_setCur t k) = k_cont k"
  by (simp_all add: cl_setCur_def)

end
