(* ===== verification/Thread_Ops.thy ===== *)
theory Thread_Ops
  imports Kernel_State
begin

text \<open>
  Threads (\<^verbatim>\<open>src/Thread.C\<close>) and the list of active threads kept for the garbage collector
  (\<^verbatim>\<open>src/System.C\<close>): waiters, allocation and release of a thread's stack, the doubly linked
  active list, and the roots the collector is told about.
\<close>

section \<open>Stacks\<close>

text \<open>The stack layout macros of \<^verbatim>\<open>qt/qt.h\<close> for the i386 (\<^verbatim>\<open>qt/md/i386.h\<close>).\<close>

definition QT_STKALIGN :: nat where "QT_STKALIGN = 4"
definition QT_STKBASE :: nat where "QT_STKBASE = 9 * 4"

definition STP_STKALIGN :: "addr \<Rightarrow> nat \<Rightarrow> addr" where
  "STP_STKALIGN sp alignment = (sp + alignment - 1) - (sp + alignment - 1) mod alignment"

definition QT_SP :: "addr \<Rightarrow> int \<Rightarrow> int" where
  "QT_SP sto sz = int sto + sz"

definition QT_ADJ :: "int \<Rightarrow> int" where
  "QT_ADJ sp = sp - int QT_STKBASE"

text \<open>\<open>stk\<close> is the address the allocator returned.\<close>

definition sys_newstack :: "addr \<Rightarrow> kernel \<Rightarrow> kernel" where
  "sys_newstack stk k = k\<lparr>k_stacks := stk # k_stacks k\<rparr>"

definition sys_dispose :: "addr option \<Rightarrow> kernel \<Rightarrow> kernel" where
  "sys_dispose st k = (case st of None \<Rightarrow> k | Some a \<Rightarrow> k\<lparr>k_stacks := remove1 a (k_stacks k)\<rparr>)"

section \<open>The active list\<close>

definition sys_add_active_thread :: "tid \<Rightarrow> kernel \<Rightarrow> kernel" where
  "sys_add_active_thread x k =
     (let k = upd_th x (\<lambda>r. r\<lparr>th_nt := sy_active_list (k_sys k)\<rparr>) k;
          k = upd_th x (\<lambda>r. r\<lparr>th_pt := None\<rparr>) k;
          k = (case sy_active_list (k_sys k) of
                 Some a \<Rightarrow> upd_th a (\<lambda>r. r\<lparr>th_pt := Some x\<rparr>) k
               | None \<Rightarrow> k)
      in upd_sys (\<lambda>s. s\<lparr>sy_active_list := Some x\<rparr>) k)"

definition sys_remove_active_thread :: "tid \<Rightarrow> kernel \<Rightarrow> kernel" where
  "sys_remove_active_thread x k =
     (let k = (case th_pt (k_threads k x) of
            Some t \<Rightarrow> upd_th t (\<lambda>r. r\<lparr>th_nt := th_nt (k_threads k x)\<rparr>) k
          | None \<Rightarrow>
              let k = upd_sys (\<lambda>s. s\<lparr>sy_active_list := th_nt (k_threads k x)\<rparr>) k
              in (case sy_active_list (k_sys k) of
                    Some a \<Rightarrow> upd_th a (\<lambda>r. r\<lparr>th_pt := None\<rparr>) k
                  | None \<Rightarrow> k));
          k = upd_th x (\<lambda>r. r\<lparr>th_nt := None\<rparr>) k
      in upd_th x (\<lambda>r. r\<lparr>th_pt := None\<rparr>) k)"

partial_function (option) num_active_loop :: "kernel \<Rightarrow> tid option \<Rightarrow> u32 \<Rightarrow> u32 option" where
  "num_active_loop k n c = (case n of
       None \<Rightarrow> Some c
     | Some t \<Rightarrow> num_active_loop k (th_nt (k_threads k t)) (c + 1))"

definition sys_num_active_threads :: "kernel \<Rightarrow> u32 res" where
  "sys_num_active_threads k = returnsE (num_active_loop k (sy_active_list (k_sys k)) 0)"

text \<open>The stack ranges handed to \<^verbatim>\<open>GC_push_all_stack\<close>, in order.\<close>

partial_function (option) roots_loop :: "kernel \<Rightarrow> tid option \<Rightarrow> (addr \<times> addr) list option" where
  "roots_loop k n = (case n of
       None \<Rightarrow> Some []
     | Some t \<Rightarrow> Option.bind (roots_loop k (th_nt (k_threads k t))) (\<lambda>rs.
         Some ((case (th_thread (k_threads k t), th_stackend (k_threads k t)) of
            (Some b, Some e) \<Rightarrow> [(b, e + 1)] | _ \<Rightarrow> []) @ rs)))"

definition sys_push_other_roots :: "kernel \<Rightarrow> (addr \<times> addr) list res" where
  "sys_push_other_roots k = returnsE (roots_loop k (sy_active_list (k_sys k)))"

section \<open>Threads\<close>

definition th_add_waiter :: "tid \<Rightarrow> tid \<Rightarrow> kernel \<Rightarrow> kernel" where
  "th_add_waiter t w = upd_th t (\<lambda>r. r\<lparr>th_waiters := th_waiters r @ [w]\<rparr>)"

definition th_get_waiter :: "tid \<Rightarrow> kernel \<Rightarrow> tid option \<times> kernel" where
  "th_get_waiter t k =
     (let ws = th_waiters (k_threads k t) in
      if ws = [] then (None, k)
      else (Some (last ws), upd_th t (\<lambda>r. r\<lparr>th_waiters := butlast (th_waiters r)\<rparr>) k))"

definition th_get_waiter_item :: "tid \<Rightarrow> tid \<Rightarrow> kernel \<Rightarrow> tid option \<times> kernel" where
  "th_get_waiter_item t w k =
     (if w \<in> set (th_waiters (k_threads k t))
      then (Some w, upd_th t (\<lambda>r. r\<lparr>th_waiters := remove1 w (th_waiters r)\<rparr>) k)
      else (None, k))"

definition th_save :: "tid \<Rightarrow> addr \<Rightarrow> kernel \<Rightarrow> kernel" where
  "th_save t sptr = upd_th t (\<lambda>r. r\<lparr>th_thread := Some sptr\<rparr>)"

definition th_setStackEnd :: "tid \<Rightarrow> kernel \<Rightarrow> kernel" where
  "th_setStackEnd t k = upd_th t (\<lambda>r. r\<lparr>th_stackend := Some (k_sp k)\<rparr>) k"

definition th_setProc :: "tid \<Rightarrow> pid option \<Rightarrow> kernel \<Rightarrow> kernel" where
  "th_setProc t p = upd_th t (\<lambda>r. r\<lparr>th_proc := p\<rparr>)"

definition th_setState :: "tid \<Rightarrow> tstate \<Rightarrow> kernel \<Rightarrow> kernel" where
  "th_setState t s = upd_th t (\<lambda>r. r\<lparr>th_state := s\<rparr>)"

definition th_realize :: "tid \<Rightarrow> nat \<Rightarrow> nat \<Rightarrow> addr \<Rightarrow> kernel \<Rightarrow> kernel" where
  "th_realize t f arg stk k =
     (let k = sys_newstack stk k;
          k = upd_th t (\<lambda>r. r\<lparr>th_stack := Some stk\<rparr>) k;
          sto = STP_STKALIGN stk QT_STKALIGN;
          sp = QT_SP sto (sy_size (k_sys k) - int QT_STKALIGN);
          k = upd_th t (\<lambda>r. r\<lparr>th_thread := Some (nat (QT_ADJ sp)), th_start := Some (f, arg)\<rparr>) k
      in sys_add_active_thread t k)"

definition th_destroy :: "tid \<Rightarrow> kernel \<Rightarrow> kernel" where
  "th_destroy t k =
     (let k = sys_dispose (th_stack (k_threads k t)) k;
          k = upd_th t (\<lambda>r. r\<lparr>th_stack := None\<rparr>) k;
          k = th_setState t TDone k
      in sys_remove_active_thread t k)"

section \<open>Static initialisation\<close>

text \<open>
  The state after the constructors of \<^verbatim>\<open>thesystem\<close> and \<^verbatim>\<open>thecluster\<close>.  The main thread is a
  member of the cluster; it has identifier 0.  \<open>bottom\<close> is the stack bottom reported by the
  garbage collector.
\<close>

definition cluster_init :: cluster where
  "cluster_init = \<lparr>cl_preemptOkay = True, cl_timeslice = 0, cl_busyts = 0, cl_procs = queue_init,
     cl_curproc = None, cl_main = 0, cl_cur = None, cl_kernel = True, cl_alarm_blocked = False,
     cl_alarm = 0\<rparr>"

definition proc_init :: "string option \<Rightarrow> qvid \<Rightarrow> proc" where
  "proc_init n v = \<lparr>pr_name = n, pr_ready = v, pr_busythread = None, pr_state = PWaiting\<rparr>"

definition kernel_init :: "addr \<Rightarrow> kernel" where
  "kernel_init bottom =
     (let k = \<lparr>k_threads = (\<lambda>_. thread_init), k_procs = (\<lambda>_. proc_init None 0),
        k_qvects = (\<lambda>_. qvect_init 0), k_tlinks = empty_qheap, k_plinks = empty_qheap,
        k_sys = system_init, k_cl = cluster_init, k_numpri = 0, k_ntid = 1, k_npid = 0, k_nqv = 0,
        k_stacks = [], k_sp = bottom, k_cont = (\<lambda>_. CUser)\<rparr>;
          k = set_cont 0 CSched k;
          k = sys_add_active_thread 0 k
      in upd_th 0 (\<lambda>r. r\<lparr>th_thread := Some bottom\<rparr>) k)"

section \<open>Correctness of the active list\<close>

abbreviation nt_of :: "kernel \<Rightarrow> tid \<Rightarrow> tid option" where
  "nt_of k \<equiv> \<lambda>t. th_nt (k_threads k t)"

abbreviation pt_of :: "kernel \<Rightarrow> tid \<Rightarrow> tid option" where
  "pt_of k \<equiv> \<lambda>t. th_pt (k_threads k t)"

definition active_fwd :: "kernel \<Rightarrow> tid list \<Rightarrow> bool" where
  "active_fwd k xs \<longleftrightarrow> distinct xs \<and> chain (nt_of k) (sy_active_list (k_sys k)) xs None"

definition active_rep :: "kernel \<Rightarrow> tid list \<Rightarrow> bool" where
  "active_rep k xs \<longleftrightarrow> active_fwd k xs \<and> back_linked (pt_of k) None xs"

lemma chain_fields:
  "(\<And>x. x \<in> set xs \<Longrightarrow> nx' x = nx x) \<Longrightarrow> chain nx p xs r \<Longrightarrow> chain nx' p xs r"
  using chain_cong [of xs nx' nx] by auto

lemma back_linked_fields:
  "(\<And>x. x \<in> set xs \<Longrightarrow> pv' x = pv x) \<Longrightarrow> back_linked pv p xs \<Longrightarrow> back_linked pv' p xs"
  using back_linked_cong [of xs pv' pv] by auto

lemma add_active_links:
  assumes "sy_active_list (k_sys k) = Some a" and "a \<noteq> x"
  shows "nt_of (sys_add_active_thread x k) = (nt_of k)(x := Some a)"
    and "pt_of (sys_add_active_thread x k) = (pt_of k)(x := None, a := Some x)"
    and "sy_active_list (k_sys (sys_add_active_thread x k)) = Some x"
  using assms by (auto simp: sys_add_active_thread_def Let_def fun_eq_iff)

lemma active_add:
  assumes "active_rep k xs" and "x \<notin> set xs"
  shows "active_rep (sys_add_active_thread x k) (x # xs)"
proof (cases xs)
  case Nil
  then show ?thesis using assms
    by (auto simp: active_rep_def active_fwd_def sys_add_active_thread_def Let_def)
next
  case (Cons a as)
  then have act: "sy_active_list (k_sys k) = Some a" and "a \<noteq> x"
    using assms by (auto simp: active_rep_def active_fwd_def)
  then show ?thesis using assms Cons
    by (auto simp: active_rep_def active_fwd_def add_active_links)
qed

lemma remove_active_links:
  assumes "th_pt (k_threads k x) = Some t" and "t \<noteq> x"
  shows "nt_of (sys_remove_active_thread x k) = (nt_of k)(t := nt_of k x, x := None)"
    and "pt_of (sys_remove_active_thread x k) = (pt_of k)(x := None)"
    and "sy_active_list (k_sys (sys_remove_active_thread x k)) = sy_active_list (k_sys k)"
  using assms by (auto simp: sys_remove_active_thread_def fun_eq_iff)

lemma remove_active_head_links:
  assumes "th_pt (k_threads k x) = None" and "th_nt (k_threads k x) \<noteq> Some x"
  shows "nt_of (sys_remove_active_thread x k) = (nt_of k)(x := None)"
    and "pt_of (sys_remove_active_thread x k) = (case nt_of k x of
      None \<Rightarrow> (pt_of k)(x := None) | Some a \<Rightarrow> (pt_of k)(a := None, x := None))"
    and "sy_active_list (k_sys (sys_remove_active_thread x k)) = nt_of k x"
  using assms by (auto simp: sys_remove_active_thread_def Let_def fun_eq_iff split: option.splits)

lemma remove_active_head:
  assumes "active_rep k (x # xs)"
  shows "active_rep (sys_remove_active_thread x k) xs"
proof -
  have p: "th_pt (k_threads k x) = None" and n: "th_nt (k_threads k x) \<noteq> Some x"
    using assms by (cases xs; auto simp: active_rep_def active_fwd_def)+
  show ?thesis using assms
    by (cases xs) (auto simp: active_rep_def active_fwd_def remove_active_head_links [OF p n])
qed

lemma remove_active_inner:
  assumes rep: "active_rep k (as @ x # bs)" and "as \<noteq> []"
  shows "active_fwd (sys_remove_active_thread x k) (as @ bs)"
    and "bs = [] \<Longrightarrow> active_rep (sys_remove_active_thread x k) (as @ bs)"
    and "bs \<noteq> [] \<Longrightarrow> pt_of (sys_remove_active_thread x k) (hd bs) = Some x"
proof -
  obtain as' c where as: "as = as' @ [c]" using assms(2) by (cases as rule: rev_cases) auto
  have d: "distinct (as' @ c # x # bs)" and p: "pt_of k x = Some c"
    and ch: "chain (nt_of k) (sy_active_list (k_sys k)) (as' @ c # x # bs) None"
    and bl: "back_linked (pt_of k) None (as' @ c # x # bs)"
    using rep as by (auto simp: active_rep_def active_fwd_def)
  have "c \<noteq> x" using d by auto
  note upd = remove_active_links [OF p this]
  show fwd: "active_fwd (sys_remove_active_thread x k) (as @ bs)"
    using d ch by (auto simp: active_fwd_def upd as)
  show "active_rep (sys_remove_active_thread x k) (as @ bs)" if "bs = []"
    using fwd that d bl by (auto simp: active_rep_def upd as)
  show "pt_of (sys_remove_active_thread x k) (hd bs) = Some x" if "bs \<noteq> []"
    using that d bl by (cases bs) (auto simp: fun_cong [OF upd(2)])
qed

lemma num_active_chain:
  "chain (nt_of k) p xs None \<Longrightarrow> num_active_loop k p c = Some (c + of_nat (length xs))"
proof (induction xs arbitrary: p c)
  case Nil
  then show ?case by (simp add: num_active_loop.simps)
next
  case (Cons x xs)
  then have "num_active_loop k p c = num_active_loop k (nt_of k x) (c + 1)"
    by (subst num_active_loop.simps) simp
  with Cons show ?case by (simp add: algebra_simps)
qed

lemma roots_chain:
  "chain (nt_of k) p xs None \<Longrightarrow> roots_loop k p = Some (concat (map (\<lambda>t.
     case (th_thread (k_threads k t), th_stackend (k_threads k t)) of
       (Some b, Some e) \<Rightarrow> [(b, e + 1)] | _ \<Rightarrow> []) xs))"
proof (induction xs arbitrary: p)
  case Nil
  then show ?case by (simp add: roots_loop.simps)
next
  case (Cons x xs)
  then show ?case by (subst roots_loop.simps) simp
qed

text \<open>
  C34. The collector sees every active thread: while the active list holds the threads \<open>xs\<close>, the walk
  over it ends, counts them, and reports the stack range of exactly those that have a saved
  stack pointer and a stack end; creating a thread adds it to the list.
\<close>

theorem roots_of_active_threads:
  assumes "active_rep k xs"
  shows "sys_num_active_threads k = Inr (of_nat (length xs)) \<and>
    (\<exists>rs. sys_push_other_roots k = Inr rs \<and>
      set rs = {(b, e + 1) | t b e. t \<in> set xs \<and> th_thread (k_threads k t) = Some b \<and>
                                    th_stackend (k_threads k t) = Some e}) \<and>
    (x \<notin> set xs \<longrightarrow> active_rep (sys_add_active_thread x k) (x # xs))"
proof -
  have c: "chain (nt_of k) (sy_active_list (k_sys k)) xs None"
    using assms by (simp add: active_rep_def active_fwd_def)
  have "sys_num_active_threads k = Inr (of_nat (length xs))"
    using num_active_chain [OF c, of 0] by (simp add: sys_num_active_threads_def)
  moreover have "\<exists>rs. sys_push_other_roots k = Inr rs \<and>
      set rs = {(b, e + 1) | t b e. t \<in> set xs \<and> th_thread (k_threads k t) = Some b \<and>
                                    th_stackend (k_threads k t) = Some e}"
    using roots_chain [OF c] by (fastforce simp: sys_push_other_roots_def split: option.splits)
  ultimately show ?thesis using active_add [OF assms] by blast
qed

definition boot_active :: kernel where
  "boot_active = sys_add_active_thread 1 (sys_add_active_thread 2 (sys_add_active_thread 3 (kernel_init 64)))"

lemma boot_active_rep: "active_rep boot_active [1, 2, 3, 0]"
proof -
  have "active_rep (kernel_init 64) [0]"
    by (simp add: active_rep_def active_fwd_def kernel_init_def sys_add_active_thread_def Let_def
        system_init_def thread_init_def)
  then show ?thesis unfolding boot_active_def by (intro active_add) auto
qed

theorem roots_of_active_threads_witness:
  "active_rep boot_active [1, 2, 3, 0] \<and> sys_num_active_threads boot_active = Inr 4
   \<and> active_rep (sys_add_active_thread 9 boot_active) [9, 1, 2, 3, 0]"
  using roots_of_active_threads [OF boot_active_rep, of 9] boot_active_rep by simp

text \<open>
  Removing a thread from the active list takes it out when it is first in the list, and (on the
  forward chain) wherever its back pointer is right.  But the back pointer of its successor
  is only repaired for the first element: after \<open>x\<close> is removed from inside the list, removing
  its successor \<open>y\<close> leaves \<open>y\<close> in the list and cuts off every thread behind it.
\<close>

theorem remove_active_successor:
  assumes "active_rep k (as @ x # y # bs)" and "as \<noteq> []"
  shows "active_fwd (sys_remove_active_thread x k) (as @ y # bs)
    \<and> active_fwd (sys_remove_active_thread y (sys_remove_active_thread x k)) (as @ [y])"
proof -
  let ?k = "sys_remove_active_thread x k"
  have f: "active_fwd ?k (as @ y # bs)" and p: "pt_of ?k y = Some x"
    using remove_active_inner [OF assms] by auto
  have "x \<noteq> y" "x \<notin> set as" using assms by (auto simp: active_rep_def active_fwd_def)
  have "active_fwd (sys_remove_active_thread y ?k) (as @ [y])"
    using f \<open>x \<noteq> y\<close> \<open>x \<notin> set as\<close>
    by (auto simp: active_fwd_def remove_active_links [OF p \<open>x \<noteq> y\<close>])
  with f show ?thesis by blast
qed

theorem remove_active_successor_witness:
  "active_fwd (sys_remove_active_thread 3 (sys_remove_active_thread 2 boot_active)) [1, 3]"
  using remove_active_successor [of boot_active "[1]" 2 3 "[0]"] boot_active_rep by simp

text \<open>
  C35. The initial stack pointer of a realized thread leaves room for the start frame inside the allocated
  stack, for every stack size the system accepts; it is aligned if the stack size is a multiple of
  the alignment.
\<close>

theorem realize_stack_bounds:
  assumes "sy_size (k_sys k) \<ge> StackMin"
  shows "\<exists>sp. th_thread (k_threads (th_realize t f arg stk k) t) = Some sp \<and>
    stk \<le> sp \<and> int (sp + QT_STKBASE) \<le> int stk + sy_size (k_sys k) \<and>
    th_stack (k_threads (th_realize t f arg stk k) t) = Some stk \<and>
    stk \<in> set (k_stacks (th_realize t f arg stk k)) \<and>
    (int QT_STKALIGN dvd sy_size (k_sys k) \<longrightarrow> QT_STKALIGN dvd sp)"
proof -
  have al: "stk \<le> STP_STKALIGN stk QT_STKALIGN" "STP_STKALIGN stk QT_STKALIGN \<le> stk + 3"
    by (auto simp: STP_STKALIGN_def QT_STKALIGN_def)
  have st: "th_thread (k_threads (th_realize t f arg stk k) t) =
      Some (nat (QT_ADJ (QT_SP (STP_STKALIGN stk QT_STKALIGN) (sy_size (k_sys k) - int QT_STKALIGN))))"
    "th_stack (k_threads (th_realize t f arg stk k) t) = Some stk"
    "stk \<in> set (k_stacks (th_realize t f arg stk k))"
    by (auto simp: th_realize_def sys_add_active_thread_def sys_newstack_def Let_def split: option.splits)
  define sp where "sp = nat (QT_ADJ (QT_SP (STP_STKALIGN stk QT_STKALIGN) (sy_size (k_sys k) - int QT_STKALIGN)))"
  have i: "int sp = int (STP_STKALIGN stk 4) + sy_size (k_sys k) - 40"
    using assms by (simp add: sp_def QT_ADJ_def QT_SP_def QT_STKBASE_def QT_STKALIGN_def StackMin_def)
  have "4 dvd int (STP_STKALIGN stk 4)" by (simp add: STP_STKALIGN_def minus_mod_eq_mult_div)
  then have "4 dvd int sp" if "4 dvd sy_size (k_sys k)" using that unfolding i by (intro dvd_diff dvd_add) simp_all
  then have "int QT_STKALIGN dvd sy_size (k_sys k) \<longrightarrow> QT_STKALIGN dvd sp"
    by (simp add: QT_STKALIGN_def flip: int_dvd_int_iff)
  moreover have "stk \<le> sp \<and> int (sp + QT_STKBASE) \<le> int stk + sy_size (k_sys k)"
    using al assms i by (simp add: QT_STKBASE_def QT_STKALIGN_def StackMin_def)
  ultimately show ?thesis using st unfolding sp_def [symmetric] by blast
qed

theorem realize_stack_bounds_witness:
  "\<exists>sp. th_thread (k_threads (th_realize 1 7 8 4096 (upd_sys (\<lambda>s. s\<lparr>sy_size := StackMin\<rparr>) (kernel_init 64))) 1) = Some sp
    \<and> 4096 \<le> sp \<and> int (sp + QT_STKBASE) \<le> 4096 + StackMin \<and> QT_STKALIGN dvd sp"
  using realize_stack_bounds [of "upd_sys (\<lambda>s. s\<lparr>sy_size := StackMin\<rparr>) (kernel_init 64)" 1 7 8 4096]
  by (auto simp: QT_STKALIGN_def StackMin_def)

end
