(* ===== verification/Proc_Ops.thy ===== *)
theory Proc_Ops
  imports Thread_Ops
begin

text \<open>
  Processors (\<^verbatim>\<open>src/Proc.C\<close>): creation of processors and threads, the ready queues by
  priority, the busy thread.  The invariant \<open>ready_rep\<close> relates the linked ready queues to one
  list of threads per ready vector and priority.
\<close>

section \<open>Operations\<close>

text \<open>
  \<^verbatim>\<open>numPriorities\<close> calls \<^verbatim>\<open>setup\<close> first.  \<^verbatim>\<open>setup\<close> does its work only once, and \<^verbatim>\<open>main\<close> has called it
  before the first processor is made, so the call has no effect here; processors made by static
  initialisers before \<^verbatim>\<open>main\<close> are outside the model.
\<close>

definition proc_numPriorities :: "kernel \<Rightarrow> nat res" where
  "proc_numPriorities k = bindE (assertE (k_numpri k \<noteq> 0)) (\<lambda>_. Inr (k_numpri k))"

text \<open>
  \<^verbatim>\<open>Proc::Proc(name)\<close> allocates a ready vector, \<^verbatim>\<open>Proc::Proc(parent, name)\<close> shares that of the
  parent.
\<close>

definition proc_new :: "string option \<Rightarrow> kernel \<Rightarrow> (pid \<times> kernel) res" where
  "proc_new n k =
     bindE (proc_numPriorities k) (\<lambda>np.
     let v = k_nqv k; p = k_npid k
     in Inr (p, k\<lparr>k_qvects := (k_qvects k)(v := qvect_init np), k_nqv := Suc v,
                  k_procs := (k_procs k)(p := proc_init n v), k_npid := Suc p,
                  k_plinks := qbase_init p (k_plinks k)\<rparr>))"

definition proc_new_shared :: "pid \<Rightarrow> string option \<Rightarrow> kernel \<Rightarrow> pid \<times> kernel" where
  "proc_new_shared parent n k =
     (let p = k_npid k
      in (p, k\<lparr>k_procs := (k_procs k)(p := proc_init n (pr_ready (k_procs k parent))),
               k_npid := Suc p, k_plinks := qbase_init p (k_plinks k)\<rparr>))"

definition proc_init_static :: "config \<Rightarrow> kernel \<Rightarrow> kernel res" where
  "proc_init_static cp k =
     (if cp_numpriorities cp < 1
      then Inl (RuntimeError ''Number of priorities must be greater than 0.'')
      else Inr (k\<lparr>k_numpri := nat (cp_numpriorities cp)\<rparr>))"

definition put_queue :: "qvid \<Rightarrow> nat \<Rightarrow> queue \<Rightarrow> qheap \<Rightarrow> kernel \<Rightarrow> kernel" where
  "put_queue v i q h k = set_tlinks h (upd_qv v (\<lambda>r. r\<lparr>qv_queues := (qv_queues r)[i := q]\<rparr>) k)"

definition proc_add_ready :: "pid \<Rightarrow> tid \<Rightarrow> kernel \<Rightarrow> kernel res" where
  "proc_add_ready p t k =
     (if th_state (k_threads k t) = TRun \<or> th_state (k_threads k t) = TBusy
      then let k = th_setState t TReady k;
               i = th_priority (k_threads k t);
               v = pr_ready (k_procs k p)
           in bindE (nthE (qv_queues (k_qvects k v)) i) (\<lambda>q.
              bindE (q_add t (q, k_tlinks k)) (\<lambda>(q, h).
              Inr (upd_qv v (\<lambda>r. r\<lparr>qv_count := qv_count r + 1\<rparr>) (put_queue v i q h k))))
      else Inr k)"

definition proc_add_busy :: "pid \<Rightarrow> tid \<Rightarrow> kernel \<Rightarrow> kernel" where
  "proc_add_busy p t k =
     (if th_state (k_threads k t) = TRun
      then upd_pr p (\<lambda>r. r\<lparr>pr_busythread := Some t\<rparr>) (th_setState t TBusy k)
      else k)"

definition proc_return_thread :: "qvid \<Rightarrow> tid \<Rightarrow> kernel \<Rightarrow> kernel" where
  "proc_return_thread v t k =
     th_setState t TRun (upd_qv v (\<lambda>r. r\<lparr>qv_count := qv_count r - 1\<rparr>) k)"

primrec get_ready_loop :: "qvid \<Rightarrow> nat \<Rightarrow> kernel \<Rightarrow> tid option \<times> kernel" where
  "get_ready_loop v 0 k = (None, k)"
| "get_ready_loop v (Suc i) k =
     (case q_get (qv_queues (k_qvects k v) ! i, k_tlinks k) of
        (Some t, q, h) \<Rightarrow> (Some t, proc_return_thread v t (put_queue v i q h k))
      | (None, _, _) \<Rightarrow> get_ready_loop v i k)"

definition proc_get_ready :: "pid \<Rightarrow> kernel \<Rightarrow> tid option \<times> kernel" where
  "proc_get_ready p k =
     (let v = pr_ready (k_procs k p) in get_ready_loop v (length (qv_queues (k_qvects k v))) k)"

primrec next_ready_loop :: "queue list \<Rightarrow> nat \<Rightarrow> tid option" where
  "next_ready_loop qs 0 = None"
| "next_ready_loop qs (Suc i) =
     (case q_front (qs ! i) of Some t \<Rightarrow> Some t | None \<Rightarrow> next_ready_loop qs i)"

definition proc_next_ready :: "kernel \<Rightarrow> pid \<Rightarrow> tid option" where
  "proc_next_ready k p =
     (let qs = qv_queues (k_qvects k (pr_ready (k_procs k p))) in next_ready_loop qs (length qs))"

definition proc_get_ready_item :: "pid \<Rightarrow> tid \<Rightarrow> kernel \<Rightarrow> (tid option \<times> kernel) res" where
  "proc_get_ready_item p t k =
     (let i = th_priority (k_threads k t); v = pr_ready (k_procs k p) in
      bindE (nthE (qv_queues (k_qvects k v)) i) (\<lambda>q.
      bindE (q_get_item (Some t) (q, k_tlinks k)) (\<lambda>(r, q, h).
      Inr (case r of
          Some n \<Rightarrow> (Some n, proc_return_thread v n (put_queue v i q h k))
        | None \<Rightarrow> (None, k)))))"

definition proc_remove_ready :: "pid \<Rightarrow> tid \<Rightarrow> kernel \<Rightarrow> kernel res" where
  "proc_remove_ready p t k =
     bindE (assertE (th_proc (k_threads k t) = Some p)) (\<lambda>_.
     let i = th_priority (k_threads k t); v = pr_ready (k_procs k p) in
     bindE (nthE (qv_queues (k_qvects k v)) i) (\<lambda>q.
     let (q, h) = q_remove t (q, k_tlinks k)
     in Inr (proc_return_thread v t (put_queue v i q h k))))"

definition proc_clearBusyThread :: "pid \<Rightarrow> kernel \<Rightarrow> kernel res" where
  "proc_clearBusyThread p k =
     (case pr_busythread (k_procs k p) of
        Some t \<Rightarrow> bindE (proc_add_ready p t k) (\<lambda>k. Inr (upd_pr p (\<lambda>r. r\<lparr>pr_busythread := None\<rparr>) k))
      | None \<Rightarrow> Inr k)"

definition proc_setState :: "pid \<Rightarrow> pstate \<Rightarrow> kernel \<Rightarrow> kernel" where
  "proc_setState p s = upd_pr p (\<lambda>r. r\<lparr>pr_state := s\<rparr>)"

definition new_thread :: "kernel \<Rightarrow> tid \<times> kernel" where
  "new_thread k =
     (let t = k_ntid k
      in (t, k\<lparr>k_threads := (k_threads k)(t := thread_init), k_ntid := Suc t,
               k_tlinks := qbase_init t (k_tlinks k), k_cont := (k_cont k)(t := CUser)\<rparr>))"

text \<open>The priority of a new thread: a negative argument means that of the current thread.\<close>

definition create_priority :: "int \<Rightarrow> kernel \<Rightarrow> nat res" where
  "create_priority pr k =
     (if pr < 0 then bindE (derefE (cl_cur (k_cl k))) (\<lambda>c. Inr (th_priority (k_threads k c)))
      else Inr (nat pr))"

definition proc_create :: "pid \<Rightarrow> nat \<Rightarrow> nat \<Rightarrow> int \<Rightarrow> addr \<Rightarrow> kernel \<Rightarrow> (tid \<times> kernel) res" where
  "proc_create p f arg pr stk k =
     (let k = cl_lock k;
          (t, k) = new_thread k;
          k = th_realize t f arg stk k in
      bindE (create_priority pr k) (\<lambda>i.
      let k = upd_th t (\<lambda>r. r\<lparr>th_priority := i\<rparr>) k;
          k = th_setProc t (Some p) k in
      bindE (proc_add_ready p t k) (\<lambda>k.
      Inr (t, cl_unlock k))))"

text \<open>
  The second form copies \<open>nbytes\<close> bytes behind the thread object and passes their address; the
  address of the extra space is the thread itself.
\<close>

definition proc_create_args ::
  "pid \<Rightarrow> nat \<Rightarrow> nat \<Rightarrow> byte list \<Rightarrow> int \<Rightarrow> addr \<Rightarrow> kernel \<Rightarrow> ((tid \<times> tid) \<times> kernel) res" where
  "proc_create_args p f nbytes args pr stk k =
     (let k = cl_lock k;
          (t, k) = new_thread k;
          d = t;
          k = th_realize t f d stk k in
      bindE (create_priority pr k) (\<lambda>i.
      let k = upd_th t (\<lambda>r. r\<lparr>th_priority := i\<rparr>) k;
          k = th_setProc t (Some p) k;
          k = upd_th t (\<lambda>r. r\<lparr>th_extraspace := take nbytes args\<rparr>) k in
      bindE (proc_add_ready p t k) (\<lambda>k.
      Inr ((t, d), cl_unlock k))))"

section \<open>Frames\<close>

text \<open>
  The ready-queue operations change nothing but the links, the ready vectors and the states
  of threads.
\<close>

definition ready_frame :: "kernel \<Rightarrow> kernel \<Rightarrow> bool" where
  "ready_frame k k' \<longleftrightarrow>
     k_procs k' = k_procs k \<and> k_plinks k' = k_plinks k \<and> k_sys k' = k_sys k \<and> k_cl k' = k_cl k \<and>
     k_numpri k' = k_numpri k \<and> k_ntid k' = k_ntid k \<and> k_npid k' = k_npid k \<and> k_nqv k' = k_nqv k \<and>
     k_stacks k' = k_stacks k \<and> k_sp k' = k_sp k \<and> k_cont k' = k_cont k \<and>
     (\<forall>t. \<exists>s. k_threads k' t = (k_threads k t)\<lparr>th_state := s\<rparr>) \<and>
     (\<forall>v. length (qv_queues (k_qvects k' v)) = length (qv_queues (k_qvects k v)))"

lemma thread_state_id: "\<exists>s. r = r\<lparr>th_state := s\<rparr>"
  by (rule exI [of _ "th_state r"]) simp

lemma ready_frame_refl [simp, intro]: "ready_frame k k"
  by (simp add: ready_frame_def thread_state_id)

lemma ready_frame_trans:
  assumes "ready_frame k k'" "ready_frame k' k''"
  shows "ready_frame k k''"
proof -
  have "\<exists>s. k_threads k'' t = (k_threads k t)\<lparr>th_state := s\<rparr>" for t
  proof -
    obtain s s' where "k_threads k' t = (k_threads k t)\<lparr>th_state := s\<rparr>"
      "k_threads k'' t = (k_threads k' t)\<lparr>th_state := s'\<rparr>"
      using assms unfolding ready_frame_def by blast
    then show ?thesis by auto
  qed
  then show ?thesis using assms by (simp add: ready_frame_def)
qed

lemma ready_frameD:
  assumes "ready_frame k k'"
  shows "k_procs k' = k_procs k" "k_plinks k' = k_plinks k" "k_sys k' = k_sys k" "k_cl k' = k_cl k"
    "k_numpri k' = k_numpri k" "k_cont k' = k_cont k" "k_sp k' = k_sp k" "k_stacks k' = k_stacks k"
    "k_ntid k' = k_ntid k" "k_npid k' = k_npid k" "k_nqv k' = k_nqv k"
    "th_proc (k_threads k' t) = th_proc (k_threads k t)"
    "th_priority (k_threads k' t) = th_priority (k_threads k t)"
    "th_waiters (k_threads k' t) = th_waiters (k_threads k t)"
    "th_time (k_threads k' t) = th_time (k_threads k t)"
    "th_starttime (k_threads k' t) = th_starttime (k_threads k t)"
    "th_thread (k_threads k' t) = th_thread (k_threads k t)"
    "th_stack (k_threads k' t) = th_stack (k_threads k t)"
    "th_valid (k_threads k' t) = th_valid (k_threads k t)"
    "th_nt (k_threads k' t) = th_nt (k_threads k t)"
    "th_pt (k_threads k' t) = th_pt (k_threads k t)"
    "length (qv_queues (k_qvects k' v)) = length (qv_queues (k_qvects k v))"
proof -
  obtain s where "k_threads k' t = (k_threads k t)\<lparr>th_state := s\<rparr>"
    using assms by (auto simp: ready_frame_def)
  then show "th_proc (k_threads k' t) = th_proc (k_threads k t)"
    "th_priority (k_threads k' t) = th_priority (k_threads k t)"
    "th_waiters (k_threads k' t) = th_waiters (k_threads k t)"
    "th_time (k_threads k' t) = th_time (k_threads k t)"
    "th_starttime (k_threads k' t) = th_starttime (k_threads k t)"
    "th_thread (k_threads k' t) = th_thread (k_threads k t)"
    "th_stack (k_threads k' t) = th_stack (k_threads k t)"
    "th_valid (k_threads k' t) = th_valid (k_threads k t)"
    "th_nt (k_threads k' t) = th_nt (k_threads k t)"
    "th_pt (k_threads k' t) = th_pt (k_threads k t)"
    by simp_all
qed (use assms in \<open>auto simp: ready_frame_def\<close>)

lemma put_queue_frame: "ready_frame k (put_queue v i q h k)"
  by (auto simp: ready_frame_def put_queue_def thread_state_id)

lemma add_ready_frame: "proc_add_ready p t k = Inr k' \<Longrightarrow> ready_frame k k'"
  by (auto simp: proc_add_ready_def ready_frame_def put_queue_def th_setState_def thread_state_id
      Let_def split: if_splits prod.splits)

lemma return_thread_frame: "ready_frame k (proc_return_thread v t k)"
  by (auto simp: ready_frame_def proc_return_thread_def th_setState_def thread_state_id)

lemma get_ready_loop_frame: "get_ready_loop v n k = (r, k') \<Longrightarrow> ready_frame k k'"
proof (induction n)
  case (Suc n)
  then show ?case
    by (auto split: prod.splits option.splits
        intro: ready_frame_trans [OF put_queue_frame return_thread_frame])
qed simp

lemma get_ready_frame: "proc_get_ready p k = (r, k') \<Longrightarrow> ready_frame k k'"
  by (simp add: proc_get_ready_def Let_def get_ready_loop_frame)

lemma get_ready_item_frame: "proc_get_ready_item p t k = Inr (r, k') \<Longrightarrow> ready_frame k k'"
  by (auto simp: proc_get_ready_item_def Let_def split: prod.splits option.splits
      intro: ready_frame_trans [OF put_queue_frame return_thread_frame])

lemma remove_ready_frame: "proc_remove_ready p t k = Inr k' \<Longrightarrow> ready_frame k k'"
  by (auto simp: proc_remove_ready_def Let_def split: prod.splits
      intro: ready_frame_trans [OF put_queue_frame return_thread_frame])

lemma add_ready_done: "th_state (k_threads k t) = TDone \<Longrightarrow> proc_add_ready p t k = Inr k"
  by (simp add: proc_add_ready_def)

end
