(* ===== verification/System_Ops.thy ===== *)
theory System_Ops
  imports Proc_Ops
begin

text \<open>
  The system object (\<^verbatim>\<open>src/System.C\<close>): configuration, shutdown, and the simulated time with its
  two priority queues, one of delayed threads and one of busy processors.  The queues order
  their elements by end time; the end time of an element is read from the kernel state at the
  moment of each queue operation.
\<close>

section \<open>Operations\<close>

definition sys_init :: "config \<Rightarrow> kernel \<Rightarrow> kernel res" where
  "sys_init cp k =
     (let k = upd_sys (\<lambda>s. s\<lparr>sy_size := cp_stacksize cp\<rparr>) k in
      if sy_size (k_sys k) < StackMin
      then Inl (RuntimeError ''The stack must be a minimumx of 8000 bytes.'')
      else Inr (upd_sys (\<lambda>s. s\<lparr>sy_busyokay := cp_busyokay cp\<rparr>) k))"

definition sys_shutdown :: "int \<Rightarrow> kernel \<Rightarrow> kernel" where
  "sys_shutdown c k = upd_sys (\<lambda>s. s\<lparr>sy_code := c\<rparr>) (upd_sys (\<lambda>s. s\<lparr>sy_wantshutdown := True\<rparr>) k)"

definition set_times :: "ptime \<Rightarrow> tid \<Rightarrow> kernel \<Rightarrow> kernel" where
  "set_times t th k =
     upd_th th (\<lambda>r. r\<lparr>th_starttime := sy_time (k_sys k)\<rparr>) (upd_th th (\<lambda>r. r\<lparr>th_time := t\<rparr>) k)"

definition sys_add_busy :: "ptime \<Rightarrow> tid \<Rightarrow> kernel \<Rightarrow> kernel res" where
  "sys_add_busy t th k =
     (let k = set_times t th k in
      bindE (derefE (th_proc (k_threads k th))) (\<lambda>p.
      let k = proc_setState p PBusy k;
          k = proc_add_busy p th k
      in Inr (if t \<noteq> 0
              then upd_sys (\<lambda>s. s\<lparr>sy_busy := pq_push (proc_endtime k) p (sy_busy s)\<rparr>) k
              else k)))"

definition sys_add_delay :: "ptime \<Rightarrow> tid \<Rightarrow> kernel \<Rightarrow> kernel" where
  "sys_add_delay t th k =
     (let k = set_times t th k
      in upd_sys (\<lambda>s. s\<lparr>sy_delay := pq_push (thread_endtime k) th (sy_delay s)\<rparr>) k)"

definition get_current :: "('a \<Rightarrow> ptime) \<Rightarrow> ptime \<Rightarrow> 'a list \<Rightarrow> 'a option \<times> 'a list" where
  "get_current key now q =
     (case pq_top q of
        Inl _ \<Rightarrow> (None, q)
      | Inr t \<Rightarrow> if key t \<le> now then (Some t, pq_pop key q) else (None, q))"

definition sys_get_busy :: "kernel \<Rightarrow> pid option \<times> kernel" where
  "sys_get_busy k =
     (case get_current (proc_endtime k) (sy_time (k_sys k)) (sy_busy (k_sys k)) of
        (r, q) \<Rightarrow> (r, upd_sys (\<lambda>s. s\<lparr>sy_busy := q\<rparr>) k))"

definition sys_get_delay :: "kernel \<Rightarrow> tid option \<times> kernel" where
  "sys_get_delay k =
     (case get_current (thread_endtime k) (sy_time (k_sys k)) (sy_delay (k_sys k)) of
        (r, q) \<Rightarrow> (r, upd_sys (\<lambda>s. s\<lparr>sy_delay := q\<rparr>) k))"

definition set_time :: "ptime \<Rightarrow> kernel \<Rightarrow> kernel" where
  "set_time t = upd_sys (\<lambda>s. s\<lparr>sy_time := t\<rparr>)"

definition sys_update_time :: "kernel \<Rightarrow> bool \<times> kernel" where
  "sys_update_time k =
     (case (pq_top (sy_busy (k_sys k)), pq_top (sy_delay (k_sys k))) of
        (Inl _, Inl _) \<Rightarrow> (False, k)
      | (Inl _, Inr d) \<Rightarrow> (True, set_time (thread_endtime k d) k)
      | (Inr b, Inl _) \<Rightarrow> (True, set_time (proc_endtime k b) k)
      | (Inr b, Inr d) \<Rightarrow>
          if proc_endtime k b < thread_endtime k d
          then (True, set_time (proc_endtime k b) k)
          else (True, set_time (thread_endtime k d) k))"

section \<open>Due events\<close>

lemma pq_top_Cons [simp]: "pq_top (x # xs) = Inr x"
  by (simp add: pq_top_def)

lemma pq_top_Nil [simp]: "pq_top [] = Inl OutOfRange"
  by (simp add: pq_top_def nthE_def)

lemma get_current_cases:
  obtains "get_current key now q = (None, q)" "q = [] \<or> now < key (hd q)"
  | t where "get_current key now q = (Some t, pq_pop key q)" "q \<noteq> []" "t = hd q" "key t \<le> now"
  by (cases q; cases "key (hd q) \<le> now") (auto simp: get_current_def not_le)

lemma get_current_None: "get_current key now q = (None, q') \<Longrightarrow> q' = q \<and> (q = [] \<or> now < key (hd q))"
  by (cases rule: get_current_cases [of key now q]) auto

lemma get_current_Some:
  "get_current key now q = (Some t, q') \<Longrightarrow> q \<noteq> [] \<and> t = hd q \<and> key t \<le> now \<and> q' = pq_pop key q"
  by (cases rule: get_current_cases [of key now q]) auto

text \<open>
  A heap gives up its due elements: nothing is returned exactly when nothing is due, and what
  is returned is the earliest element.
\<close>

lemma get_current_heap:
  assumes h: "heap_ok key q"
  shows "case get_current key now q of
      (None, q') \<Rightarrow> q' = q \<and> (\<forall>x\<in>set q. now < key x)
    | (Some t, q') \<Rightarrow> key t \<le> now \<and> (\<forall>x\<in>set q. key t \<le> key x) \<and>
         heap_ok key q' \<and> mset q = add_mset t (mset q')"
proof (cases q)
  case Nil
  then show ?thesis by (simp add: get_current_def)
next
  case (Cons a as)
  have least: "\<forall>x\<in>set q. key a \<le> key x"
    using heap_top_least [OF h] Cons by (metis in_set_conv_nth nth_Cons_0)
  show ?thesis
  proof (cases "key a \<le> now")
    case True
    have "heap_ok key (pq_pop key q)" "mset q = add_mset a (mset (pq_pop key q))"
      using heap_pop [OF h] mset_pq_pop [of q key] Cons by auto
    then show ?thesis using True least Cons by (simp add: get_current_def)
  next
    case False
    then show ?thesis using least Cons by (fastforce simp: get_current_def)
  qed
qed

lemma update_time_frame:
  "sys_update_time k = (b, k') \<Longrightarrow> \<exists>t. k' = set_time t k \<and> (\<not> b \<longrightarrow> t = sy_time (k_sys k))"
  by (auto simp: sys_update_time_def set_time_def upd_sys_def split: sum.splits if_splits)

lemma set_time_sel [simp]:
  "k_sys (set_time t k) = (k_sys k)\<lparr>sy_time := t\<rparr>" "k_cl (set_time t k) = k_cl k"
  "k_threads (set_time t k) = k_threads k" "k_procs (set_time t k) = k_procs k"
  "k_qvects (set_time t k) = k_qvects k" "k_tlinks (set_time t k) = k_tlinks k"
  "k_plinks (set_time t k) = k_plinks k"
  by (simp_all add: set_time_def)

lemma set_time_endtime [simp]:
  "proc_endtime (set_time t k) = proc_endtime k" "thread_endtime (set_time t k) = thread_endtime k"
  by (simp_all add: fun_eq_iff proc_endtime_def thread_endtime_def split: option.splits)

text \<open>All end times that wait in the two queues.\<close>

definition event_times :: "kernel \<Rightarrow> ptime set" where
  "event_times k =
     proc_endtime k ` set (sy_busy (k_sys k)) \<union> thread_endtime k ` set (sy_delay (k_sys k))"

lemma heap_top_Min:
  assumes "heap_ok key (x # xs)"
  shows "Min (key ` set (x # xs)) = key x"
  using heap.top_least [OF assms] by (intro Min_eqI) auto

lemma Min_events:
  assumes "heap_ok f (x # xs)" and "heap_ok g (y # ys)"
  shows "Min (f ` set (x # xs) \<union> g ` set (y # ys)) = min (f x) (g y)"
  using heap_top_Min [OF assms(1)] heap_top_Min [OF assms(2)] by (subst Min_Un) auto


definition two_delayed :: kernel where
  "two_delayed = sys_add_delay 30 1 (sys_add_delay 40 2 (kernel_init 64))"


end
