(* ===== verification/Cluster_Ops.thy ===== *)
theory Cluster_Ops
  imports System_Ops
begin

text \<open>
  The cluster (\<^verbatim>\<open>src/Cluster.C\<close>, \<^verbatim>\<open>src/ProcQ.C\<close>): the queue of processors with work, the choice of
  the next processor and the next thread, the context switches, and every call by which a
  thread gives up the processor.

  A context switch ends the execution of the calling thread's kernel code; what that code
  would still do is stored as the thread's continuation, an argument of the operations that
  switch.  \<open>k_sp\<close> is the stack pointer; a switch saves it in the old thread and loads that of
  the new one.
\<close>

section \<open>Preemption and initialisation\<close>

definition cl_nopreempt :: "kernel \<Rightarrow> kernel" where
  "cl_nopreempt = upd_cl (\<lambda>c. c\<lparr>cl_alarm_blocked := True\<rparr>)"

definition cl_preempt :: "kernel \<Rightarrow> kernel" where
  "cl_preempt k =
     (if cl_preemptOkay (k_cl k) then upd_cl (\<lambda>c. c\<lparr>cl_alarm_blocked := False\<rparr>) k else k)"

text \<open>
  The timer value of \<^verbatim>\<open>resetalarm\<close> is a static that takes the time slice at the first call; that call is
  in \<^verbatim>\<open>Cluster::reset\<close>, after \<^verbatim>\<open>Cluster::init\<close> has set the time slice for good, so it is the
  configured one at every call.
\<close>

definition resetalarm :: "kernel \<Rightarrow> kernel" where
  "resetalarm = upd_cl (\<lambda>c. c\<lparr>cl_alarm := cl_timeslice c\<rparr>)"

definition cl_init :: "config \<Rightarrow> kernel \<Rightarrow> kernel" where
  "cl_init cp k =
     (let k = (if \<not> cp_preempt cp \<or> cp_busyokay cp
               then cl_nopreempt (upd_cl (\<lambda>c. c\<lparr>cl_preemptOkay := False\<rparr>) k) else k)
      in upd_cl (\<lambda>c. c\<lparr>cl_timeslice := cp_timeslice cp, cl_busyts := cp_simtimeslice cp\<rparr>) k)"

definition cl_setCurproc :: "pid option \<Rightarrow> kernel \<Rightarrow> kernel" where
  "cl_setCurproc p = upd_cl (\<lambda>c. c\<lparr>cl_curproc := p\<rparr>)"

definition cl_reset :: "pid \<Rightarrow> kernel \<Rightarrow> kernel" where
  "cl_reset p k = resetalarm (proc_setState p PRunning (cl_setCurproc (Some p) k))"

section \<open>Processors\<close>

definition put_procs :: "queue \<Rightarrow> qheap \<Rightarrow> kernel \<Rightarrow> kernel" where
  "put_procs q h k = set_plinks h (upd_cl (\<lambda>c. c\<lparr>cl_procs := q\<rparr>) k)"

definition cl_add_proc :: "pid option \<Rightarrow> kernel \<Rightarrow> kernel res" where
  "cl_add_proc p k =
     (case p of
        None \<Rightarrow> Inr k
      | Some p \<Rightarrow>
          if pr_state (k_procs k p) \<noteq> PRunning
          then let k = proc_setState p PRunning k in
               bindE (q_add p (cl_procs (k_cl k), k_plinks k)) (\<lambda>(q, h). Inr (put_procs q h k))
          else Inr k)"

definition procs_get :: "kernel \<Rightarrow> pid option \<times> kernel" where
  "procs_get k = (case q_get (cl_procs (k_cl k), k_plinks k) of (r, q, h) \<Rightarrow> (r, put_procs q h k))"

partial_function (option) non_empty_loop :: "kernel \<Rightarrow> pid option \<Rightarrow> pid option option" where
  "non_empty_loop k it = (case it of
       None \<Rightarrow> Some None
     | Some p \<Rightarrow> if \<not> proc_empty k p then Some (Some p) else non_empty_loop k (qnext (k_plinks k) p))"

definition procs_get_non_empty :: "kernel \<Rightarrow> (pid option \<times> kernel) res" where
  "procs_get_non_empty k =
     bindE (returnsE (non_empty_loop k (q_front (cl_procs (k_cl k))))) (\<lambda>r.
     Inr (case r of
        None \<Rightarrow> (None, k)
      | Some p \<Rightarrow> (case q_remove p (cl_procs (k_cl k), k_plinks k) of
                      (q, h) \<Rightarrow> (Some p, put_procs q h k))))"

text \<open>
  A thread becomes ready; its processor is queued unless it is busy with a thread of at least
  the same priority.  A preempted busy thread keeps the time it has used so far.
\<close>

definition add_thread_to_proc :: "tid \<Rightarrow> kernel \<Rightarrow> kernel res" where
  "add_thread_to_proc t k =
     bindE (derefE (th_proc (k_threads k t))) (\<lambda>p.
     bindE (proc_add_ready p t k) (\<lambda>k.
     if pr_state (k_procs k p) = PBusy
     then bindE (case pr_busythread (k_procs k p) of None \<Rightarrow> Inl AssertFail | Some bt \<Rightarrow> Inr bt) (\<lambda>bt.
          if th_priority (k_threads k t) > th_priority (k_threads k bt)
          then cl_add_proc (Some p)
                 (upd_th bt (\<lambda>r. r\<lparr>th_time := sy_time (k_sys k) - th_starttime r\<rparr>) k)
          else Inr k)
     else cl_add_proc (Some p) k))"

section \<open>Advancing time\<close>

lemma add_proc_sys: "cl_add_proc p k = Inr k' \<Longrightarrow> k_sys k' = k_sys k"
  by (auto simp: cl_add_proc_def put_procs_def proc_setState_def Let_def
      split: option.splits if_splits prod.splits)

lemma add_thread_sys: "add_thread_to_proc t k = Inr k' \<Longrightarrow> k_sys k' = k_sys k"
  by (auto simp: add_thread_to_proc_def dest!: add_proc_sys add_ready_frame
      split: if_splits option.splits simp: ready_frameD)

lemma clearBusy_sys: "proc_clearBusyThread p k = Inr k' \<Longrightarrow> k_sys k' = k_sys k"
  by (auto simp: proc_clearBusyThread_def dest!: add_ready_frame split: option.splits
      simp: ready_frameD)

lemma get_delay_shrinks:
  "sys_get_delay k = (Some t, k') \<Longrightarrow> length (sy_delay (k_sys k')) < length (sy_delay (k_sys k))
     \<and> sy_busy (k_sys k') = sy_busy (k_sys k)"
  by (auto simp: sys_get_delay_def dest!: get_current_Some split: prod.splits)

lemma get_busy_shrinks:
  "sys_get_busy k = (Some t, k') \<Longrightarrow> length (sy_busy (k_sys k')) < length (sy_busy (k_sys k))
     \<and> sy_delay (k_sys k') = sy_delay (k_sys k)"
  by (auto simp: sys_get_busy_def dest!: get_current_Some split: prod.splits)

function drain_delay :: "kernel \<Rightarrow> kernel res" where
  "drain_delay k =
     (case sys_get_delay k of
        (None, k') \<Rightarrow> Inr k'
      | (Some t, k') \<Rightarrow> bindE (add_thread_to_proc t k') drain_delay)"
  by pat_completeness auto
termination
  by (relation "measure (\<lambda>k. length (sy_delay (k_sys k)))")
    (auto dest!: get_delay_shrinks [OF sym] add_thread_sys)

definition release_busy :: "pid \<Rightarrow> kernel \<Rightarrow> kernel res" where
  "release_busy p k = bindE (proc_clearBusyThread p k) (cl_add_proc (Some p))"

lemma release_busy_sys: "release_busy p k = Inr k' \<Longrightarrow> k_sys k' = k_sys k"
  by (auto simp: release_busy_def dest!: clearBusy_sys add_proc_sys)

function drain_busy :: "kernel \<Rightarrow> kernel res" where
  "drain_busy k =
     (case sys_get_busy k of
        (None, k') \<Rightarrow> Inr k'
      | (Some p, k') \<Rightarrow> bindE (release_busy p k') drain_busy)"
  by pat_completeness auto
termination
  by (relation "measure (\<lambda>k. length (sy_busy (k_sys k)))")
    (auto dest!: get_busy_shrinks [OF sym] release_busy_sys)

declare drain_delay.simps [simp del] drain_busy.simps [simp del]

lemma get_delay_None: "sys_get_delay k = (None, k') \<Longrightarrow> k' = k"
  by (auto simp: sys_get_delay_def upd_sys_def dest!: get_current_None split: prod.splits)

lemma get_busy_None: "sys_get_busy k = (None, k') \<Longrightarrow> k' = k"
  by (auto simp: sys_get_busy_def upd_sys_def dest!: get_current_None split: prod.splits)

lemma get_delay_sys:
  "sys_get_delay k = (r, k') \<Longrightarrow> sy_busy (k_sys k') = sy_busy (k_sys k) \<and> sy_time (k_sys k') = sy_time (k_sys k)"
  by (auto simp: sys_get_delay_def split: prod.splits)

lemma get_busy_sys:
  "sys_get_busy k = (r, k') \<Longrightarrow> sy_delay (k_sys k') = sy_delay (k_sys k) \<and> sy_time (k_sys k') = sy_time (k_sys k)"
  by (auto simp: sys_get_busy_def split: prod.splits)

lemma drain_delay_sys:
  "drain_delay k = Inr k' \<Longrightarrow> length (sy_delay (k_sys k')) \<le> length (sy_delay (k_sys k))
     \<and> sy_busy (k_sys k') = sy_busy (k_sys k) \<and> sy_time (k_sys k') = sy_time (k_sys k)"
proof (induction k rule: drain_delay.induct)
  case (1 k)
  obtain r k1 where g: "sys_get_delay k = (r, k1)" by fastforce
  show ?case
  proof (cases r)
    case None
    then show ?thesis using "1.prems" g get_delay_None [of k k1] by (simp add: drain_delay.simps)
  next
    case (Some t)
    then obtain k2 where a: "add_thread_to_proc t k1 = Inr k2" "drain_delay k2 = Inr k'"
      using "1.prems" g by (subst (asm) drain_delay.simps) auto
    then show ?thesis
      using "1.IH" [OF g [symmetric] Some a(1) a(2)] get_delay_sys [OF g] get_delay_shrinks [of k t k1]
        add_thread_sys [OF a(1)] g Some by auto
  qed
qed

lemma drain_busy_sys:
  "drain_busy k = Inr k' \<Longrightarrow> length (sy_busy (k_sys k')) \<le> length (sy_busy (k_sys k))
     \<and> sy_delay (k_sys k') = sy_delay (k_sys k) \<and> sy_time (k_sys k') = sy_time (k_sys k)"
proof (induction k rule: drain_busy.induct)
  case (1 k)
  obtain r k1 where g: "sys_get_busy k = (r, k1)" by fastforce
  show ?case
  proof (cases r)
    case None
    then show ?thesis using "1.prems" g get_busy_None [of k k1] by (simp add: drain_busy.simps)
  next
    case (Some t)
    then obtain k2 where a: "release_busy t k1 = Inr k2" "drain_busy k2 = Inr k'"
      using "1.prems" g by (subst (asm) drain_busy.simps) auto
    then show ?thesis
      using "1.IH" [OF g [symmetric] Some a(1) a(2)] get_busy_sys [OF g] get_busy_shrinks [of k t k1]
        release_busy_sys [OF a(1)] g Some by auto
  qed
qed

text \<open>When something is due in a queue, draining it takes something out.\<close>

lemma drain_delay_due:
  assumes "sy_delay (k_sys k) = d # ds" and "thread_endtime k d \<le> sy_time (k_sys k)"
    and "drain_delay k = Inr k'"
  shows "length (sy_delay (k_sys k')) < length (sy_delay (k_sys k))"
proof -
  obtain k1 where g: "sys_get_delay k = (Some d, k1)"
    using assms by (auto simp: sys_get_delay_def get_current_def)
  then obtain k2 where a: "add_thread_to_proc d k1 = Inr k2" "drain_delay k2 = Inr k'"
    using assms(3) by (subst (asm) drain_delay.simps) auto
  show ?thesis
    using drain_delay_sys [OF a(2)] add_thread_sys [OF a(1)] get_delay_shrinks [OF g] by simp
qed

lemma drain_busy_due:
  assumes "sy_busy (k_sys k) = b # bs" and "proc_endtime k b \<le> sy_time (k_sys k)"
    and "drain_busy k = Inr k'"
  shows "length (sy_busy (k_sys k')) < length (sy_busy (k_sys k))"
proof -
  obtain k1 where g: "sys_get_busy k = (Some b, k1)"
    using assms by (auto simp: sys_get_busy_def get_current_def)
  then obtain k2 where a: "release_busy b k1 = Inr k2" "drain_busy k2 = Inr k'"
    using assms(3) by (subst (asm) drain_busy.simps) auto
  show ?thesis
    using drain_busy_sys [OF a(2)] release_busy_sys [OF a(1)] get_busy_shrinks [OF g] by simp
qed

lemma drain_delay_idle:
  assumes "sy_delay (k_sys k) = [] \<or> sy_time (k_sys k) < thread_endtime k (hd (sy_delay (k_sys k)))"
  shows "drain_delay k = Inr k"
proof -
  have "sys_get_delay k = (None, k)"
    using assms by (cases "sy_delay (k_sys k)") (auto simp: sys_get_delay_def get_current_def upd_sys_def)
  then show ?thesis by (simp add: drain_delay.simps)
qed

text \<open>One pass of the time loop after the time was set.\<close>

definition advance :: "kernel \<Rightarrow> kernel res" where
  "advance k =
     bindE (drain_delay k) (\<lambda>k.
     bindE (drain_busy k) (\<lambda>k.
     case procs_get k of (p, k) \<Rightarrow>
     let k = cl_setCurproc p k in
     Inr (case p of
            None \<Rightarrow> k
          | Some q \<Rightarrow> if proc_empty k q then cl_setCurproc None (proc_setState q PWaiting k) else k)))"

definition num_events :: "kernel \<Rightarrow> nat" where
  "num_events k = length (sy_delay (k_sys k)) + length (sy_busy (k_sys k))"

lemma advance_sys:
  "advance k = Inr k' \<Longrightarrow> \<exists>k1 k2. drain_delay k = Inr k1 \<and> drain_busy k1 = Inr k2 \<and> k_sys k' = k_sys k2"
  by (fastforce simp: advance_def procs_get_def put_procs_def cl_setCurproc_def proc_setState_def Let_def
      split: prod.splits option.splits if_splits)

lemma advance_shrinks:
  assumes "sys_update_time k = (True, k1)" and "advance k1 = Inr k'"
  shows "num_events k' < num_events k"
proof -
  obtain k2 k3 where d: "drain_delay k1 = Inr k2" "drain_busy k2 = Inr k3" "k_sys k' = k_sys k3"
    using advance_sys [OF assms(2)] by blast
  have sy: "sy_delay (k_sys k1) = sy_delay (k_sys k)" "sy_busy (k_sys k1) = sy_busy (k_sys k)"
    using update_time_frame [OF assms(1)] by auto
  note le = drain_delay_sys [OF d(1)] drain_busy_sys [OF d(2)]
  consider (delay) x xs where "sy_delay (k_sys k1) = x # xs" "thread_endtime k1 x \<le> sy_time (k_sys k1)"
    | (busy) x xs where "sy_busy (k_sys k1) = x # xs" "proc_endtime k1 x \<le> sy_time (k_sys k1)"
        "sy_delay (k_sys k1) = [] \<or> sy_time (k_sys k1) < thread_endtime k1 (hd (sy_delay (k_sys k1)))"
    using assms(1) sy
    by (cases "sy_busy (k_sys k)"; cases "sy_delay (k_sys k)")
      (auto simp: sys_update_time_def split: if_splits)
  then show ?thesis
  proof cases
    case delay
    then show ?thesis using drain_delay_due [OF delay d(1)] le sy d(3) by (simp add: num_events_def)
  next
    case busy
    then have "k2 = k1" using drain_delay_idle d(1) by simp
    then show ?thesis using drain_busy_due [of k1, OF busy(1,2)] d le sy by (simp add: num_events_def)
  qed
qed

function cl_update_time :: "kernel \<Rightarrow> (bool \<times> kernel) res" where
  "cl_update_time k =
     (if cl_curproc (k_cl k) \<noteq> None then Inr (True, k)
      else case sys_update_time k of
          (False, k') \<Rightarrow> Inr (False, k')
        | (True, k') \<Rightarrow> bindE (advance k') cl_update_time)"
  by pat_completeness auto
termination
  by (relation "measure num_events") (auto intro: advance_shrinks [OF sym])

declare cl_update_time.simps [simp del]

definition cl_get_new_proc :: "kernel \<Rightarrow> (bool \<times> kernel) res" where
  "cl_get_new_proc k =
     bindE (procs_get_non_empty k) (\<lambda>(p, k).
     let k = cl_setCurproc p k in
     if p = None then cl_update_time k else Inr (True, k))"

definition cl_update_proc :: "kernel \<Rightarrow> (bool \<times> kernel) res" where
  "cl_update_proc k =
     (case cl_curproc (k_cl k) of
        None \<Rightarrow> Inl AssertFail
      | Some p \<Rightarrow> if proc_empty k p then cl_get_new_proc (proc_setState p PWaiting k) else Inr (True, k))"

end
