(* ===== verification/Switch_Ops.thy ===== *)
theory Switch_Ops
  imports Cluster_Ops
begin

text \<open>
  Context switches and the calls of a running thread (\<^verbatim>\<open>src/Cluster.C\<close>): yield, sleep, wait,
  delay, wake, busy, set-priority, terminate, the preemption handler, and the scheduler loop
  with the resumption of a thread's continuation.
\<close>

section \<open>Context switches\<close>

text \<open>
  \<^verbatim>\<open>qt_block\<close> (Quick Threads, assembler): save the registers on the old stack, load the stack
  pointer \<^verbatim>\<open>newthread->thread()\<close>, and call the helper with the old stack pointer.  The old
  thread's pending kernel code is recorded as its continuation \<open>c\<close>.
\<close>

definition qt_block :: "(addr \<Rightarrow> tid \<Rightarrow> kernel \<Rightarrow> kernel res) \<Rightarrow> tid \<Rightarrow> tid \<Rightarrow> cont \<Rightarrow> kernel \<Rightarrow> kernel res" where
  "qt_block helper old new c k =
     bindE (derefE (th_thread (k_threads k new))) (\<lambda>sp.
     helper (k_sp k) old ((set_cont old c k)\<lparr>k_sp := sp\<rparr>))"

definition leave_kernel :: "kernel \<Rightarrow> kernel" where
  "leave_kernel k = (if \<not> cl_in_scheduler k then cl_unlock k else k)"

definition switch_ready :: "addr \<Rightarrow> tid \<Rightarrow> kernel \<Rightarrow> kernel res" where
  "switch_ready sptr old k =
     (let k = th_save old sptr k in
      bindE (derefE (th_proc (k_threads k old))) (\<lambda>p.
      bindE (proc_add_ready p old k) (\<lambda>k.
      bindE (cl_add_proc (th_proc (k_threads k old)) k) (\<lambda>k.
      Inr (leave_kernel k)))))"

definition switch_block :: "addr \<Rightarrow> tid \<Rightarrow> kernel \<Rightarrow> kernel res" where
  "switch_block sptr old k = Inr (leave_kernel (th_save old sptr k))"

definition switch_term :: "tid \<Rightarrow> kernel \<Rightarrow> kernel" where
  "switch_term old k = leave_kernel (th_destroy old k)"

definition cl_get_ready :: "kernel \<Rightarrow> (tid option \<times> kernel) res" where
  "cl_get_ready k = bindE (derefE (cl_curproc (k_cl k))) (\<lambda>p. Inr (proc_get_ready p k))"

definition exec_ready_to :: "tid \<Rightarrow> tid \<Rightarrow> cont \<Rightarrow> kernel \<Rightarrow> kernel res" where
  "exec_ready_to new old c k =
     qt_block switch_ready old new c (th_setStackEnd old (cl_setCur (Some new) k))"

definition exec_ready :: "cont \<Rightarrow> kernel \<Rightarrow> kernel res" where
  "exec_ready c k =
     bindE (cl_get_ready k) (\<lambda>(r, k).
     bindE (derefE r) (\<lambda>new.
     bindE (derefE (cl_cur (k_cl k))) (\<lambda>old.
     exec_ready_to new old c (th_setProc new (cl_curproc (k_cl k)) k))))"

definition exec_block :: "cont \<Rightarrow> kernel \<Rightarrow> kernel res" where
  "exec_block c k =
     bindE (cl_get_ready k) (\<lambda>(r, k).
     bindE (derefE r) (\<lambda>new.
     bindE (derefE (cl_cur (k_cl k))) (\<lambda>old.
     qt_block switch_block old new c
       (th_setStackEnd old (th_setProc new (cl_curproc (k_cl k)) (cl_setCur (Some new) k))))))"

section \<open>Calls of a running thread\<close>

definition cl_yield :: "cont \<Rightarrow> kernel \<Rightarrow> kernel res" where
  "cl_yield c k = exec_ready c (cl_lock k)"

definition cl_runscheduler :: "kernel \<Rightarrow> kernel res" where
  "cl_runscheduler k =
     bindE (derefE (cl_cur (k_cl k))) (\<lambda>old.
     exec_ready_to (cl_main (k_cl k)) old CUser (cl_setCur (Some (cl_main (k_cl k))) k))"

definition pAbort :: "kernel \<Rightarrow> kernel res" where
  "pAbort k = cl_runscheduler (sys_shutdown (- 1) (cl_lock k))"

definition pExit :: "int \<Rightarrow> kernel \<Rightarrow> kernel res" where
  "pExit c k = cl_runscheduler (sys_shutdown c (cl_lock k))"

definition cl_wake :: "tid \<Rightarrow> kernel \<Rightarrow> kernel res" where
  "cl_wake t k = bindE (add_thread_to_proc t (cl_lock k)) (\<lambda>k. Inr (cl_unlock k))"

definition cl_busywake :: "tid \<Rightarrow> kernel \<Rightarrow> kernel res" where
  "cl_busywake t k =
     (let k = upd_th t (\<lambda>r. r\<lparr>th_valid := True\<rparr>) (cl_lock k) in
      bindE (derefE (th_proc (k_threads k t))) (\<lambda>p.
      bindE (proc_clearBusyThread p k) (\<lambda>k.
      bindE (cl_add_proc (Some p) k) (\<lambda>k. Inr (cl_unlock k)))))"

definition cl_delay :: "ptime \<Rightarrow> kernel \<Rightarrow> kernel res" where
  "cl_delay t k =
     bindE (derefE (cl_cur (k_cl k))) (\<lambda>c. exec_block CUser (sys_add_delay t c (cl_lock k)))"

definition cl_wait :: "tid option \<Rightarrow> kernel \<Rightarrow> kernel res" where
  "cl_wait t k =
     bindE (assertE (t \<noteq> None)) (\<lambda>_.
     let k = cl_lock k in
     if th_done (k_threads k (the t)) then Inr (cl_unlock k)
     else bindE (derefE (cl_cur (k_cl k))) (\<lambda>c. exec_block CUser (th_add_waiter (the t) c k)))"

definition cl_sleep :: "kernel \<Rightarrow> kernel res" where
  "cl_sleep k = exec_block CUser (cl_lock k)"

definition cl_set_priority :: "nat \<Rightarrow> kernel \<Rightarrow> kernel res" where
  "cl_set_priority p k =
     (let k = cl_lock k in
      bindE (derefE (cl_cur (k_cl k))) (\<lambda>c.
      let old = th_priority (k_threads k c);
          k = upd_th c (\<lambda>r. r\<lparr>th_priority := p\<rparr>) k in
      if p \<le> old
      then bindE (derefE (cl_curproc (k_cl k))) (\<lambda>cp.
           bindE (proc_add_ready cp c k) (exec_block CUser))
      else Inr k))"

definition cl_get_priority :: "kernel \<Rightarrow> nat" where
  "cl_get_priority k = (case cl_cur (k_cl k) of Some c \<Rightarrow> th_priority (k_threads k c) | None \<Rightarrow> 0)"

section \<open>Termination of threads\<close>

lemma add_proc_threads: "cl_add_proc p k = Inr k' \<Longrightarrow> k_threads k' = k_threads k"
  by (auto simp: cl_add_proc_def put_procs_def proc_setState_def Let_def
      split: option.splits if_splits prod.splits)

function wake_waiters :: "tid \<Rightarrow> kernel \<Rightarrow> kernel res" where
  "wake_waiters c k =
     (case th_get_waiter c k of
        (None, k) \<Rightarrow> Inr k
      | (Some next, k) \<Rightarrow>
          bindE (bindE (derefE (th_proc (k_threads k next))) (\<lambda>p.
                 bindE (proc_add_ready p next k) (\<lambda>k.
                 cl_add_proc (th_proc (k_threads k next)) k)))
            (wake_waiters c))"
  by pat_completeness auto
termination
  by (relation "measure (\<lambda>(c, k). length (th_waiters (k_threads k c)))")
    (auto simp: th_get_waiter_def Let_def ready_frameD split: if_splits
      dest!: add_proc_threads add_ready_frame)

declare wake_waiters.simps [simp del]

definition cl_terminate :: "kernel \<Rightarrow> kernel res" where
  "cl_terminate k =
     (let k = cl_lock k in
      bindE (derefE (cl_cur (k_cl k))) (\<lambda>old.
      bindE (wake_waiters old k) (\<lambda>k.
      bindE (cl_get_ready k) (\<lambda>(r, k).
      let k = cl_setCur r k in
      bindE (derefE r) (\<lambda>new.
      bindE (derefE (th_thread (k_threads k new))) (\<lambda>sp.
      Inr (switch_term old (k\<lparr>k_sp := sp\<rparr>))))))))"

definition cl_terminate_thread :: "tid option \<Rightarrow> kernel \<Rightarrow> kernel res" where
  "cl_terminate_thread t k =
     (case t of
        None \<Rightarrow> Inr k
      | Some t \<Rightarrow>
          let k = cl_lock k in
          if th_done (k_threads k t) then Inr (cl_unlock k)
          else if cl_cur (k_cl k) = Some t then cl_terminate k
          else bindE (derefE (th_proc (k_threads k t))) (\<lambda>p.
               bindE (proc_get_ready_item p t k) (\<lambda>(_, k).
               Inr (cl_unlock (th_destroy t k)))))"

section \<open>Busy processors\<close>

text \<open>
  The result says whether the call switched to another thread; if so the rest of the caller's
  loop is its continuation.
\<close>

definition do_busy :: "ptime \<Rightarrow> cont \<Rightarrow> kernel \<Rightarrow> (bool \<times> kernel) res" where
  "do_busy req c k =
     bindE (derefE (cl_curproc (k_cl k))) (\<lambda>cp.
     bindE (proc_clearBusyThread cp k) (\<lambda>k.
     bindE (derefE (cl_cur (k_cl k))) (\<lambda>cur.
     let k = th_setProc cur (Some cp) k in
     bindE (sys_add_busy req cur k) (\<lambda>k.
     let m = cl_main (k_cl k) in
     bindE (derefE (th_proc (k_threads k m))) (\<lambda>mp.
     bindE (proc_remove_ready mp m k) (\<lambda>k.
     bindE (cl_get_new_proc k) (\<lambda>(_, k).
     let k = th_setProc m (cl_curproc (k_cl k)) k in
     bindE (derefE (cl_curproc (k_cl k))) (\<lambda>np.
     bindE (proc_add_ready np m k) (\<lambda>k.
     if proc_next_ready k np \<noteq> cl_cur (k_cl k)
     then bindE (exec_block c k) (\<lambda>k. Inr (True, k))
     else Inr (False, snd (proc_get_ready np k)))))))))))"

partial_function (option) busysleep_loop :: "ptime \<Rightarrow> kernel \<Rightarrow> kernel res option" where
  "busysleep_loop ts k =
     (case do_busy ts (CBusySleep ts) k of
        Inl e \<Rightarrow> Some (Inl e)
      | Inr (switched, k) \<Rightarrow>
          if switched then Some (Inr k)
          else (case cl_cur (k_cl k) of
                  None \<Rightarrow> Some (Inl NullDeref)
                | Some c \<Rightarrow> if th_valid (k_threads k c) then Some (Inr k) else busysleep_loop ts k))"

definition runs :: "'a res option \<Rightarrow> 'a res" where
  "runs m = bindE (returnsE m) (\<lambda>r. r)"

definition cl_busysleep :: "ptime \<Rightarrow> kernel \<Rightarrow> kernel res" where
  "cl_busysleep ts k =
     (if \<not> sy_busyokay (k_sys k) then pAbort k
      else bindE (derefE (cl_cur (k_cl k))) (\<lambda>c.
           runs (busysleep_loop ts (upd_th c (\<lambda>r. r\<lparr>th_valid := False\<rparr>) k))))"

definition requested :: "ptime \<Rightarrow> ptime \<Rightarrow> tid \<Rightarrow> kernel \<Rightarrow> ptime" where
  "requested tot userts c k =
     (if th_priority (k_threads k c) \<noteq> 0 \<or> tot < cl_busyts (k_cl k) then tot
      else if userts > 0 then userts else cl_busyts (k_cl k))"

partial_function (option) busy_loop :: "ptime \<Rightarrow> ptime \<Rightarrow> kernel \<Rightarrow> kernel res option" where
  "busy_loop tot userts k =
     (if tot = 0 then Some (Inr k)
      else case cl_cur (k_cl k) of
          None \<Rightarrow> Some (Inl NullDeref)
        | Some c \<Rightarrow>
           (case do_busy (requested tot userts c k) (CBusy tot userts) k of
              Inl e \<Rightarrow> Some (Inl e)
            | Inr (switched, k) \<Rightarrow>
                if switched then Some (Inr k)
                else busy_loop (tot - th_time (k_threads k c)) userts k))"

definition cl_busy :: "ptime \<Rightarrow> ptime \<Rightarrow> kernel \<Rightarrow> kernel res" where
  "cl_busy tot userts k =
     (if \<not> sy_busyokay (k_sys k) then pAbort k else runs (busy_loop tot userts k))"

section \<open>Preemption\<close>

definition cl_ts_okay :: "kernel \<Rightarrow> bool res" where
  "cl_ts_okay k =
     (if cl_locked k then Inr False
      else bindE (derefE (cl_cur (k_cl k))) (\<lambda>c. Inr (th_priority (k_threads k c) = 0)))"

text \<open>
  The alarm signal is blocked while the handler runs and unblocked when it returns.
\<close>

definition preempt_handler :: "kernel \<Rightarrow> kernel res" where
  "preempt_handler k =
     (let k = resetalarm (upd_cl (\<lambda>c. c\<lparr>cl_alarm_blocked := True\<rparr>) k) in
      bindE (cl_ts_okay k) (\<lambda>ok.
      if \<not> ok then Inr (upd_cl (\<lambda>c. c\<lparr>cl_alarm_blocked := False\<rparr>) k)
      else cl_yield CPreempt (cl_preempt (cl_lock k))))"

definition preempt_return :: "kernel \<Rightarrow> kernel" where
  "preempt_return k = upd_cl (\<lambda>c. c\<lparr>cl_alarm_blocked := False\<rparr>) (cl_nopreempt k)"

section \<open>The scheduler loop\<close>

text \<open>One pass of the loop; \<open>False\<close> when the scheduler returns to \<^verbatim>\<open>main\<close>.\<close>

definition sched_body :: "kernel \<Rightarrow> (bool \<times> kernel) res" where
  "sched_body k =
     (if sy_wantshutdown (k_sys k) then Inr (False, k)
      else bindE (cl_update_proc k) (\<lambda>(b, k).
        if \<not> b then Inr (False, k)
        else bindE (cl_get_ready k) (\<lambda>(r, k).
          case r of
            None \<Rightarrow> Inr (False, k)
          | Some ready \<Rightarrow>
              let m = cl_main (k_cl k) in
              bindE (exec_ready_to ready m CSched (th_setProc m (cl_curproc (k_cl k)) k)) (\<lambda>k.
              Inr (True, k)))))"

definition cl_scheduler :: "kernel \<Rightarrow> (bool \<times> kernel) res" where
  "cl_scheduler k = sched_body (cl_unlock k)"

text \<open>
  What the current thread's pending kernel code does when the thread is switched to.  A thread
  in user code has none.
\<close>

definition resume :: "kernel \<Rightarrow> (bool \<times> kernel) res" where
  "resume k =
     bindE (derefE (cl_cur (k_cl k))) (\<lambda>c.
     let k' = set_cont c CUser k in
     case k_cont k c of
       CUser \<Rightarrow> Inr (True, k)
     | CPreempt \<Rightarrow> Inr (True, preempt_return k')
     | CSched \<Rightarrow> sched_body k
     | CBusy tot userts \<Rightarrow>
         bindE (runs (busy_loop (tot - th_time (k_threads k c)) userts k')) (\<lambda>k. Inr (True, k))
     | CBusySleep ts \<Rightarrow>
         bindE (if th_valid (k_threads k c) then Inr k' else runs (busysleep_loop ts k')) (\<lambda>k. Inr (True, k)))"

end
