(* ===== verification/Ready_Inv.thy ===== *)
theory Ready_Inv
  imports Proc_Ops
begin

text \<open>
  The ready-queue invariant.  \<open>R v i\<close> is the list of ready threads of priority \<open>i\<close> in the ready
  vector \<open>v\<close>.  \<open>ready_rep X k R\<close> says that the linked queues of the kernel state spell these
  lists, that every ready thread is in exactly one of them, in the queue of its priority, that
  the counters are right, and that threads which are running or busy are in no queue (except
  those of \<open>X\<close>, whose links may be stale).  The operations of the processor are specified
  against it.
\<close>

section \<open>The invariant\<close>

type_synonym rmap = "qvid \<Rightarrow> nat \<Rightarrow> tid list"

abbreviation nqueues :: "kernel \<Rightarrow> qvid \<Rightarrow> nat" where
  "nqueues k v \<equiv> length (qv_queues (k_qvects k v))"

definition ready_rep :: "tid set \<Rightarrow> kernel \<Rightarrow> rmap \<Rightarrow> bool" where
  "ready_rep X k R \<longleftrightarrow>
     (\<forall>v i. i < nqueues k v \<longrightarrow> is_queue (k_tlinks k) (qv_queues (k_qvects k v) ! i) (R v i)) \<and>
     (\<forall>v i. nqueues k v \<le> i \<longrightarrow> R v i = []) \<and>
     (\<forall>v i t. t \<in> set (R v i) \<longrightarrow>
        th_state (k_threads k t) = TReady \<and> th_priority (k_threads k t) = i) \<and>
     (\<forall>v w i j t. t \<in> set (R v i) \<longrightarrow> t \<in> set (R w j) \<longrightarrow> v = w) \<and>
     (\<forall>v. qv_count (k_qvects k v) = int (\<Sum>i<nqueues k v. length (R v i))) \<and>
     (\<forall>t. th_state (k_threads k t) = TReady \<longrightarrow> (\<exists>v. t \<in> set (R v (th_priority (k_threads k t))))) \<and>
     (\<forall>t. th_state (k_threads k t) = TRun \<or> th_state (k_threads k t) = TBusy \<longrightarrow>
        t \<notin> X \<longrightarrow> unlinked (k_tlinks k) t)"

lemma rep_queue: "ready_rep X k R \<Longrightarrow> i < nqueues k v \<Longrightarrow>
    is_queue (k_tlinks k) (qv_queues (k_qvects k v) ! i) (R v i)"
  and rep_range: "ready_rep X k R \<Longrightarrow> nqueues k v \<le> i \<Longrightarrow> R v i = []"
  and rep_member: "ready_rep X k R \<Longrightarrow> t \<in> set (R v i) \<Longrightarrow>
    th_state (k_threads k t) = TReady \<and> th_priority (k_threads k t) = i"
  and rep_once: "ready_rep X k R \<Longrightarrow> t \<in> set (R v i) \<Longrightarrow> t \<in> set (R w j) \<Longrightarrow> v = w"
  and rep_count: "ready_rep X k R \<Longrightarrow> qv_count (k_qvects k v) = int (\<Sum>i<nqueues k v. length (R v i))"
  and rep_ready: "ready_rep X k R \<Longrightarrow> th_state (k_threads k t) = TReady \<Longrightarrow>
    \<exists>v. t \<in> set (R v (th_priority (k_threads k t)))"
  and rep_unlinked: "ready_rep X k R \<Longrightarrow>
    th_state (k_threads k t) = TRun \<or> th_state (k_threads k t) = TBusy \<Longrightarrow> t \<notin> X \<Longrightarrow>
    unlinked (k_tlinks k) t"
  unfolding ready_rep_def by blast+

lemma ready_repI:
  assumes "\<And>v i. i < nqueues k v \<Longrightarrow> is_queue (k_tlinks k) (qv_queues (k_qvects k v) ! i) (R v i)"
    and "\<And>v i. nqueues k v \<le> i \<Longrightarrow> R v i = []"
    and "\<And>v i t. t \<in> set (R v i) \<Longrightarrow>
      th_state (k_threads k t) = TReady \<and> th_priority (k_threads k t) = i"
    and "\<And>v w i j t. t \<in> set (R v i) \<Longrightarrow> t \<in> set (R w j) \<Longrightarrow> v = w"
    and "\<And>v. qv_count (k_qvects k v) = int (\<Sum>i<nqueues k v. length (R v i))"
    and "\<And>t. th_state (k_threads k t) = TReady \<Longrightarrow> \<exists>v. t \<in> set (R v (th_priority (k_threads k t)))"
    and "\<And>t. th_state (k_threads k t) = TRun \<or> th_state (k_threads k t) = TBusy \<Longrightarrow> t \<notin> X \<Longrightarrow>
      unlinked (k_tlinks k) t"
  shows "ready_rep X k R"
  unfolding ready_rep_def using assms by blast

lemma ready_rep_cong:
  assumes "ready_rep X k R" and "k_tlinks k' = k_tlinks k" and "k_qvects k' = k_qvects k"
    and "\<And>t. th_state (k_threads k' t) = th_state (k_threads k t)"
    and "\<And>t. th_priority (k_threads k' t) = th_priority (k_threads k t)"
  shows "ready_rep X k' R"
  using assms by (simp add: ready_rep_def)

lemma sum_upd:
  fixes f :: "nat \<Rightarrow> 'a list"
  assumes "i < n"
  shows "(\<Sum>j<n. length ((f(i := ys)) j)) + length (f i) = (\<Sum>j<n. length (f j)) + length ys"
proof -
  have "(\<Sum>j<n. length (g j)) = length (g i) + (\<Sum>j\<in>{..<n} - {i}. length (g j))" for g :: "nat \<Rightarrow> 'a list"
    using assms by (intro sum.remove) auto
  note this [of f] this [of "f(i := ys)"]
  moreover have "(\<Sum>j\<in>{..<n} - {i}. length ((f(i := ys)) j)) = (\<Sum>j\<in>{..<n} - {i}. length (f j))"
    by (intro sum.cong) auto
  ultimately show ?thesis by simp
qed

section \<open>One queue changes\<close>

text \<open>
  The common part of all queue operations: queue \<open>i\<close> of vector \<open>v\<close> changes from \<open>R v i\<close> to
  \<open>ys\<close> by adding or removing thread \<open>t\<close>.
\<close>

definition one_queue :: "qvid \<Rightarrow> nat \<Rightarrow> tid \<Rightarrow> tstate \<Rightarrow> queue \<Rightarrow> qheap \<Rightarrow> int \<Rightarrow> kernel \<Rightarrow> kernel \<Rightarrow> bool" where
  "one_queue v i t s q h c k k' \<longleftrightarrow>
     k_tlinks k' = h \<and>
     qv_queues (k_qvects k' v) = (qv_queues (k_qvects k v))[i := q] \<and>
     qv_count (k_qvects k' v) = qv_count (k_qvects k v) + c \<and>
     (\<forall>w. w \<noteq> v \<longrightarrow> k_qvects k' w = k_qvects k w) \<and>
     k_threads k' = (k_threads k)(t := (k_threads k t)\<lparr>th_state := s\<rparr>)"

lemma one_queue_rep:
  assumes rep: "ready_rep X k R" and i: "i = th_priority (k_threads k t)" "i < nqueues k v"
    and q: "is_queue h q ys" and sl: "same_links (insert t (set (R v i))) (k_tlinks k) h"
    and own: "t \<in> set (R v i) \<or> (\<forall>w j. t \<notin> set (R w j))"
    and ys: "set ys - {t} = set (R v i) - {t}" "t \<in> set ys \<longleftrightarrow> s = TReady"
      "int (length ys) = int (length (R v i)) + c"
    and un: "s = TRun \<or> s = TBusy \<Longrightarrow> t \<notin> X' \<Longrightarrow> unlinked h t" and X: "X \<subseteq> insert t X'"
    and one: "one_queue v i t s q h c k k'"
  shows "ready_rep X' k' (R(v := (R v)(i := ys)))"
proof (rule ready_repI)
  let ?R = "R(v := (R v)(i := ys))"
  have L: "k_tlinks k' = h" and T: "k_threads k' = (k_threads k)(t := (k_threads k t)\<lparr>th_state := s\<rparr>)"
    and N: "nqueues k' w = nqueues k w" for w
    using one by (auto simp: one_queue_def) (cases "w = v"; auto)
  have other: "insert t (set (R v i)) \<inter> set (R w j) = {}" if "(w, j) \<noteq> (v, i)" for w j
  proof -
    have "u \<notin> set (R w j)" if "u \<in> set (R v i)" for u
      using rep_once [OF rep that, of w j] rep_member [OF rep that] rep_member [OF rep, of u w j]
        \<open>(w, j) \<noteq> (v, i)\<close> by auto
    then show ?thesis using own by blast
  qed
  show "is_queue (k_tlinks k') (qv_queues (k_qvects k' w) ! j) (?R w j)" if "j < nqueues k' w" for w j
  proof (cases "(w, j) = (v, i)")
    case True
    then show ?thesis using one q i(2) by (auto simp: one_queue_def)
  next
    case False
    have "is_queue h (qv_queues (k_qvects k w) ! j) (R w j)"
      using rep_queue [OF rep] is_queue_frame [OF _ sl other [OF False]] that N by simp
    then show ?thesis using False one L by (cases "w = v") (auto simp: one_queue_def)
  qed
  show "?R w j = []" if "nqueues k' w \<le> j" for w j
    using that rep_range [OF rep] i(2) N by auto
  show "th_state (k_threads k' u) = TReady \<and> th_priority (k_threads k' u) = j"
    if "u \<in> set (?R w j)" for w j u
  proof (cases "u = t")
    case True
    have "(w, j) = (v, i)"
    proof (rule ccontr)
      assume "(w, j) \<noteq> (v, i)"
      then show False using other [of w j] that True by (auto split: if_splits)
    qed
    then show ?thesis using that True ys(2) T i(1) by auto
  next
    case False
    then have "u \<in> set (R w j)" using that ys(1) by (auto split: if_splits)
    then show ?thesis using rep_member [OF rep] False T by simp
  qed
  show "w = w'" if "u \<in> set (?R w j)" "u \<in> set (?R w' j')" for w w' j j' u
  proof (cases "u = t")
    case True
    then have "(w, j) = (v, i)" "(w', j') = (v, i)" using that other by (auto split: if_splits)
    then show ?thesis by simp
  next
    case False
    then have "u \<in> set (R w j)" "u \<in> set (R w' j')" using that ys(1) by (auto split: if_splits)
    then show ?thesis using rep_once [OF rep] by blast
  qed
  show "qv_count (k_qvects k' w) = int (\<Sum>j<nqueues k' w. length (?R w j))" for w
  proof (cases "w = v")
    case True
    then show ?thesis using sum_upd [OF i(2), of "R v" ys] rep_count [OF rep, of v] one ys(3) N [of v]
      by (simp add: one_queue_def del: of_nat_sum)
  next
    case False
    then show ?thesis using rep_count [OF rep, of w] one by (simp add: one_queue_def)
  qed
  show "\<exists>w. u \<in> set (?R w (th_priority (k_threads k' u)))" if rd: "th_state (k_threads k' u) = TReady" for u
  proof (cases "u = t")
    case True
    then show ?thesis using rd ys(2) T i(1) by (intro exI [of _ v]) simp
  next
    case False
    then obtain w where "u \<in> set (R w (th_priority (k_threads k u)))"
      using rd rep_ready [OF rep, of u] T by auto
    then have "u \<in> set (?R w (th_priority (k_threads k u)))" using False ys(1) by auto
    moreover have "th_priority (k_threads k' u) = th_priority (k_threads k u)" using False T by simp
    ultimately show ?thesis by metis
  qed
  show "unlinked (k_tlinks k') u"
    if "th_state (k_threads k' u) = TRun \<or> th_state (k_threads k' u) = TBusy" "u \<notin> X'" for u
  proof (cases "u = t")
    case True
    then show ?thesis using that un L T by auto
  next
    case False
    then have st: "th_state (k_threads k u) = TRun \<or> th_state (k_threads k u) = TBusy" using that T by simp
    then have "u \<notin> set (R v i)" using rep_member [OF rep, of u] by auto
    moreover have "unlinked (k_tlinks k) u" using rep_unlinked [OF rep st] False that X by blast
    ultimately show ?thesis using sl False L by (simp add: same_links_def unlinked_def)
  qed
qed

section \<open>The processor's operations\<close>

text \<open>
  The abstract ready structure of a processor: one list per priority.  \<open>pick\<close> takes the first
  thread of the highest priority below \<open>n\<close> that has one.
\<close>

primrec pick :: "nat \<Rightarrow> (nat \<Rightarrow> tid list) \<Rightarrow> (tid \<times> (nat \<Rightarrow> tid list)) option" where
  "pick 0 Q = None"
| "pick (Suc i) Q = (case Q i of [] \<Rightarrow> pick i Q | t # ts \<Rightarrow> Some (t, Q(i := ts)))"

lemma pick_None: "pick n Q = None \<longleftrightarrow> (\<forall>i<n. Q i = [])"
  by (induction n) (auto simp: less_Suc_eq split: list.splits)

lemma pick_Some: "pick n Q = Some (t, Q') \<Longrightarrow>
    \<exists>i ts. i < n \<and> Q i = t # ts \<and> Q' = Q(i := ts) \<and> (\<forall>j. i < j \<and> j < n \<longrightarrow> Q j = [])"
proof (induction n)
  case (Suc n)
  show ?case
  proof (cases "Q n")
    case Nil
    then obtain i ts where "i < n" "Q i = t # ts" "Q' = Q(i := ts)" "\<forall>j. i < j \<and> j < n \<longrightarrow> Q j = []"
      using Suc by (metis list.simps(4) pick.simps(2))
    then show ?thesis using Nil by (intro exI [of _ i] exI [of _ ts]) (auto simp: less_Suc_eq)
  next
    case (Cons x xs)
    then show ?thesis using Suc.prems by (intro exI [of _ n] exI [of _ xs]) auto
  qed
qed simp

lemma add_ready_spec:
  assumes rep: "ready_rep X k R" and st: "th_state (k_threads k t) = TRun \<or> th_state (k_threads k t) = TBusy"
    and t: "t \<notin> X" and v: "v = pr_ready (k_procs k p)"
    and i: "i = th_priority (k_threads k t)" "i < nqueues k v"
  obtains k' where "proc_add_ready p t k = Inr k'"
    and "ready_rep X k' (R(v := (R v)(i := R v i @ [t])))"
    and "k_threads k' = (k_threads k)(t := (k_threads k t)\<lparr>th_state := TReady\<rparr>)"
    and "ready_frame k k'"
proof -
  have nt: "t \<notin> set (R w j)" for w j using rep_member [OF rep] st by fastforce
  obtain q h where q: "q_add t (qv_queues (k_qvects k v) ! i, k_tlinks k) = Inr (q, h)"
    "is_queue h q (R v i @ [t])" "same_links (insert t (set (R v i))) (k_tlinks k) h"
    using q_add_spec [OF rep_queue [OF rep i(2)] nt rep_unlinked [OF rep st t]] by metis
  define k' where "k' = upd_qv v (\<lambda>r. r\<lparr>qv_count := qv_count r + 1\<rparr>) (put_queue v i q h (th_setState t TReady k))"
  have ok: "proc_add_ready p t k = Inr k'"
    using st q(1) v i by (simp add: proc_add_ready_def th_setState_def k'_def put_queue_def Let_def)
  have one: "one_queue v i t TReady q h 1 k k'"
    by (simp add: one_queue_def k'_def put_queue_def th_setState_def)
  have "ready_rep X k' (R(v := (R v)(i := R v i @ [t])))"
    by (rule one_queue_rep [OF rep i q(2,3) _ _ _ _ _ _ one]) (use nt in auto)
  then show thesis using that [OF ok] one add_ready_frame [OF ok] by (auto simp: one_queue_def)
qed

lemma take_spec:
  assumes rep: "ready_rep X k R" and t: "t \<in> set (R v i)"
    and q: "is_queue h q (remove1 t (R v i))" and sl: "same_links (set (R v i)) (k_tlinks k) h"
    and un: "t \<notin> X' \<Longrightarrow> unlinked h t" and X: "X \<subseteq> insert t X'"
  shows "ready_rep X' (proc_return_thread v t (put_queue v i q h k)) (R(v := (R v)(i := remove1 t (R v i))))"
proof -
  have i: "i = th_priority (k_threads k t)" "i < nqueues k v"
    using rep_member [OF rep t] rep_range [OF rep, of v i] t by (auto intro: ccontr)
  have d: "distinct (R v i)" using rep_queue [OF rep i(2)] by (simp add: is_queue_def)
  have len: "int (length (remove1 t (R v i))) = int (length (R v i)) + - 1"
    using t length_pos_if_in_set [OF t] by (simp add: length_remove1 of_nat_diff Suc_le_eq del: length_greater_0_conv)
  have one: "one_queue v i t TRun q h (- 1) k (proc_return_thread v t (put_queue v i q h k))"
    by (simp add: one_queue_def proc_return_thread_def put_queue_def th_setState_def)
  show ?thesis
    by (rule one_queue_rep [OF rep i q _ _ _ _ _ _ X one])
      (use t d sl un len in \<open>auto simp: insert_absorb\<close>)
qed

text \<open>The thread record after \<^verbatim>\<open>return_thread\<close>.\<close>

lemma return_thread_threads [simp]:
  "k_threads (proc_return_thread v t (put_queue v i q h k)) =
     (k_threads k)(t := (k_threads k t)\<lparr>th_state := TRun\<rparr>)"
  by (simp add: proc_return_thread_def put_queue_def th_setState_def)

lemma get_ready_loop_spec:
  assumes rep: "ready_rep X k R" and n: "n \<le> nqueues k v"
  shows "case pick n (R v) of
      None \<Rightarrow> get_ready_loop v n k = (None, k)
    | Some (t, Q) \<Rightarrow> \<exists>k'. get_ready_loop v n k = (Some t, k') \<and> ready_rep X k' (R(v := Q)) \<and>
        k_threads k' = (k_threads k)(t := (k_threads k t)\<lparr>th_state := TRun\<rparr>)"
  using n
proof (induction n)
  case (Suc n)
  then have q: "is_queue (k_tlinks k) (qv_queues (k_qvects k v) ! n) (R v n)"
    by (intro rep_queue [OF rep]) simp
  show ?case
  proof (cases "R v n")
    case Nil
    then have e: "get_ready_loop v (Suc n) k = get_ready_loop v n k" "pick (Suc n) (R v) = pick n (R v)"
      using q_get_Nil [of "k_tlinks k" "qv_queues (k_qvects k v) ! n"] q by simp_all
    show ?thesis unfolding e using Suc by (intro Suc.IH) simp
  next
    case (Cons t ts)
    then obtain q' h' where g: "q_get (qv_queues (k_qvects k v) ! n, k_tlinks k) = (Some t, q', h')"
      "is_queue h' q' ts" "unlinked h' t" "same_links (set (t # ts)) (k_tlinks k) h'"
      using q_get_Cons [of "k_tlinks k" "qv_queues (k_qvects k v) ! n" t ts] q by metis
    have "ready_rep X (proc_return_thread v t (put_queue v n q' h' k)) (R(v := (R v)(n := ts)))"
      using take_spec [OF rep, of t v n h' q' X] g Cons by auto
    then show ?thesis using Cons g by simp
  qed
qed simp

lemma get_ready_spec:
  assumes rep: "ready_rep X k R" and v: "v = pr_ready (k_procs k p)"
  shows "case pick (nqueues k v) (R v) of
      None \<Rightarrow> proc_get_ready p k = (None, k)
    | Some (t, Q) \<Rightarrow> \<exists>k'. proc_get_ready p k = (Some t, k') \<and> ready_rep X k' (R(v := Q)) \<and>
        k_threads k' = (k_threads k)(t := (k_threads k t)\<lparr>th_state := TRun\<rparr>)"
  using get_ready_loop_spec [OF rep order_refl, of v] v
  by (auto simp: proc_get_ready_def split: option.splits)

lemma next_ready_spec:
  assumes rep: "ready_rep X k R" and v: "v = pr_ready (k_procs k p)"
  shows "proc_next_ready k p = map_option fst (pick (nqueues k v) (R v))"
proof -
  have "next_ready_loop (qv_queues (k_qvects k v)) n = map_option fst (pick n (R v))" if "n \<le> nqueues k v" for n
    using that
  proof (induction n)
    case (Suc n)
    then show ?case using is_queue_head [OF rep_queue [OF rep, of n v]]
      by (cases "R v n") (auto simp: q_front_def)
  qed simp
  then show ?thesis using v by (simp add: proc_next_ready_def)
qed

lemma proc_empty_iff:
  assumes "ready_rep X k R"
  shows "proc_empty k p \<longleftrightarrow> pick (nqueues k (pr_ready (k_procs k p))) (R (pr_ready (k_procs k p))) = None"
  using rep_count [OF assms, of "pr_ready (k_procs k p)"]
  by (auto simp: proc_empty_def thread_empty_def pick_None simp del: of_nat_sum)

lemma get_ready_item_spec:
  assumes rep: "ready_rep X k R" and v: "v = pr_ready (k_procs k p)"
    and i: "i = th_priority (k_threads k t)" "i < nqueues k v"
  shows "if t \<in> set (R v i)
    then \<exists>k'. proc_get_ready_item p t k = Inr (Some t, k') \<and>
      ready_rep (insert t X) k' (R(v := (R v)(i := remove1 t (R v i)))) \<and>
      k_threads k' = (k_threads k)(t := (k_threads k t)\<lparr>th_state := TRun\<rparr>)
    else proc_get_ready_item p t k = Inr (None, k)"
proof -
  note q = rep_queue [OF rep i(2)]
  show ?thesis
  proof (cases "t \<in> set (R v i)")
    case True
    obtain q' h' where g: "q_get_item (Some t) (qv_queues (k_qvects k v) ! i, k_tlinks k) = Inr (Some t, q', h')"
      "is_queue h' q' (remove1 t (R v i))" "same_links (set (R v i)) (k_tlinks k) h'"
      by (rule q_get_item_found [OF q True])
    have "ready_rep (insert t X) (proc_return_thread v t (put_queue v i q' h' k))
        (R(v := (R v)(i := remove1 t (R v i))))"
      by (rule take_spec [OF rep True g(2,3)]) auto
    then show ?thesis using True g(1) v i by (simp add: proc_get_ready_item_def Let_def)
  next
    case False
    then show ?thesis using q_get_item_absent [OF q False] v i by (simp add: proc_get_ready_item_def Let_def)
  qed
qed

text \<open>A kernel without ready threads satisfies the invariant.\<close>

lemma rep_empty:
  assumes "\<And>v. \<exists>n. k_qvects k v = qvect_init n" and "\<And>t. th_state (k_threads k t) \<noteq> TReady"
    and "\<And>t. unlinked (k_tlinks k) t"
  shows "ready_rep X k (\<lambda>_ _. [])"
proof (rule ready_repI)
  fix v i
  obtain n where n: "k_qvects k v = qvect_init n" using assms(1) by blast
  show "i < nqueues k v \<Longrightarrow> is_queue (k_tlinks k) (qv_queues (k_qvects k v) ! i) []"
    using n by (simp add: qvect_init_def)
  show "qv_count (k_qvects k v) = int (\<Sum>i<nqueues k v. length [])" using n by (simp add: qvect_init_def)
qed (use assms in auto)

section \<open>Properties\<close>

text \<open>
  C3. Choosing a thread: with the queues in order, \<^verbatim>\<open>Proc::get_ready\<close> takes the first thread of the
  highest priority that has a ready thread, marks it running, and leaves all other threads
  queued in their order; it returns null exactly when no thread of the processor is ready,
  which is when \<^verbatim>\<open>Proc::empty\<close> holds.
\<close>

theorem get_ready_highest_first:
  assumes rep: "ready_rep {} k R" and v: "v = pr_ready (k_procs k p)"
  shows "(proc_empty k p \<longleftrightarrow> (\<forall>i. R v i = [])) \<and>
    (if proc_empty k p then proc_get_ready p k = (None, k)
     else \<exists>i t ts k'. R v i = t # ts \<and> (\<forall>j>i. R v j = []) \<and> proc_get_ready p k = (Some t, k') \<and>
       proc_next_ready k p = Some t \<and> th_state (k_threads k' t) = TRun \<and>
       ready_rep {} k' (R(v := (R v)(i := ts))))"
proof -
  have all: "pick (nqueues k v) (R v) = None \<longleftrightarrow> (\<forall>i. R v i = [])"
    using rep_range [OF rep, of v] by (auto simp: pick_None) (metis not_less)
  have e: "proc_empty k p \<longleftrightarrow> pick (nqueues k v) (R v) = None" using proc_empty_iff [OF rep] v by simp
  show ?thesis
  proof (cases "pick (nqueues k v) (R v)")
    case None
    then show ?thesis using get_ready_spec [OF rep v] all e by simp
  next
    case (Some tQ)
    obtain t Q where tQ: "tQ = (t, Q)" by fastforce
    obtain i ts where i: "R v i = t # ts" "Q = (R v)(i := ts)" "\<forall>j. i < j \<and> j < nqueues k v \<longrightarrow> R v j = []"
      using pick_Some [of "nqueues k v" "R v" t Q] Some tQ by auto
    have hi: "\<forall>j>i. R v j = []" using i(3) rep_range [OF rep, of v] by (metis not_less)
    obtain k' where k': "proc_get_ready p k = (Some t, k')" "ready_rep {} k' (R(v := Q))"
      "k_threads k' = (k_threads k)(t := (k_threads k t)\<lparr>th_state := TRun\<rparr>)"
      using get_ready_spec [OF rep v] Some tQ by auto
    show ?thesis using k' i(1,2) hi Some tQ e all next_ready_spec [OF rep v] by auto
  qed
qed

text \<open>A processor with three priorities, thread 1 ready at priority 0 and thread 2 at priority 2.\<close>

definition ready_demo0 :: kernel where
  "ready_demo0 = upd_th 2 (\<lambda>r. r\<lparr>th_priority := 2\<rparr>)
     (snd (projr (proc_new None ((kernel_init 64)\<lparr>k_numpri := 3\<rparr>))))"

definition ready_demo :: kernel where
  "ready_demo = projr (bindE (proc_add_ready 0 1 ready_demo0) (proc_add_ready 0 2))"

lemmas boot_defs = proc_new_def proc_numPriorities_def kernel_init_def sys_add_active_thread_def
  system_init_def thread_init_def proc_init_def

lemma ready_demo0_rep: "ready_rep {} ready_demo0 (\<lambda>_ _. [])"
  by (rule rep_empty)
    (auto simp: ready_demo0_def boot_defs unlinked_def empty_qheap_def qbase_init_def Let_def)

lemma ready_demo_rep: "ready_rep {} ready_demo ((\<lambda>_ _. [])(0 := (\<lambda>_. [])(0 := [1], 2 := [2])))
    \<and> pr_ready (k_procs ready_demo 0) = 0"
proof -
  have d: "pr_ready (k_procs ready_demo0 0) = 0" "nqueues ready_demo0 0 = 3"
    "th_priority (k_threads ready_demo0 1) = 0" "th_priority (k_threads ready_demo0 2) = 2"
    "th_state (k_threads ready_demo0 1) = TRun" "th_state (k_threads ready_demo0 2) = TRun"
    by (simp_all add: ready_demo0_def boot_defs qvect_init_def Let_def)
  obtain k1 where 1: "proc_add_ready 0 1 ready_demo0 = Inr k1"
      "ready_rep {} k1 ((\<lambda>_ _. [])(0 := (\<lambda>_. [])(0 := [1])))"
      "k_threads k1 = (k_threads ready_demo0)(1 := (k_threads ready_demo0 1)\<lparr>th_state := TReady\<rparr>)"
      "ready_frame ready_demo0 k1"
    by (rule add_ready_spec [OF ready_demo0_rep, of 1 0 0 0]) (use d in auto)
  have f: "pr_ready (k_procs k1 0) = 0" "nqueues k1 0 = 3"
    using ready_frameD [OF 1(4)] d by auto
  obtain k2 where 2: "proc_add_ready 0 2 k1 = Inr k2"
      "ready_rep {} k2 ((\<lambda>_ _. [])(0 := (\<lambda>_. [])(0 := [1], 2 := [2])))"
      "ready_frame k1 k2"
    by (rule add_ready_spec [OF 1(2), of 2 0 0 2]) (use d f 1(3) in \<open>auto simp: fun_upd_twist\<close>)
  then show ?thesis using 1(1) f ready_frameD [OF 2(3)] by (simp add: ready_demo_def)
qed

theorem get_ready_highest_first_witness:
  "\<exists>k'. proc_get_ready 0 ready_demo = (Some 2, k') \<and> proc_next_ready ready_demo 0 = Some 2
     \<and> th_state (k_threads k' 2) = TRun"
  using get_ready_highest_first [OF conjunct1 [OF ready_demo_rep], of 0 0] ready_demo_rep
  by (auto split: if_splits)

end
