(* ===== verification/Kernel_Inv.thy ===== *)
theory Kernel_Inv
  imports Switch_Ops Ready_Inv
begin

text \<open>
  The invariant of the running kernel, for programs that do not consume simulated processor
  time (\<^verbatim>\<open>pBusy\<close>) and whose processors do not share a ready vector.  \<open>core\<close> describes threads,
  ready queues and the processor queue; \<open>parked\<close> collects the threads that wait for another
  thread or for a point in time; \<open>user_mode\<close> and \<open>sched_mode\<close> add what holds while a user thread
  runs and while the scheduler runs.
\<close>

section \<open>The core invariant\<close>

abbreviation curproc :: "kernel \<Rightarrow> pid option" where
  "curproc k \<equiv> cl_curproc (k_cl k)"

abbreviation cur :: "kernel \<Rightarrow> tid option" where
  "cur k \<equiv> cl_cur (k_cl k)"

abbreviation mainth :: "kernel \<Rightarrow> tid" where
  "mainth k \<equiv> cl_main (k_cl k)"

definition some_ready :: "rmap \<Rightarrow> qvid \<Rightarrow> bool" where
  "some_ready R v \<longleftrightarrow> (\<exists>i. R v i \<noteq> [])"

definition threads_ok :: "kernel \<Rightarrow> bool" where
  "threads_ok k \<longleftrightarrow>
     mainth k < k_ntid k \<and> th_priority (k_threads k (mainth k)) = 0 \<and>
     (\<forall>t<k_ntid k. t \<noteq> mainth k \<longrightarrow> (\<exists>p<k_npid k. th_proc (k_threads k t) = Some p)) \<and>
     (\<forall>t<k_ntid k. th_priority (k_threads k t) < k_numpri k \<and> th_thread (k_threads k t) \<noteq> None)"

definition members_ok :: "kernel \<Rightarrow> rmap \<Rightarrow> bool" where
  "members_ok k R \<longleftrightarrow> (\<forall>v i t. t \<in> set (R v i) \<longrightarrow> t < k_ntid k \<and>
     (\<exists>p<k_npid k. th_proc (k_threads k t) = Some p \<and> pr_ready (k_procs k p) = v))"

definition procs_wf :: "kernel \<Rightarrow> bool" where
  "procs_wf k \<longleftrightarrow>
     (\<forall>p<k_npid k. pr_ready (k_procs k p) < k_nqv k \<and> nqueues k (pr_ready (k_procs k p)) = k_numpri k) \<and>
     (\<forall>p<k_npid k. \<forall>q<k_npid k. pr_ready (k_procs k p) = pr_ready (k_procs k q) \<longrightarrow> p = q) \<and>
     (\<forall>v\<ge>k_nqv k. nqueues k v = 0)"

definition procq_ok :: "kernel \<Rightarrow> pid list \<Rightarrow> bool" where
  "procq_ok k P \<longleftrightarrow>
     is_dqueue (k_plinks k) (cl_procs (k_cl k)) P \<and>
     (\<forall>p. p \<notin> set P \<longrightarrow> unlinked (k_plinks k) p) \<and>
     (\<forall>p\<in>set P. p < k_npid k \<and> pr_state (k_procs k p) = PRunning \<and> curproc k \<noteq> Some p) \<and>
     (\<forall>p. pr_state (k_procs k p) \<noteq> PBusy) \<and>
     (\<forall>p. curproc k = Some p \<longrightarrow> p < k_npid k \<and> pr_state (k_procs k p) = PRunning) \<and>
     (\<forall>p<k_npid k. pr_state (k_procs k p) = PRunning \<longrightarrow> p \<in> set P \<or> curproc k = Some p)"

text \<open>Every queued processor has a ready thread, and every processor with one is queued or current.\<close>

definition covered :: "kernel \<Rightarrow> rmap \<Rightarrow> pid list \<Rightarrow> bool" where
  "covered k R P \<longleftrightarrow>
     (\<forall>p\<in>set P. some_ready R (pr_ready (k_procs k p))) \<and>
     (\<forall>p<k_npid k. some_ready R (pr_ready (k_procs k p)) \<longrightarrow> p \<in> set P \<or> curproc k = Some p)"

definition core :: "kernel \<Rightarrow> rmap \<Rightarrow> pid list \<Rightarrow> bool" where
  "core k R P \<longleftrightarrow> ready_rep {} k R \<and> threads_ok k \<and> members_ok k R \<and> procs_wf k \<and>
     procq_ok k P \<and> covered k R P \<and> sy_busy (k_sys k) = []"

text \<open>Fields the core invariant does not mention may change freely.\<close>

definition same_core :: "kernel \<Rightarrow> kernel \<Rightarrow> bool" where
  "same_core k k' \<longleftrightarrow>
     k_tlinks k' = k_tlinks k \<and> k_qvects k' = k_qvects k \<and> k_plinks k' = k_plinks k \<and>
     k_procs k' = k_procs k \<and> cl_procs (k_cl k') = cl_procs (k_cl k) \<and> curproc k' = curproc k \<and>
     mainth k' = mainth k \<and> k_numpri k' = k_numpri k \<and> k_npid k' = k_npid k \<and> k_nqv k' = k_nqv k \<and>
     k_ntid k' = k_ntid k \<and> sy_busy (k_sys k') = sy_busy (k_sys k) \<and>
     (\<forall>t. th_state (k_threads k' t) = th_state (k_threads k t) \<and>
          th_priority (k_threads k' t) = th_priority (k_threads k t) \<and>
          th_proc (k_threads k' t) = th_proc (k_threads k t) \<and>
          (th_thread (k_threads k t) \<noteq> None \<longrightarrow> th_thread (k_threads k' t) \<noteq> None))"

lemma core_same: "core k R P \<Longrightarrow> same_core k k' \<Longrightarrow> core k' R P"
  unfolding core_def
proof (elim conjE, intro conjI)
  assume "ready_rep {} k R" "same_core k k'"
  then show "ready_rep {} k' R" by (elim ready_rep_cong) (auto simp: same_core_def)
next
  assume "threads_ok k" "same_core k k'"
  then show "threads_ok k'" by (simp add: threads_ok_def same_core_def)
next
  assume "members_ok k R" "same_core k k'"
  then show "members_ok k' R" by (simp add: members_ok_def same_core_def)
next
  assume "procs_wf k" "same_core k k'"
  then show "procs_wf k'" by (simp add: procs_wf_def same_core_def)
next
  assume "procq_ok k P" "same_core k k'"
  then show "procq_ok k' P" by (simp add: procq_ok_def same_core_def)
next
  assume "covered k R P" "same_core k k'"
  then show "covered k' R P" by (simp add: covered_def same_core_def)
qed (simp add: same_core_def)

lemma coreD:
  assumes "core k R P"
  shows "ready_rep {} k R" "threads_ok k" "members_ok k R" "procs_wf k" "procq_ok k P" "covered k R P"
    "sy_busy (k_sys k) = []"
  using assms by (simp_all add: core_def)

lemma core_thread:
  assumes "core k R P" and "t < k_ntid k"
  shows "th_priority (k_threads k t) < k_numpri k" "\<exists>sp. th_thread (k_threads k t) = Some sp"
    "t \<noteq> mainth k \<Longrightarrow> \<exists>p<k_npid k. th_proc (k_threads k t) = Some p"
  using assms by (auto simp: core_def threads_ok_def)

section \<open>A thread becomes ready\<close>

definition make_ready :: "pid \<Rightarrow> tid \<Rightarrow> kernel \<Rightarrow> kernel res" where
  "make_ready p t k = bindE (proc_add_ready p t k) (cl_add_proc (Some p))"

text \<open>The part of the state the ready operations leave alone.\<close>

definition run_frame :: "kernel \<Rightarrow> kernel \<Rightarrow> bool" where
  "run_frame k k' \<longleftrightarrow> k_sys k' = k_sys k \<and> cur k' = cur k \<and> curproc k' = curproc k \<and>
     mainth k' = mainth k \<and> cl_kernel (k_cl k') = cl_kernel (k_cl k) \<and> k_ntid k' = k_ntid k \<and>
     k_npid k' = k_npid k \<and> k_numpri k' = k_numpri k \<and> k_nqv k' = k_nqv k \<and> k_cont k' = k_cont k \<and> k_sp k' = k_sp k \<and>
     (\<forall>p. pr_ready (k_procs k' p) = pr_ready (k_procs k p))"

lemma run_frame_refl [simp, intro]: "run_frame k k"
  by (simp add: run_frame_def)

lemma run_frame_trans: "run_frame k k' \<Longrightarrow> run_frame k' k'' \<Longrightarrow> run_frame k k''"
  by (simp add: run_frame_def)

lemma ready_run_frame: "ready_frame k k' \<Longrightarrow> run_frame k k'"
  using ready_frameD [of k k'] by (simp add: run_frame_def)

lemma add_proc_run_frame: "cl_add_proc p k = Inr k' \<Longrightarrow> run_frame k k'"
  by (auto simp: cl_add_proc_def put_procs_def proc_setState_def run_frame_def Let_def
      split: option.splits if_splits prod.splits)

lemma some_ready_upd:
  "some_ready (R(v := (R v)(i := R v i @ [t]))) w \<longleftrightarrow> w = v \<or> some_ready R w"
  by (auto simp: some_ready_def)

text \<open>
  A thread's state changes and the queue of vector \<open>v\<close> with it; \<open>t\<close> belongs to a processor of
  that vector.
\<close>

lemma threads_ok_state:
  assumes "threads_ok k" and "run_frame k k'"
    and "k_threads k' = (k_threads k)(t := (k_threads k t)\<lparr>th_state := s\<rparr>)"
  shows "threads_ok k'"
proof -
  have "th_priority (k_threads k' u) = th_priority (k_threads k u)" "th_proc (k_threads k' u) = th_proc (k_threads k u)"
    "th_thread (k_threads k' u) = th_thread (k_threads k u)" for u
    using assms(3) by simp_all
  then show ?thesis using assms(1,2) by (simp add: threads_ok_def run_frame_def)
qed

lemma members_ok_state:
  assumes m: "members_ok k R" and "run_frame k k'"
    and "\<And>u. th_proc (k_threads k' u) = th_proc (k_threads k u)"
    and new: "\<And>w j u. u \<in> set (R' w j) \<Longrightarrow> u \<in> set (R w j) \<or>
      u < k_ntid k \<and> (\<exists>p<k_npid k. th_proc (k_threads k u) = Some p \<and> pr_ready (k_procs k p) = w)"
  shows "members_ok k' R'"
proof -
  have "u < k_ntid k \<and> (\<exists>p<k_npid k. th_proc (k_threads k u) = Some p \<and> pr_ready (k_procs k p) = w)"
    if "u \<in> set (R' w j)" for w j u
    using new [OF that] m unfolding members_ok_def by blast
  then show ?thesis using assms(2,3) by (simp add: members_ok_def run_frame_def)
qed

lemma procs_wf_frame:
  assumes "procs_wf k" and "run_frame k k'" and "\<And>v. nqueues k' v = nqueues k v"
  shows "procs_wf k'"
  using assms by (simp add: procs_wf_def run_frame_def)

lemma procq_ok_frame:
  assumes "procq_ok k P" and "ready_frame k k'"
  shows "procq_ok k' P"
  using assms ready_frameD [OF assms(2)] by (simp add: procq_ok_def)

lemma add_proc_spec:
  assumes pr: "procq_ok k P" and p: "p < k_npid k"
  obtains k' P' where "cl_add_proc (Some p) k = Inr k'" and "procq_ok k' P'"
    and "set P' = (if pr_state (k_procs k p) = PRunning then set P else insert p (set P))"
    and "k_threads k' = k_threads k" and "k_tlinks k' = k_tlinks k" and "k_qvects k' = k_qvects k"
    and "run_frame k k'"
proof (cases "pr_state (k_procs k p) = PRunning")
  case True
  then show thesis using pr by (intro that [of k P]) (auto simp: cl_add_proc_def)
next
  case False
  have nP: "p \<notin> set P" and nc: "curproc k \<noteq> Some p" using pr False by (auto simp: procq_ok_def)
  have dq: "is_dqueue (k_plinks k) (cl_procs (k_cl k)) P" and un: "unlinked (k_plinks k) p"
    using pr nP by (auto simp: procq_ok_def)
  obtain q h where q: "q_add p (cl_procs (k_cl k), k_plinks k) = Inr (q, h)"
    "is_dqueue h q (P @ [p])" "same_links (insert p (set P)) (k_plinks k) h"
    using q_add_spec [OF is_dqueue_is_queue [OF dq] nP un] dq by metis
  define k' where "k' = put_procs q h (proc_setState p PRunning k)"
  have ok: "cl_add_proc (Some p) k = Inr k'"
    using False q(1) by (simp add: cl_add_proc_def k'_def proc_setState_def Let_def)
  have sel: "k_plinks k' = h" "cl_procs (k_cl k') = q" "curproc k' = curproc k"
    "k_procs k' = (k_procs k)(p := (k_procs k p)\<lparr>pr_state := PRunning\<rparr>)"
    "k_qvects k' = k_qvects k" "k_threads k' = k_threads k" "k_tlinks k' = k_tlinks k" "k_npid k' = k_npid k"
    by (simp_all add: k'_def put_procs_def proc_setState_def)
  have "unlinked h x" if "x \<notin> set (P @ [p])" for x
    using that pr q(3) by (auto simp: procq_ok_def same_links_def unlinked_def)
  then have "procq_ok k' (P @ [p])" using pr q(2) p nc unfolding procq_ok_def sel by simp
  then show thesis using that [OF ok] sel add_proc_run_frame [OF ok] False by auto
qed

lemma covered_add:
  assumes "covered k R P" and "procq_ok k P" and "procs_wf k" and "p < k_npid k"
    and "v = pr_ready (k_procs k p)"
    and "set P' = (if pr_state (k_procs k p) = PRunning then set P else insert p (set P))"
    and "run_frame k k'" and "\<And>w. some_ready R' w \<longleftrightarrow> w = v \<or> some_ready R w"
  shows "covered k' R' P'"
proof -
  have inj: "q = p" if "q < k_npid k" "pr_ready (k_procs k q) = v" for q
    using assms(3,4,5) that unfolding procs_wf_def by blast
  have r: "pr_ready (k_procs k' q) = pr_ready (k_procs k q)" "curproc k' = curproc k" "k_npid k' = k_npid k" for q
    using assms(7) by (simp_all add: run_frame_def)
  have 1: "some_ready R' (pr_ready (k_procs k q))" if "q \<in> set P'" for q
    using that assms(1,5,6,8) by (auto simp: covered_def split: if_splits)
  have 2: "q \<in> set P' \<or> curproc k = Some q" if "q < k_npid k" "some_ready R' (pr_ready (k_procs k q))" for q
  proof (cases "q = p")
    case True
    then show ?thesis using assms(2,4,6) by (auto simp: procq_ok_def split: if_splits)
  next
    case False
    then have "some_ready R (pr_ready (k_procs k q))" using that assms(8) inj by blast
    then have "q \<in> set P \<or> curproc k = Some q" using that assms(1) by (simp add: covered_def)
    then show ?thesis using assms(6) by (auto split: if_splits)
  qed
  show ?thesis using 1 2 by (simp add: covered_def r)
qed

lemma make_ready_core:
  assumes c: "core k R P" and t: "t < k_ntid k" "th_state (k_threads k t) = TRun"
    and p: "th_proc (k_threads k t) = Some p" "p < k_npid k"
    and v: "v = pr_ready (k_procs k p)" and i: "i = th_priority (k_threads k t)"
  obtains k' P' where "make_ready p t k = Inr k'"
    and "core k' (R(v := (R v)(i := R v i @ [t]))) P'"
    and "k_threads k' = (k_threads k)(t := (k_threads k t)\<lparr>th_state := TReady\<rparr>)"
    and "run_frame k k'"
proof -
  let ?R = "R(v := (R v)(i := R v i @ [t]))"
  note c' = coreD [OF c]
  have n: "nqueues k v = k_numpri k" using c'(4) p(2) v by (simp add: procs_wf_def)
  have "i < nqueues k v" using core_thread(1) [OF c t(1)] n i by simp
  then obtain k1 where 1: "proc_add_ready p t k = Inr k1" "ready_rep {} k1 ?R"
    "k_threads k1 = (k_threads k)(t := (k_threads k t)\<lparr>th_state := TReady\<rparr>)" "ready_frame k k1"
    using add_ready_spec [OF c'(1) _ _ v i] t(2) by blast
  note f1 = ready_frameD [OF 1(4)] ready_run_frame [OF 1(4)]
  have pq: "procq_ok k1 P" by (rule procq_ok_frame [OF c'(5) 1(4)])
  obtain k2 P' where 2: "cl_add_proc (Some p) k1 = Inr k2" "procq_ok k2 P'"
    "set P' = (if pr_state (k_procs k1 p) = PRunning then set P else insert p (set P))"
    "k_threads k2 = k_threads k1" "k_tlinks k2 = k_tlinks k1" "k_qvects k2 = k_qvects k1" "run_frame k1 k2"
    using add_proc_spec [OF pq] p(2) f1(10) by auto
  have rf: "run_frame k k2" by (rule run_frame_trans [OF f1(23) 2(7)])
  have "ready_rep {} k2 ?R" by (rule ready_rep_cong [OF 1(2)]) (simp_all add: 2)
  moreover have "threads_ok k2" by (rule threads_ok_state [OF c'(2) rf]) (simp add: 1 2)
  moreover have "members_ok k2 ?R"
    by (rule members_ok_state [OF c'(3) rf]) (use t p v in \<open>auto simp: 1 2 split: if_splits\<close>)
  moreover have "procs_wf k2" by (rule procs_wf_frame [OF c'(4) rf]) (simp add: 2 f1(22))
  moreover have "covered k2 ?R P'"
    by (rule covered_add [OF c'(6) c'(5) c'(4) p(2) v _ rf]) (use 2(3) f1(1) in \<open>auto simp: some_ready_upd\<close>)
  moreover have "sy_busy (k_sys k2) = []" using c'(7) rf by (simp add: run_frame_def)
  ultimately have "core k2 ?R P'" using 2(2) by (simp add: core_def)
  then show thesis using that rf 1 2 by (simp add: make_ready_def)
qed

section \<open>The current processor gives up a thread\<close>

lemma pick_keeps:
  assumes "pick n Q = Some (t, Q')" and "m \<in> set (Q i)" and "m \<noteq> t"
  shows "m \<in> set (Q' i)"
  using pick_Some [OF assms(1)] assms(2,3) by auto

lemma pick_subset: "pick n Q = Some (t, Q') \<Longrightarrow> u \<in> set (Q' i) \<Longrightarrow> u \<in> set (Q i)"
  using pick_Some [of n Q t Q'] by (auto split: if_splits)

lemma pick_member: "pick n Q = Some (t, Q') \<Longrightarrow> \<exists>i. t \<in> set (Q i)"
  by (drule pick_Some) (metis list.set_intros(1))

text \<open>
  \<open>core1 k R P\<close> with the current processor's vector after a thread was taken: the other vectors
  are untouched.
\<close>

lemma get_ready_core:
  assumes c: "core k R P" and p: "curproc k = Some p" and v: "v = pr_ready (k_procs k p)"
    and ne: "some_ready R v"
  obtains t Q k' where "cl_get_ready k = Inr (Some t, k')" and "pick (k_numpri k) (R v) = Some (t, Q)"
    and "core k' (R(v := Q)) P" and "t < k_ntid k" and "th_state (k_threads k t) = TReady"
    and "k_threads k' = (k_threads k)(t := (k_threads k t)\<lparr>th_state := TRun\<rparr>)"
    and "run_frame k k'"
proof -
  note c' = coreD [OF c]
  have pn: "p < k_npid k" using c'(5) p by (simp add: procq_ok_def)
  have n: "nqueues k v = k_numpri k" using c'(4) pn v by (simp add: procs_wf_def)
  have "pick (nqueues k v) (R v) \<noteq> None"
    using ne rep_range [OF c'(1), of v] by (auto simp: pick_None some_ready_def) (metis not_less)
  then obtain t Q where tQ: "pick (nqueues k v) (R v) = Some (t, Q)" by auto
  obtain k' where k': "proc_get_ready p k = (Some t, k')" "ready_rep {} k' (R(v := Q))"
    "k_threads k' = (k_threads k)(t := (k_threads k t)\<lparr>th_state := TRun\<rparr>)"
    using get_ready_spec [OF c'(1) v] tQ by auto
  have fr: "ready_frame k k'" by (rule get_ready_frame [OF k'(1)])
  note rf = ready_run_frame [OF fr]
  obtain j where tj: "t \<in> set (R v j)" using pick_member [OF tQ] by blast
  have "threads_ok k'" by (rule threads_ok_state [OF c'(2) rf k'(3)])
  moreover have "members_ok k' (R(v := Q))"
    by (rule members_ok_state [OF c'(3) rf])
      (use pick_subset [OF tQ] in \<open>auto simp: k'(3) split: if_splits\<close>)
  moreover have "procs_wf k'" by (rule procs_wf_frame [OF c'(4) rf]) (simp add: ready_frameD [OF fr])
  moreover have "procq_ok k' P" by (rule procq_ok_frame [OF c'(5) fr])
  moreover have "covered k' (R(v := Q)) P"
  proof -
    have o: "some_ready (R(v := Q)) (pr_ready (k_procs k q)) = some_ready R (pr_ready (k_procs k q))"
      if "q < k_npid k" "q \<noteq> p" for q
    proof -
      have "pr_ready (k_procs k q) \<noteq> v" using c'(4) that pn v unfolding procs_wf_def by blast
      then show ?thesis by (simp add: some_ready_def)
    qed
    have "q < k_npid k \<and> q \<noteq> p" if "q \<in> set P" for q using c'(5) p that by (auto simp: procq_ok_def)
    then show ?thesis using c'(6) o p unfolding covered_def ready_frameD(1,4,10) [OF fr] by blast
  qed
  moreover have "sy_busy (k_sys k') = []" using c'(7) ready_frameD(3) [OF fr] by simp
  ultimately have "core k' (R(v := Q)) P" using k'(2) by (simp add: core_def)
  moreover have "t < k_ntid k" using c'(3) tj by (auto simp: members_ok_def)
  ultimately show thesis
    using that [of t k' Q] k'(1,3) p tQ n rf rep_member [OF c'(1) tj] by (simp add: cl_get_ready_def)
qed

section \<open>Parked threads and the running thread\<close>

definition parked :: "kernel \<Rightarrow> tid multiset" where
  "parked k = (\<Sum>u<k_ntid k. mset (th_waiters (k_threads k u))) + mset (sy_delay (k_sys k))"

definition parked_ok :: "kernel \<Rightarrow> bool" where
  "parked_ok k \<longleftrightarrow> (\<forall>t. count (parked k) t \<le> 1) \<and>
     (\<forall>t. t \<in># parked k \<longrightarrow> t < k_ntid k \<and> t \<noteq> mainth k \<and> th_state (k_threads k t) = TRun)"

definition conts_ok :: "kernel \<Rightarrow> bool" where
  "conts_ok k \<longleftrightarrow> k_cont k (mainth k) = CSched \<and>
     (\<forall>t<k_ntid k. t \<noteq> mainth k \<longrightarrow> k_cont k t = CUser \<or> k_cont k t = CPreempt)"

definition runs_at :: "kernel \<Rightarrow> rmap \<Rightarrow> pid list \<Rightarrow> tid \<Rightarrow> pid \<Rightarrow> bool" where
  "runs_at k R P t p \<longleftrightarrow> core k R P \<and> parked_ok k \<and> conts_ok k \<and> cur k = Some t \<and>
     curproc k = Some p \<and> t < k_ntid k \<and> th_state (k_threads k t) = TRun \<and> t \<notin># parked k"

text \<open>While a user thread runs, the scheduler thread is ready on the current processor.\<close>

definition running :: "kernel \<Rightarrow> rmap \<Rightarrow> pid list \<Rightarrow> bool" where
  "running k R P \<longleftrightarrow> (\<exists>t p. runs_at k R P t p \<and>
     (t \<noteq> mainth k \<longrightarrow> mainth k \<in> set (R (pr_ready (k_procs k p)) 0)))"

text \<open>
  A sleeping thread has given up its processor and waits neither for a thread nor for a time.
  The kernel leaves sleeping threads alone until they are woken.
\<close>

definition sleeping :: "kernel \<Rightarrow> tid \<Rightarrow> bool" where
  "sleeping k t \<longleftrightarrow> t < k_ntid k \<and> t \<noteq> mainth k \<and> cur k \<noteq> Some t \<and>
     th_state (k_threads k t) = TRun \<and> t \<notin># parked k"

definition calm :: "tid set \<Rightarrow> kernel \<Rightarrow> kernel \<Rightarrow> bool" where
  "calm W k k' \<longleftrightarrow> (\<forall>t. t \<notin> W \<longrightarrow> (sleeping k' t \<longleftrightarrow> sleeping k t))"

lemma calm_refl [simp, intro]: "calm W k k"
  by (simp add: calm_def)

lemma calm_trans: "calm W k k' \<Longrightarrow> calm V k' k'' \<Longrightarrow> calm (W \<union> V) k k''"
  by (simp add: calm_def)

lemma calm_mono: "calm V k k' \<Longrightarrow> V \<subseteq> W \<Longrightarrow> calm W k k'"
  by (auto simp: calm_def)

lemma calm_asleep: "calm (insert t W) k k' \<Longrightarrow> \<not> sleeping k t \<Longrightarrow> \<not> sleeping k' t \<Longrightarrow> calm W k k'"
  by (auto simp: calm_def)

lemma parked_cong:
  assumes "k_ntid k' = k_ntid k" and "sy_delay (k_sys k') = sy_delay (k_sys k)"
    and "\<And>t. th_waiters (k_threads k' t) = th_waiters (k_threads k t)"
  shows "parked k' = parked k"
  using assms by (simp add: parked_def)

lemma parked_ok_cong:
  assumes "parked_ok k" and "parked k' = parked k" and "k_ntid k' = k_ntid k" and "mainth k' = mainth k"
    and "\<And>t. t \<in># parked k \<Longrightarrow> th_state (k_threads k' t) = th_state (k_threads k t)"
  shows "parked_ok k'"
  using assms by (simp add: parked_ok_def)

lemma parked_ok_remove:
  assumes po: "parked_ok k" and pk: "parked k = add_mset w (parked k')" and "k_ntid k' = k_ntid k"
    and "mainth k' = mainth k" and "\<And>t. th_state (k_threads k' t) = th_state (k_threads k t)"
  shows "parked_ok k' \<and> w \<notin># parked k' \<and> w < k_ntid k \<and> w \<noteq> mainth k \<and> th_state (k_threads k w) = TRun"
proof -
  have le: "count (add_mset w (parked k')) u \<le> 1" for u using po by (simp add: parked_ok_def pk)
  have "count (parked k') u \<le> 1" for u using le [of u] by (simp split: if_splits)
  moreover have "w \<notin># parked k'" using le [of w] by (simp add: not_in_iff)
  moreover have "u < k_ntid k \<and> u \<noteq> mainth k \<and> th_state (k_threads k u) = TRun" if "u \<in># add_mset w (parked k')" for u
    using po that by (auto simp: parked_ok_def pk)
  ultimately show ?thesis using assms(3-5) by (simp add: parked_ok_def)
qed

lemma calm_cong:
  assumes "k_ntid k' = k_ntid k" and "mainth k' = mainth k" and "cur k' = cur k" and "parked k' = parked k"
    and "\<And>t. t \<notin> W \<Longrightarrow> th_state (k_threads k' t) = TRun \<longleftrightarrow> th_state (k_threads k t) = TRun"
  shows "calm W k k'"
  using assms by (simp add: calm_def sleeping_def)

text \<open>A thread becomes ready, or a ready thread becomes the current one.\<close>

lemma calm_ready:
  assumes "k_threads k' = (k_threads k)(t := (k_threads k t)\<lparr>th_state := TReady\<rparr>)" and "run_frame k k'"
  shows "calm {t} k k'"
proof (rule calm_cong)
  show "parked k' = parked k" by (rule parked_cong) (use assms in \<open>simp_all add: run_frame_def\<close>)
qed (use assms in \<open>simp_all add: run_frame_def\<close>)

lemma calm_switch:
  assumes "th_state (k_threads k t) = TReady" and "cur k' = Some t" and "\<And>c. cur k = Some c \<Longrightarrow> c \<in> W" and "k_ntid k' = k_ntid k" and "mainth k' = mainth k"
    and "parked k' = parked k" and "\<And>u. u \<notin> W \<Longrightarrow> u \<noteq> t \<Longrightarrow> th_state (k_threads k' u) = TRun \<longleftrightarrow> th_state (k_threads k u) = TRun"
  shows "calm W k k'"
  unfolding calm_def
proof (intro allI impI)
  show "sleeping k' u = sleeping k u" if "u \<notin> W" for u
    using that assms by (cases "u = t") (auto simp: sleeping_def)
qed

text \<open>A parked thread is not ready.\<close>

lemma ready_not_parked: "parked_ok k \<Longrightarrow> th_state (k_threads k t) = TReady \<Longrightarrow> t \<notin># parked k"
  by (auto simp: parked_ok_def)

lemma core_setProc:
  assumes c: "core k R P" and st: "th_state (k_threads k t) \<noteq> TReady" and p: "p < k_npid k"
  shows "core (th_setProc t (Some p) k) R P"
proof -
  note c' = coreD [OF c]
  let ?k = "th_setProc t (Some p) k"
  have sel: "k_threads ?k = (k_threads k)(t := (k_threads k t)\<lparr>th_proc := Some p\<rparr>)"
    "k_procs ?k = k_procs k" "k_cl ?k = k_cl k" "k_ntid ?k = k_ntid k" "k_npid ?k = k_npid k"
    "k_numpri ?k = k_numpri k" "k_qvects ?k = k_qvects k" "k_plinks ?k = k_plinks k"
    "k_nqv ?k = k_nqv k" "k_sys ?k = k_sys k" "k_tlinks ?k = k_tlinks k"
    by (simp_all add: th_setProc_def)
  have "ready_rep {} ?k R" by (rule ready_rep_cong [OF c'(1)]) (simp_all add: sel)
  moreover have "threads_ok ?k" using c'(2) p unfolding threads_ok_def sel by auto
  moreover have "members_ok ?k R"
  proof -
    have "u \<noteq> t" if "u \<in> set (R w j)" for u w j using rep_member [OF c'(1) that] st by auto
    then show ?thesis using c'(3) unfolding members_ok_def sel by simp
  qed
  moreover have "procs_wf ?k" "procq_ok ?k P" "covered ?k R P" "sy_busy (k_sys ?k) = []"
    using c'(4-7) by (simp_all add: procs_wf_def procq_ok_def covered_def sel)
  ultimately show ?thesis by (simp add: core_def)
qed

text \<open>
  The end of every context switch: the new thread \<open>t\<close> was just taken from the ready queues of
  the current processor and the saved state of the old thread is stored.
\<close>

lemma switch_runs_at:
  assumes c: "core k R P" and po: "parked_ok k"
    and p: "curproc k = Some p" "v = pr_ready (k_procs k p)"
    and g: "core k1 (R(v := Q)) P" "t < k_ntid k" "th_state (k_threads k t) = TReady"
      "k_threads k1 = (k_threads k)(t := (k_threads k t)\<lparr>th_state := TRun\<rparr>)" "run_frame k k1"
    and same: "same_core (th_setProc t (Some p) k1) k2" and cr: "cur k2 = Some t"
    and pk: "parked k2 = parked k" and co2: "conts_ok k2"
  shows "runs_at k2 (R(v := Q)) P t p"
proof -
  have rf: "curproc k1 = Some p" "mainth k1 = mainth k" "k_ntid k1 = k_ntid k" "k_npid k1 = k_npid k"
    "pr_ready (k_procs k1 p) = v"
    using g(5) p by (simp_all add: run_frame_def)
  have pn: "p < k_npid k1" using coreD(5) [OF c] p rf by (simp add: procq_ok_def)
  have "core (th_setProc t (Some p) k1) (R(v := Q)) P"
    by (rule core_setProc [OF g(1) _ pn]) (simp add: g(4))
  then have c2: "core k2 (R(v := Q)) P" by (rule core_same [OF _ same])
  have s2: "mainth k2 = mainth k" "k_ntid k2 = k_ntid k" "curproc k2 = Some p"
    "th_state (k_threads k2 u) = th_state (k_threads k1 u)" for u
    using same rf by (simp_all add: same_core_def th_setProc_def)
  have tp: "t \<notin># parked k" by (rule ready_not_parked [OF po g(3)])
  have "parked_ok k2"
    by (rule parked_ok_cong [OF po pk s2(2,1)]) (use tp in \<open>auto simp: s2 g(4)\<close>)
  then show ?thesis using c2 co2 cr s2 g(2,4) tp pk by (simp add: runs_at_def)
qed

lemma make_ready_runs_at:
  assumes r: "runs_at k R P t p" and c: "c < k_ntid k" "th_state (k_threads k c) = TRun" "c \<noteq> t"
    "c \<notin># parked k" "th_proc (k_threads k c) = Some q" "q < k_npid k"
    and v: "v = pr_ready (k_procs k q)" and i: "i = th_priority (k_threads k c)"
  obtains k' P' where "make_ready q c k = Inr k'"
    and "runs_at k' (R(v := (R v)(i := R v i @ [c]))) P' t p"
    and "k_threads k' = (k_threads k)(c := (k_threads k c)\<lparr>th_state := TReady\<rparr>)" and "run_frame k k'"
proof -
  note r' = r [unfolded runs_at_def]
  obtain k' P' where k': "make_ready q c k = Inr k'" "core k' (R(v := (R v)(i := R v i @ [c]))) P'"
    "k_threads k' = (k_threads k)(c := (k_threads k c)\<lparr>th_state := TReady\<rparr>)" "run_frame k k'"
    using make_ready_core [OF _ c(1,2,5,6) v i] r' by blast
  have f: "k_ntid k' = k_ntid k" "mainth k' = mainth k" "cur k' = cur k" "curproc k' = curproc k"
    "k_cont k' = k_cont k" "k_sys k' = k_sys k"
    using k'(4) by (simp_all add: run_frame_def)
  have pk: "parked k' = parked k" by (rule parked_cong) (simp_all add: f k'(3))
  have "parked_ok k'" by (rule parked_ok_cong [OF _ pk]) (use r' c(4) in \<open>auto simp: f k'(3)\<close>)
  then show thesis using that [OF k'(1) _ k'(3,4)] k'(2) r' c(3)
    by (simp add: runs_at_def pk f conts_ok_def k'(3))
qed

text \<open>A user thread that may call the kernel.\<close>

definition user_at :: "kernel \<Rightarrow> rmap \<Rightarrow> pid list \<Rightarrow> tid \<Rightarrow> pid \<Rightarrow> bool" where
  "user_at k R P c p \<longleftrightarrow> core k R P \<and> parked_ok k \<and> conts_ok k \<and> cur k = Some c \<and> c \<noteq> mainth k \<and>
     c < k_ntid k \<and> th_state (k_threads k c) = TRun \<and> curproc k = Some p \<and>
     mainth k \<in> set (R (pr_ready (k_procs k p)) 0)"

abbreviation user_cont :: "cont \<Rightarrow> bool" where
  "user_cont c \<equiv> c = CUser \<or> c = CPreempt"

lemma leave_kernel_same [simp]:
  "k_threads (leave_kernel k) = k_threads k" "k_procs (leave_kernel k) = k_procs k"
  "k_qvects (leave_kernel k) = k_qvects k" "k_tlinks (leave_kernel k) = k_tlinks k"
  "k_plinks (leave_kernel k) = k_plinks k" "k_sys (leave_kernel k) = k_sys k"
  "k_cont (leave_kernel k) = k_cont k" "k_ntid (leave_kernel k) = k_ntid k"
  "k_npid (leave_kernel k) = k_npid k" "k_nqv (leave_kernel k) = k_nqv k"
  "k_numpri (leave_kernel k) = k_numpri k" "k_sp (leave_kernel k) = k_sp k"
  "cl_procs (k_cl (leave_kernel k)) = cl_procs (k_cl k)" "curproc (leave_kernel k) = curproc k"
  "cur (leave_kernel k) = cur k" "mainth (leave_kernel k) = mainth k"
  by (simp_all add: leave_kernel_def)

lemma running_same:
  assumes r: "running k R P" and same: "same_core k k'" and "cur k' = cur k"
    and "parked k' = parked k" and "k_cont k' = k_cont k"
  shows "running k' R P"
proof -
  obtain t p where t: "runs_at k R P t p" "t \<noteq> mainth k \<longrightarrow> mainth k \<in> set (R (pr_ready (k_procs k p)) 0)"
    using r by (auto simp: running_def)
  have "core k' R P" using core_same [OF _ same] t(1) by (simp add: runs_at_def)
  moreover have "parked_ok k'"
    by (rule parked_ok_cong [OF _ assms(4)]) (use same t(1) in \<open>auto simp: same_core_def runs_at_def\<close>)
  ultimately have "runs_at k' R P t p" using t(1) assms(3-5) same
    by (simp add: runs_at_def conts_ok_def same_core_def)
  then show ?thesis using t(2) same by (auto simp: running_def same_core_def)
qed

lemma leave_kernel_running: "running k R P \<Longrightarrow> running (leave_kernel k) R P"
  by (erule running_same) (simp_all add: same_core_def parked_def)

lemma some_readyI: "t \<in> set (R v i) \<Longrightarrow> some_ready R v"
  by (auto simp: some_ready_def intro: exI [of _ i])

lemma exec_block_running:
  assumes u: "user_at k R P c p" and ct: "user_cont ct"
  shows "\<exists>k' R'. exec_block ct k = Inr k' \<and> running k' R' P \<and> calm {c} k k' \<and> (sleeping k' c \<longleftrightarrow> c \<notin># parked k)"
proof -
  let ?v = "pr_ready (k_procs k p)"
  note u' = u [unfolded user_at_def]
  have ne: "some_ready R ?v" using u' by (auto intro: some_readyI)
  obtain t Q k1 where g: "cl_get_ready k = Inr (Some t, k1)" "pick (k_numpri k) (R ?v) = Some (t, Q)"
    "core k1 (R(?v := Q)) P" "t < k_ntid k" "th_state (k_threads k t) = TReady"
    "k_threads k1 = (k_threads k)(t := (k_threads k t)\<lparr>th_state := TRun\<rparr>)" "run_frame k k1"
    using u' by (blast intro: get_ready_core [OF _ _ refl ne])
  obtain sp where sp: "th_thread (k_threads k t) = Some sp" using core_thread(2) u' g(4) by blast
  have ct1: "t \<noteq> c" using u' g(5) by auto
  have rf: "cur k1 = Some c" "curproc k1 = Some p" "mainth k1 = mainth k" "k_ntid k1 = k_ntid k"
    "k_cont k1 = k_cont k" "k_sys k1 = k_sys k" "\<And>q. pr_ready (k_procs k1 q) = pr_ready (k_procs k q)"
    using g(7) u' by (simp_all add: run_frame_def)
  define k2 where "k2 = th_save c (k_sp k1) ((set_cont c ct (th_setStackEnd c
    (th_setProc t (Some p) (cl_setCur (Some t) k1))))\<lparr>k_sp := sp\<rparr>)"
  note k2 = k2_def th_save_def th_setStackEnd_def th_setProc_def
  have ok: "exec_block ct k = Inr (leave_kernel k2)"
    using g(1,6) sp rf ct1 by (simp add: exec_block_def qt_block_def switch_block_def k2)
  have "runs_at k2 (R(?v := Q)) P t p"
  proof (rule switch_runs_at [OF _ _ _ refl g(3-7)])
    show "same_core (th_setProc t (Some p) k1) k2" by (simp add: same_core_def k2)
    show "parked k2 = parked k" by (rule parked_cong) (simp_all add: k2 rf g(6))
    show "conts_ok k2" using u' ct by (auto simp: conts_ok_def k2 rf)
  qed (use u' in \<open>auto simp: k2\<close>)
  moreover have "mainth k2 \<in> set ((R(?v := Q)) (pr_ready (k_procs k2 p)) 0)" if "t \<noteq> mainth k2"
    using that u' pick_keeps [OF g(2)] by (simp add: k2 rf)
  ultimately have "running k2 (R(?v := Q)) P" unfolding running_def by blast
  moreover have pk: "parked (leave_kernel k2) = parked k" by (rule parked_cong) (simp_all add: k2 rf g(6))
  have st: "th_state (k_threads k2 u) = (if u = t then TRun else th_state (k_threads k u))" for u
    by (simp add: k2 g(6))
  have "calm {c} k (leave_kernel k2)"
    by (rule calm_switch [OF g(5) _ _ _ _ pk]) (use u' in \<open>simp_all add: st\<close>, simp_all add: k2 rf)
  moreover have "sleeping (leave_kernel k2) c \<longleftrightarrow> c \<notin># parked k"
    using u' ct1 unfolding sleeping_def pk by (simp add: st) (simp add: k2 rf)
  ultimately show ?thesis using ok leave_kernel_running by blast
qed

text \<open>A switch that puts the old thread back into the ready queues.\<close>

definition switched :: "tid \<Rightarrow> tid \<Rightarrow> cont \<Rightarrow> addr \<Rightarrow> kernel \<Rightarrow> kernel" where
  "switched new old ct sp k = th_save old (k_sp k)
     ((set_cont old ct (th_setStackEnd old (cl_setCur (Some new) k)))\<lparr>k_sp := sp\<rparr>)"

lemma exec_ready_to_eq:
  assumes "th_thread (k_threads k new) = Some sp" and "th_proc (k_threads k old) = Some q"
  shows "exec_ready_to new old ct k =
    bindE (make_ready q old (switched new old ct sp k)) (\<lambda>k. Inr (leave_kernel k))"
proof -
  let ?k = "switched new old ct sp k"
  have q: "th_proc (k_threads ?k old) = Some q"
    using assms by (simp add: switched_def th_save_def th_setStackEnd_def)
  have "exec_ready_to new old ct k = bindE (proc_add_ready q old ?k) (\<lambda>k.
      bindE (cl_add_proc (th_proc (k_threads k old)) k) (\<lambda>k. Inr (leave_kernel k)))"
    using assms q by (cases "new = old") (simp_all add: exec_ready_to_def qt_block_def switch_ready_def
        switched_def th_setStackEnd_def Let_def)
  also have "\<dots> = bindE (make_ready q old ?k) (\<lambda>k. Inr (leave_kernel k))"
    using q ready_frameD(12) [OF add_ready_frame]
    by (cases "proc_add_ready q old ?k") (auto simp: make_ready_def)
  finally show ?thesis .
qed

lemma switched_sel [simp]:
  "k_procs (switched new old ct sp k) = k_procs k" "k_sys (switched new old ct sp k) = k_sys k"
  "k_cont (switched new old ct sp k) = (k_cont k)(old := ct)"
  "k_ntid (switched new old ct sp k) = k_ntid k" "k_npid (switched new old ct sp k) = k_npid k"
  "cur (switched new old ct sp k) = Some new" "mainth (switched new old ct sp k) = mainth k"
  "curproc (switched new old ct sp k) = curproc k"
  "th_state (k_threads (switched new old ct sp k) u) = th_state (k_threads k u)"
  "th_proc (k_threads (switched new old ct sp k) u) = th_proc (k_threads k u)"
  "th_priority (k_threads (switched new old ct sp k) u) = th_priority (k_threads k u)"
  "th_waiters (k_threads (switched new old ct sp k) u) = th_waiters (k_threads k u)"
  by (simp_all add: switched_def th_save_def th_setStackEnd_def)

lemma switched_same: "same_core k (switched new old ct sp k)"
  by (simp add: same_core_def switched_def th_save_def th_setStackEnd_def)

lemma exec_ready_running:
  assumes u: "user_at k R P c p" and np: "c \<notin># parked k" and ct: "user_cont ct"
  shows "\<exists>k' R' P'. exec_ready ct k = Inr k' \<and> running k' R' P' \<and> calm {} k k'"
proof -
  let ?v = "pr_ready (k_procs k p)"
  note u' = u [unfolded user_at_def]
  have ne: "some_ready R ?v" using u' by (auto intro: some_readyI)
  obtain t Q k1 where g: "cl_get_ready k = Inr (Some t, k1)" "pick (k_numpri k) (R ?v) = Some (t, Q)"
    "core k1 (R(?v := Q)) P" "t < k_ntid k" "th_state (k_threads k t) = TReady"
    "k_threads k1 = (k_threads k)(t := (k_threads k t)\<lparr>th_state := TRun\<rparr>)" "run_frame k k1"
    using u' by (blast intro: get_ready_core [OF _ _ refl ne])
  obtain sp where sp: "th_thread (k_threads k t) = Some sp" using core_thread(2) u' g(4) by blast
  obtain q where q: "th_proc (k_threads k c) = Some q" "q < k_npid k" using core_thread(3) u' by blast
  have tc: "t \<noteq> c" using u' g(5) by auto
  have rf: "cur k1 = Some c" "curproc k1 = Some p" "mainth k1 = mainth k" "k_ntid k1 = k_ntid k"
    "k_cont k1 = k_cont k" "k_sys k1 = k_sys k" "k_npid k1 = k_npid k"
    "\<And>q. pr_ready (k_procs k1 q) = pr_ready (k_procs k q)"
    using g(7) u' by (simp_all add: run_frame_def)
  define k2 where "k2 = switched t c ct sp (th_setProc t (Some p) k1)"
  have sel: "th_proc (k_threads k2 c) = Some q" "th_state (k_threads k2 c) = TRun" "k_ntid k2 = k_ntid k"
    "k_npid k2 = k_npid k" "mainth k2 = mainth k" "\<And>q. pr_ready (k_procs k2 q) = pr_ready (k_procs k q)"
    using q tc u' by (simp_all add: k2_def th_setProc_def g(6) rf)
  have eq: "exec_ready ct k = bindE (make_ready q c k2) (\<lambda>k. Inr (leave_kernel k))"
    using g(1,6) sp q tc rf
    by (simp add: exec_ready_def k2_def th_setProc_def exec_ready_to_eq [of _ t sp c q])
  have pk: "parked k2 = parked k" by (rule parked_cong) (simp_all add: k2_def rf g(6) th_setProc_def)
  have "runs_at k2 (R(?v := Q)) P t p"
  proof (rule switch_runs_at [OF _ _ _ refl g(3-7) _ _ pk])
    show "same_core (th_setProc t (Some p) k1) k2" unfolding k2_def by (rule switched_same)
    show "conts_ok k2" using u' ct by (auto simp: conts_ok_def k2_def rf th_setProc_def)
  qed (use u' in \<open>auto simp: k2_def\<close>)
  then obtain k3 P' where k3: "make_ready q c k2 = Inr k3" "run_frame k2 k3"
    "k_threads k3 = (k_threads k2)(c := (k_threads k2 c)\<lparr>th_state := TReady\<rparr>)"
    "runs_at k3 ((R(?v := Q))(pr_ready (k_procs k2 q) := ((R(?v := Q)) (pr_ready (k_procs k2 q)))
      (th_priority (k_threads k2 c) := (R(?v := Q)) (pr_ready (k_procs k2 q)) (th_priority (k_threads k2 c)) @ [c]))) P' t p"
    by (rule make_ready_runs_at [of k2 _ P t p c q]) (use sel q u' tc np pk in auto)
  have "mainth k \<in> set (Q 0)" if "t \<noteq> mainth k" using that u' pick_keeps [OF g(2)] by simp
  then have "running k3 ((R(?v := Q))(pr_ready (k_procs k2 q) := ((R(?v := Q)) (pr_ready (k_procs k2 q)))
      (th_priority (k_threads k2 c) := (R(?v := Q)) (pr_ready (k_procs k2 q)) (th_priority (k_threads k2 c)) @ [c]))) P'"
    unfolding running_def using k3(2,4) sel(5,6)
    by (intro exI [of _ t] exI [of _ p]) (auto simp: run_frame_def)
  note leave_kernel_running [OF this]
  moreover have "calm {} k (leave_kernel k3)"
  proof (rule calm_asleep [of c], rule calm_switch [OF g(5)])
    have "parked (leave_kernel k3) = parked k2" by (rule parked_cong) (use k3(2,3) in \<open>simp_all add: run_frame_def\<close>)
    then show "parked (leave_kernel k3) = parked k" by (simp add: pk)
    show "cur (leave_kernel k3) = Some t" using k3(2) by (simp add: run_frame_def k2_def)
  qed (use k3(2) u' sel(3,5) in \<open>auto simp: run_frame_def k3(3) k2_def g(6) th_setProc_def sleeping_def\<close>)
  moreover have "exec_ready ct k = Inr (leave_kernel k3)" using eq k3(1) by simp
  ultimately show ?thesis by blast
qed

end
