(* ===== verification/Sched_Inv.thy ===== *)
theory Sched_Inv
  imports Kernel_Inv
begin

text \<open>
  The scheduler loop keeps the kernel invariant: the choice of the next processor, the advance of
  time with its delayed threads, and the switch from the scheduler thread to a ready thread.
\<close>

section \<open>The next processor\<close>

definition no_user :: "kernel \<Rightarrow> bool" where
  "no_user k \<longleftrightarrow> (\<forall>c. cur k = Some c \<longrightarrow> c = mainth k)"

definition sched_at :: "kernel \<Rightarrow> rmap \<Rightarrow> pid list \<Rightarrow> bool" where
  "sched_at k R P \<longleftrightarrow> core k R P \<and> parked_ok k \<and> conts_ok k \<and> th_state (k_threads k (mainth k)) = TRun \<and> no_user k"

lemma proc_empty_core:
  assumes "core k R P"
  shows "proc_empty k p \<longleftrightarrow> \<not> some_ready R (pr_ready (k_procs k p))"
proof -
  let ?v = "pr_ready (k_procs k p)"
  have "pick (nqueues k ?v) (R ?v) = None \<longleftrightarrow> (\<forall>i. R ?v i = [])"
    using rep_range [OF coreD(1) [OF assms], of ?v] by (auto simp: pick_None) (metis not_less)
  then show ?thesis using proc_empty_iff [OF coreD(1) [OF assms]] by (simp add: some_ready_def)
qed

lemma next_proc:
  assumes c: "core k R (x # xs)" and none: "curproc k = None"
  obtains q h where "q_get (cl_procs (k_cl k), k_plinks k) = (Some x, q, h)"
    and "core (cl_setCurproc (Some x) (put_procs q h k)) R xs"
    and "some_ready R (pr_ready (k_procs k x))" and "qprev (k_plinks k) x = None"
proof -
  note c' = coreD [OF c]
  have dq: "is_dqueue (k_plinks k) (cl_procs (k_cl k)) (x # xs)" using c'(5) by (simp add: procq_ok_def)
  obtain q h where g: "q_get (cl_procs (k_cl k), k_plinks k) = (Some x, q, h)"
    "is_dqueue h q xs" "unlinked h x" "same_links (set (x # xs)) (k_plinks k) h"
    using q_get_Cons [OF is_dqueue_is_queue [OF dq]] dq by metis
  let ?k = "cl_setCurproc (Some x) (put_procs q h k)"
  note defs = cl_setCurproc_def put_procs_def
  have sel: "k_plinks ?k = h" "cl_procs (k_cl ?k) = q" "curproc ?k = Some x" "k_procs ?k = k_procs k"
    "k_npid ?k = k_npid k" by (simp_all add: defs)
  have xx: "x \<notin> set xs" using dq by (auto simp: is_dqueue_def is_queue_def)
  have un: "unlinked h y" if "y \<notin> set xs" for y
    using that g(3,4) c'(5) by (cases "y = x") (auto simp: procq_ok_def same_links_def unlinked_def)
  have "ready_rep {} ?k R" by (rule ready_rep_cong [OF c'(1)]) (simp_all add: defs)
  moreover have "threads_ok ?k" "members_ok ?k R" "procs_wf ?k" "sy_busy (k_sys ?k) = []"
    using c'(2,3,4,7) by (simp_all add: threads_ok_def members_ok_def procs_wf_def defs)
  moreover have "procq_ok ?k xs" using c'(5) none g(2) un xx unfolding procq_ok_def sel by auto
  moreover have "covered ?k R xs" using c'(6) none unfolding covered_def sel by auto
  ultimately have "core ?k R xs" by (simp add: core_def)
  moreover have "some_ready R (pr_ready (k_procs k x))" using c'(6) by (simp add: covered_def)
  moreover have "qprev (k_plinks k) x = None" using dq by (simp add: is_dqueue_def)
  ultimately show thesis using that g(1) by blast
qed

text \<open>An exhausted current processor is put aside.\<close>

lemma idle_proc:
  assumes c: "core k R P" and p: "curproc k = Some p" and e: "\<not> some_ready R (pr_ready (k_procs k p))"
  shows "core (cl_setCurproc None (proc_setState p PWaiting k)) R P"
proof -
  note c' = coreD [OF c]
  let ?k = "cl_setCurproc None (proc_setState p PWaiting k)"
  note defs = cl_setCurproc_def proc_setState_def
  have sel: "k_plinks ?k = k_plinks k" "cl_procs (k_cl ?k) = cl_procs (k_cl k)" "curproc ?k = None"
    "k_procs ?k = (k_procs k)(p := (k_procs k p)\<lparr>pr_state := PWaiting\<rparr>)" "k_npid ?k = k_npid k"
    "\<And>q. pr_ready (k_procs ?k q) = pr_ready (k_procs k q)" "k_threads ?k = k_threads k" "k_ntid ?k = k_ntid k"
    "k_qvects ?k = k_qvects k" "k_nqv ?k = k_nqv k" "k_numpri ?k = k_numpri k"
    by (simp_all add: defs)
  have "ready_rep {} ?k R" by (rule ready_rep_cong [OF c'(1)]) (simp_all add: defs)
  moreover have "threads_ok ?k" "sy_busy (k_sys ?k) = []"
    using c'(2,7) by (simp_all add: threads_ok_def defs)
  moreover have "members_ok ?k R" using c'(3) unfolding members_ok_def sel(5-8) by simp
  moreover have "procs_wf ?k" using c'(4) unfolding procs_wf_def sel(5-11) by simp
  moreover have "procq_ok ?k P" using c'(5) p unfolding procq_ok_def sel by auto
  moreover have "covered ?k R P" using c'(6) p e unfolding covered_def sel by auto
  ultimately show ?thesis by (simp add: core_def)
qed

section \<open>Delayed threads\<close>

lemma add_thread_eq:
  assumes "th_proc (k_threads k t) = Some q" and "pr_state (k_procs k q) \<noteq> PBusy"
  shows "add_thread_to_proc t k = make_ready q t k"
proof (cases "proc_add_ready q t k")
  case (Inr k1)
  then show ?thesis using assms ready_frameD(1) [OF add_ready_frame [OF Inr]]
    by (simp add: add_thread_to_proc_def make_ready_def)
qed (use assms in \<open>simp add: add_thread_to_proc_def make_ready_def\<close>)

lemma make_ready_sched:
  assumes s: "sched_at k R P" and t: "t < k_ntid k" "t \<noteq> mainth k" "th_state (k_threads k t) = TRun"
    "t \<notin># parked k"
  shows "\<exists>k' R' P'. add_thread_to_proc t k = Inr k' \<and> sched_at k' R' P' \<and> run_frame k k' \<and> calm {t} k k' \<and> \<not> sleeping k' t"
proof -
  note s' = s [unfolded sched_at_def]
  obtain q where q: "th_proc (k_threads k t) = Some q" "q < k_npid k" using core_thread(3) s' t by blast
  have nb: "pr_state (k_procs k q) \<noteq> PBusy" using coreD(5) s' by (simp add: procq_ok_def core_def)
  obtain k' P' R' where k': "make_ready q t k = Inr k'" "core k' R' P'"
    "k_threads k' = (k_threads k)(t := (k_threads k t)\<lparr>th_state := TReady\<rparr>)" "run_frame k k'"
    using make_ready_core [OF _ t(1,3) q refl refl] s' by blast
  have f: "k_ntid k' = k_ntid k" "mainth k' = mainth k" "k_cont k' = k_cont k" "k_sys k' = k_sys k" "cur k' = cur k"
    using k'(4) by (simp_all add: run_frame_def)
  have pk: "parked k' = parked k" by (rule parked_cong) (simp_all add: f k'(3))
  have "parked_ok k'" by (rule parked_ok_cong [OF _ pk]) (use s' t(4) in \<open>auto simp: f k'(3)\<close>)
  then have "sched_at k' R' P'" using s' k'(2) t(2) by (simp add: sched_at_def no_user_def conts_ok_def f k'(3))
  then show ?thesis using k' add_thread_eq [OF q(1) nb] calm_ready [OF k'(3,4)] by (auto simp: sleeping_def)
qed

lemma get_delay_sched:
  assumes s: "sched_at k R P" and g: "sys_get_delay k = (Some t, k1)"
  shows "sched_at k1 R P \<and> t < k_ntid k1 \<and> t \<noteq> mainth k1 \<and> th_state (k_threads k1 t) = TRun \<and>
    t \<notin># parked k1 \<and> curproc k1 = curproc k \<and> calm {t} k k1 \<and> \<not> sleeping k t"
proof -
  note s' = s [unfolded sched_at_def]
  obtain q' where q': "get_current (thread_endtime k) (sy_time (k_sys k)) (sy_delay (k_sys k)) = (Some t, q')"
    "k1 = upd_sys (\<lambda>s. s\<lparr>sy_delay := q'\<rparr>) k"
    using g by (auto simp: sys_get_delay_def split: prod.splits)
  have "mset (sy_delay (k_sys k)) = add_mset t (mset q')"
    using get_current_Some [OF q'(1)] mset_pq_pop [of "sy_delay (k_sys k)"] by (simp add: hd_conv_nth)
  then have pk: "parked k = add_mset t (parked k1)" using q'(2) by (simp add: parked_def)
  have "parked_ok k1 \<and> t \<notin># parked k1 \<and> t < k_ntid k \<and> t \<noteq> mainth k \<and> th_state (k_threads k t) = TRun"
    by (rule parked_ok_remove [OF _ pk]) (use s' q'(2) in simp_all)
  moreover have "core k1 R P" by (rule core_same [of k]) (use s' in \<open>simp_all add: same_core_def q'(2)\<close>)
  moreover have "calm {t} k k1" "\<not> sleeping k t" using pk q'(2) by (auto simp: calm_def sleeping_def)
  ultimately show ?thesis using s' q'(2) by (simp add: sched_at_def no_user_def conts_ok_def)
qed

lemma drain_delay_sched:
  "sched_at k R P \<Longrightarrow> \<exists>k' R' P'. drain_delay k = Inr k' \<and> sched_at k' R' P' \<and> curproc k' = curproc k \<and> calm {} k k'"
proof (induction k arbitrary: R P rule: drain_delay.induct)
  case (1 k)
  obtain r k1 where g: "sys_get_delay k = (r, k1)" by fastforce
  show ?case
  proof (cases r)
    case None
    then have "k1 = k" using g get_delay_None by simp
    then show ?thesis using None g "1.prems" by (subst drain_delay.simps) auto
  next
    case (Some t)
    note d = get_delay_sched [OF "1.prems" g [unfolded Some]]
    then obtain k2 R2 P2 where k2: "add_thread_to_proc t k1 = Inr k2" "sched_at k2 R2 P2" "run_frame k1 k2" "calm {t} k1 k2" "\<not> sleeping k2 t"
      using make_ready_sched [of k1 R P t] by blast
    obtain k' R' P' where k': "drain_delay k2 = Inr k'" "sched_at k' R' P'" "curproc k' = curproc k2" "calm {} k2 k'"
      using "1.IH" [OF g [symmetric] Some k2(1,2)] by blast
    have "calm {} k k2" by (rule calm_asleep [of t]) (use d k2(4,5) calm_trans [of "{t}" k k1 "{t}" k2] in simp_all)
    then have "calm {} k k'" using calm_trans k'(4) by fastforce
    then show ?thesis using k' g Some k2 d by (subst drain_delay.simps) (auto simp: run_frame_def)
  qed
qed

lemma drain_busy_none: "sy_busy (k_sys k) = [] \<Longrightarrow> drain_busy k = Inr k"
  by (subst drain_busy.simps) (simp add: sys_get_busy_def get_current_def upd_sys_def)

lemma sched_at_setCurproc:
  assumes "sched_at k R P" and "core (cl_setCurproc p (put_procs q h k)) R' P'"
  shows "sched_at (cl_setCurproc p (put_procs q h k)) R' P'"
proof -
  let ?k = "cl_setCurproc p (put_procs q h k)"
  have sel: "k_threads ?k = k_threads k" "k_ntid ?k = k_ntid k" "k_sys ?k = k_sys k" "mainth ?k = mainth k"
    "k_cont ?k = k_cont k" "cur ?k = cur k" by (simp_all add: cl_setCurproc_def put_procs_def)
  have pk: "parked ?k = parked k" by (rule parked_cong) (simp_all add: sel)
  have "parked_ok ?k" by (rule parked_ok_cong [OF _ pk]) (use assms(1) in \<open>simp_all add: sel sched_at_def\<close>)
  then show ?thesis using assms by (simp add: sched_at_def no_user_def conts_ok_def sel)
qed

lemma calm_setCurproc [simp]: "calm {} k (cl_setCurproc p (put_procs q h k))"
  by (rule calm_cong) (simp_all add: cl_setCurproc_def put_procs_def parked_def)

lemma calm_idle [simp]: "calm {} k (cl_setCurproc r (proc_setState p s k))"
  by (rule calm_cong) (simp_all add: cl_setCurproc_def proc_setState_def parked_def)

lemma advance_sched:
  assumes s: "sched_at k R P" and none: "curproc k = None"
  obtains k' R' P' where "advance k = Inr k'" and "sched_at k' R' P'" and "calm {} k k'"
    and "\<And>p. curproc k' = Some p \<Longrightarrow> some_ready R' (pr_ready (k_procs k' p))"
proof -
  obtain k1 R1 P1 where d: "drain_delay k = Inr k1" "sched_at k1 R1 P1" "curproc k1 = None" "calm {} k k1"
    using drain_delay_sched [OF s] none by metis
  have c1: "core k1 R1 P1" using d(2) by (simp add: sched_at_def)
  have b: "drain_busy k1 = Inr k1" using coreD(7) [OF c1] by (rule drain_busy_none)
  show thesis
  proof (cases P1)
    case Nil
    have dq: "is_queue (k_plinks k1) (cl_procs (k_cl k1)) []"
      using coreD(5) [OF c1] Nil by (simp add: procq_ok_def is_dqueue_def)
    have "cl_setCurproc None (put_procs (cl_procs (k_cl k1)) (k_plinks k1) k1) = k1"
      using d(3) by (simp add: cl_setCurproc_def put_procs_def upd_cl_def set_plinks_def)
    then have "advance k = Inr k1"
      using d b q_get_Nil [OF dq] by (simp add: advance_def procs_get_def)
    then show thesis by (rule that [OF _ d(2,4)]) (use d(3) in simp_all)
  next
    case (Cons x xs)
    obtain q h where g: "q_get (cl_procs (k_cl k1), k_plinks k1) = (Some x, q, h)"
      "core (cl_setCurproc (Some x) (put_procs q h k1)) R1 xs" "some_ready R1 (pr_ready (k_procs k1 x))"
      using next_proc [OF c1 [unfolded Cons] d(3)] by blast
    let ?k = "cl_setCurproc (Some x) (put_procs q h k1)"
    have pr: "k_procs ?k = k_procs k1" by (simp add: cl_setCurproc_def put_procs_def)
    have "\<not> proc_empty ?k x" using proc_empty_core [OF g(2)] g(3) pr by simp
    then have "advance k = Inr ?k" using d b g(1) by (simp add: advance_def procs_get_def Let_def)
    moreover have "curproc ?k = Some x" by (simp add: cl_setCurproc_def)
    moreover have "calm {} k ?k" using calm_trans [OF d(4) calm_setCurproc] by simp
    ultimately show thesis using that [of ?k R1 xs] sched_at_setCurproc [OF d(2) g(2)] g(3) pr by auto
  qed
qed

lemma set_time_sched: "sched_at k R P \<Longrightarrow> sched_at (set_time t k) R P"
  by (auto simp: sched_at_def no_user_def conts_ok_def parked_ok_def parked_def set_time_def
      intro: core_same simp: same_core_def)

lemma calm_set_time [simp]: "calm {} k (set_time t k)"
  by (rule calm_cong) (simp_all add: set_time_def parked_def)

lemma update_time_sched:
  "sched_at k R P \<Longrightarrow> (\<And>p. curproc k = Some p \<Longrightarrow> some_ready R (pr_ready (k_procs k p))) \<Longrightarrow>
   \<exists>b k' R' P'. cl_update_time k = Inr (b, k') \<and> sched_at k' R' P' \<and> calm {} k k' \<and>
     (b \<longrightarrow> (\<exists>p. curproc k' = Some p \<and> some_ready R' (pr_ready (k_procs k' p))))"
proof (induction k arbitrary: R P rule: cl_update_time.induct)
  case (1 k)
  show ?case
  proof (cases "curproc k")
    case (Some p)
    then show ?thesis using "1.prems" by (subst cl_update_time.simps) auto
  next
    case None
    obtain b k1 where u: "sys_update_time k = (b, k1)" by fastforce
    obtain t where t: "k1 = set_time t k" using update_time_frame [OF u] by blast
    have s1: "sched_at k1 R P" unfolding t by (rule set_time_sched [OF "1.prems"(1)])
    show ?thesis
    proof (cases b)
      case False
      then show ?thesis using None u s1 t by (subst cl_update_time.simps) auto
    next
      case True
      have "curproc k1 = None" using None t by (simp add: set_time_def)
      then obtain k2 R2 P2 where a: "advance k1 = Inr k2" "sched_at k2 R2 P2" "calm {} k1 k2"
        "\<And>p. curproc k2 = Some p \<Longrightarrow> some_ready R2 (pr_ready (k_procs k2 p))"
        using advance_sched [OF s1] by metis
      have "calm {} k k2" using calm_trans [OF calm_set_time a(3) [unfolded t]] by simp
      moreover have "\<exists>b k' R' P'. cl_update_time k2 = Inr (b, k') \<and> sched_at k' R' P' \<and> calm {} k2 k' \<and>
          (b \<longrightarrow> (\<exists>p. curproc k' = Some p \<and> some_ready R' (pr_ready (k_procs k' p))))"
        by (rule "1.IH" [OF _ u [symmetric] _ a(1,2,4)]) (use None True in simp_all)
      moreover have "cl_update_time k = cl_update_time k2"
        using None u True a(1) by (subst cl_update_time.simps) simp
      ultimately show ?thesis using calm_trans [of "{}" k k2 "{}"] by fastforce
    qed
  qed
qed

lemma sched_at_idle:
  assumes "sched_at k R P" and "curproc k = Some p" and "\<not> some_ready R (pr_ready (k_procs k p))"
  shows "sched_at (cl_setCurproc None (proc_setState p PWaiting k)) R P"
  using assms idle_proc [of k R P p]
  by (simp add: sched_at_def no_user_def conts_ok_def parked_ok_def parked_def cl_setCurproc_def proc_setState_def)

text \<open>The scheduler always has a current processor with a ready thread, or nothing is left to do.\<close>

lemma update_proc_sched:
  assumes s: "sched_at k R P" and p: "curproc k = Some p"
  shows "\<exists>b k' R' P'. cl_update_proc k = Inr (b, k') \<and> sched_at k' R' P' \<and> calm {} k k' \<and>
     (b \<longrightarrow> (\<exists>p. curproc k' = Some p \<and> some_ready R' (pr_ready (k_procs k' p))))"
proof (cases "some_ready R (pr_ready (k_procs k p))")
  case True
  then show ?thesis using s p proc_empty_core [of k R P p] by (auto simp: cl_update_proc_def sched_at_def)
next
  case False
  let ?k1 = "proc_setState p PWaiting k" and ?k0 = "cl_setCurproc None (proc_setState p PWaiting k)"
  have s0: "sched_at ?k0 R P" by (rule sched_at_idle [OF s p False])
  have c0: "core ?k0 R P" using s0 by (simp add: sched_at_def)
  have eq: "cl_update_proc k = cl_get_new_proc ?k1"
    using s p False proc_empty_core [of k R P p] by (simp add: cl_update_proc_def sched_at_def)
  have fr: "cl_procs (k_cl ?k0) = cl_procs (k_cl ?k1)" "k_plinks ?k0 = k_plinks ?k1"
    "\<And>q. proc_empty ?k0 q = proc_empty ?k1 q" "curproc ?k0 = None"
    by (simp_all add: cl_setCurproc_def proc_empty_def)
  show ?thesis
  proof (cases P)
    case Nil
    have "is_queue (k_plinks ?k1) (cl_procs (k_cl ?k1)) []"
      using coreD(5) [OF c0] Nil fr by (simp add: procq_ok_def is_dqueue_def)
    then have "procs_get_non_empty ?k1 = Inr (None, ?k1)"
      using is_queue_head by (fastforce simp: procs_get_non_empty_def q_front_def non_empty_loop.simps)
    then have "cl_update_proc k = cl_update_time ?k0" using eq by (simp add: cl_get_new_proc_def)
    then show ?thesis using update_time_sched [OF s0] fr(4) calm_trans [OF calm_idle [of k None p PWaiting], of "{}"] by fastforce
  next
    case (Cons x xs)
    obtain q h where g: "q_get (cl_procs (k_cl ?k0), k_plinks ?k0) = (Some x, q, h)"
      "core (cl_setCurproc (Some x) (put_procs q h ?k0)) R xs" "some_ready R (pr_ready (k_procs ?k0 x))"
      "qprev (k_plinks ?k0) x = None"
      using next_proc [OF c0 [unfolded Cons] fr(4)] by blast
    have ne: "\<not> proc_empty ?k1 x" using proc_empty_core [OF c0] g(3) fr(3) by simp
    have hd: "q_front (cl_procs (k_cl ?k1)) = Some x"
      using coreD(5) [OF c0] Cons fr by (simp add: procq_ok_def is_dqueue_def is_queue_def q_front_def)
    have "procs_get_non_empty ?k1 = Inr (Some x, put_procs q h ?k1)"
      using hd ne g(1,4) fr by (simp add: procs_get_non_empty_def non_empty_loop.simps q_remove_def)
    moreover have "cl_setCurproc (Some x) (put_procs q h ?k1) = cl_setCurproc (Some x) (put_procs q h ?k0)"
      by (simp add: cl_setCurproc_def put_procs_def upd_cl_def set_plinks_def)
    ultimately have "cl_update_proc k = Inr (True, cl_setCurproc (Some x) (put_procs q h ?k0))"
      using eq by (simp add: cl_get_new_proc_def)
    moreover have "curproc (cl_setCurproc (Some x) (put_procs q h ?k0)) = Some x"
      "k_procs (cl_setCurproc (Some x) (put_procs q h ?k0)) = k_procs ?k0"
      by (simp_all add: cl_setCurproc_def put_procs_def)
    moreover have "calm {} k (cl_setCurproc (Some x) (put_procs q h ?k0))"
      using calm_trans [OF calm_idle calm_setCurproc] by simp
    ultimately show ?thesis using sched_at_setCurproc [OF s0 g(2)] g(3) by auto
  qed
qed

section \<open>The scheduler loop\<close>

lemma sched_switch:
  assumes s: "sched_at k R P" and p: "curproc k = Some p" and ne: "some_ready R (pr_ready (k_procs k p))"
  shows "\<exists>t k1 k' R' P'. cl_get_ready k = Inr (Some t, k1) \<and>
    exec_ready_to t (mainth k1) CSched (th_setProc (mainth k1) (curproc k1) k1) = Inr k' \<and> running k' R' P' \<and>
    cur k' = Some t \<and> (\<exists>i. t \<in> set (R (pr_ready (k_procs k p)) i)) \<and> \<not> cl_locked k' \<and>
    k_cont k' = (k_cont k)(mainth k := CSched) \<and> mainth k' = mainth k \<and> calm {} k k'"
proof -
  let ?v = "pr_ready (k_procs k p)" and ?m = "mainth k"
  note s' = s [unfolded sched_at_def]
  obtain t Q k1 where g: "cl_get_ready k = Inr (Some t, k1)" "core k1 (R(?v := Q)) P" "t < k_ntid k"
    "th_state (k_threads k t) = TReady"
    "k_threads k1 = (k_threads k)(t := (k_threads k t)\<lparr>th_state := TRun\<rparr>)" "run_frame k k1"
    "pick (k_numpri k) (R ?v) = Some (t, Q)"
    using s' p by (blast intro: get_ready_core [OF _ _ refl ne])
  have tm: "t \<noteq> ?m" using s' g(4) by auto
  have m: "?m < k_ntid k" "th_priority (k_threads k ?m) = 0" using coreD(2) s' by (auto simp: threads_ok_def core_def)
  have pn: "p < k_npid k" using coreD(5) s' p by (auto simp: procq_ok_def core_def)
  obtain sp where sp: "th_thread (k_threads k t) = Some sp" using core_thread(2) s' g(3) by blast
  have rf: "curproc k1 = Some p" "mainth k1 = ?m" "k_ntid k1 = k_ntid k" "k_npid k1 = k_npid k"
    "k_cont k1 = k_cont k" "k_sys k1 = k_sys k" "\<And>q. pr_ready (k_procs k1 q) = pr_ready (k_procs k q)"
    using g(6) p by (simp_all add: run_frame_def)
  define k2 where "k2 = switched t ?m CSched sp (th_setProc ?m (Some p) k1)"
  have eq: "exec_ready_to t ?m CSched (th_setProc ?m (Some p) k1) = bindE (make_ready p ?m k2) (\<lambda>k. Inr (leave_kernel k))"
    unfolding k2_def by (rule exec_ready_to_eq) (use tm sp in \<open>simp_all add: th_setProc_def g(5)\<close>)
  have "core (th_setProc ?m (Some p) k1) (R(?v := Q)) P"
    by (rule core_setProc [OF g(2)]) (use s' tm pn rf in \<open>simp_all add: g(5)\<close>)
  then have c2: "core k2 (R(?v := Q)) P" unfolding k2_def by (rule core_same [OF _ switched_same])
  have sel: "k_ntid k2 = k_ntid k" "mainth k2 = ?m" "curproc k2 = Some p" "cur k2 = Some t" "k_npid k2 = k_npid k"
    "k_cont k2 = (k_cont k)(?m := CSched)" "\<And>q. pr_ready (k_procs k2 q) = pr_ready (k_procs k q)"
    "\<And>u. u \<noteq> t \<Longrightarrow> th_state (k_threads k2 u) = th_state (k_threads k u)" "th_state (k_threads k2 t) = TRun"
    "th_proc (k_threads k2 ?m) = Some p" "th_priority (k_threads k2 ?m) = 0"
    using tm m by (simp_all add: k2_def th_setProc_def rf g(5))
  have pk: "parked k2 = parked k" by (rule parked_cong) (simp_all add: k2_def rf g(5) th_setProc_def)
  have tp: "t \<notin># parked k" using ready_not_parked s' g(4) by blast
  have "parked_ok k2" by (rule parked_ok_cong [OF _ pk sel(1,2)]) (use s' in simp, metis tp sel(8))
  moreover have "conts_ok k2" using s' by (auto simp: conts_ok_def sel)
  ultimately have r2: "runs_at k2 (R(?v := Q)) P t p" using c2 g(3) tp by (simp add: runs_at_def sel pk)
  have mp: "?m \<notin># parked k" using s' by (auto simp: parked_ok_def)
  obtain k3 P' where k3: "make_ready p ?m k2 = Inr k3" "run_frame k2 k3"
    "k_threads k3 = (k_threads k2)(?m := (k_threads k2 ?m)\<lparr>th_state := TReady\<rparr>)"
    "runs_at k3 ((R(?v := Q))(?v := Q(0 := Q 0 @ [?m]))) P' t p"
    by (rule make_ready_runs_at [OF r2, of ?m p ?v 0]) (use sel m s' tm mp pk pn in auto)
  have "running k3 ((R(?v := Q))(?v := Q(0 := Q 0 @ [?m]))) P'"
    unfolding running_def using k3(2,4) sel(2,7)
    by (intro exI [of _ t] exI [of _ p]) (simp add: run_frame_def)
  note leave_kernel_running [OF this]
  moreover have "calm {} k (leave_kernel k3)"
  proof (rule calm_asleep [of ?m], rule calm_switch [OF g(4)])
    have "parked (leave_kernel k3) = parked k2" by (rule parked_cong) (use k3(2,3) in \<open>simp_all add: run_frame_def\<close>)
    then show "parked (leave_kernel k3) = parked k" by (simp add: pk)
    show "th_state (k_threads (leave_kernel k3) u) = TRun \<longleftrightarrow> th_state (k_threads k u) = TRun" if "u \<notin> {?m}" "u \<noteq> t" for u
      using that sel(8) by (simp add: k3(3))
  qed (use k3(2) sel(1,2,4) s' in \<open>auto simp: run_frame_def sleeping_def no_user_def\<close>)
  moreover have "exec_ready_to t ?m CSched (th_setProc ?m (Some p) k1) = Inr (leave_kernel k3)" using eq k3(1) by simp
  moreover have "cur (leave_kernel k3) = Some t" "\<not> cl_locked (leave_kernel k3)"
    "k_cont (leave_kernel k3) = (k_cont k)(?m := CSched)" "mainth (leave_kernel k3) = ?m"
    using k3(2) sel(2,4,6) tm by (simp_all add: run_frame_def leave_kernel_def cl_in_scheduler_def cl_locked_def)
  ultimately show ?thesis using g(1) rf pick_member [OF g(7)] by metis
qed

lemma sched_body_ok:
  assumes s: "sched_at k R P" and p: "curproc k = Some p"
  shows "\<exists>b k'. sched_body k = Inr (b, k') \<and> (b \<longrightarrow> (\<exists>R' P'. running k' R' P') \<and> calm {} k k')"
proof (cases "sy_wantshutdown (k_sys k)")
  case True
  then show ?thesis by (auto simp: sched_body_def)
next
  case False
  obtain b k1 R1 P1 where u: "cl_update_proc k = Inr (b, k1)" "sched_at k1 R1 P1" "calm {} k k1"
    "b \<longrightarrow> (\<exists>p. curproc k1 = Some p \<and> some_ready R1 (pr_ready (k_procs k1 p)))"
    using update_proc_sched [OF s p] by blast
  show ?thesis
  proof (cases b)
    case True
    then obtain q where q: "curproc k1 = Some q" "some_ready R1 (pr_ready (k_procs k1 q))" using u(4) by blast
    obtain t k2 k3 R3 P3 where "cl_get_ready k1 = Inr (Some t, k2)"
      "exec_ready_to t (mainth k2) CSched (th_setProc (mainth k2) (curproc k2) k2) = Inr k3" "running k3 R3 P3" "calm {} k1 k3"
      using sched_switch [OF u(2) q] by blast
    then show ?thesis using False u(1) True calm_trans [OF u(3)] by (fastforce simp: sched_body_def)
  qed (use False u(1) in \<open>auto simp: sched_body_def\<close>)
qed

end
