(* ===== verification/Interface_Ops.thy ===== *)
theory Interface_Ops
  imports Switch_Ops "HOL-Library.Signed_Division"
begin

text \<open>
  The calls of the user interface (\<^verbatim>\<open>src/Interface.C\<close>) and program start (\<^verbatim>\<open>src/Init.C\<close>): the
  conversion of priorities, spawning, the processor classes, the string helpers, set-up and
  the start of the main thread.
\<close>

section \<open>Priorities\<close>

text \<open>
  \<^verbatim>\<open>convert_priority\<close>: for the user 0 is the highest priority, inside the kernel the lowest.  A
  bad value aborts the program, and the call never returns; that outcome is \<open>None\<close> together
  with the state after the switch to the scheduler.
\<close>

definition convert_priority :: "nat \<Rightarrow> kernel \<Rightarrow> (nat option \<times> kernel) res" where
  "convert_priority pr k =
     bindE (proc_numPriorities k) (\<lambda>np.
     if pr \<ge> np then bindE (pAbort k) (\<lambda>k. Inr (None, k))
     else Inr (Some (nat \<bar>(int pr - (int np - 1)) smod int np\<bar>), k))"

definition spawn_priority :: "int \<Rightarrow> kernel \<Rightarrow> (int option \<times> kernel) res" where
  "spawn_priority pr k =
     (if pr < 0 then Inr (Some pr, k)
      else bindE (convert_priority (nat pr) k) (\<lambda>(q, k). Inr (map_option int q, k)))"

section \<open>Spawning\<close>

definition spawn_on :: "pid \<Rightarrow> nat \<Rightarrow> nat \<Rightarrow> int \<Rightarrow> addr \<Rightarrow> kernel \<Rightarrow> (tid option \<times> kernel) res" where
  "spawn_on p f a pr stk k =
     bindE (spawn_priority pr k) (\<lambda>(q, k).
     case q of
       None \<Rightarrow> Inr (None, k)
     | Some q \<Rightarrow> bindE (proc_create p f a q stk k) (\<lambda>(t, k). Inr (Some t, k)))"

definition pSpawn :: "nat \<Rightarrow> nat \<Rightarrow> int \<Rightarrow> addr \<Rightarrow> kernel \<Rightarrow> (tid option \<times> kernel) res" where
  "pSpawn f a pr stk k = bindE (derefE (cl_curproc (k_cl k))) (\<lambda>p. spawn_on p f a pr stk k)"

definition pSpawn_on :: "pid \<Rightarrow> nat \<Rightarrow> nat \<Rightarrow> int \<Rightarrow> addr \<Rightarrow> kernel \<Rightarrow> (tid option \<times> kernel) res" where
  "pSpawn_on p f a pr stk k = bindE (cl_add_proc (Some p) k) (spawn_on p f a pr stk)"

definition spawn_args_on ::
  "pid \<Rightarrow> nat \<Rightarrow> nat \<Rightarrow> byte list \<Rightarrow> int \<Rightarrow> addr \<Rightarrow> kernel \<Rightarrow> ((tid \<times> tid) option \<times> kernel) res" where
  "spawn_args_on p f n a pr stk k =
     bindE (spawn_priority pr k) (\<lambda>(q, k).
     case q of
       None \<Rightarrow> Inr (None, k)
     | Some q \<Rightarrow> bindE (proc_create_args p f n a q stk k) (\<lambda>(t, k). Inr (Some t, k)))"

definition pSpawn_args ::
  "nat \<Rightarrow> nat \<Rightarrow> byte list \<Rightarrow> int \<Rightarrow> addr \<Rightarrow> kernel \<Rightarrow> ((tid \<times> tid) option \<times> kernel) res" where
  "pSpawn_args f n a pr stk k =
     bindE (derefE (cl_curproc (k_cl k))) (\<lambda>p. spawn_args_on p f n a pr stk k)"

definition pSpawn_args_on ::
  "pid \<Rightarrow> nat \<Rightarrow> nat \<Rightarrow> byte list \<Rightarrow> int \<Rightarrow> addr \<Rightarrow> kernel \<Rightarrow> ((tid \<times> tid) option \<times> kernel) res" where
  "pSpawn_args_on p f n a pr stk k =
     bindE (cl_add_proc (Some p) k) (spawn_args_on p f n a pr stk)"

section \<open>Threads\<close>

definition pAddReady :: "tid \<Rightarrow> kernel \<Rightarrow> kernel res" where
  "pAddReady t k =
     bindE (derefE (th_proc (k_threads k t))) (\<lambda>p.
     bindE (proc_add_ready p t k) (\<lambda>k. cl_add_proc (th_proc (k_threads k t)) k))"

definition pAddWaiter :: "tid \<Rightarrow> tid \<Rightarrow> kernel \<Rightarrow> kernel" where
  "pAddWaiter t w = th_add_waiter t w"

definition pClearWaiter :: "tid \<Rightarrow> tid \<Rightarrow> kernel \<Rightarrow> kernel" where
  "pClearWaiter t w k = snd (th_get_waiter_item t w k)"

definition pDone :: "tid \<Rightarrow> kernel \<Rightarrow> bool" where
  "pDone t k = th_done (k_threads k t)"

definition pSetPriority :: "nat \<Rightarrow> kernel \<Rightarrow> kernel res" where
  "pSetPriority p k =
     bindE (convert_priority p k) (\<lambda>(q, k).
     case q of None \<Rightarrow> Inr k | Some q \<Rightarrow> cl_set_priority q k)"

definition pGetPriority :: "kernel \<Rightarrow> (nat option \<times> kernel) res" where
  "pGetPriority k = convert_priority (cl_get_priority k) k"

definition pLowestPriority :: "kernel \<Rightarrow> (nat option \<times> kernel) res" where
  "pLowestPriority k = convert_priority 0 k"

definition pTime :: "kernel \<Rightarrow> ptime" where
  "pTime k = sy_time (k_sys k)"

text \<open>
  The remaining calls go straight to the cluster.
\<close>

definition pCurThread :: "kernel \<Rightarrow> tid option" where
  "pCurThread k = cl_cur (k_cl k)"

definition pCurProc :: "kernel \<Rightarrow> pid option" where
  "pCurProc k = cl_curproc (k_cl k)"

definition pWait :: "tid option \<Rightarrow> kernel \<Rightarrow> kernel res" where
  [simp]: "pWait t k = cl_wait t k"

definition pYield :: "kernel \<Rightarrow> kernel res" where
  [simp]: "pYield k = cl_yield CUser k"

definition pTerminate :: "kernel \<Rightarrow> kernel res" where
  [simp]: "pTerminate k = cl_terminate k"

definition pTerminate_thread :: "tid option \<Rightarrow> kernel \<Rightarrow> kernel res" where
  [simp]: "pTerminate_thread t k = cl_terminate_thread t k"

definition pSleep :: "kernel \<Rightarrow> kernel res" where
  [simp]: "pSleep k = cl_sleep k"

definition pWake :: "tid \<Rightarrow> kernel \<Rightarrow> kernel res" where
  [simp]: "pWake t k = cl_wake t k"

definition pBusyWake :: "tid \<Rightarrow> kernel \<Rightarrow> kernel res" where
  [simp]: "pBusyWake t k = cl_busywake t k"

definition pDelay :: "ptime \<Rightarrow> kernel \<Rightarrow> kernel res" where
  [simp]: "pDelay t k = cl_delay t k"

definition pBusy :: "ptime \<Rightarrow> ptime \<Rightarrow> kernel \<Rightarrow> kernel res" where
  [simp]: "pBusy t ts k = cl_busy t ts k"

definition pBusySleep :: "ptime \<Rightarrow> kernel \<Rightarrow> kernel res" where
  [simp]: "pBusySleep ts k = cl_busysleep ts k"

definition pLock :: "kernel \<Rightarrow> kernel" where
  [simp]: "pLock k = cl_lock k"

definition pUnlock :: "kernel \<Rightarrow> kernel" where
  [simp]: "pUnlock k = cl_unlock k"

definition pIsLocked :: "kernel \<Rightarrow> bool" where
  [simp]: "pIsLocked k = cl_locked k"

section \<open>Results of spawned threads\<close>

text \<open>
  \<^verbatim>\<open>Result\<close>: a thread handle and the address of its value.  \<^verbatim>\<open>wait\<close> and \<^verbatim>\<open>kill\<close> do nothing when
  the thread is done; the outcome of \<^verbatim>\<open>wait\<close> says whether the caller continues at once.
\<close>

definition result_wait :: "tid option \<Rightarrow> kernel \<Rightarrow> (bool \<times> kernel) res" where
  "result_wait t k =
     bindE (assertE (t \<noteq> None)) (\<lambda>_.
     if pDone (the t) k then Inr (True, k)
     else bindE (cl_wait t k) (\<lambda>k. Inr (False, k)))"

definition result_kill :: "tid option \<Rightarrow> kernel \<Rightarrow> kernel res" where
  "result_kill t k =
     bindE (assertE (t \<noteq> None)) (\<lambda>_. if pDone (the t) k then Inr k else cl_terminate_thread t k)"

text \<open>\<^verbatim>\<open>ResultCheck::check\<close> over the values of the collected results.\<close>

primrec result_check :: "('r \<Rightarrow> bool) \<Rightarrow> 'r list \<Rightarrow> bool" where
  "result_check pred [] = True"
| "result_check pred (r # rs) = (if \<not> pred r then False else result_check pred rs)"

definition make_valuecheck :: "'r \<Rightarrow> 'r list \<Rightarrow> bool" where
  "make_valuecheck v = result_check (\<lambda>x. x = v)"

section \<open>Strings\<close>

text \<open>
  A C string is the part of a character sequence before the first null character.  \<^verbatim>\<open>strcpy\<close>
  writes it and the null character into a buffer; writing past the end of the buffer is
  \<open>OutOfRange\<close>.
\<close>

definition c_str :: "string \<Rightarrow> string" where
  "c_str s = takeWhile (\<lambda>c. c \<noteq> CHR 0x00) s"

definition strcpy :: "string \<Rightarrow> string \<Rightarrow> string res" where
  "strcpy buf s =
     (let w = c_str s @ [CHR 0x00] in
      if length w \<le> length buf then Inr (w @ drop (length w) buf) else Inl OutOfRange)"

definition gc_strdup :: "string \<Rightarrow> string res" where
  "gc_strdup s = strcpy (replicate (length (c_str s) + 1) (CHR 0x00)) s"

definition gc_strdup_string :: "string \<Rightarrow> string res" where
  "gc_strdup_string s = strcpy (replicate (length s) (CHR 0x00)) s"

fun show_nat :: "nat \<Rightarrow> string" where
  "show_nat n = (if n < 10 then [char_of (48 + n)] else show_nat (n div 10) @ [char_of (48 + n mod 10)])"

declare show_nat.simps [simp del]

definition make_procsname :: "string option \<Rightarrow> nat \<Rightarrow> string option res" where
  "make_procsname name index =
     (case name of
        Some s \<Rightarrow> bindE (gc_strdup_string (c_str s @ ''['' @ show_nat index @ '']'')) (\<lambda>r. Inr (Some r))
      | None \<Rightarrow> Inr None)"

section \<open>Processors\<close>

text \<open>\<^verbatim>\<open>Processor::Processor(name)\<close> makes a processor with ready queues of its own.\<close>

definition processor_new :: "string option \<Rightarrow> kernel \<Rightarrow> (pid \<times> kernel) res" where
  "processor_new name k = proc_new name k"

definition make_sharedproc :: "string option \<Rightarrow> pid \<Rightarrow> kernel \<Rightarrow> (pid \<times> kernel) res" where
  "make_sharedproc name p k =
     (let (np, k) = proc_new_shared p name k
      in bindE (cl_add_proc (Some np) k) (\<lambda>k. Inr (np, k)))"

text \<open>
  \<^verbatim>\<open>Processors::Processors(n, name, shared)\<close>: the loop from index \<open>i\<close> with \<open>m\<close> processors still to
  make; \<open>p\<close> is the last one that owns a ready vector.
\<close>

primrec processors_loop ::
  "nat \<Rightarrow> nat \<Rightarrow> string option \<Rightarrow> bool \<Rightarrow> pid option \<Rightarrow> kernel \<Rightarrow> (pid list \<times> kernel) res" where
  "processors_loop 0 i name shared p k = Inr ([], k)"
| "processors_loop (Suc m) i name shared p k =
     bindE (make_procsname name i) (\<lambda>nm.
     if i = 0 \<or> \<not> shared
     then bindE (processor_new nm k) (\<lambda>(x, k).
          bindE (processors_loop m (Suc i) name shared (Some x) k) (\<lambda>(ps, k). Inr (x # ps, k)))
     else bindE (derefE p) (\<lambda>q.
          bindE (make_sharedproc nm q k) (\<lambda>(x, k).
          bindE (processors_loop m (Suc i) name shared p k) (\<lambda>(ps, k). Inr (x # ps, k)))))"

definition processors_new :: "nat \<Rightarrow> string option \<Rightarrow> bool \<Rightarrow> kernel \<Rightarrow> (pid list \<times> kernel) res" where
  "processors_new n name shared k = processors_loop n 0 name shared None k"

section \<open>Program start\<close>

text \<open>
  \<^verbatim>\<open>pPanic\<close> prints its message and aborts the process.  \<^verbatim>\<open>setupInternal\<close> and \<^verbatim>\<open>main\<close> catch
  every exception of the library and call it with the exception's text; failed assertions and
  null pointers are not exceptions.
\<close>

definition pPanic :: "string \<Rightarrow> 'a res" where
  "pPanic msg = Inl (Panic msg)"

definition catch_panic :: "'a res \<Rightarrow> 'a res" where
  "catch_panic r = (case r of Inl (RuntimeError msg) \<Rightarrow> pPanic msg | _ \<Rightarrow> r)"

lemma catch_panic_Inr [simp]: "catch_panic r = Inr x \<longleftrightarrow> r = Inr x"
  by (auto simp: catch_panic_def pPanic_def split: sum.splits err.splits)

lemma catch_panic_simps [simp]:
  "catch_panic (Inr x) = Inr x" "catch_panic (Inl (RuntimeError msg)) = pPanic msg" "catch_panic (pPanic msg) = pPanic msg"
  by (simp_all add: catch_panic_def pPanic_def)

lemma bindE_panic [simp]: "bindE (pPanic msg) f = pPanic msg"
  by (simp add: pPanic_def)

text \<open>\<^verbatim>\<open>setupInternal\<close> applies the configuration left by the user's \<^verbatim>\<open>pSetup\<close>.\<close>

definition setupInternal :: "(config \<Rightarrow> config) \<Rightarrow> kernel \<Rightarrow> kernel res" where
  "setupInternal pSetup k =
     catch_panic (let cp = pSetup config_init in
      bindE (proc_init_static cp k) (\<lambda>k.
      bindE (sys_init cp k) (\<lambda>k. Inr (cl_init cp k))))"

text \<open>The start thread runs \<^verbatim>\<open>pMain\<close>, here user function 0.\<close>

definition start_thread :: "pid \<Rightarrow> addr \<Rightarrow> kernel \<Rightarrow> tid \<times> kernel" where
  "start_thread p stk k =
     (let (t, k) = new_thread k;
          k = th_realize t 0 t stk k
      in (t, th_setProc t (Some p) k))"

definition boot :: "(config \<Rightarrow> config) \<Rightarrow> addr \<Rightarrow> kernel \<Rightarrow> kernel res" where
  "boot pSetup stk k =
     bindE (setupInternal pSetup k) (\<lambda>k.
     bindE (proc_new None k) (\<lambda>(p, k).
     let k = cl_reset p k;
         (st, k) = start_thread p stk k
     in proc_add_ready p st k))"

definition plasma_main :: "(config \<Rightarrow> config) \<Rightarrow> addr \<Rightarrow> kernel \<Rightarrow> (bool \<times> kernel) res" where
  "plasma_main pSetup stk k = catch_panic (bindE (boot pSetup stk k) cl_scheduler)"

section \<open>Properties\<close>

lemma convert_value:
  assumes "k_numpri k \<noteq> 0" and "pr < k_numpri k"
  shows "convert_priority pr k = Inr (Some (k_numpri k - 1 - pr), k)"
proof -
  have "(int pr - (int (k_numpri k) - 1)) smod int (k_numpri k) = int pr - (int (k_numpri k) - 1)"
  proof -
    let ?a = "int pr - (int (k_numpri k) - 1)" and ?n = "int (k_numpri k)"
    have "\<bar>?a\<bar> < ?n" "?a \<le> 0" using assms by auto
    then have "\<bar>?a\<bar> mod \<bar>?n\<bar> = \<bar>?a\<bar>" by (intro mod_pos_pos_trivial) auto
    then show ?thesis by (simp only: smod_int_alt_def sgn_mult_abs)
  qed
  moreover have "nat \<bar>int pr - (int (k_numpri k) - 1)\<bar> = k_numpri k - 1 - pr" using assms by linarith
  ultimately show ?thesis using assms by (simp add: convert_priority_def proc_numPriorities_def)
qed

text \<open>
  C33. Priority conversion on valid values turns the user's order (0 is highest) into the kernel's
  (0 is lowest): it stays within the configured range, it is its own inverse, and it reverses
  the order; a value out of range asks the system to shut down with code \<open>-1\<close>, if there is a
  thread to switch from and the scheduler thread can be switched to.
\<close>

theorem priority_conversion:
  assumes "k_numpri k \<noteq> 0" and "a < k_numpri k" and "b < k_numpri k"
  shows "\<exists>a' b'. convert_priority a k = Inr (Some a', k) \<and> convert_priority b k = Inr (Some b', k) \<and>
    a' < k_numpri k \<and> convert_priority a' k = Inr (Some a, k) \<and> (a < b \<longleftrightarrow> b' < a') \<and>
    (\<forall>c k'. k_numpri k \<le> c \<and> pAbort k = Inr k' \<longrightarrow> convert_priority c k = Inr (None, k'))"
proof -
  let ?n = "k_numpri k"
  have "convert_priority (?n - 1 - a) k = Inr (Some (?n - 1 - (?n - 1 - a)), k)"
    by (rule convert_value) (use assms in auto)
  then have "convert_priority (?n - 1 - a) k = Inr (Some a, k)" using assms by simp
  moreover have "convert_priority c k = Inr (None, k')" if "?n \<le> c \<and> pAbort k = Inr k'" for c k'
    using that assms by (simp add: convert_priority_def proc_numPriorities_def)
  ultimately show ?thesis using assms convert_value [OF assms(1,2)] convert_value [OF assms(1,3)]
    by (intro exI [of _ "?n - 1 - a"] exI [of _ "?n - 1 - b"]) auto
qed

theorem priority_conversion_witness:
  "convert_priority 0 ((kernel_init 64)\<lparr>k_numpri := 32\<rparr>) = Inr (Some 31, (kernel_init 64)\<lparr>k_numpri := 32\<rparr>)"
  using priority_conversion [of "(kernel_init 64)\<lparr>k_numpri := 32\<rparr>" 31 0]
    convert_value [of "(kernel_init 64)\<lparr>k_numpri := 32\<rparr>" 31] by auto

text \<open>
  Copying a string: \<^verbatim>\<open>gc_strdup(const char *)\<close> allocates room for the characters and the
  terminator.  \<^verbatim>\<open>gc_strdup(const std::string &)\<close> allocates one byte less than it writes, for every
  string without an embedded null character; so does every named element of \<^verbatim>\<open>Processors\<close>.
\<close>

theorem strdup_bounds:
  "gc_strdup s = Inr (c_str s @ [CHR 0x00]) \<and>
   (CHR 0x00 \<notin> set s \<longrightarrow> gc_strdup_string s = Inl OutOfRange \<and> make_procsname (Some s) i = Inl OutOfRange)"
proof -
  have d: "CHR 0x00 \<notin> set (show_nat n)" for n
  proof (induction n rule: show_nat.induct)
    case (1 n)
    have "char_of (48 + m) \<noteq> CHR 0x00" if "m < 10" for m :: nat
    proof
      assume "char_of (48 + m) = CHR 0x00"
      then have "of_char (char_of (48 + m) :: char) = (0 :: nat)" by simp
      then show False using that by simp
    qed
    then show ?case using 1 by (subst show_nat.simps) (auto simp: eq_commute)
  qed
  have over: "gc_strdup_string u = Inl OutOfRange" if "CHR 0x00 \<notin> set u" for u
  proof -
    have "c_str u = u" using that by (auto simp: c_str_def takeWhile_eq_all_conv)
    then show ?thesis by (simp add: gc_strdup_string_def strcpy_def)
  qed
  have "CHR 0x00 \<notin> set (c_str s @ ''['' @ show_nat i @ '']'')" if "CHR 0x00 \<notin> set s"
    using that d [of i] by (auto simp: c_str_def dest: set_takeWhileD)
  then show ?thesis using over by (auto simp: make_procsname_def gc_strdup_def strcpy_def Let_def)
qed

theorem strdup_bounds_witness:
  "gc_strdup ''Fred'' = Inr (''Fred'' @ [CHR 0x00]) \<and> gc_strdup_string ''Fred'' = Inl OutOfRange"
  using strdup_bounds [of "''Fred''" 0] by (simp add: c_str_def)

end
