(* ===== verification/Call_Inv.thy ===== *)
theory Call_Inv
  imports Sched_Inv Interface_Ops
begin

text \<open>
  Every call of a running thread keeps the kernel invariant and returns: yield, sleep, delay, wait,
  wake, make-ready, terminate, spawn, a new processor, locking, and the preemption handler; \<^verbatim>\<open>pExit\<close>
  ends the program.
\<close>

section \<open>The calling thread\<close>

definition user_run :: "kernel \<Rightarrow> rmap \<Rightarrow> pid list \<Rightarrow> tid \<Rightarrow> pid \<Rightarrow> bool" where
  "user_run k R P c p \<longleftrightarrow> runs_at k R P c p \<and> c \<noteq> mainth k \<and>
     mainth k \<in> set (R (pr_ready (k_procs k p)) 0)"

lemma running_user: "running k R P \<Longrightarrow> cur k = Some c \<Longrightarrow> c \<noteq> mainth k \<Longrightarrow> \<exists>p. user_run k R P c p"
  by (auto simp: running_def user_run_def runs_at_def)

lemma user_running: "user_run k R P c p \<Longrightarrow> running k R P"
  by (auto simp: running_def user_run_def)

lemma user_run_at: "user_run k R P c p \<Longrightarrow> user_at k R P c p"
  by (simp add: user_run_def runs_at_def user_at_def)

lemma user_run_same:
  assumes "user_run k R P c p" and "same_core k k'" and "cur k' = cur k"
    and "parked k' = parked k" and "k_cont k' = k_cont k"
  shows "user_run k' R P c p"
proof -
  have "running k' R P" by (rule running_same [OF user_running [OF assms(1)] assms(2-5)])
  moreover have "cur k' = Some c" "c \<noteq> mainth k'" "curproc k' = Some p"
    using assms by (auto simp: user_run_def runs_at_def same_core_def)
  ultimately show ?thesis by (auto simp: running_def user_run_def runs_at_def)
qed

lemma lock_same [simp]:
  "same_core k (cl_lock k)" "same_core k (cl_unlock k)" "parked (cl_lock k) = parked k" "parked (cl_unlock k) = parked k"
  by (simp_all add: same_core_def parked_def)

lemma lock_user: "user_run k R P c p \<Longrightarrow> user_run (cl_lock k) R P c p"
  by (erule user_run_same) simp_all

lemma unlock_running: "running k R P \<Longrightarrow> running (cl_unlock k) R P"
  by (erule running_same) simp_all

lemma calm_lock [simp]: "calm W (cl_lock k) k' = calm W k k'" "calm W k (cl_lock k') = calm W k k'"
  "calm W k (cl_unlock k') = calm W k k'"
  by (simp_all add: calm_def sleeping_def)

lemma yield_ok:
  assumes "user_run k R P c p" and "user_cont ct"
  shows "\<exists>k' R' P'. cl_yield ct k = Inr k' \<and> running k' R' P' \<and> calm {} k k'"
  unfolding cl_yield_def calm_lock(1) [symmetric, of _ k]
  by (rule exec_ready_running [OF user_run_at [OF lock_user [OF assms(1)]] _ assms(2)])
    (use assms(1) in \<open>simp add: user_run_def runs_at_def\<close>)

lemma sleep_ok:
  assumes "user_run k R P c p"
  shows "\<exists>k' R' P'. cl_sleep k = Inr k' \<and> running k' R' P' \<and> calm {c} k k' \<and> sleeping k' c"
  using exec_block_running [OF user_run_at [OF lock_user [OF assms]]] assms
  by (fastforce simp: cl_sleep_def user_run_def runs_at_def)

text \<open>The caller parks itself and blocks.\<close>

lemma park_ok:
  assumes u: "user_run k R P c p" and same: "same_core k k'" and "cur k' = cur k" and "k_cont k' = k_cont k"
    and pk: "parked k' = add_mset c (parked k)"
  shows "\<exists>k'' R' P'. exec_block CUser k' = Inr k'' \<and> running k'' R' P' \<and> calm {} k k''"
proof -
  note u' = u [unfolded user_run_def runs_at_def]
  have cp: "count (parked k) c = 0" using u' by (simp add: not_in_iff)
  have "parked_ok k'" using u' cp same by (auto simp: parked_ok_def pk same_core_def)
  then have "user_at k' R P c p" using u' core_same [OF _ same] assms(3,4) same
    by (auto simp: user_at_def same_core_def conts_ok_def)
  then obtain k'' R' where b: "exec_block CUser k' = Inr k''" "running k'' R' P" "calm {c} k' k''" "\<not> sleeping k'' c"
    using exec_block_running [of k' R P c p CUser] pk by fastforce
  have "calm {} k k'" using same assms(3) u' by (auto simp: calm_def sleeping_def pk same_core_def)
  then have "calm {c} k k''" using calm_trans b(3) by fastforce
  then have "calm {} k k''" by (rule calm_asleep) (use u' b(4) in \<open>simp_all add: sleeping_def\<close>)
  then show ?thesis using b(1,2) by blast
qed

lemma delay_ok:
  assumes u: "user_run k R P c p"
  shows "\<exists>k' R' P'. cl_delay t k = Inr k' \<and> running k' R' P' \<and> calm {} k k'"
proof -
  let ?k = "sys_add_delay t c (cl_lock k)"
  have "cl_delay t k = exec_block CUser ?k" using u by (simp add: cl_delay_def user_run_def runs_at_def)
  moreover have "\<exists>k' R' P'. exec_block CUser ?k = Inr k' \<and> running k' R' P' \<and> calm {} k k'"
  proof (rule park_ok [OF u])
    show "same_core k ?k" by (simp add: same_core_def sys_add_delay_def set_times_def Let_def)
    have w: "th_waiters (k_threads ?k u) = th_waiters (k_threads k u)" for u
      by (simp add: sys_add_delay_def set_times_def Let_def)
    have d: "mset (sy_delay (k_sys ?k)) = add_mset c (mset (sy_delay (k_sys k)))" "k_ntid ?k = k_ntid k"
      by (simp_all add: sys_add_delay_def set_times_def Let_def)
    show "parked ?k = add_mset c (parked k)" by (simp add: parked_def w d)
  qed (simp_all add: sys_add_delay_def set_times_def Let_def)
  ultimately show ?thesis by simp
qed

lemma parked_waiters:
  assumes "t < k_ntid k"
  shows "parked (upd_th t (\<lambda>r. r\<lparr>th_waiters := ws\<rparr>) k) + mset (th_waiters (k_threads k t)) = parked k + mset ws"
proof -
  let ?k = "upd_th t (\<lambda>r. r\<lparr>th_waiters := ws\<rparr>) k"
  have s: "(\<Sum>u<k_ntid k. f u) = f t + (\<Sum>u\<in>{..<k_ntid k} - {t}. f u)" for f :: "nat \<Rightarrow> tid multiset"
    using assms by (intro sum.remove) auto
  have "(\<Sum>u\<in>{..<k_ntid k} - {t}. mset (th_waiters (k_threads ?k u)))
      = (\<Sum>u\<in>{..<k_ntid k} - {t}. mset (th_waiters (k_threads k u)))"
    by (intro sum.cong) auto
  then show ?thesis
    by (simp add: parked_def s [of "\<lambda>u. mset (th_waiters (k_threads k u))"]
        s [of "\<lambda>u. mset (th_waiters (k_threads ?k u))"] del: upd_th_sel(1)) simp
qed

lemma wait_ok:
  assumes u: "user_run k R P c p" and t: "t < k_ntid k"
  shows "\<exists>k' R' P'. cl_wait (Some t) k = Inr k' \<and> running k' R' P' \<and> calm {} k k'"
proof (cases "th_done (k_threads k t)")
  case True
  then show ?thesis using unlock_running [OF user_running [OF lock_user [OF u]]] by (auto simp: cl_wait_def)
next
  case False
  let ?k = "th_add_waiter t c (cl_lock k)"
  have "cl_wait (Some t) k = exec_block CUser ?k" using u False by (simp add: cl_wait_def user_run_def runs_at_def)
  moreover have "\<exists>k' R' P'. exec_block CUser ?k = Inr k' \<and> running k' R' P' \<and> calm {} k k'"
  proof (rule park_ok [OF u])
    show "same_core k ?k" by (simp add: same_core_def th_add_waiter_def)
    have "?k = upd_th t (\<lambda>r. r\<lparr>th_waiters := th_waiters (k_threads k t) @ [c]\<rparr>) (cl_lock k)"
      by (simp add: th_add_waiter_def upd_th_def)
    then show "parked ?k = add_mset c (parked k)"
      using parked_waiters [of t "cl_lock k" "th_waiters (k_threads k t) @ [c]"] t by simp
  qed (simp_all add: th_add_waiter_def)
  ultimately show ?thesis by simp
qed

section \<open>Waking other threads\<close>

lemma make_ready_user:
  assumes u: "user_run k R P c p" and t: "t < k_ntid k" "th_state (k_threads k t) = TRun" "t \<noteq> c"
    "t \<notin># parked k" "t \<noteq> mainth k"
  obtains q k' R' P' where "th_proc (k_threads k t) = Some q" and "q < k_npid k"
    and "pr_state (k_procs k q) \<noteq> PBusy" and "make_ready q t k = Inr k'" and "user_run k' R' P' c p"
    and "k_threads k' = (k_threads k)(t := (k_threads k t)\<lparr>th_state := TReady\<rparr>)" and "run_frame k k'"
    and "calm {t} k k'" and "\<not> sleeping k' t"
proof -
  note u' = u [unfolded user_run_def]
  have r: "runs_at k R P c p" and c: "core k R P" using u' by (auto simp: runs_at_def)
  obtain q where q: "th_proc (k_threads k t) = Some q" "q < k_npid k" using core_thread(3) [OF c t(1,5)] by blast
  have nb: "pr_state (k_procs k q) \<noteq> PBusy" using coreD(5) [OF c] by (simp add: procq_ok_def)
  obtain k' P' where k': "make_ready q t k = Inr k'"
    "runs_at k' (R(pr_ready (k_procs k q) := (R (pr_ready (k_procs k q)))
      (th_priority (k_threads k t) := R (pr_ready (k_procs k q)) (th_priority (k_threads k t)) @ [t]))) P' c p"
    "k_threads k' = (k_threads k)(t := (k_threads k t)\<lparr>th_state := TReady\<rparr>)" "run_frame k k'"
    by (rule make_ready_runs_at [OF r t(1,2,3,4) q refl refl])
  have "user_run k' (R(pr_ready (k_procs k q) := (R (pr_ready (k_procs k q)))
      (th_priority (k_threads k t) := R (pr_ready (k_procs k q)) (th_priority (k_threads k t)) @ [t]))) P' c p"
    unfolding user_run_def using k'(2,4) u' by (auto simp: run_frame_def)
  moreover have "\<not> sleeping k' t" using k'(3) by (simp add: sleeping_def)
  ultimately show thesis using that [OF q nb k'(1) _ k'(3,4)] calm_ready [OF k'(3,4)] by blast
qed

lemma wake_ok:
  assumes u: "user_run k R P c p" and t: "t < k_ntid k" "th_state (k_threads k t) = TRun" "t \<noteq> c"
    "t \<notin># parked k" "t \<noteq> mainth k"
  shows "\<exists>k' R' P'. cl_wake t k = Inr k' \<and> user_run k' R' P' c p \<and> calm {t} k k' \<and> \<not> sleeping k' t"
proof -
  obtain q k' R' P' where k': "th_proc (k_threads k t) = Some q" "pr_state (k_procs k q) \<noteq> PBusy"
    "make_ready q t (cl_lock k) = Inr k'" "user_run k' R' P' c p" "calm {t} (cl_lock k) k'" "\<not> sleeping k' t"
    by (rule make_ready_user [OF lock_user [OF u], of t]) (use t in auto)
  have "cl_wake t k = Inr (cl_unlock k')"
    using k' add_thread_eq [of "cl_lock k" t q] by (simp add: cl_wake_def)
  moreover have "user_run (cl_unlock k') R' P' c p" by (rule user_run_same [OF k'(4)]) simp_all
  moreover have "\<not> sleeping (cl_unlock k') t" using k'(6) by (simp add: sleeping_def)
  ultimately show ?thesis using k'(5) by auto
qed

lemma make_ready_reread:
  assumes "th_proc (k_threads k t) = Some q"
  shows "bindE (derefE (th_proc (k_threads k t))) (\<lambda>p. bindE (proc_add_ready p t k) (\<lambda>k.
      cl_add_proc (th_proc (k_threads k t)) k)) = make_ready q t k"
  using assms ready_frameD(12) [OF add_ready_frame]
  by (cases "proc_add_ready q t k") (auto simp: make_ready_def)

lemma wake_waiters_ok:
  "user_run k R P c p \<Longrightarrow> \<exists>k' R' P'. wake_waiters c k = Inr k' \<and> user_run k' R' P' c p \<and> calm {} k k'"
proof (induction c k arbitrary: R P rule: wake_waiters.induct)
  case (1 c k)
  let ?ws = "th_waiters (k_threads k c)"
  note u' = "1.prems" [unfolded user_run_def runs_at_def]
  show ?case
  proof (cases "?ws = []")
    case True
    then have "wake_waiters c k = Inr k" by (subst wake_waiters.simps) (simp add: th_get_waiter_def)
    then show ?thesis using "1.prems" by blast
  next
    case False
    let ?w = "last ?ws" and ?k = "upd_th c (\<lambda>r. r\<lparr>th_waiters := butlast (th_waiters r)\<rparr>) k"
    have g: "th_get_waiter c k = (Some ?w, ?k)" using False by (simp add: th_get_waiter_def Let_def)
    have e: "?k = upd_th c (\<lambda>r. r\<lparr>th_waiters := butlast ?ws\<rparr>) k" by (simp add: upd_th_def)
    have ms: "mset ?ws = add_mset ?w (mset (butlast ?ws))"
      using False by (metis append_butlast_last_id mset_append mset.simps add_mset_add_single)
    have pk: "parked k = add_mset ?w (parked ?k)"
      using parked_waiters [of c k "butlast ?ws"] u' ms unfolding e by simp
    have w: "parked_ok ?k \<and> ?w \<notin># parked ?k \<and> ?w < k_ntid k \<and> ?w \<noteq> mainth k \<and> th_state (k_threads k ?w) = TRun"
      by (rule parked_ok_remove [OF _ pk]) (use u' in simp_all)
    have wc: "?w \<noteq> c" using u' pk by auto
    moreover have "core ?k R P" by (rule core_same [of k]) (use u' in \<open>simp_all add: same_core_def\<close>)
    moreover have "c \<notin># parked ?k" using u' by (simp add: pk)
    ultimately have u1: "user_run ?k R P c p" using u' w by (simp add: user_run_def runs_at_def conts_ok_def)
    obtain q k2 R2 P2 where k2: "th_proc (k_threads ?k ?w) = Some q" "make_ready q ?w ?k = Inr k2" "user_run k2 R2 P2 c p"
      "calm {?w} ?k k2" "\<not> sleeping k2 ?w"
      by (rule make_ready_user [OF u1, of ?w]) (use w wc in auto)
    have "?w \<in># parked k" and sub: "\<And>u. u \<notin># parked k \<Longrightarrow> u \<notin># parked ?k" unfolding pk by simp_all
    then have nw: "\<not> sleeping k ?w" by (simp add: sleeping_def)
    have "u \<in># parked ?k" if "u \<in># parked k" "u \<noteq> ?w" for u using that unfolding pk by simp
    then have "calm {?w} k ?k" using sub by (auto simp: calm_def sleeping_def)
    then have "calm {?w} k k2" using calm_trans [OF _ k2(4), of "{?w}" k] by simp
    then have "calm {} k k2" using nw k2(5) by (rule calm_asleep)
    then have cm: "calm {} k k'" if "calm {} k2 k'" for k' using that calm_trans [of "{}" k k2 "{}" k'] by simp
    note step = make_ready_reread [OF k2(1)]
    obtain k' R' P' where "wake_waiters c k2 = Inr k'" "user_run k' R' P' c p" "calm {} k2 k'"
      using "1.IH" [OF g [symmetric] refl _ k2(3)] step k2(2) by auto
    moreover have "wake_waiters c k = wake_waiters c k2"
      by (subst wake_waiters.simps) (simp only: g prod.case option.case step k2(2) bindE.simps)
    ultimately show ?thesis using cm by auto
  qed
qed

section \<open>Termination\<close>

lemma destroy_sel:
  "k_procs (th_destroy c k) = k_procs k" "k_qvects (th_destroy c k) = k_qvects k"
  "k_tlinks (th_destroy c k) = k_tlinks k" "k_plinks (th_destroy c k) = k_plinks k"
  "k_cl (th_destroy c k) = k_cl k" "k_numpri (th_destroy c k) = k_numpri k"
  "k_ntid (th_destroy c k) = k_ntid k" "k_npid (th_destroy c k) = k_npid k" "k_nqv (th_destroy c k) = k_nqv k"
  "k_cont (th_destroy c k) = k_cont k" "sy_busy (k_sys (th_destroy c k)) = sy_busy (k_sys k)"
  "sy_delay (k_sys (th_destroy c k)) = sy_delay (k_sys k)"
  "th_state (k_threads (th_destroy c k) u) = (if u = c then TDone else th_state (k_threads k u))"
  "th_proc (k_threads (th_destroy c k) u) = th_proc (k_threads k u)"
  "th_priority (k_threads (th_destroy c k) u) = th_priority (k_threads k u)"
  "th_thread (k_threads (th_destroy c k) u) = th_thread (k_threads k u)"
  "th_waiters (k_threads (th_destroy c k) u) = th_waiters (k_threads k u)"
  by (simp_all add: th_destroy_def sys_dispose_def th_setState_def sys_remove_active_thread_def Let_def
      split: option.splits)

lemma rep_done:
  assumes rep: "ready_rep X k R" and st: "th_state (k_threads k c) \<noteq> TReady"
    and "k_tlinks k' = k_tlinks k" "k_qvects k' = k_qvects k"
    and S: "\<And>u. th_state (k_threads k' u) = (if u = c then TDone else th_state (k_threads k u))"
    and T: "\<And>u. th_priority (k_threads k' u) = th_priority (k_threads k u)"
  shows "ready_rep X k' R"
proof (rule ready_repI)
  show "th_state (k_threads k' t) = TReady \<and> th_priority (k_threads k' t) = i" if "t \<in> set (R v i)" for v i t
    using rep_member [OF rep that] st S T by auto
  show "\<exists>v. t \<in> set (R v (th_priority (k_threads k' t)))" if "th_state (k_threads k' t) = TReady" for t
    using that rep_ready [OF rep, of t] S T by (simp split: if_splits)
  show "unlinked (k_tlinks k') t"
    if "th_state (k_threads k' t) = TRun \<or> th_state (k_threads k' t) = TBusy" "t \<notin> X" for t
    using that rep_unlinked [OF rep, of t] S assms(3) by (simp split: if_splits)
qed (use rep_queue [OF rep] rep_range [OF rep] rep_once [OF rep] rep_count [OF rep] assms(3,4) in auto)

lemma core_destroy:
  assumes c: "core k R P" and st: "th_state (k_threads k t) \<noteq> TReady"
  shows "core (th_destroy t k) R P"
proof -
  note c' = coreD [OF c]
  have "ready_rep {} (th_destroy t k) R" by (rule rep_done [OF c'(1) st]) (simp_all add: destroy_sel)
  then show ?thesis using c'(2-7)
    by (simp add: core_def threads_ok_def members_ok_def procs_wf_def procq_ok_def covered_def destroy_sel)
qed

lemma terminate_ok:
  assumes u: "user_run k R P c p"
  shows "\<exists>k' R' P'. cl_terminate k = Inr k' \<and> running k' R' P' \<and> calm {} k k'"
proof -
  obtain k1 R1 P1 where w: "wake_waiters c (cl_lock k) = Inr k1" "user_run k1 R1 P1 c p" "calm {} (cl_lock k) k1"
    using wake_waiters_ok [OF lock_user [OF u]] by blast
  note u1 = w(2) [unfolded user_run_def runs_at_def]
  let ?v = "pr_ready (k_procs k1 p)"
  have ne: "some_ready R1 ?v" using u1 by (auto intro: some_readyI)
  obtain t Q k2 where g: "cl_get_ready k1 = Inr (Some t, k2)" "pick (k_numpri k1) (R1 ?v) = Some (t, Q)"
    "core k2 (R1(?v := Q)) P1" "t < k_ntid k1" "th_state (k_threads k1 t) = TReady"
    "k_threads k2 = (k_threads k1)(t := (k_threads k1 t)\<lparr>th_state := TRun\<rparr>)" "run_frame k1 k2"
    using u1 by (blast intro: get_ready_core [OF _ _ refl ne])
  have tc: "t \<noteq> c" using u1 g(5) by auto
  obtain sp where sp: "th_thread (k_threads k1 t) = Some sp" using core_thread(2) u1 g(4) by blast
  have rf: "mainth k2 = mainth k1" "k_ntid k2 = k_ntid k1" "curproc k2 = Some p" "k_cont k2 = k_cont k1"
    "k_sys k2 = k_sys k1" "pr_ready (k_procs k2 p) = ?v"
    using g(7) u1 by (simp_all add: run_frame_def)
  define k3 where "k3 = (cl_setCur (Some t) k2)\<lparr>k_sp := sp\<rparr>"
  have ok: "cl_terminate k = Inr (leave_kernel (th_destroy c k3))"
    using w(1) u g(1) sp by (simp add: cl_terminate_def user_run_def runs_at_def k3_def switch_term_def g(6))
  have s3: "k_threads k3 = k_threads k2" "mainth k3 = mainth k1" "k_ntid k3 = k_ntid k1" "curproc k3 = Some p"
    "cur k3 = Some t" "k_cont k3 = k_cont k1" "k_sys k3 = k_sys k1" "pr_ready (k_procs k3 p) = ?v"
    by (simp_all add: k3_def rf)
  let ?k = "th_destroy c k3"
  have "core k3 (R1(?v := Q)) P1" by (rule core_same [OF g(3)]) (simp add: same_core_def k3_def)
  then have c4: "core ?k (R1(?v := Q)) P1" by (rule core_destroy) (use u1 tc in \<open>simp add: s3 g(6)\<close>)
  have pk: "parked ?k = parked k1" by (rule parked_cong) (simp_all add: destroy_sel s3 g(6))
  have tp: "t \<notin># parked k1" using ready_not_parked u1 g(5) by blast
  have "parked_ok ?k"
  proof (rule parked_ok_cong [OF _ pk])
    show "th_state (k_threads ?k x) = th_state (k_threads k1 x)" if "x \<in># parked k1" for x
      using that u1 tp by (auto simp: destroy_sel s3 g(6))
  qed (use u1 in \<open>simp_all add: destroy_sel s3\<close>)
  moreover have "conts_ok ?k" using u1 by (simp add: conts_ok_def destroy_sel s3)
  ultimately have "runs_at ?k (R1(?v := Q)) P1 t p"
    using c4 g(4) tc tp by (simp add: runs_at_def destroy_sel s3 pk g(6))
  moreover have "mainth ?k \<in> set ((R1(?v := Q)) (pr_ready (k_procs ?k p)) 0)" if "t \<noteq> mainth ?k"
    using that u1 pick_keeps [OF g(2)] by (simp add: destroy_sel s3)
  ultimately have "running ?k (R1(?v := Q)) P1" unfolding running_def by blast
  note leave_kernel_running [OF this]
  moreover have "calm {} k1 (leave_kernel ?k)"
  proof (rule calm_asleep [of c], rule calm_switch [OF g(5)])
    show "parked (leave_kernel ?k) = parked k1" unfolding pk [symmetric] by (rule parked_cong) simp_all
  qed (use u1 in \<open>auto simp: destroy_sel s3 g(6) sleeping_def\<close>)
  ultimately show ?thesis using ok w(3) calm_trans [of "{}" k k1 "{}"] by fastforce
qed

section \<open>Spawning\<close>

text \<open>The new thread before it is put into the ready queue.\<close>

definition spawned :: "pid \<Rightarrow> nat \<Rightarrow> nat \<Rightarrow> nat \<Rightarrow> addr \<Rightarrow> kernel \<Rightarrow> kernel" where
  "spawned p f a i stk k = th_setProc (k_ntid k) (Some p)
     (upd_th (k_ntid k) (\<lambda>r. r\<lparr>th_priority := i\<rparr>) (th_realize (k_ntid k) f a stk (snd (new_thread k))))"

lemma add_active_sel:
  "k_procs (sys_add_active_thread t k) = k_procs k" "k_qvects (sys_add_active_thread t k) = k_qvects k"
  "k_tlinks (sys_add_active_thread t k) = k_tlinks k" "k_plinks (sys_add_active_thread t k) = k_plinks k"
  "k_cl (sys_add_active_thread t k) = k_cl k" "k_numpri (sys_add_active_thread t k) = k_numpri k"
  "k_ntid (sys_add_active_thread t k) = k_ntid k" "k_npid (sys_add_active_thread t k) = k_npid k"
  "k_nqv (sys_add_active_thread t k) = k_nqv k" "k_cont (sys_add_active_thread t k) = k_cont k"
  "sy_busy (k_sys (sys_add_active_thread t k)) = sy_busy (k_sys k)"
  "sy_delay (k_sys (sys_add_active_thread t k)) = sy_delay (k_sys k)"
  "th_state (k_threads (sys_add_active_thread t k) u) = th_state (k_threads k u)"
  "th_proc (k_threads (sys_add_active_thread t k) u) = th_proc (k_threads k u)"
  "th_priority (k_threads (sys_add_active_thread t k) u) = th_priority (k_threads k u)"
  "th_waiters (k_threads (sys_add_active_thread t k) u) = th_waiters (k_threads k u)"
  "th_thread (k_threads (sys_add_active_thread t k) u) = th_thread (k_threads k u)"
  by (cases "sy_active_list (k_sys k)"; simp add: sys_add_active_thread_def)+

lemma realize_sel:
  "k_procs (th_realize t f a stk k) = k_procs k" "k_qvects (th_realize t f a stk k) = k_qvects k"
  "k_tlinks (th_realize t f a stk k) = k_tlinks k" "k_plinks (th_realize t f a stk k) = k_plinks k"
  "k_cl (th_realize t f a stk k) = k_cl k" "k_numpri (th_realize t f a stk k) = k_numpri k"
  "k_ntid (th_realize t f a stk k) = k_ntid k" "k_npid (th_realize t f a stk k) = k_npid k"
  "k_nqv (th_realize t f a stk k) = k_nqv k" "k_cont (th_realize t f a stk k) = k_cont k"
  "sy_busy (k_sys (th_realize t f a stk k)) = sy_busy (k_sys k)"
  "sy_delay (k_sys (th_realize t f a stk k)) = sy_delay (k_sys k)"
  "th_state (k_threads (th_realize t f a stk k) u) = th_state (k_threads k u)"
  "th_proc (k_threads (th_realize t f a stk k) u) = th_proc (k_threads k u)"
  "th_priority (k_threads (th_realize t f a stk k) u) = th_priority (k_threads k u)"
  "th_waiters (k_threads (th_realize t f a stk k) u) = th_waiters (k_threads k u)"
  "u \<noteq> t \<Longrightarrow> th_thread (k_threads (th_realize t f a stk k) u) = th_thread (k_threads k u)"
  "th_thread (k_threads (th_realize t f a stk k) t) \<noteq> None"
  by (simp_all add: th_realize_def sys_newstack_def add_active_sel Let_def)

lemma spawned_sel:
  "k_procs (spawned p f a i stk k) = k_procs k" "k_qvects (spawned p f a i stk k) = k_qvects k"
  "k_tlinks (spawned p f a i stk k) = qbase_init (k_ntid k) (k_tlinks k)"
  "k_plinks (spawned p f a i stk k) = k_plinks k" "k_cl (spawned p f a i stk k) = k_cl k"
  "k_numpri (spawned p f a i stk k) = k_numpri k" "k_ntid (spawned p f a i stk k) = Suc (k_ntid k)"
  "k_npid (spawned p f a i stk k) = k_npid k" "k_nqv (spawned p f a i stk k) = k_nqv k"
  "k_cont (spawned p f a i stk k) = (k_cont k)(k_ntid k := CUser)"
  "sy_busy (k_sys (spawned p f a i stk k)) = sy_busy (k_sys k)"
  "sy_delay (k_sys (spawned p f a i stk k)) = sy_delay (k_sys k)"
  "th_state (k_threads (spawned p f a i stk k) u) = (if u = k_ntid k then TRun else th_state (k_threads k u))"
  "th_proc (k_threads (spawned p f a i stk k) u) = (if u = k_ntid k then Some p else th_proc (k_threads k u))"
  "th_priority (k_threads (spawned p f a i stk k) u) = (if u = k_ntid k then i else th_priority (k_threads k u))"
  "th_waiters (k_threads (spawned p f a i stk k) u) = (if u = k_ntid k then [] else th_waiters (k_threads k u))"
  "u \<noteq> k_ntid k \<Longrightarrow> th_thread (k_threads (spawned p f a i stk k) u) = th_thread (k_threads k u)"
  "th_thread (k_threads (spawned p f a i stk k) (k_ntid k)) \<noteq> None"
  using realize_sel(18) [of "k_ntid k"]
  by (simp_all add: spawned_def th_setProc_def realize_sel new_thread_def Let_def thread_init_def)

lemma proc_create_eq:
  assumes i: "create_priority pr k = Inr i" and c: "cur k \<noteq> Some (k_ntid k)"
  shows "proc_create p f a pr stk k =
    bindE (proc_add_ready p (k_ntid k) (spawned p f a i stk (cl_lock k))) (\<lambda>k'. Inr (k_ntid k, cl_unlock k'))"
proof -
  obtain k2 where n: "new_thread (cl_lock k) = (k_ntid k, k2)" by (simp add: new_thread_def Let_def)
  then have k2: "k_cl k2 = k_cl (cl_lock k)" "\<And>u. u \<noteq> k_ntid k \<Longrightarrow> k_threads k2 u = k_threads k u"
    by (auto simp: new_thread_def Let_def)
  have "create_priority pr (th_realize (k_ntid k) f a stk k2) = create_priority pr k"
    using c by (cases "cur k") (auto simp: create_priority_def realize_sel k2)
  then show ?thesis using i by (simp add: proc_create_def n spawned_def Let_def)
qed

text \<open>
  A spawn on processor \<open>p\<close> may have queued \<open>p\<close> before its new thread is ready: \<open>covered\<close> may then
  fail for \<open>p\<close> until the thread is added.
\<close>

definition covered_but :: "kernel \<Rightarrow> rmap \<Rightarrow> pid list \<Rightarrow> pid \<Rightarrow> bool" where
  "covered_but k R P p \<longleftrightarrow> (\<forall>q\<in>set P. q \<noteq> p \<longrightarrow> some_ready R (pr_ready (k_procs k q))) \<and>
     (\<forall>q<k_npid k. q = p \<or> some_ready R (pr_ready (k_procs k q)) \<longrightarrow> q \<in> set P \<or> curproc k = Some q)"

definition core_but :: "kernel \<Rightarrow> rmap \<Rightarrow> pid list \<Rightarrow> pid \<Rightarrow> bool" where
  "core_but k R P p \<longleftrightarrow> ready_rep {} k R \<and> threads_ok k \<and> members_ok k R \<and> procs_wf k \<and>
     procq_ok k P \<and> covered_but k R P p \<and> sy_busy (k_sys k) = []"

lemma core_but_spawned:
  assumes c: "core_but k R P p" and p: "p < k_npid k" and i: "i < k_numpri k"
  shows "core_but (spawned p f a i stk k) R P p"
proof -
  note c' = c [unfolded core_but_def]
  let ?t = "k_ntid k" and ?k = "spawned p f a i stk k"
  have nt: "?t \<notin> set (R v j)" for v j using c' by (auto simp: members_ok_def)
  have sl: "same_links {?t} (k_tlinks k) (k_tlinks ?k)" by (simp add: same_links_def spawned_sel)
  have rep: "ready_rep {} k R" using c' by simp
  have "ready_rep {} ?k R"
  proof (rule ready_repI)
    show "is_queue (k_tlinks ?k) (qv_queues (k_qvects ?k v) ! j) (R v j)" if "j < nqueues ?k v" for v j
      using is_queue_frame [OF rep_queue [OF rep] sl] that nt by (simp add: spawned_sel)
    show "th_state (k_threads ?k u) = TReady \<and> th_priority (k_threads ?k u) = j" if "u \<in> set (R v j)" for v j u
      using rep_member [OF rep that] nt [of v j] that by (auto simp: spawned_sel)
    show "\<exists>v. u \<in> set (R v (th_priority (k_threads ?k u)))" if "th_state (k_threads ?k u) = TReady" for u
      using that rep_ready [OF rep, of u] by (simp add: spawned_sel split: if_splits)
    show "unlinked (k_tlinks ?k) u"
      if "th_state (k_threads ?k u) = TRun \<or> th_state (k_threads ?k u) = TBusy" "u \<notin> {}" for u
      using that rep_unlinked [OF rep, of u] by (simp add: spawned_sel unlinked_def split: if_splits)
  qed (use rep_range [OF rep] rep_once [OF rep] rep_count [OF rep] in \<open>auto simp: spawned_sel\<close>)
  moreover have "threads_ok ?k"
    using c' p i spawned_sel(18) [of p f a i stk k]
    by (auto simp: threads_ok_def spawned_sel(1-17) less_Suc_eq)
  moreover have "members_ok ?k R" using c' nt by (fastforce simp: members_ok_def spawned_sel less_Suc_eq)
  moreover have "procs_wf ?k" "procq_ok ?k P" "covered_but ?k R P p" "sy_busy (k_sys ?k) = []"
    using c' by (simp_all add: procs_wf_def procq_ok_def covered_but_def spawned_sel)
  ultimately show ?thesis by (simp add: core_but_def)
qed

lemma core_but_ready:
  assumes c: "core_but k R P p" and t: "t < k_ntid k" "th_state (k_threads k t) = TRun"
    "th_proc (k_threads k t) = Some p" and p: "p < k_npid k"
    and v: "v = pr_ready (k_procs k p)" and i: "i = th_priority (k_threads k t)"
  obtains k' where "proc_add_ready p t k = Inr k'" and "core k' (R(v := (R v)(i := R v i @ [t]))) P"
    and "k_threads k' = (k_threads k)(t := (k_threads k t)\<lparr>th_state := TReady\<rparr>)" and "ready_frame k k'"
proof -
  let ?R = "R(v := (R v)(i := R v i @ [t]))"
  note c' = c [unfolded core_but_def]
  have "i < nqueues k v" using c' t(1) p v i by (simp add: threads_ok_def procs_wf_def)
  then obtain k' where 1: "proc_add_ready p t k = Inr k'" "ready_rep {} k' ?R"
    "k_threads k' = (k_threads k)(t := (k_threads k t)\<lparr>th_state := TReady\<rparr>)" "ready_frame k k'"
    using add_ready_spec [OF _ _ _ v i] c' t(2) by blast
  note rf = ready_run_frame [OF 1(4)]
  have "threads_ok k'" by (rule threads_ok_state [OF _ rf 1(3)]) (use c' in simp)
  moreover have "members_ok k' ?R"
    by (rule members_ok_state [OF _ rf]) (use c' t p v in \<open>auto simp: 1(3) split: if_splits\<close>)
  moreover have "procs_wf k'" by (rule procs_wf_frame [OF _ rf]) (use c' in \<open>simp_all add: ready_frameD [OF 1(4)]\<close>)
  moreover have "procq_ok k' P" by (rule procq_ok_frame [OF _ 1(4)]) (use c' in simp)
  moreover have "covered k' ?R P"
  proof -
    have inj: "q = p" if "q < k_npid k" "pr_ready (k_procs k q) = v" for q
      using c' p v that unfolding procs_wf_def by blast
    have cb: "covered_but k R P p" using c' by simp
    have "some_ready ?R (pr_ready (k_procs k q))" if "q \<in> set P" for q
      unfolding some_ready_upd using that cb v by (cases "q = p") (auto simp: covered_but_def)
    moreover have "q \<in> set P \<or> curproc k = Some q"
      if "q < k_npid k" "some_ready ?R (pr_ready (k_procs k q))" for q
    proof (cases "pr_ready (k_procs k q) = v")
      case True
      then show ?thesis using inj that cb by (simp add: covered_but_def)
    next
      case False
      then show ?thesis using that cb unfolding some_ready_upd by (simp add: covered_but_def)
    qed
    ultimately show ?thesis unfolding covered_def ready_frameD(1,4,10) [OF 1(4)] by blast
  qed
  moreover have "sy_busy (k_sys k') = []" using c' ready_frameD(3) [OF 1(4)] by simp
  ultimately have "core k' ?R P" using 1(2) by (simp add: core_def)
  then show thesis using that 1 by blast
qed

text \<open>What holds around a spawn: as \<open>user_run\<close>, with \<open>core_but\<close> in place of \<open>core\<close>.\<close>

definition spawning :: "kernel \<Rightarrow> rmap \<Rightarrow> pid list \<Rightarrow> tid \<Rightarrow> pid \<Rightarrow> pid \<Rightarrow> bool" where
  "spawning k R P c cp p \<longleftrightarrow> core_but k R P p \<and> parked_ok k \<and> conts_ok k \<and> cur k = Some c \<and>
     curproc k = Some cp \<and> c < k_ntid k \<and> th_state (k_threads k c) = TRun \<and> c \<notin># parked k \<and>
     c \<noteq> mainth k \<and> mainth k \<in> set (R (pr_ready (k_procs k cp)) 0)"

lemma core_but_same: "core_but k R P p \<Longrightarrow> same_core k k' \<Longrightarrow> core_but k' R P p"
  unfolding core_but_def
proof (elim conjE, intro conjI)
  assume "ready_rep {} k R" "same_core k k'"
  then show "ready_rep {} k' R" by (elim ready_rep_cong) (auto simp: same_core_def)
qed (simp_all add: threads_ok_def members_ok_def procs_wf_def procq_ok_def covered_but_def same_core_def)

lemma create_ok:
  assumes s: "spawning k R P c cp p" and p: "p < k_npid k" and pr: "pr < int (k_numpri k)"
  shows "\<exists>k' R'. proc_create p f a pr stk k = Inr (k_ntid k, k') \<and> running k' R' P \<and> calm {} k k'"
proof -
  note s' = s [unfolded spawning_def]
  let ?t = "k_ntid k"
  obtain i where i: "create_priority pr k = Inr i" "i < k_numpri k"
    using s' pr by (cases "pr < 0") (auto simp: create_priority_def core_but_def threads_ok_def)
  let ?k = "spawned p f a i stk (cl_lock k)"
  have cb: "core_but ?k R P p"
    by (rule core_but_spawned [OF core_but_same]) (use s' p i(2) in auto)
  obtain k1 R1 where k1: "proc_add_ready p ?t ?k = Inr k1" "core k1 R1 P"
    "R1 = R(pr_ready (k_procs k p) := (R (pr_ready (k_procs k p)))(i := R (pr_ready (k_procs k p)) i @ [?t]))"
    "k_threads k1 = (k_threads ?k)(?t := (k_threads ?k ?t)\<lparr>th_state := TReady\<rparr>)" "ready_frame ?k k1"
    by (rule core_but_ready [OF cb, of ?t]) (use p in \<open>auto simp: spawned_sel\<close>)
  note rf = ready_frameD [OF k1(5)]
  have eq: "proc_create p f a pr stk k = Inr (?t, cl_unlock k1)"
    using proc_create_eq [OF i(1), of p f a stk] k1(1) s' by auto
  have st: "th_state (k_threads k1 u) = th_state (k_threads k u)" if "u \<noteq> ?t" for u
    using that by (simp add: k1(4) spawned_sel)
  have pk: "parked k1 = parked k"
    by (simp add: parked_def rf spawned_sel)
  have tp: "?t \<notin># parked k" using s' by (auto simp: parked_ok_def)
  have lt: "x < Suc ?t \<and> th_state (k_threads k1 x) = TRun" if "x \<in># parked k" for x
    using that s' tp st by (metis less_SucI parked_ok_def)
  have "parked_ok k1" using s' lt by (simp add: parked_ok_def pk rf spawned_sel)
  moreover have "conts_ok k1" using s' by (auto simp: conts_ok_def rf spawned_sel less_Suc_eq core_but_def threads_ok_def)
  ultimately have "runs_at k1 R1 P c cp" using s' k1(2) st by (simp add: runs_at_def pk rf spawned_sel)
  then have "running k1 R1 P" using s' unfolding running_def
    by (intro exI [of _ c] exI [of _ cp]) (auto simp: rf spawned_sel k1(3))
  moreover have "calm {} k (cl_unlock k1)"
    unfolding calm_def
  proof (intro allI impI)
    have "th_state (k_threads k1 ?t) = TReady" by (simp add: k1(4))
    then show "sleeping (cl_unlock k1) u = sleeping k u" for u
      using st [of u] by (cases "u = ?t") (auto simp: sleeping_def pk rf spawned_sel)
  qed
  ultimately show ?thesis using eq unlock_running by blast
qed

lemma user_spawning: "user_run k R P c cp \<Longrightarrow> spawning k R P c cp cp"
  by (auto simp: user_run_def runs_at_def spawning_def core_def core_but_def covered_def covered_but_def)

lemma add_proc_spawning:
  assumes u: "user_run k R P c cp" and p: "p < k_npid k"
  obtains k' P' where "cl_add_proc (Some p) k = Inr k'" and "spawning k' R P' c cp p" and "run_frame k k'" and "calm {} k k'"
proof -
  note u' = u [unfolded user_run_def runs_at_def]
  have c: "core k R P" using u' by simp
  note c' = coreD [OF c]
  obtain k' P' where k': "cl_add_proc (Some p) k = Inr k'" "procq_ok k' P'"
    "set P' = (if pr_state (k_procs k p) = PRunning then set P else insert p (set P))"
    "k_threads k' = k_threads k" "k_tlinks k' = k_tlinks k" "k_qvects k' = k_qvects k" "run_frame k k'"
    by (rule add_proc_spec [OF c'(5) p])
  have f: "curproc k' = curproc k" "k_npid k' = k_npid k" "\<And>q. pr_ready (k_procs k' q) = pr_ready (k_procs k q)"
    "mainth k' = mainth k" "k_ntid k' = k_ntid k" "k_numpri k' = k_numpri k" "k_cont k' = k_cont k"
    "k_sys k' = k_sys k" "cur k' = cur k"
    using k'(7) by (simp_all add: run_frame_def)
  have "covered_but k' R P' p"
  proof -
    have "some_ready R (pr_ready (k_procs k q))" if "q \<in> set P'" "q \<noteq> p" for q
      using that k'(3) c'(6) by (auto simp: covered_def split: if_splits)
    moreover have "q \<in> set P' \<or> curproc k = Some q"
      if "q < k_npid k" "q = p \<or> some_ready R (pr_ready (k_procs k q))" for q
      using that k'(3) c'(5,6) by (auto simp: covered_def procq_ok_def split: if_splits)
    ultimately show ?thesis unfolding covered_but_def f by blast
  qed
  moreover have "ready_rep {} k' R" by (rule ready_rep_cong [OF c'(1)]) (simp_all add: k')
  moreover have "threads_ok k'" "members_ok k' R" "sy_busy (k_sys k') = []"
    using c'(2,3,7) by (simp_all add: threads_ok_def members_ok_def f k'(4))
  moreover have "procs_wf k'" by (rule procs_wf_frame [OF c'(4) k'(7)]) (simp add: k'(6))
  ultimately have "core_but k' R P' p" using k'(2) by (simp add: core_but_def)
  moreover have pk: "parked k' = parked k" by (rule parked_cong) (simp_all add: f k'(4))
  moreover have "parked_ok k'" by (rule parked_ok_cong [OF _ pk]) (use u' in \<open>simp_all add: f k'(4)\<close>)
  ultimately have "spawning k' R P' c cp p" using u' by (simp add: spawning_def conts_ok_def f k'(4))
  moreover have "calm {} k k'" using f k'(4) pk by (simp add: calm_def sleeping_def)
  ultimately show thesis using that k'(1,7) by blast
qed

lemma spawn_on_ok:
  assumes s: "spawning k R P c cp p" and p: "p < k_npid k" and pr: "pr < int (k_numpri k)"
  shows "\<exists>k' R'. spawn_on p f a pr stk k = Inr (Some (k_ntid k), k') \<and> running k' R' P \<and> calm {} k k'"
proof (cases "pr < 0")
  case True
  then show ?thesis using create_ok [OF s p pr, of f a stk] by (auto simp: spawn_on_def spawn_priority_def)
next
  case False
  then have n: "k_numpri k \<noteq> 0" "nat pr < k_numpri k" using pr by auto
  show ?thesis using create_ok [OF s p, of "int (k_numpri k - 1 - nat pr)" f a stk] False n
    by (auto simp: spawn_on_def spawn_priority_def convert_value [OF n])
qed

lemma spawn_ok:
  assumes u: "user_run k R P c cp" and p: "p < k_npid k" and pr: "pr < int (k_numpri k)"
  shows "\<exists>t k' R' P'. pSpawn_on p f a pr stk k = Inr (Some t, k') \<and> running k' R' P' \<and> calm {} k k'"
    and "\<exists>t k' R' P'. pSpawn f a pr stk k = Inr (Some t, k') \<and> running k' R' P' \<and> calm {} k k'"
proof -
  obtain k' P' where k': "cl_add_proc (Some p) k = Inr k'" "spawning k' R P' c cp p" "run_frame k k'" "calm {} k k'"
    by (rule add_proc_spawning [OF u p])
  have "p < k_npid k'" "pr < int (k_numpri k')" using k'(3) p pr by (simp_all add: run_frame_def)
  then show "\<exists>t k' R' P'. pSpawn_on p f a pr stk k = Inr (Some t, k') \<and> running k' R' P' \<and> calm {} k k'"
    using spawn_on_ok [OF k'(2), of pr f a stk] k'(1,4) calm_trans [of "{}" k k' "{}"] by (fastforce simp: pSpawn_on_def)
  have cp: "cp < k_npid k" "curproc k = Some cp"
    using u coreD(5) by (auto simp: user_run_def runs_at_def procq_ok_def core_def)
  then show "\<exists>t k' R' P'. pSpawn f a pr stk k = Inr (Some t, k') \<and> running k' R' P' \<and> calm {} k k'"
    using spawn_on_ok [OF user_spawning [OF u] cp(1) pr, of f a stk] by (fastforce simp: pSpawn_def)
qed

section \<open>A new processor\<close>

lemma proc_new_rep:
  assumes "ready_rep X k R" and "nqueues k v = 0" and "k_tlinks k' = k_tlinks k" and "k_threads k' = k_threads k"
    and "k_qvects k' = (k_qvects k)(v := qvect_init n)"
  shows "ready_rep X k' R"
proof -
  have e: "R v i = []" for i using rep_range [OF assms(1), of v i] assms(2) by simp
  show ?thesis
  proof (rule ready_repI)
    fix w i
    show "i < nqueues k' w \<Longrightarrow> is_queue (k_tlinks k') (qv_queues (k_qvects k' w) ! i) (R w i)"
      using rep_queue [OF assms(1), of i w] e by (cases "w = v") (simp_all add: assms(3-5) qvect_init_def)
    show "nqueues k' w \<le> i \<Longrightarrow> R w i = []"
      using rep_range [OF assms(1), of w i] e by (cases "w = v") (simp_all add: assms(3-5))
    show "qv_count (k_qvects k' w) = int (\<Sum>i<nqueues k' w. length (R w i))"
      using rep_count [OF assms(1), of w] e by (cases "w = v") (simp_all add: assms(3-5) qvect_init_def)
  qed (use rep_member [OF assms(1)] rep_once [OF assms(1)] rep_ready [OF assms(1)] rep_unlinked [OF assms(1)] in
      \<open>auto simp: assms(3-5)\<close>)
qed

lemma new_proc_ok:
  assumes u: "user_run k R P c p"
  shows "\<exists>q k'. processor_new n k = Inr (q, k') \<and> user_run k' R P c p \<and> calm {} k k'"
proof -
  note u' = u [unfolded user_run_def runs_at_def]
  have "core k R P" using u' by blast
  note c' = coreD [OF this]
  let ?v = "k_nqv k" and ?q = "k_npid k"
  define k' where "k' = k\<lparr>k_qvects := (k_qvects k)(?v := qvect_init (k_numpri k)), k_nqv := Suc ?v,
      k_procs := (k_procs k)(?q := proc_init n ?v), k_npid := Suc ?q, k_plinks := qbase_init ?q (k_plinks k)\<rparr>"
  have np: "k_numpri k \<noteq> 0" using c'(2) by (auto simp: threads_ok_def)
  then have ok: "processor_new n k = Inr (?q, k')" by (simp add: processor_new_def proc_new_def proc_numPriorities_def k'_def Let_def)
  have nv: "nqueues k ?v = 0" using c'(4) by (simp add: procs_wf_def)
  have sel: "k_threads k' = k_threads k" "k_tlinks k' = k_tlinks k" "k_cl k' = k_cl k" "k_sys k' = k_sys k" "k_ntid k' = k_ntid k"
    "k_numpri k' = k_numpri k" "k_cont k' = k_cont k" "k_npid k' = Suc ?q" "k_nqv k' = Suc ?v"
    "k_qvects k' = (k_qvects k)(?v := qvect_init (k_numpri k))" "k_procs k' = (k_procs k)(?q := proc_init n ?v)"
    "k_plinks k' = qbase_init ?q (k_plinks k)"
    by (simp_all add: k'_def)
  have fresh: "?q \<notin> set P" "unlinked (k_plinks k) ?q" "curproc k \<noteq> Some ?q" using c'(5) by (auto simp: procq_ok_def)
  have pl: "qbase_init ?q (k_plinks k) = k_plinks k" using fresh(2) by (simp add: qbase_init_def unlinked_def fun_upd_idem)
  have old: "pr_ready (k_procs k' q) = (if q = ?q then ?v else pr_ready (k_procs k q))"
    "pr_state (k_procs k' q) = (if q = ?q then PWaiting else pr_state (k_procs k q))" for q
    by (simp_all add: sel proc_init_def)
  have "ready_rep {} k' R" by (rule proc_new_rep [OF c'(1) nv]) (simp_all add: sel)
  moreover have "threads_ok k'" using c'(2) by (fastforce simp: threads_ok_def sel)
  moreover have "members_ok k' R" using c'(3) unfolding members_ok_def by (fastforce simp: old sel(1,5,8))
  moreover have "procs_wf k'" using c'(4) unfolding procs_wf_def old sel(6,8-10)
    by (auto simp: less_Suc_eq qvect_init_def)
  moreover have "procq_ok k' P" using c'(5) fresh unfolding procq_ok_def old sel(3,8,12) pl
    by (auto simp: less_Suc_eq)
  moreover have "covered k' R P"
  proof -
    have "\<not> some_ready R ?v" using rep_range [OF c'(1), of ?v] nv by (auto simp: some_ready_def)
    then show ?thesis using c'(6) fresh unfolding covered_def old sel(3,8) by (auto simp: less_Suc_eq)
  qed
  ultimately have co: "core k' R P" using c'(7) by (simp add: core_def sel)
  have pk: "parked k' = parked k" by (simp add: parked_def sel)
  have "p \<noteq> ?q" using u' fresh(3) by auto
  then have "user_run k' R P c p" using u' co pk by (simp add: user_run_def runs_at_def parked_ok_def conts_ok_def sel(1,3,5,7) old)
  moreover have "calm {} k k'" by (rule calm_cong) (simp_all add: sel pk)
  ultimately show ?thesis using ok by blast
qed

section \<open>The end of the program\<close>

text \<open>
  \<^verbatim>\<open>pExit\<close> switches to the scheduler thread, which finds the request to shut down and returns.
\<close>

lemma exit_ok:
  assumes u: "user_run k R P c p"
  shows "\<exists>k'. pExit code k = Inr k' \<and> cur k' = Some (mainth k') \<and> resume k' = Inr (False, k') \<and> sy_code (k_sys k') = code"
proof -
  note u' = u [unfolded user_run_def runs_at_def]
  let ?m = "mainth k" and ?s = "cl_setCur (Some (mainth k)) (sys_shutdown code (cl_lock k))"
  have same: "same_core k ?s" by (simp add: same_core_def sys_shutdown_def)
  have "?m < k_ntid k" using u' coreD(2) by (auto simp: threads_ok_def)
  then obtain sp where sp: "th_thread (k_threads ?s ?m) = Some sp" using core_thread(2) u' by (force simp: sys_shutdown_def)
  obtain q where q: "th_proc (k_threads k c) = Some q" "q < k_npid k" using core_thread(3) u' by blast
  let ?w = "switched ?m c CUser sp ?s"
  have "core ?w R P" using core_same [OF core_same [OF _ same] switched_same] u' by blast
  then obtain k' P' where k': "make_ready q c ?w = Inr k'" "run_frame ?w k'"
    by (rule make_ready_core [OF _ _ _ _ _ refl refl]) (use u' q in \<open>simp_all add: sys_shutdown_def\<close>)
  have e: "pExit code k = Inr (leave_kernel k')"
  proof -
    have "pExit code k = exec_ready_to ?m c CUser ?s" using u' by (simp add: pExit_def cl_runscheduler_def sys_shutdown_def)
    also have "\<dots> = bindE (make_ready q c ?w) (\<lambda>k. Inr (leave_kernel k))"
      by (rule exec_ready_to_eq [OF sp]) (use q in \<open>simp add: sys_shutdown_def\<close>)
    finally show ?thesis using k'(1) by simp
  qed
  have cm: "c \<noteq> ?m" "k_cont k ?m = CSched" using u' by (auto simp: conts_ok_def)
  have f: "cur k' = Some (mainth k')" "k_cont k' (mainth k') = CSched" "sy_wantshutdown (k_sys k')" "sy_code (k_sys k') = code" "mainth k' = mainth k"
    using k'(2) cm by (simp_all add: run_frame_def sys_shutdown_def)
  then have "leave_kernel k' = k'" by (simp add: leave_kernel_def cl_in_scheduler_def)
  then show ?thesis using e f by (simp add: resume_def sched_body_def Let_def)
qed

lemma add_ready_ok:
  assumes u: "user_run k R P c p" and t: "sleeping k t"
  shows "\<exists>k' R' P'. pAddReady t k = Inr k' \<and> user_run k' R' P' c p \<and> calm {t} k k' \<and> \<not> sleeping k' t"
proof -
  have t: "t < k_ntid k" "th_state (k_threads k t) = TRun" "t \<noteq> c" "t \<notin># parked k" "t \<noteq> mainth k"
    using assms by (auto simp: sleeping_def user_run_def runs_at_def)
  obtain q k' R' P' where "th_proc (k_threads k t) = Some q" "make_ready q t k = Inr k'" "user_run k' R' P' c p" "calm {t} k k'" "\<not> sleeping k' t"
    by (rule make_ready_user [OF u t])
  then show ?thesis using make_ready_reread [of k t q] by (auto simp: pAddReady_def)
qed

end
