(* ===== verification/Alarm_Off.thy ===== *)
theory Alarm_Off
  imports Call_Inv
begin

text \<open>
  Programs without preemption.  \<^verbatim>\<open>Cluster::init\<close> blocks the alarm signal when the configuration turns
  preemption off or uses the time model; no kernel code unblocks it again, so the alarm never
  interrupts a thread of such a program.
\<close>

definition no_preempt :: "(config \<Rightarrow> config) \<Rightarrow> bool" where
  "no_preempt pSetup \<longleftrightarrow> \<not> cp_preempt (pSetup config_init) \<or> cp_busyokay (pSetup config_init)"

definition alarm_off :: "kernel \<Rightarrow> bool" where
  "alarm_off k \<longleftrightarrow> \<not> cl_preemptOkay (k_cl k) \<and> cl_alarm_blocked (k_cl k) \<and> (\<forall>t. k_cont k t \<noteq> CPreempt)"

lemma alarm_off_cong:
  "cl_preemptOkay (k_cl k') = cl_preemptOkay (k_cl k) \<Longrightarrow> cl_alarm_blocked (k_cl k') = cl_alarm_blocked (k_cl k) \<Longrightarrow>
   k_cont k' = k_cont k \<Longrightarrow> alarm_off k' \<longleftrightarrow> alarm_off k"
  by (simp add: alarm_off_def)

named_theorems quiet \<open>operations that keep the alarm off\<close>

lemma alarm_off_upd [simp]:
  "alarm_off (upd_th t f k) = alarm_off k" "alarm_off (upd_pr p g k) = alarm_off k" "alarm_off (upd_qv v h k) = alarm_off k"
  "alarm_off (upd_sys j k) = alarm_off k" "alarm_off (set_tlinks q k) = alarm_off k" "alarm_off (set_plinks q k) = alarm_off k"
  "alarm_off (cl_lock k) = alarm_off k" "alarm_off (cl_unlock k) = alarm_off k" "alarm_off (cl_setCur c k) = alarm_off k"
  "alarm_off (cl_setCurproc po k) = alarm_off k" "alarm_off (k\<lparr>k_sp := a\<rparr>) = alarm_off k" "alarm_off (put_procs q' h' k) = alarm_off k"
  "alarm_off (put_queue v i q' h' k) = alarm_off k" "alarm_off (leave_kernel k) = alarm_off k"
  "alarm_off (th_setState t s k) = alarm_off k" "alarm_off (th_setProc t po k) = alarm_off k" "alarm_off (proc_setState p st k) = alarm_off k"
  "alarm_off (proc_return_thread v t k) = alarm_off k" "alarm_off (th_save t a k) = alarm_off k" "alarm_off (th_setStackEnd t k) = alarm_off k"
  "alarm_off (sys_shutdown code k) = alarm_off k" "alarm_off (set_time x k) = alarm_off k" "alarm_off (sys_add_delay x t k) = alarm_off k"
  "alarm_off (th_add_waiter t w k) = alarm_off k" "alarm_off (resetalarm k) = alarm_off k"
  by (simp_all add: alarm_off_def cl_setCurproc_def put_procs_def put_queue_def leave_kernel_def th_setState_def th_setProc_def
      proc_setState_def proc_return_thread_def th_save_def th_setStackEnd_def sys_shutdown_def set_time_def sys_add_delay_def
      set_times_def th_add_waiter_def resetalarm_def Let_def)

lemma alarm_off_cont: "alarm_off k \<Longrightarrow> ct \<noteq> CPreempt \<Longrightarrow> alarm_off (set_cont t ct k)"
  by (simp add: alarm_off_def)

lemma ready_quiet: "ready_frame k k' \<Longrightarrow> alarm_off k' = alarm_off k"
  by (rule alarm_off_cong) (simp_all add: ready_frame_def)

lemma add_ready_quiet [quiet]: "proc_add_ready p t k = Inr k' \<Longrightarrow> alarm_off k' = alarm_off k"
  by (rule ready_quiet [OF add_ready_frame])

lemma get_ready_quiet [quiet]: "proc_get_ready p k = (r, k') \<Longrightarrow> alarm_off k' = alarm_off k"
  by (rule ready_quiet [OF get_ready_frame])

lemma add_proc_quiet [quiet]: "cl_add_proc p k = Inr k' \<Longrightarrow> alarm_off k' = alarm_off k"
  by (auto simp: cl_add_proc_def Let_def split: option.splits if_splits prod.splits)

lemma get_ready_cl_quiet [quiet]: "cl_get_ready k = Inr (r, k') \<Longrightarrow> alarm_off k' = alarm_off k"
  by (auto simp: cl_get_ready_def dest: quiet)

lemma add_thread_quiet [quiet]: "add_thread_to_proc t k = Inr k' \<Longrightarrow> alarm_off k' = alarm_off k"
  by (auto simp: add_thread_to_proc_def dest!: quiet split: if_splits option.splits)

lemma clearBusy_quiet [quiet]: "proc_clearBusyThread p k = Inr k' \<Longrightarrow> alarm_off k' = alarm_off k"
  by (auto simp: proc_clearBusyThread_def dest!: quiet split: option.splits)

lemma release_busy_quiet [quiet]: "release_busy p k = Inr k' \<Longrightarrow> alarm_off k' = alarm_off k"
  by (auto simp: release_busy_def dest!: quiet)

section \<open>Advancing time\<close>

lemma drain_delay_quiet [quiet]: "drain_delay k = Inr k' \<Longrightarrow> alarm_off k' = alarm_off k"
proof (induction k rule: drain_delay.induct)
  case (1 k)
  obtain r k1 where g: "sys_get_delay k = (r, k1)" by fastforce
  then have q: "alarm_off k1 = alarm_off k" by (auto simp: sys_get_delay_def split: prod.splits)
  show ?case
  proof (cases r)
    case (Some t)
    then obtain k2 where "add_thread_to_proc t k1 = Inr k2" "drain_delay k2 = Inr k'"
      using "1.prems" g by (subst (asm) drain_delay.simps) auto
    then show ?thesis using "1.IH" [OF g [symmetric] Some] q by (auto dest: quiet)
  qed (use "1.prems" g q in \<open>simp add: drain_delay.simps\<close>)
qed

lemma drain_busy_quiet [quiet]: "drain_busy k = Inr k' \<Longrightarrow> alarm_off k' = alarm_off k"
proof (induction k rule: drain_busy.induct)
  case (1 k)
  obtain r k1 where g: "sys_get_busy k = (r, k1)" by fastforce
  then have q: "alarm_off k1 = alarm_off k" by (auto simp: sys_get_busy_def split: prod.splits)
  show ?case
  proof (cases r)
    case (Some t)
    then obtain k2 where "release_busy t k1 = Inr k2" "drain_busy k2 = Inr k'"
      using "1.prems" g by (subst (asm) drain_busy.simps) auto
    then show ?thesis using "1.IH" [OF g [symmetric] Some] q by (auto dest: quiet)
  qed (use "1.prems" g q in \<open>simp add: drain_busy.simps\<close>)
qed

lemma advance_quiet [quiet]: "advance k = Inr k' \<Longrightarrow> alarm_off k' = alarm_off k"
  by (auto simp: advance_def procs_get_def Let_def dest!: quiet split: prod.splits option.splits if_splits)

lemma update_time_quiet [quiet]: "cl_update_time k = Inr (b, k') \<Longrightarrow> alarm_off k' = alarm_off k"
proof (induction k rule: cl_update_time.induct)
  case (1 k)
  obtain r k1 where g: "sys_update_time k = (r, k1)" by fastforce
  then have q: "alarm_off k1 = alarm_off k" by (auto simp: sys_update_time_def split: sum.splits if_splits)
  show ?case
  proof (cases "cl_curproc (k_cl k) = None \<and> r")
    case True
    then obtain k2 where "advance k1 = Inr k2" "cl_update_time k2 = Inr (b, k')"
      using "1.prems" g by (subst (asm) cl_update_time.simps) auto
    then show ?thesis using "1.IH" [of r k1 k2] g True q by (auto dest: quiet)
  qed (use "1.prems" g q in \<open>auto simp: cl_update_time.simps split: if_splits\<close>)
qed

lemma get_non_empty_quiet [quiet]: "procs_get_non_empty k = Inr (r, k') \<Longrightarrow> alarm_off k' = alarm_off k"
  by (simp add: procs_get_non_empty_def split: option.splits prod.splits) (metis alarm_off_upd(12) surj_pair)

lemma update_proc_quiet [quiet]: "cl_update_proc k = Inr (b, k') \<Longrightarrow> alarm_off k' = alarm_off k"
  by (auto simp: cl_update_proc_def cl_get_new_proc_def Let_def dest!: quiet
      split: option.splits if_splits prod.splits)

section \<open>Switches\<close>

lemma exec_ready_to_off: "exec_ready_to new old ct k = Inr k' \<Longrightarrow> ct \<noteq> CPreempt \<Longrightarrow> alarm_off k \<Longrightarrow> alarm_off k'"
  by (auto simp: exec_ready_to_def qt_block_def switch_ready_def Let_def alarm_off_cont dest!: quiet)

lemma exec_ready_off: "exec_ready ct k = Inr k' \<Longrightarrow> ct \<noteq> CPreempt \<Longrightarrow> alarm_off k \<Longrightarrow> alarm_off k'"
  by (auto simp: exec_ready_def dest: quiet elim!: exec_ready_to_off)

lemma exec_block_off: "exec_block ct k = Inr k' \<Longrightarrow> ct \<noteq> CPreempt \<Longrightarrow> alarm_off k \<Longrightarrow> alarm_off k'"
  by (auto simp: exec_block_def qt_block_def switch_block_def alarm_off_cont dest!: quiet)

lemma abort_off: "pAbort k = Inr k' \<Longrightarrow> alarm_off k \<Longrightarrow> alarm_off k'"
  by (auto simp: pAbort_def cl_runscheduler_def elim!: exec_ready_to_off)

lemma wake_waiters_quiet [quiet]: "wake_waiters c k = Inr k' \<Longrightarrow> alarm_off k' = alarm_off k"
proof (induction c k rule: wake_waiters.induct)
  case (1 c k)
  obtain r k1 where g: "th_get_waiter c k = (r, k1)" by fastforce
  then have q: "alarm_off k1 = alarm_off k" by (auto simp: th_get_waiter_def Let_def split: if_splits)
  show ?case
  proof (cases r)
    case (Some w)
    then obtain p k2 k3 where *: "th_proc (k_threads k1 w) = Some p" "proc_add_ready p w k1 = Inr k2"
      "cl_add_proc (th_proc (k_threads k2 w)) k2 = Inr k3" "wake_waiters c k3 = Inr k'"
      using "1.prems" g by (subst (asm) wake_waiters.simps) auto
    then have "alarm_off k' = alarm_off k3" using "1.IH" [OF g [symmetric] Some, of k3] by auto
    then show ?thesis using * q by (auto dest: quiet)
  qed (use "1.prems" g q in \<open>simp add: wake_waiters.simps\<close>)
qed

lemma destroy_quiet [simp]: "alarm_off (th_destroy t k) = alarm_off k"
  by (rule alarm_off_cong) (simp_all add: destroy_sel)

section \<open>Calls\<close>

lemma create_quiet [quiet]: "proc_create p f a pr stk k = Inr (t, k') \<Longrightarrow> alarm_off k \<Longrightarrow> alarm_off k'"
proof -
  have "alarm_off (snd (new_thread k)) = alarm_off k" if "alarm_off k" for k using that by (auto simp: alarm_off_def new_thread_def Let_def)
  moreover have "alarm_off (th_realize t f a stk k) = alarm_off k" for t k by (rule alarm_off_cong) (simp_all add: realize_sel)
  ultimately show "proc_create p f a pr stk k = Inr (t, k') \<Longrightarrow> alarm_off k \<Longrightarrow> alarm_off k'"
    by (auto simp: proc_create_def Let_def dest!: quiet split: prod.splits) (metis snd_conv alarm_off_upd(7))+
qed

lemma spawn_on_off: "spawn_on p f a pr stk k = Inr (t, k') \<Longrightarrow> alarm_off k \<Longrightarrow> alarm_off k'"
  by (auto simp: spawn_on_def spawn_priority_def convert_priority_def split: if_splits option.splits dest: abort_off create_quiet)

lemma call_off_defs:
  "cl_yield CUser k = Inr k' \<Longrightarrow> alarm_off k \<Longrightarrow> alarm_off k'"
  "cl_sleep k = Inr k' \<Longrightarrow> alarm_off k \<Longrightarrow> alarm_off k'"
  "cl_delay x k = Inr k' \<Longrightarrow> alarm_off k \<Longrightarrow> alarm_off k'"
  "cl_wait w k = Inr k' \<Longrightarrow> alarm_off k \<Longrightarrow> alarm_off k'"
  "cl_wake t k = Inr k' \<Longrightarrow> alarm_off k \<Longrightarrow> alarm_off k'"
  "pAddReady t k = Inr k' \<Longrightarrow> alarm_off k \<Longrightarrow> alarm_off k'"
  "cl_terminate k = Inr k' \<Longrightarrow> alarm_off k \<Longrightarrow> alarm_off k'"
  "pSpawn f a pr stk k = Inr (r, k') \<Longrightarrow> alarm_off k \<Longrightarrow> alarm_off k'"
  "pSpawn_on p f a pr stk k = Inr (r, k') \<Longrightarrow> alarm_off k \<Longrightarrow> alarm_off k'"
  "processor_new n k = Inr (p, k') \<Longrightarrow> alarm_off k \<Longrightarrow> alarm_off k'"
proof -
  assume o: "alarm_off k"
  show "cl_yield CUser k = Inr k' \<Longrightarrow> alarm_off k'" using o exec_ready_off [of CUser "cl_lock k" k'] by (simp add: cl_yield_def)
  show "cl_sleep k = Inr k' \<Longrightarrow> alarm_off k'" using o exec_block_off [of CUser "cl_lock k" k'] by (simp add: cl_sleep_def)
  show "cl_delay x k = Inr k' \<Longrightarrow> alarm_off k'" using o exec_block_off [of CUser] by (auto simp: cl_delay_def)
  show "cl_wait w k = Inr k' \<Longrightarrow> alarm_off k'" using o exec_block_off [of CUser] by (auto simp: cl_wait_def Let_def split: if_splits)
  show "cl_wake t k = Inr k' \<Longrightarrow> alarm_off k'" using o by (auto simp: cl_wake_def dest!: quiet)
  show "pAddReady t k = Inr k' \<Longrightarrow> alarm_off k'" using o by (auto simp: pAddReady_def dest!: quiet)
  show "cl_terminate k = Inr k' \<Longrightarrow> alarm_off k'" using o by (auto simp: cl_terminate_def switch_term_def Let_def dest!: quiet)
  show "pSpawn f a pr stk k = Inr (r, k') \<Longrightarrow> alarm_off k'" using o by (auto simp: pSpawn_def dest: spawn_on_off)
  show "pSpawn_on p f a pr stk k = Inr (r, k') \<Longrightarrow> alarm_off k'" using o by (auto simp: pSpawn_on_def dest!: quiet dest: spawn_on_off)
  show "processor_new n k = Inr (p, k') \<Longrightarrow> alarm_off k'" using o by (auto simp: processor_new_def proc_new_def Let_def alarm_off_def)
qed

lemma sched_body_off: "sched_body k = Inr (b, k') \<Longrightarrow> alarm_off k \<Longrightarrow> alarm_off k'"
  by (auto simp: sched_body_def Let_def split: if_splits option.splits prod.splits dest!: quiet elim!: exec_ready_to_off)

end
