(* ===== verification/Kernel_Steps.thy ===== *)
theory Kernel_Steps
  imports Alarm_Off
begin

text \<open>
  The kernel as a transition system: after program start, the running thread makes kernel calls or is
  preempted, pending kernel code is resumed, and the scheduler runs.  The reachable states
  satisfy the kernel invariant, and no allowed call fails.
\<close>

section \<open>Steps\<close>

datatype ucall =
    UYield | USleep | UDelay ptime | UWait tid | UWake tid | UTerminate
  | USpawn nat nat int addr | USpawnOn pid nat nat int addr | UNewProc "string option" | UAddReady tid | ULock | UUnlock

definition do_call :: "ucall \<Rightarrow> kernel \<Rightarrow> kernel res" where
  "do_call u k = (case u of
      UYield \<Rightarrow> pYield k
    | USleep \<Rightarrow> pSleep k
    | UDelay t \<Rightarrow> pDelay t k
    | UWait t \<Rightarrow> pWait (Some t) k
    | UWake t \<Rightarrow> pWake t k
    | UTerminate \<Rightarrow> pTerminate k
    | USpawn f a pr stk \<Rightarrow> bindE (pSpawn f a pr stk k) (\<lambda>(_, k). Inr k)
    | USpawnOn p f a pr stk \<Rightarrow> bindE (pSpawn_on p f a pr stk k) (\<lambda>(_, k). Inr k)
    | UNewProc n \<Rightarrow> bindE (processor_new n k) (\<lambda>(_, k). Inr k)
    | UAddReady t \<Rightarrow> pAddReady t k
    | ULock \<Rightarrow> Inr (pLock k)
    | UUnlock \<Rightarrow> Inr (pUnlock k))"

text \<open>
  What the program has to respect: handles of existing threads, processors and priorities, and a
  wake-up is sent only to a thread that sleeps, that is, one that has given up its processor
  and waits neither for a thread nor for a time.
\<close>

definition call_ok :: "kernel \<Rightarrow> ucall \<Rightarrow> bool" where
  "call_ok k u = (case u of
      UWait t \<Rightarrow> t < k_ntid k
    | UWake t \<Rightarrow> sleeping k t
    | UAddReady t \<Rightarrow> sleeping k t
    | USpawn f a pr stk \<Rightarrow> pr < int (k_numpri k)
    | USpawnOn p f a pr stk \<Rightarrow> p < k_npid k \<and> pr < int (k_numpri k)
    | _ \<Rightarrow> True)"

definition in_user :: "kernel \<Rightarrow> bool" where
  "in_user k \<longleftrightarrow> (\<exists>c. cur k = Some c \<and> c \<noteq> mainth k \<and> k_cont k c = CUser)"

text \<open>
  \<open>step_call\<close>: a kernel call of user code; \<open>step_stack\<close>: user code moves the stack pointer;
  \<open>step_alarm\<close>: the alarm interrupts user code; \<open>step_resume\<close>: pending kernel code (the scheduler
  loop, the preemption handler) of the current thread goes on.
\<close>

inductive kstep :: "kernel \<Rightarrow> kernel \<Rightarrow> bool" where
  step_call: "in_user k \<Longrightarrow> call_ok k u \<Longrightarrow> do_call u k = Inr k' \<Longrightarrow> kstep k k'"
| step_stack: "in_user k \<Longrightarrow> kstep k (k\<lparr>k_sp := a\<rparr>)"
| step_alarm: "in_user k \<Longrightarrow> \<not> cl_alarm_blocked (k_cl k) \<Longrightarrow> preempt_handler k = Inr k' \<Longrightarrow> kstep k k'"
| step_resume: "\<not> in_user k \<Longrightarrow> resume k = Inr (True, k') \<Longrightarrow> kstep k k'"

inductive reachable :: "(config \<Rightarrow> config) \<Rightarrow> addr \<Rightarrow> addr \<Rightarrow> kernel \<Rightarrow> bool" for pSetup bottom stk where
  reach_start: "plasma_main pSetup stk (kernel_init bottom) = Inr (True, k) \<Longrightarrow> reachable pSetup bottom stk k"
| reach_step: "reachable pSetup bottom stk k \<Longrightarrow> kstep k k' \<Longrightarrow> reachable pSetup bottom stk k'"

inductive_cases kstepE: "kstep k k'"

section \<open>Program start\<close>

lemma spawned_start:
  "start_thread p stk k = (k_ntid k, spawned p 0 (k_ntid k) 0 stk k)"
proof -
  obtain k2 where n: "new_thread k = (k_ntid k, k2)" by (simp add: new_thread_def Let_def)
  then have "th_priority (k_threads k2 (k_ntid k)) = 0"
    by (auto simp: new_thread_def Let_def thread_init_def)
  then have "upd_th (k_ntid k) (\<lambda>r. r\<lparr>th_priority := 0\<rparr>) (th_realize (k_ntid k) 0 (k_ntid k) stk k2)
      = th_realize (k_ntid k) 0 (k_ntid k) stk k2"
    using realize_sel(15) [of "k_ntid k" 0 "k_ntid k" stk k2 "k_ntid k"]
    by (cases "k_threads (th_realize (k_ntid k) 0 (k_ntid k) stk k2) (k_ntid k)")
      (simp add: upd_th_def fun_upd_idem)
  then show ?thesis by (simp add: start_thread_def n spawned_def)
qed

text \<open>The state before the start thread exists: one processor, no thread but the scheduler's.\<close>

lemma boot_core_but:
  assumes "setupInternal pSetup (kernel_init b) = Inr k1" and "proc_new None k1 = Inr (p, k2)"
  shows "core_but (cl_reset p k2) (\<lambda>_ _. []) [] p \<and> p < k_npid (cl_reset p k2) \<and> curproc (cl_reset p k2) = Some p
    \<and> k_ntid (cl_reset p k2) = 1 \<and> mainth (cl_reset p k2) = 0 \<and> parked (cl_reset p k2) = {#}
    \<and> k_cont (cl_reset p k2) 0 = CSched \<and> th_state (k_threads (cl_reset p k2) 0) = TRun
    \<and> 0 < k_numpri (cl_reset p k2) \<and> no_user (cl_reset p k2)"
proof -
  let ?k = "cl_reset p k2" and ?i = "kernel_init b"
  define n where "n = k_numpri k1"
  have k1: "k_threads k1 = k_threads ?i" "k_procs k1 = k_procs ?i" "k_qvects k1 = k_qvects ?i"
    "k_tlinks k1 = k_tlinks ?i" "k_plinks k1 = k_plinks ?i" "k_ntid k1 = 1" "k_npid k1 = 0" "k_nqv k1 = 0"
    "k_cont k1 = k_cont ?i" "sy_busy (k_sys k1) = []" "sy_delay (k_sys k1) = []"
    "cl_procs (k_cl k1) = queue_init" "mainth k1 = 0" "0 < n" "no_user k1"
    using assms(1)
    by (auto simp: setupInternal_def proc_init_static_def sys_init_def cl_init_def cl_nopreempt_def Let_def
        kernel_init_def sys_add_active_thread_def system_init_def cluster_init_def n_def no_user_def split: if_splits)
  have i: "k_threads ?i u = (if u = 0 then thread_init\<lparr>th_thread := Some b\<rparr> else thread_init)"
    "k_procs ?i q = proc_init None 0" "k_qvects ?i v = qvect_init 0" "k_tlinks ?i = empty_qheap"
    "k_plinks ?i = empty_qheap" "k_cont ?i 0 = CSched" for u q v
    by (simp_all add: kernel_init_def sys_add_active_thread_def system_init_def thread_init_def Let_def)
  have p: "p = 0" and k2: "k2 = k1\<lparr>k_qvects := (k_qvects k1)(0 := qvect_init n), k_nqv := 1,
      k_procs := (k_procs k1)(0 := proc_init None 0), k_npid := 1, k_plinks := qbase_init 0 (k_plinks k1)\<rparr>"
    using assms(2) k1 by (auto simp: proc_new_def proc_numPriorities_def n_def Let_def)
  have sel: "k_threads ?k = k_threads ?i" "k_procs ?k q = (proc_init None 0)\<lparr>pr_state := if q = 0 then PRunning else PWaiting\<rparr>"
    "k_qvects ?k v = (if v = 0 then qvect_init n else qvect_init 0)" "k_tlinks ?k = empty_qheap"
    "k_ntid ?k = 1" "k_npid ?k = 1" "k_nqv ?k = 1" "k_numpri ?k = n" "k_cont ?k = k_cont ?i"
    "sy_busy (k_sys ?k) = []" "sy_delay (k_sys ?k) = []" "cl_procs (k_cl ?k) = queue_init" "mainth ?k = 0"
    "curproc ?k = Some 0" "unlinked (k_plinks ?k) q" for q v
    by (simp_all add: cl_reset_def proc_setState_def cl_setCurproc_def resetalarm_def k2 k1 i p proc_init_def
        unlinked_def empty_qheap_def qbase_init_def n_def [symmetric])
  have "ready_rep {} ?k (\<lambda>_ _. [])"
    by (rule rep_empty) (auto simp: sel i thread_init_def unlinked_def empty_qheap_def)
  moreover have "threads_ok ?k" using k1(14) by (simp add: threads_ok_def sel i thread_init_def)
  moreover have "members_ok ?k (\<lambda>_ _. [])" by (simp add: members_ok_def)
  moreover have "procs_wf ?k" by (simp add: procs_wf_def sel proc_init_def qvect_init_def)
  moreover have "procq_ok ?k []" by (simp add: procq_ok_def sel proc_init_def)
  moreover have "covered_but ?k (\<lambda>_ _. []) [] p" unfolding covered_but_def sel some_ready_def using p by simp
  ultimately have "core_but ?k (\<lambda>_ _. []) [] p" by (simp add: core_but_def sel)
  moreover have "no_user ?k" using k1(13,15) by (simp add: no_user_def k2 cl_reset_def cl_setCurproc_def resetalarm_def proc_setState_def)
  ultimately show ?thesis unfolding sel parked_def using k1(14) p by (simp add: i thread_init_def)
qed

lemma boot_sched:
  assumes "boot pSetup stk (kernel_init b) = Inr k"
  shows "\<exists>R P p. sched_at k R P \<and> curproc k = Some p \<and> (\<forall>i. set (R (pr_ready (k_procs k p)) i) \<subseteq> {1}) \<and>
    some_ready R (pr_ready (k_procs k p)) \<and> k_cont k 1 = CUser \<and> mainth k = 0"
proof -
  obtain k1 p k2 where b: "setupInternal pSetup (kernel_init b) = Inr k1" "proc_new None k1 = Inr (p, k2)"
    "proc_add_ready p (k_ntid (cl_reset p k2)) (spawned p 0 (k_ntid (cl_reset p k2)) 0 stk (cl_reset p k2)) = Inr k"
    using assms by (auto simp: boot_def Let_def spawned_start)
  let ?k = "cl_reset p k2"
  note c = boot_core_but [OF b(1,2)]
  let ?s = "spawned p 0 1 0 stk ?k"
  have cb: "core_but ?s (\<lambda>_ _. []) [] p" by (rule core_but_spawned) (use c in auto)
  obtain k' R' where k': "proc_add_ready p 1 ?s = Inr k'" "core k' R' []"
    "k_threads k' = (k_threads ?s)(1 := (k_threads ?s 1)\<lparr>th_state := TReady\<rparr>)" "ready_frame ?s k'"
    "R' = (\<lambda>_ _. [])(pr_ready (k_procs ?s p) := (\<lambda>_. [])(0 := [1]))"
    by (rule core_but_ready [OF cb, of 1]) (use c in \<open>auto simp: spawned_sel\<close>)
  have e: "k' = k" using b(3) c k'(1) by simp
  note rf = ready_frameD [OF k'(4) [unfolded e]]
  have "parked k = parked ?k" by (simp add: parked_def rf spawned_sel)
  then have pk: "parked k = {#}" using c by simp
  have "sched_at k R' []" using k'(2,3) c
    by (auto simp: sched_at_def no_user_def parked_ok_def pk conts_ok_def rf spawned_sel e less_Suc_eq)
  moreover have "curproc k = Some p" using c by (simp add: rf spawned_sel)
  moreover have "\<forall>i. set (R' (pr_ready (k_procs k p)) i) \<subseteq> {1}" by (auto simp: k'(5) rf)
  moreover have "some_ready R' (pr_ready (k_procs k p))"
    by (rule some_readyI [of 1 _ _ 0]) (simp add: k'(5) rf)
  moreover have "k_cont k 1 = CUser" "mainth k = 0" using c by (simp_all add: rf spawned_sel)
  ultimately show ?thesis by blast
qed

lemma boot_ok:
  assumes "1 \<le> cp_numpriorities (pSetup config_init)" and "StackMin \<le> cp_stacksize (pSetup config_init)"
  shows "\<exists>k. boot pSetup stk (kernel_init b) = Inr k \<and> \<not> sy_wantshutdown (k_sys k)"
proof -
  obtain k1 where k1: "setupInternal pSetup (kernel_init b) = Inr k1" "k_numpri k1 \<noteq> 0" "\<not> sy_wantshutdown (k_sys k1)"
    using assms by (auto simp: setupInternal_def proc_init_static_def sys_init_def cl_init_def cl_nopreempt_def
        Let_def kernel_init_def sys_add_active_thread_def system_init_def)
  obtain p k2 where k2: "proc_new None k1 = Inr (p, k2)" "k_sys k2 = k_sys k1"
    using k1(2) by (auto simp: proc_new_def proc_numPriorities_def Let_def)
  note c = boot_core_but [OF k1(1) k2(1)]
  let ?s = "spawned p 0 1 0 stk (cl_reset p k2)"
  have cb: "core_but ?s (\<lambda>_ _. []) [] p" by (rule core_but_spawned) (use c in auto)
  obtain k' where k': "proc_add_ready p 1 ?s = Inr k'" "ready_frame ?s k'"
    by (rule core_but_ready [OF cb, of 1]) (use c in \<open>auto simp: spawned_sel\<close>)
  have "sy_wantshutdown (k_sys ?s) = sy_wantshutdown (k_sys k1)"
    by (simp add: spawned_def th_setProc_def th_realize_def sys_newstack_def sys_add_active_thread_def new_thread_def
        cl_reset_def resetalarm_def proc_setState_def cl_setCurproc_def k2(2) Let_def split: option.splits)
  then have "\<not> sy_wantshutdown (k_sys k')" using ready_frameD(3) [OF k'(2)] k1(3) by simp
  moreover have "boot pSetup stk (kernel_init b) = Inr k'"
    using k1(1) k2(1) k'(1) c by (simp add: boot_def spawned_start)
  ultimately show ?thesis by blast
qed

lemma unlock_sched: "sched_at k R P \<Longrightarrow> sched_at (cl_unlock k) R P"
  by (auto simp: sched_at_def no_user_def conts_ok_def parked_ok_def intro: core_same)

lemma start_running:
  assumes "plasma_main pSetup stk (kernel_init b) = Inr (True, k)"
  shows "\<exists>R P. running k R P"
proof -
  obtain k0 where k0: "boot pSetup stk (kernel_init b) = Inr k0" "sched_body (cl_unlock k0) = Inr (True, k)"
    using assms by (auto simp: plasma_main_def cl_scheduler_def)
  obtain R P p where "sched_at k0 R P" and p: "curproc k0 = Some p" using boot_sched [OF k0(1)] by blast
  then have s: "sched_at (cl_unlock k0) R P" "curproc (cl_unlock k0) = Some p" by (simp_all add: unlock_sched)
  show ?thesis using sched_body_ok [OF s] k0(2) by auto
qed

section \<open>The invariant of reachable states\<close>

text \<open>The threads whose sleep a call may begin or end.\<close>

definition touched :: "ucall \<Rightarrow> kernel \<Rightarrow> tid set" where
  "touched u k = (case u of UWake t \<Rightarrow> {t} | UAddReady t \<Rightarrow> {t} | USleep \<Rightarrow> set_option (cur k) | _ \<Rightarrow> {})"

lemma calm_upd_cl:
  assumes "\<And>c. cl_cur (f c) = cl_cur c" and "\<And>c. cl_main (f c) = cl_main c"
  shows "calm {} k (upd_cl f k)"
  by (rule calm_cong) (simp_all add: assms parked_def)

lemma call_running:
  assumes r: "running k R P" and u: "in_user k" and ok: "call_ok k call"
  shows "\<exists>k' R' P'. do_call call k = Inr k' \<and> running k' R' P' \<and> calm (touched call k) k k'"
proof -
  obtain c where c: "cur k = Some c" "c \<noteq> mainth k" using u by (auto simp: in_user_def)
  obtain p where up: "user_run k R P c p" using running_user [OF r c] by blast
  have cp: "p < k_npid k" using up coreD(5) by (auto simp: user_run_def runs_at_def procq_ok_def core_def)
  show ?thesis
  proof (cases call)
    case UYield
    then show ?thesis using yield_ok [OF up] by (simp add: do_call_def touched_def)
  next
    case USleep
    then show ?thesis using sleep_ok [OF up] c by (auto simp: do_call_def touched_def)
  next
    case (UDelay t)
    then show ?thesis using delay_ok [OF up] by (simp add: do_call_def touched_def)
  next
    case (UWait t)
    then show ?thesis using wait_ok [OF up] ok by (simp add: do_call_def call_ok_def touched_def)
  next
    case (UWake t)
    then show ?thesis using wake_ok [OF up, of t] ok c user_running by (fastforce simp: do_call_def call_ok_def sleeping_def touched_def)
  next
    case UTerminate
    then show ?thesis using terminate_ok [OF up] by (simp add: do_call_def touched_def)
  next
    case (USpawn f a pr stk)
    then show ?thesis using spawn_ok(2) [OF up cp, of pr f a stk] ok by (fastforce simp: do_call_def call_ok_def touched_def)
  next
    case (USpawnOn q f a pr stk)
    then show ?thesis using spawn_ok(1) [OF up, of q pr f a stk] ok by (fastforce simp: do_call_def call_ok_def touched_def)
  next
    case (UNewProc n)
    then show ?thesis using new_proc_ok [OF up, of n] user_running by (fastforce simp: do_call_def touched_def)
  next
    case (UAddReady t)
    then show ?thesis using add_ready_ok [OF up, of t] ok user_running by (fastforce simp: do_call_def call_ok_def touched_def)
  next
    case ULock
    then show ?thesis using user_running [OF lock_user [OF up]] by (auto simp: do_call_def)
  next
    case UUnlock
    then show ?thesis using unlock_running [OF r] by (auto simp: do_call_def)
  qed
qed

lemma running_cl:
  assumes "running k R P" and "\<And>c. cl_procs (f c) = cl_procs c"
    and "\<And>c. cl_curproc (f c) = cl_curproc c" and "\<And>c. cl_cur (f c) = cl_cur c" and "\<And>c. cl_main (f c) = cl_main c"
  shows "running (upd_cl f k) R P"
  by (rule running_same [OF assms(1)]) (simp_all add: assms(2-5) same_core_def parked_def)

lemma preempt_running:
  assumes r: "running k R P" and u: "in_user k"
  shows "\<exists>k' R' P'. preempt_handler k = Inr k' \<and> running k' R' P' \<and> calm {} k k'"
proof -
  obtain c where c: "cur k = Some c" "c \<noteq> mainth k" using u by (auto simp: in_user_def)
  let ?k = "resetalarm (upd_cl (\<lambda>c. c\<lparr>cl_alarm_blocked := True\<rparr>) k)"
  have r1: "running ?k R P" 
    unfolding resetalarm_def by (rule running_cl [OF running_cl [OF r]]) simp_all
  have cm: "calm {} k ?k" unfolding resetalarm_def
    using calm_trans [OF calm_upd_cl calm_upd_cl] by simp
  have c1: "cur ?k = Some c" "mainth ?k = mainth k" using c by (simp_all add: resetalarm_def)
  obtain ok where ok: "cl_ts_okay ?k = Inr ok" using c1 by (cases "cl_locked ?k") (auto simp: cl_ts_okay_def)
  show ?thesis
  proof (cases ok)
    case True
    let ?l = "cl_preempt (cl_lock ?k)"
    have "running (cl_lock ?k) R P" by (rule running_same [OF r1]) simp_all
    then have "running ?l R P"
      unfolding cl_preempt_def by (simp add: running_cl)
    moreover have "cur ?l = Some c" "c \<noteq> mainth ?l" using c1 c by (auto simp: cl_preempt_def)
    ultimately obtain p where "user_run ?l R P c p" using running_user by blast
    moreover have "calm {} k ?l"
    proof -
      have "calm {} (cl_lock ?k) ?l" unfolding cl_preempt_def by (simp add: calm_upd_cl del: calm_lock(1))
      then show ?thesis using calm_trans [OF cm] by simp
    qed
    ultimately show ?thesis using yield_ok [of ?l R P c p CPreempt] ok True calm_trans [of "{}" k ?l "{}"]
      by (fastforce simp: preempt_handler_def)
  next
    case False
    have "running (upd_cl (\<lambda>c. c\<lparr>cl_alarm_blocked := False\<rparr>) ?k) R P" by (rule running_cl [OF r1]) simp_all
    then show ?thesis using ok False calm_trans [OF cm calm_upd_cl] by (fastforce simp: preempt_handler_def)
  qed
qed

lemma resume_running:
  assumes r: "running k R P"
  shows "\<exists>b k'. resume k = Inr (b, k') \<and> (b \<longrightarrow> (\<exists>R' P'. running k' R' P') \<and> calm {} k k')"
proof -
  obtain t p where t: "runs_at k R P t p" "t \<noteq> mainth k \<longrightarrow> mainth k \<in> set (R (pr_ready (k_procs k p)) 0)"
    using r by (auto simp: running_def)
  note t' = t(1) [unfolded runs_at_def]
  show ?thesis
  proof (cases "t = mainth k")
    case True
    have "sched_at k R P" using t' True by (simp add: sched_at_def no_user_def)
    then show ?thesis using sched_body_ok [of k R P p] t' True by (simp add: resume_def conts_ok_def)
  next
    case False
    then have u: "user_run k R P t p" using t by (simp add: user_run_def)
    consider "k_cont k t = CUser" | "k_cont k t = CPreempt" using t' False by (auto simp: conts_ok_def)
    then show ?thesis
    proof cases
      case 1
      then show ?thesis using r t' by (auto simp: resume_def)
    next
      case 2
      let ?k = "set_cont t CUser k"
      have "core ?k R P" by (rule core_same [of k]) (use t' in \<open>simp_all add: same_core_def\<close>)
      moreover have "parked ?k = parked k" by (simp add: parked_def)
      ultimately have "running ?k R P" using t False t' unfolding running_def
        by (intro exI [of _ t] exI [of _ p]) (auto simp: runs_at_def parked_ok_def conts_ok_def)
      then have "running (preempt_return ?k) R P" unfolding preempt_return_def cl_nopreempt_def
        by (rule running_cl [OF running_cl]) simp_all
      moreover have "calm {} k (preempt_return ?k)" unfolding preempt_return_def cl_nopreempt_def
        by (rule calm_cong) (simp_all add: parked_def)
      ultimately show ?thesis using 2 t' by (auto simp: resume_def)
    qed
  qed
qed

lemma kstep_running: "kstep k k' \<Longrightarrow> running k R P \<Longrightarrow> \<exists>R' P'. running k' R' P'"
proof (erule kstepE)
  fix a
  assume "running k R P" "k' = k\<lparr>k_sp := a\<rparr>"
  then show ?thesis using running_same [of k R P k'] by (auto simp: same_core_def parked_def)
qed (use call_running preempt_running resume_running in fastforce)+

lemma reachable_running: "reachable pSetup bottom stk k \<Longrightarrow> \<exists>R P. running k R P"
  by (induction rule: reachable.induct) (auto dest: start_running kstep_running)

section \<open>Without preemption\<close>

lemma call_off: "do_call u k = Inr k' \<Longrightarrow> alarm_off k \<Longrightarrow> alarm_off k'"
  by (cases u) (auto simp: do_call_def dest: call_off_defs)

lemma resume_off:
  assumes "running k R P" and "resume k = Inr (b, k')" and "alarm_off k"
  shows "alarm_off k'"
proof -
  obtain t where t: "cur k = Some t" "k_cont k t = CSched \<or> k_cont k t = CUser"
    using assms(1,3) by (auto simp: running_def runs_at_def conts_ok_def alarm_off_def)
  then show ?thesis using assms(2,3) sched_body_off [of k b k'] by (auto simp: resume_def Let_def)
qed

lemma start_off:
  assumes "no_preempt pSetup" and "plasma_main pSetup stk (kernel_init b) = Inr (r, k)"
  shows "alarm_off k"
proof -
  obtain k1 p k2 k0 where b: "setupInternal pSetup (kernel_init b) = Inr k1" "proc_new None k1 = Inr (p, k2)"
    "proc_add_ready p (k_ntid (cl_reset p k2)) (spawned p 0 (k_ntid (cl_reset p k2)) 0 stk (cl_reset p k2)) = Inr k0"
    "sched_body (cl_unlock k0) = Inr (r, k)"
    using assms(2) by (auto simp: plasma_main_def boot_def cl_scheduler_def Let_def spawned_start)
  have "alarm_off k1" using b(1) assms(1)
    by (auto simp: setupInternal_def proc_init_static_def sys_init_def cl_init_def cl_nopreempt_def no_preempt_def
        kernel_init_def sys_add_active_thread_def system_init_def alarm_off_def Let_def split: if_splits)
  then have "alarm_off k2" using call_off_defs(10) [of None k1 p k2] b(2) by (simp add: processor_new_def)
  then have r: "alarm_off (cl_reset p k2)" by (simp add: cl_reset_def)
  have "alarm_off (spawned p 0 (k_ntid (cl_reset p k2)) 0 stk (cl_reset p k2))"
    using r by (auto simp: alarm_off_def spawned_sel)
  then have "alarm_off (cl_unlock k0)" using b(3) by (auto dest: quiet)
  then show ?thesis using sched_body_off [OF b(4)] by blast
qed

lemma kstep_off: "kstep k k' \<Longrightarrow> running k R P \<Longrightarrow> alarm_off k \<Longrightarrow> alarm_off k'"
proof (erule kstepE)
  assume "alarm_off k" "\<not> cl_alarm_blocked (k_cl k)"
  then show ?thesis by (simp add: alarm_off_def)
qed (auto dest: call_off resume_off)

lemma reachable_off: "reachable pSetup bottom stk k \<Longrightarrow> no_preempt pSetup \<Longrightarrow> alarm_off k"
proof (induction rule: reachable.induct)
  case (reach_step k k')
  then show ?case using reachable_running kstep_off by blast
qed (rule start_off)

section \<open>Properties\<close>

text \<open>The message with which a bad configuration is refused.\<close>

definition config_message :: "config \<Rightarrow> string" where
  "config_message cp = (if cp_numpriorities cp < 1 then ''Number of priorities must be greater than 0.''
     else ''The stack must be a minimumx of 8000 bytes.'')"

lemma program_starts_aux:
  "if cp_numpriorities (pSetup config_init) < 1 \<or> cp_stacksize (pSetup config_init) < StackMin
   then plasma_main pSetup stk (kernel_init b) = pPanic (config_message (pSetup config_init))
   else (\<exists>k. plasma_main pSetup stk (kernel_init b) = Inr (True, k) \<and> cur k = Some 1 \<and> in_user k \<and> \<not> cl_locked k)"
proof (cases "cp_numpriorities (pSetup config_init) < 1 \<or> cp_stacksize (pSetup config_init) < StackMin")
  case True
  then have "setupInternal pSetup (kernel_init b) = pPanic (config_message (pSetup config_init))"
    by (auto simp: setupInternal_def proc_init_static_def sys_init_def config_message_def Let_def)
  then show ?thesis using True by (auto simp: plasma_main_def boot_def)
next
  case False
  obtain k0 where k0: "boot pSetup stk (kernel_init b) = Inr k0" "\<not> sy_wantshutdown (k_sys k0)"
    using boot_ok [of pSetup stk b] False by fastforce
  obtain R P p where "sched_at k0 R P" and p: "curproc k0 = Some p" and only: "\<forall>i. set (R (pr_ready (k_procs k0 p)) i) \<subseteq> {1}"
    and ne: "some_ready R (pr_ready (k_procs k0 p))" and ct: "k_cont k0 1 = CUser" "mainth k0 = 0" using boot_sched [OF k0(1)] by blast
  then have s: "sched_at (cl_unlock k0) R P" by (simp add: unlock_sched)
  obtain t k1 k' R' P' where g: "cl_get_ready (cl_unlock k0) = Inr (Some t, k1)"
    "exec_ready_to t (mainth k1) CSched (th_setProc (mainth k1) (curproc k1) k1) = Inr k'" "cur k' = Some t"
    "\<exists>i. t \<in> set (R (pr_ready (k_procs k0 p)) i)" "\<not> cl_locked k'"
    "k_cont k' = (k_cont k0)(mainth k0 := CSched)" "mainth k' = mainth k0"
    using sched_switch [OF s, of p] p ne by auto
  have "\<not> proc_empty (cl_unlock k0) p" using proc_empty_core [of "cl_unlock k0" R P p] s ne by (simp add: sched_at_def)
  then have "cl_update_proc (cl_unlock k0) = Inr (True, cl_unlock k0)" using p by (simp add: cl_update_proc_def)
  then have "plasma_main pSetup stk (kernel_init b) = Inr (True, k')"
    using k0 g(1,2) by (simp add: plasma_main_def cl_scheduler_def sched_body_def)
  moreover have "t = 1" using g(4) only by blast
  ultimately show ?thesis using False g(3,5-7) ct by (auto simp: in_user_def)
qed

text \<open>
  C8. Program start: with at least one priority and a stack of the minimum size, the program starts
  and the first thread to run is the start thread, with the cluster unlocked; with a bad
  configuration the process is aborted with the message of the check that failed.
\<close>

theorem program_starts:
  "let cp = pSetup config_init in
   if cp_numpriorities cp < 1 \<or> cp_stacksize cp < StackMin
   then plasma_main pSetup stk (kernel_init b) = Inl (Panic (config_message cp))
   else (\<exists>k. plasma_main pSetup stk (kernel_init b) = Inr (True, k) \<and> cur k = Some 1 \<and> in_user k \<and> \<not> cl_locked k)"
  unfolding Let_def pPanic_def [symmetric] by (rule program_starts_aux)



text \<open>A concrete start: the default configuration without preemption.\<close>

abbreviation plain_setup :: "config \<Rightarrow> config" where
  "plain_setup c \<equiv> c\<lparr>cp_preempt := False\<rparr>"

lemma plain_start: "\<exists>k. reachable plain_setup 64 4096 k \<and> in_user k \<and> no_preempt plain_setup"
proof -
  have "\<not> (cp_numpriorities (plain_setup config_init) < 1 \<or> cp_stacksize (plain_setup config_init) < StackMin)" by (simp add: config_init_def)
  then show ?thesis using program_starts_aux [of plain_setup 4096 64] reach_start [of plain_setup 4096 64] by (auto simp: no_preempt_def)
qed


text \<open>A thread spawned on a new processor: the processor is not the current one, and it is queued.\<close>

lemma spawn_on_effect:
  assumes "pSpawn_on q f a pr stk k = Inr (Some t, k')" and "pr < 0" and "cur k = Some c" and "c \<noteq> k_ntid k"
  shows "th_state (k_threads k' t) = TReady \<and> th_proc (k_threads k' t) = Some q \<and> curproc k' = curproc k"
proof -
  obtain k1 where k1: "cl_add_proc (Some q) k = Inr k1" "spawn_on q f a pr stk k1 = Inr (Some t, k')"
    using assms(1) by (auto simp: pSpawn_on_def)
  have f: "cur k1 = Some c" "curproc k1 = curproc k" "k_ntid k1 = k_ntid k"
    using add_proc_run_frame [OF k1(1)] assms(3) by (simp_all add: run_frame_def)
  have i: "create_priority pr k1 = Inr (th_priority (k_threads k1 c))" using assms(2) f by (simp add: create_priority_def)
  have "proc_create q f a pr stk k1 = Inr (t, k')" using k1(2) assms(2) by (auto simp: spawn_on_def spawn_priority_def)
  then obtain k2 where k2: "proc_add_ready q t (spawned q f a (th_priority (k_threads k1 c)) stk (cl_lock k1)) = Inr k2"
    "k' = cl_unlock k2" "t = k_ntid k1"
    using proc_create_eq [OF i, of q f a stk] assms(4) f by auto
  note rf = ready_frameD [OF add_ready_frame [OF k2(1)]]
  have "th_state (k_threads k2 t) = TReady" using k2(1,3)
    by (auto simp: proc_add_ready_def spawned_sel th_setState_def put_queue_def Let_def split: prod.splits)
  then show ?thesis using k2(2,3) f by (simp add: rf spawned_sel)
qed


end
