(* ===== verification/Call_Effects.thy ===== *)
theory Call_Effects
  imports Kernel_Steps
begin

text \<open>
  What single calls do in detail, including behaviour a caller may not expect: changing a thread's
  priority, killing another thread, and waking a busy processor.
\<close>

section \<open>Changing the priority\<close>

text \<open>
  Raising the own priority takes effect at once, without a switch, and leaves the cluster locked:
  from then on the thread is not preempted until some other kernel call unlocks the cluster.
\<close>

theorem raise_priority_locks:
  assumes "cur k = Some c" and "th_priority (k_threads k c) < q"
  shows "\<exists>k'. cl_set_priority q k = Inr k' \<and> cur k' = Some c \<and> th_priority (k_threads k' c) = q \<and>
    cl_locked k' \<and> cl_ts_okay k' = Inr False"
  using assms by (auto simp: cl_set_priority_def cl_ts_okay_def cl_locked_def Let_def)

theorem raise_priority_locks_witness:
  "\<exists>k'. cl_set_priority 5 (cl_unlock (cl_setCur (Some 1) (kernel_init 64))) = Inr k' \<and> cl_locked k'"
  using raise_priority_locks [of "cl_unlock (cl_setCur (Some 1) (kernel_init 64))" 1 5]
  by (auto simp: boot_defs Let_def)

text \<open>
  Lowering (or keeping) the own priority while no other ready thread of the processor has the new
  priority or a higher one: the thread puts itself into the ready queue, is chosen, and is
  switched to; the stack pointer loaded is the one saved when the thread last gave up the
  processor (for a new thread, its start frame), not the current one.
\<close>

theorem lower_priority_self_switch:
  assumes rep: "ready_rep {} k R" and c: "cur k = Some c" "th_state (k_threads k c) = TRun"
    and p: "curproc k = Some p" "v = pr_ready (k_procs k p)"
    and q: "q \<le> th_priority (k_threads k c)" "q < nqueues k v" "\<forall>i\<ge>q. R v i = []"
    and sp: "th_thread (k_threads k c) = Some sp"
  shows "\<exists>k'. cl_set_priority q k = Inr k' \<and> cur k' = Some c \<and> k_sp k' = sp \<and>
    th_thread (k_threads k' c) = Some (k_sp k)"
proof -
  let ?k = "upd_th c (\<lambda>r. r\<lparr>th_priority := q\<rparr>) (cl_lock k)"
  have nc: "c \<notin> set (R w j)" for w j using rep_member [OF rep, of c w j] c(2) by auto
  have rep1: "ready_rep {} ?k R"
  proof (rule ready_repI)
    show "th_state (k_threads ?k t) = TReady \<and> th_priority (k_threads ?k t) = i" if "t \<in> set (R w i)" for w i t
      using rep_member [OF rep that] nc [of w i] that by auto
    show "\<exists>w. t \<in> set (R w (th_priority (k_threads ?k t)))" if "th_state (k_threads ?k t) = TReady" for t
      using that rep_ready [OF rep, of t] c(2) by (auto split: if_splits)
    show "unlinked (k_tlinks ?k) t"
      if "th_state (k_threads ?k t) = TRun \<or> th_state (k_threads ?k t) = TBusy" "t \<notin> {}" for t
      using that rep_unlinked [OF rep, of t] by (simp split: if_splits)
  qed (use rep_queue [OF rep] rep_range [OF rep] rep_once [OF rep] rep_count [OF rep] in auto)
  obtain k2 where k2: "proc_add_ready p c ?k = Inr k2" "ready_rep {} k2 (R(v := (R v)(q := R v q @ [c])))"
    "k_threads k2 = (k_threads ?k)(c := (k_threads ?k c)\<lparr>th_state := TReady\<rparr>)" "ready_frame ?k k2"
    by (rule add_ready_spec [OF rep1, of c v p q]) (use c p q in auto)
  note f = ready_frameD [OF k2(4)]
  let ?Q = "(R v)(q := R v q @ [c])"
  have v2: "v = pr_ready (k_procs k2 p)" "nqueues k2 v = nqueues k v" using p by (simp_all add: f)
  have pk: "pick n ?Q = Some (c, (R v)(q := []))" if "q < n" for n
    using that q(3) by (induction n) (auto simp: less_Suc_eq)
  obtain k3 where k3: "proc_get_ready p k2 = (Some c, k3)"
    "k_threads k3 = (k_threads k2)(c := (k_threads k2 c)\<lparr>th_state := TRun\<rparr>)"
    using get_ready_spec [OF k2(2) v2(1)] pk [of "nqueues k v"] q(2) v2(2) by auto
  note f3 = ready_frameD [OF get_ready_frame [OF k3(1)]]
  have "k_cl k3 = k_cl (cl_lock k)" "k_sp k3 = k_sp k" by (simp_all add: f f3)
  then show ?thesis using c p q(1) sp k2(1,3) k3
    by (simp add: cl_set_priority_def exec_block_def cl_get_ready_def qt_block_def switch_block_def
        th_setStackEnd_def th_setProc_def th_save_def f Let_def)
qed

definition solo_demo :: kernel where
  "solo_demo = upd_th 1 (\<lambda>r. r\<lparr>th_priority := 2, th_thread := Some 4096\<rparr>)
     (cl_setCurproc (Some 0) (cl_setCur (Some 1) (snd (projr (proc_new None ((kernel_init 64)\<lparr>k_numpri := 3\<rparr>))))))"

theorem lower_priority_self_switch_witness:
  "\<exists>k'. cl_set_priority 1 solo_demo = Inr k' \<and> cur k' = Some 1 \<and> k_sp k' = 4096 \<and> k_sp solo_demo = 64"
proof -
  have rep: "ready_rep {} solo_demo (\<lambda>_ _. [])"
    by (rule rep_empty) (auto simp: solo_demo_def boot_defs unlinked_def empty_qheap_def qbase_init_def Let_def
        cl_setCurproc_def)
  have d: "cur solo_demo = Some 1" "th_state (k_threads solo_demo 1) = TRun" "curproc solo_demo = Some 0"
    "pr_ready (k_procs solo_demo 0) = 0" "th_priority (k_threads solo_demo 1) = 2" "nqueues solo_demo 0 = 3"
    "th_thread (k_threads solo_demo 1) = Some 4096" "k_sp solo_demo = 64"
    by (simp_all add: solo_demo_def boot_defs cl_setCurproc_def qvect_init_def Let_def)
  show ?thesis using lower_priority_self_switch [OF rep d(1,2,3) d(4) [symmetric], of 1 4096] d by auto
qed

section \<open>Killing another thread\<close>

text \<open>
  \<^verbatim>\<open>terminate(t)\<close> for another live thread: \<open>t\<close> is done and the cluster is unlocked.
  The threads that wait for \<open>t\<close> are neither woken nor taken from its list of waiters; since
  \<open>t\<close> never runs again, nothing in the kernel wakes them later.
\<close>

theorem kill_keeps_waiters:
  assumes "cl_terminate_thread (Some t) k = Inr k'" and "\<not> th_done (k_threads k t)" and "cur k \<noteq> Some t"
  shows "th_done (k_threads k' t) \<and> th_waiters (k_threads k' t) = th_waiters (k_threads k t) \<and>
    \<not> cl_locked k' \<and> (\<forall>w. w \<noteq> t \<longrightarrow> th_state (k_threads k w) = TRun \<longrightarrow> th_state (k_threads k' w) = TRun)"
proof -
  obtain p r k1 where g: "proc_get_ready_item p t (cl_lock k) = Inr (r, k1)" "k' = cl_unlock (th_destroy t k1)"
    using assms by (auto simp: cl_terminate_thread_def th_done_def Let_def)
  have s: "th_state (k_threads k w) = TRun \<Longrightarrow> th_state (k_threads k1 w) = TRun" for w
    using g(1) by (auto simp: proc_get_ready_item_def proc_return_thread_def put_queue_def th_setState_def Let_def
        split: option.splits)
  have w: "th_waiters (k_threads k1 t) = th_waiters (k_threads k t)"
    using ready_frameD(14) [OF get_ready_item_frame [OF g(1)]] by simp
  show ?thesis using s by (auto simp: g(2) destroy_sel th_done_def w cl_locked_def)
qed

definition kill_demo :: kernel where
  "kill_demo = upd_th 2 (\<lambda>r. r\<lparr>th_proc := Some 0, th_waiters := [3]\<rparr>)
     (cl_setCur (Some 1) (snd (projr (proc_new None ((kernel_init 64)\<lparr>k_numpri := 3\<rparr>)))))"

theorem kill_keeps_waiters_witness:
  "\<exists>k'. cl_terminate_thread (Some 2) kill_demo = Inr k' \<and> th_done (k_threads k' 2) \<and>
     th_waiters (k_threads k' 2) = [3]"
proof -
  have d: "\<not> th_done (k_threads kill_demo 2)" "cur kill_demo \<noteq> Some 2" "th_waiters (k_threads kill_demo 2) = [3]"
    by (simp_all add: kill_demo_def boot_defs th_done_def Let_def)
  have "\<exists>k'. cl_terminate_thread (Some 2) kill_demo = Inr k'"
    by (simp add: kill_demo_def boot_defs cl_terminate_thread_def th_done_def proc_get_ready_item_def
        qvect_init_def queue_init_def q_get_item_def Let_def)
  then show ?thesis using kill_keeps_waiters [of 2 kill_demo] d by auto
qed

section \<open>Waking a busy processor\<close>

text \<open>
  \<^verbatim>\<open>busywake\<close> releases the busy thread of a processor but leaves the processor in the queue of busy
  processors, where its end time now reads 0.  If it is the first there and no thread is
  delayed, the next advance of time sets the simulated time back to 0.
\<close>

theorem busywake_resets_time:
  assumes "cl_busywake t k = Inr k'" and "th_proc (k_threads k t) = Some p"
    and "sy_busy (k_sys k) = p # bs" and "sy_delay (k_sys k) = []"
  shows "pr_busythread (k_procs k' p) = None \<and> sy_busy (k_sys k') = p # bs \<and>
    sys_update_time k' = (True, set_time 0 k')"
proof -
  obtain k1 k2 where s: "proc_clearBusyThread p (upd_th t (\<lambda>r. r\<lparr>th_valid := True\<rparr>) (cl_lock k)) = Inr k1"
    "cl_add_proc (Some p) k1 = Inr k2" "k' = cl_unlock k2"
    using assms(1,2) by (auto simp: cl_busywake_def Let_def)
  have sy: "k_sys k' = k_sys k" using clearBusy_sys [OF s(1)] add_proc_sys [OF s(2)] s(3) by simp
  have "pr_busythread (k_procs k1 p) = None"
    using s(1) by (auto simp: proc_clearBusyThread_def split: option.splits)
  moreover have "pr_busythread (k_procs k2 p) = pr_busythread (k_procs k1 p)"
    using s(2) by (auto simp: cl_add_proc_def put_procs_def proc_setState_def Let_def split: if_splits)
  ultimately have b: "pr_busythread (k_procs k' p) = None" by (simp add: s(3))
  then have "proc_endtime k' p = 0" by (simp add: proc_endtime_def)
  then show ?thesis using b sy assms(3,4) by (simp add: sys_update_time_def)
qed

definition busy_demo :: kernel where
  "busy_demo = set_time 100 (projr (sys_add_busy 50 2 (upd_th 2 (\<lambda>r. r\<lparr>th_proc := Some 0\<rparr>)
     (snd (projr (proc_new None ((kernel_init 64)\<lparr>k_numpri := 3\<rparr>)))))))"

theorem busywake_resets_time_witness:
  "sy_time (k_sys busy_demo) = 100 \<and>
   (\<exists>k'. cl_busywake 2 busy_demo = Inr k' \<and> sys_update_time k' = (True, set_time 0 k'))"
proof -
  note defs = busy_demo_def boot_defs sys_add_busy_def set_times_def proc_setState_def proc_add_busy_def
    th_setState_def pq_push_def sift_up.simps Let_def
  have d: "th_proc (k_threads busy_demo 2) = Some 0" "sy_busy (k_sys busy_demo) = [0]"
    "sy_delay (k_sys busy_demo) = []" "sy_time (k_sys busy_demo) = 100"
    by (simp_all add: defs)
  have "\<exists>k'. cl_busywake 2 busy_demo = Inr k'"
    by (simp add: defs cl_busywake_def proc_clearBusyThread_def proc_add_ready_def qvect_init_def queue_init_def
        q_add_def empty_qheap_def qbase_init_def put_queue_def cl_add_proc_def cluster_init_def)
  then show ?thesis using busywake_resets_time [OF _ d(1,2,3)] d(4) by auto
qed

end
