(* ===== verification/Chan_Ops.thy ===== *)
theory Chan_Ops
  imports Interface_Ops
begin

text \<open>
  The unclocked channels (\<^verbatim>\<open>src/plasma.h\<close>, \<^verbatim>\<open>src/ChanSupport.h\<close>, \<^verbatim>\<open>src/ChanSupport.C\<close>): \<^verbatim>\<open>Channel\<close>,
  \<^verbatim>\<open>BusyChan\<close>, \<^verbatim>\<open>QueueChan\<close>, \<^verbatim>\<open>ResChan\<close> and \<^verbatim>\<open>Timeout\<close>, as operations on the channel and the kernel.

  A channel operation runs until it returns or its thread is switched away from inside a kernel
  call.  It is modelled in pieces: the first piece runs from the call, and for every place
  where the thread may sleep there is a piece that goes on after the wake-up.  A piece returns
  the value of the operation, or \<open>None\<close> when the thread went to sleep again.  A piece is not
  interrupted by the alarm.
\<close>

section \<open>Waiting producers\<close>

text \<open>\<^verbatim>\<open>MultiProducerChannel\<close>: a double-ended queue of threads.\<close>

type_synonym writers = "tid list"

definition set_writenotify :: "tid \<Rightarrow> writers \<Rightarrow> writers" where
  "set_writenotify t ws = ws @ [t]"

definition push_writer :: "tid \<Rightarrow> writers \<Rightarrow> writers" where
  "push_writer t ws = t # ws"

definition have_writers :: "writers \<Rightarrow> bool" where
  "have_writers ws \<longleftrightarrow> ws \<noteq> []"

fun next_writer :: "writers \<Rightarrow> (tid \<times> writers) res" where
  "next_writer [] = Inl OutOfRange"
| "next_writer (t # ws) = Inr (t, ws)"

definition release_writer :: "bool \<Rightarrow> writers \<Rightarrow> kernel \<Rightarrow> (writers \<times> kernel) res" where
  "release_writer go ws k =
     (if have_writers ws \<and> go
      then bindE (next_writer ws) (\<lambda>(t, ws). bindE (pAddReady t k) (\<lambda>k. Inr (ws, k)))
      else Inr (ws, k))"

section \<open>Waiting consumers\<close>

text \<open>
  \<^verbatim>\<open>SingleConsumerChannel\<close> and \<^verbatim>\<open>MultiConsumerChannel\<close>, the two base classes a channel can be
  instantiated with.  The iteration order of the hash set is not specified: \<open>bg\<close> gives the
  element \<^verbatim>\<open>begin()\<close> refers to.  Erasing at \<^verbatim>\<open>end()\<close> does nothing in this hash set.
\<close>

datatype consumers = SingleConsumer "tid option" | MultiConsumer "tid set"

primrec set_notify :: "tid \<Rightarrow> consumers \<Rightarrow> consumers res" where
  "set_notify t (SingleConsumer r) =
     bindE (assertE (r = None)) (\<lambda>_. Inr (SingleConsumer (Some t)))"
| "set_notify t (MultiConsumer cs) = Inr (MultiConsumer (insert t cs))"

primrec clear_notify :: "tid \<Rightarrow> consumers \<Rightarrow> consumers" where
  "clear_notify current (SingleConsumer r) = SingleConsumer None"
| "clear_notify current (MultiConsumer cs) = MultiConsumer (cs - {current})"

primrec have_reader :: "consumers \<Rightarrow> bool" where
  "have_reader (SingleConsumer r) \<longleftrightarrow> r \<noteq> None"
| "have_reader (MultiConsumer cs) \<longleftrightarrow> cs \<noteq> {}"

primrec notify_reader :: "(tid set \<Rightarrow> tid) \<Rightarrow> consumers \<Rightarrow> tid option \<times> consumers" where
  "notify_reader bg (SingleConsumer r) = (r, SingleConsumer None)"
| "notify_reader bg (MultiConsumer cs) = (Some (bg cs), MultiConsumer (cs - {bg cs}))"

primrec multiple_consumers_allowed :: "consumers \<Rightarrow> bool" where
  "multiple_consumers_allowed (SingleConsumer r) \<longleftrightarrow> False"
| "multiple_consumers_allowed (MultiConsumer cs) \<longleftrightarrow> True"

definition wake_reader ::
  "(tid set \<Rightarrow> tid) \<Rightarrow> (tid \<Rightarrow> kernel \<Rightarrow> kernel res) \<Rightarrow> consumers \<Rightarrow> kernel \<Rightarrow> (consumers \<times> kernel) res" where
  "wake_reader bg wake cs k =
     (if have_reader cs
      then let (t, cs) = notify_reader bg cs in
           bindE (derefE t) (\<lambda>t. bindE (wake t k) (\<lambda>k. Inr (cs, k)))
      else Inr (cs, k))"

text \<open>The running thread registers as reader and gives up the processor.\<close>

definition sleep_as_reader ::
  "(kernel \<Rightarrow> kernel res) \<Rightarrow> consumers \<Rightarrow> kernel \<Rightarrow> (consumers \<times> kernel) res" where
  "sleep_as_reader sleep cs k =
     bindE (derefE (pCurThread k)) (\<lambda>t.
     bindE (set_notify t cs) (\<lambda>cs.
     bindE (sleep k) (\<lambda>k. Inr (cs, k))))"

text \<open>The running thread registers as writer and sleeps.\<close>

definition sleep_as_writer :: "(tid \<Rightarrow> writers \<Rightarrow> writers) \<Rightarrow> writers \<Rightarrow> kernel \<Rightarrow> (writers \<times> kernel) res" where
  "sleep_as_writer register ws k =
     bindE (derefE (pCurThread k)) (\<lambda>t. bindE (pSleep k) (\<lambda>k. Inr (register t ws, k)))"

section \<open>Single-item channels\<close>

text \<open>
  \<^verbatim>\<open>SingleDataChannelBase\<close> with \<^verbatim>\<open>Channel\<close> and \<^verbatim>\<open>BusyChan\<close>.  \<open>ch_source\<close> is the address kept for
  connectivity tracking, \<open>ch_timeslice\<close> is used by \<^verbatim>\<open>BusyChan\<close> only.
\<close>

record 'd channel =
  ch_source :: nat
  ch_ready :: bool
  ch_writers :: writers
  ch_cons :: consumers
  ch_data :: 'd
  ch_timeslice :: ptime

definition channel_init :: "nat \<Rightarrow> consumers \<Rightarrow> 'd \<Rightarrow> ptime \<Rightarrow> 'd channel" where
  "channel_init self cs d ts = \<lparr>ch_source = self, ch_ready = False, ch_writers = [], ch_cons = cs,
     ch_data = d, ch_timeslice = ts\<rparr>"

text \<open>The copy constructor takes neither the writers nor the source address.\<close>

definition channel_copy :: "nat \<Rightarrow> 'd channel \<Rightarrow> 'd channel" where
  "channel_copy self c = c\<lparr>ch_source := self, ch_writers := []\<rparr>"

definition ch_full :: "'d channel \<Rightarrow> bool" where
  "ch_full c \<longleftrightarrow> ch_ready c"

definition ch_clear_ready :: "'d channel \<Rightarrow> kernel \<Rightarrow> 'd channel \<times> kernel" where
  "ch_clear_ready c k = (c\<lparr>ch_ready := False\<rparr>, pUnlock (pLock k))"

definition ch_set_source_channel :: "nat \<Rightarrow> 'd channel \<Rightarrow> 'd channel" where
  "ch_set_source_channel s c = c\<lparr>ch_source := s\<rparr>"

text \<open>The common tail of \<^verbatim>\<open>read_internal\<close>: take the data and let a writer go on.\<close>

definition ch_take :: "bool \<Rightarrow> 'd channel \<Rightarrow> kernel \<Rightarrow> ('d option \<times> 'd channel \<times> kernel) res" where
  "ch_take clearready c k =
     (let c = (if clearready then c\<lparr>ch_ready := False\<rparr> else c) in
      bindE (release_writer clearready (ch_writers c) k) (\<lambda>(ws, k).
      Inr (Some (ch_data c), c\<lparr>ch_writers := ws\<rparr>, k)))"

definition ch_read_loop :: "bool \<Rightarrow> 'd channel \<Rightarrow> kernel \<Rightarrow> ('d option \<times> 'd channel \<times> kernel) res" where
  "ch_read_loop clearready c k =
     (if ch_ready c then ch_take clearready c k
      else bindE (sleep_as_reader pSleep (ch_cons c) k) (\<lambda>(cs, k). Inr (None, c\<lparr>ch_cons := cs\<rparr>, k)))"

definition ch_read_internal :: "bool \<Rightarrow> 'd channel \<Rightarrow> kernel \<Rightarrow> ('d option \<times> 'd channel \<times> kernel) res" where
  "ch_read_internal clearready c k =
     bindE (release_writer clearready (ch_writers c) k) (\<lambda>(ws, k).
     ch_read_loop clearready (c\<lparr>ch_writers := ws\<rparr>) k)"

definition ch_read_resume :: "bool \<Rightarrow> 'd channel \<Rightarrow> kernel \<Rightarrow> ('d option \<times> 'd channel \<times> kernel) res" where
  "ch_read_resume clearready c k =
     bindE (derefE (pCurThread k)) (\<lambda>t.
     ch_read_loop clearready (c\<lparr>ch_cons := clear_notify t (ch_cons c)\<rparr>) k)"

text \<open>
  \<^verbatim>\<open>write\<close>: \<open>wake\<close> is \<^verbatim>\<open>pWake\<close> for \<^verbatim>\<open>Channel\<close> and \<^verbatim>\<open>pBusyWake\<close> for \<^verbatim>\<open>BusyChan\<close>.  \<^verbatim>\<open>True\<close> when the write is
  complete; after a sleep, the loop goes on.  \<open>ch_store\<close> is what follows the loop.
\<close>

definition ch_store ::
  "(tid set \<Rightarrow> tid) \<Rightarrow> (tid \<Rightarrow> kernel \<Rightarrow> kernel res) \<Rightarrow> 'd \<Rightarrow> 'd channel \<Rightarrow> kernel \<Rightarrow> (bool \<times> 'd channel \<times> kernel) res" where
  [simp]: "ch_store bg wake d c k =
     bindE (wake_reader bg wake (ch_cons c) k) (\<lambda>(cs, k).
     Inr (True, c\<lparr>ch_data := d, ch_ready := True, ch_cons := cs\<rparr>, k))"

definition ch_write_loop ::
  "(tid set \<Rightarrow> tid) \<Rightarrow> (tid \<Rightarrow> kernel \<Rightarrow> kernel res) \<Rightarrow> 'd \<Rightarrow> 'd channel \<Rightarrow> kernel \<Rightarrow> (bool \<times> 'd channel \<times> kernel) res" where
  "ch_write_loop bg wake d c k =
     (if ch_ready c
      then bindE (sleep_as_writer set_writenotify (ch_writers c) k) (\<lambda>(ws, k).
           Inr (False, c\<lparr>ch_writers := ws\<rparr>, k))
      else ch_store bg wake d c k)"

definition ch_write ::
  "(tid set \<Rightarrow> tid) \<Rightarrow> (tid \<Rightarrow> kernel \<Rightarrow> kernel res) \<Rightarrow> 'd \<Rightarrow> 'd channel \<Rightarrow> kernel \<Rightarrow> (bool \<times> 'd channel \<times> kernel) res" where
  "ch_write bg wake d c k =
     bindE (wake_reader bg wake (ch_cons c) k) (\<lambda>(cs, k).
     ch_write_loop bg wake d (c\<lparr>ch_cons := cs\<rparr>) k)"

text \<open>
  \<^verbatim>\<open>BusyChan\<close> reads without a loop and keeps its processor busy while it sleeps.  \<^verbatim>\<open>pBusySleep\<close> may
  also return without a switch; then the reader is still the current thread.
\<close>

definition busychan_read_internal :: "bool \<Rightarrow> 'd channel \<Rightarrow> kernel \<Rightarrow> ('d option \<times> 'd channel \<times> kernel) res" where
  "busychan_read_internal clearready c k =
     bindE (release_writer clearready (ch_writers c) k) (\<lambda>(ws, k).
     let c = c\<lparr>ch_writers := ws\<rparr>; current = pCurThread k in
     if ch_ready c then ch_take clearready c k
     else bindE (sleep_as_reader (pBusySleep (ch_timeslice c)) (ch_cons c) k) (\<lambda>(cs, k).
          let c = c\<lparr>ch_cons := cs\<rparr> in
          if pCurThread k = current then ch_take clearready c k else Inr (None, c, k)))"

definition busychan_read_resume :: "bool \<Rightarrow> 'd channel \<Rightarrow> kernel \<Rightarrow> ('d option \<times> 'd channel \<times> kernel) res" where
  "busychan_read_resume clearready c k = ch_take clearready c k"

definition busychan_write_loop ::
  "(tid set \<Rightarrow> tid) \<Rightarrow> 'd \<Rightarrow> 'd channel \<Rightarrow> kernel \<Rightarrow> (bool \<times> 'd channel \<times> kernel) res" where
  "busychan_write_loop bg = ch_write_loop bg pBusyWake"

definition busychan_write ::
  "(tid set \<Rightarrow> tid) \<Rightarrow> 'd \<Rightarrow> 'd channel \<Rightarrow> kernel \<Rightarrow> (bool \<times> 'd channel \<times> kernel) res" where
  "busychan_write bg = ch_write bg pBusyWake"

section \<open>Queued channels\<close>

text \<open>
  \<^verbatim>\<open>QueueChan\<close>: new data at the front of the list, the oldest at its back.  \<^verbatim>\<open>full\<close> compares unsigned
  32-bit numbers; a maximum of 0 means no bound.
\<close>

record 'd qchan =
  qc_maxsize :: u32
  qc_size :: u32
  qc_store :: "'d list"
  qc_writers :: writers
  qc_cons :: consumers
  qc_source :: nat

definition qchan_init :: "consumers \<Rightarrow> int \<Rightarrow> nat \<Rightarrow> 'd qchan" where
  "qchan_init cs sz src = \<lparr>qc_maxsize = word_of_int sz, qc_size = 0, qc_store = [], qc_writers = [],
     qc_cons = cs, qc_source = src\<rparr>"

definition qc_empty :: "'d qchan \<Rightarrow> bool" where
  "qc_empty c \<longleftrightarrow> qc_size c = 0"

definition qc_ready :: "'d qchan \<Rightarrow> bool" where
  "qc_ready c \<longleftrightarrow> \<not> qc_empty c"

definition qc_full :: "'d qchan \<Rightarrow> bool" where
  "qc_full c \<longleftrightarrow> qc_maxsize c \<noteq> 0 \<and> qc_size c \<ge> qc_maxsize c"

definition qc_setMaxSize :: "int \<Rightarrow> 'd qchan \<Rightarrow> 'd qchan" where
  "qc_setMaxSize ms c = c\<lparr>qc_maxsize := word_of_int ms\<rparr>"

definition qc_check_size :: "'d qchan \<Rightarrow> unit res" where
  "qc_check_size c = assertE (qc_maxsize c = 0 \<or> qc_size c \<le> qc_maxsize c)"

text \<open>\<^verbatim>\<open>back()\<close> and \<^verbatim>\<open>pop_back()\<close> of an empty list are undefined.\<close>

definition store_back :: "'d list \<Rightarrow> 'd res" where
  "store_back xs = (if xs = [] then Inl OutOfRange else Inr (last xs))"

definition store_pop_back :: "'d list \<Rightarrow> 'd list res" where
  "store_pop_back xs = (if xs = [] then Inl OutOfRange else Inr (butlast xs))"

definition qc_clear_ready :: "'d qchan \<Rightarrow> 'd qchan res" where
  "qc_clear_ready c =
     (if qc_size c \<noteq> 0
      then bindE (store_pop_back (qc_store c)) (\<lambda>st. Inr (c\<lparr>qc_size := qc_size c - 1, qc_store := st\<rparr>))
      else Inr c)"

definition qc_clear :: "'d qchan \<Rightarrow> 'd qchan" where
  "qc_clear c = c\<lparr>qc_store := [], qc_size := 0\<rparr>"

definition qc_take :: "bool \<Rightarrow> 'd qchan \<Rightarrow> kernel \<Rightarrow> ('d option \<times> 'd qchan \<times> kernel) res" where
  "qc_take clearready c k =
     bindE (store_back (qc_store c)) (\<lambda>temp.
     bindE (if clearready then qc_clear_ready c else Inr c) (\<lambda>c.
     bindE (release_writer clearready (qc_writers c) k) (\<lambda>(ws, k).
     Inr (Some temp, c\<lparr>qc_writers := ws\<rparr>, k))))"

definition qc_read_internal :: "bool \<Rightarrow> 'd qchan \<Rightarrow> kernel \<Rightarrow> ('d option \<times> 'd qchan \<times> kernel) res" where
  "qc_read_internal clearready c k =
     bindE (release_writer clearready (qc_writers c) k) (\<lambda>(ws, k).
     let c = c\<lparr>qc_writers := ws\<rparr> in
     if qc_ready c then qc_take clearready c k
     else bindE (sleep_as_reader pSleep (qc_cons c) k) (\<lambda>(cs, k). Inr (None, c\<lparr>qc_cons := cs\<rparr>, k)))"

definition qc_read_resume :: "bool \<Rightarrow> 'd qchan \<Rightarrow> kernel \<Rightarrow> ('d option \<times> 'd qchan \<times> kernel) res" where
  "qc_read_resume clearready c k = qc_take clearready c k"

definition qc_write_loop ::
  "(tid set \<Rightarrow> tid) \<Rightarrow> 'd \<Rightarrow> 'd qchan \<Rightarrow> kernel \<Rightarrow> (bool \<times> 'd qchan \<times> kernel) res" where
  "qc_write_loop bg d c k =
     (if qc_full c
      then bindE (sleep_as_writer set_writenotify (qc_writers c) k) (\<lambda>(ws, k).
           Inr (False, c\<lparr>qc_writers := ws\<rparr>, k))
      else let c = c\<lparr>qc_store := d # qc_store c, qc_size := qc_size c + 1\<rparr> in
           bindE (qc_check_size c) (\<lambda>_.
           bindE (wake_reader bg pWake (qc_cons c) k) (\<lambda>(cs, k).
           Inr (True, c\<lparr>qc_cons := cs\<rparr>, k))))"

definition qc_write ::
  "(tid set \<Rightarrow> tid) \<Rightarrow> 'd \<Rightarrow> 'd qchan \<Rightarrow> kernel \<Rightarrow> (bool \<times> 'd qchan \<times> kernel) res" where
  "qc_write bg d c k =
     bindE (wake_reader bg pWake (qc_cons c) k) (\<lambda>(cs, k).
     qc_write_loop bg d (c\<lparr>qc_cons := cs\<rparr>) k)"

section \<open>Result channels\<close>

text \<open>
  \<^verbatim>\<open>ResChan\<close>: read access to the result of a spawned thread \<open>rc_thread\<close>; the value is read through
  \<^verbatim>\<open>Result::value\<close>, which waits for the thread.
\<close>

record reschan =
  rc_thread :: tid
  rc_rt :: "tid option"
  rc_read :: bool

definition reschan_init :: "tid \<Rightarrow> reschan" where
  "reschan_init t = \<lparr>rc_thread = t, rc_rt = None, rc_read = False\<rparr>"

definition rc_ready :: "reschan \<Rightarrow> kernel \<Rightarrow> bool" where
  "rc_ready c k \<longleftrightarrow> pDone (rc_thread c) k \<and> \<not> rc_read c"

definition rc_get :: "reschan \<Rightarrow> kernel \<Rightarrow> (bool \<times> reschan \<times> kernel) res" where
  "rc_get c k =
     bindE (result_wait (Some (rc_thread c)) k) (\<lambda>(now, k). Inr (now, c\<lparr>rc_read := True\<rparr>, k))"

definition rc_clear_ready :: "reschan \<Rightarrow> reschan" where
  "rc_clear_ready c = c\<lparr>rc_read := False\<rparr>"

definition rc_set_notify :: "tid \<Rightarrow> reschan \<Rightarrow> kernel \<Rightarrow> (reschan \<times> kernel) res" where
  "rc_set_notify t c k =
     bindE (assertE (rc_rt c = None)) (\<lambda>_. Inr (c\<lparr>rc_rt := Some t\<rparr>, pAddWaiter (rc_thread c) t k))"

definition rc_clear_notify :: "reschan \<Rightarrow> kernel \<Rightarrow> tid option \<times> reschan \<times> kernel" where
  "rc_clear_notify c k =
     (rc_rt c, c\<lparr>rc_rt := None\<rparr>,
      (case rc_rt c of None \<Rightarrow> k | Some t \<Rightarrow> pClearWaiter (rc_thread c) t k))"

section \<open>Timeouts\<close>

text \<open>
  \<^verbatim>\<open>Timeout\<close>: a thread is started which delays and then sets the ready flag and wakes the reader.
  \<open>fn\<close> is the entry of the thread function \<^verbatim>\<open>timeout\<close>, \<open>self\<close> the address of the object, \<open>stk\<close> the
  stack the allocator returns for the new thread.
\<close>

record tmout =
  to_ready :: bool
  to_delay :: ptime
  to_readt :: "tid option"
  to_writet :: "tid option"

definition tmout_init :: "ptime \<Rightarrow> tmout" where
  "tmout_init d = \<lparr>to_ready = False, to_delay = d, to_readt = None, to_writet = None\<rparr>"

definition to_reset :: "tmout \<Rightarrow> tid option \<times> tmout" where
  "to_reset c = (to_readt c, c\<lparr>to_readt := None\<rparr>)"

definition to_clear_notify :: "tmout \<Rightarrow> kernel \<Rightarrow> (tid option \<times> tmout \<times> kernel) res" where
  "to_clear_notify c k =
     bindE (case to_writet c of
              None \<Rightarrow> Inr (c, k)
            | Some w \<Rightarrow> bindE (pTerminate_thread (Some w) k) (\<lambda>k. Inr (c\<lparr>to_writet := None\<rparr>, k))) (\<lambda>(c, k).
     let (t, c) = to_reset c in Inr (t, c, k))"

definition to_set_notify :: "nat \<Rightarrow> nat \<Rightarrow> addr \<Rightarrow> tid \<Rightarrow> tmout \<Rightarrow> kernel \<Rightarrow> (tmout \<times> kernel) res" where
  "to_set_notify fn self stk t c k =
     (let c = c\<lparr>to_ready := False, to_readt := Some t\<rparr> in
      bindE (assertE (to_writet c = None)) (\<lambda>_.
      bindE (pSpawn fn self 0 stk k) (\<lambda>(w, k). Inr (c\<lparr>to_writet := w\<rparr>, k))))"

definition to_get :: "nat \<Rightarrow> nat \<Rightarrow> addr \<Rightarrow> tmout \<Rightarrow> kernel \<Rightarrow> (tmout \<times> kernel) res" where
  "to_get fn self stk c k =
     (let k = pLock k in
      bindE (if \<not> to_ready c
             then bindE (derefE (pCurThread k)) (\<lambda>t.
                  bindE (to_set_notify fn self stk t c (pUnlock k)) (\<lambda>(c, k). Inr (c, pLock k)))
             else Inr (c, k)) (\<lambda>(c, k).
      Inr (c\<lparr>to_ready := False\<rparr>, pUnlock k)))"

text \<open>The thread function, up to its delay and after it.\<close>

definition timeout_start :: "tmout \<Rightarrow> kernel \<Rightarrow> kernel res" where
  "timeout_start c k = pDelay (to_delay c) k"

definition timeout_expire :: "tmout \<Rightarrow> kernel \<Rightarrow> (tmout \<times> kernel) res" where
  "timeout_expire c k =
     (let (t, c) = to_reset (c\<lparr>to_ready := True\<rparr>) in
      bindE (derefE t) (\<lambda>t. bindE (pWake t k) (\<lambda>k. Inr (c, k))))"

end
