(* ===== verification/Clock_Chan.thy ===== *)
theory Clock_Chan
  imports Chan_Ops
begin

text \<open>
  The clocked channels (\<^verbatim>\<open>ClockChanImpl\<close> and its two consumer classes in \<^verbatim>\<open>src/ChanSupport.C\<close>,
  \<^verbatim>\<open>ClockChan\<close> in \<^verbatim>\<open>src/plasma.h\<close>) and the broadcaster.  Data written to a clocked channel can be
  read at a later clock edge only; a helper thread wakes the reader at the edge.
\<close>

section \<open>The clock\<close>

record clock =
  ck_period :: ptime
  ck_skew :: ptime
  ck_maxsize :: u32
  ck_size :: u32
  ck_source :: nat

definition clock_init :: "nat \<Rightarrow> ptime \<Rightarrow> ptime \<Rightarrow> u32 \<Rightarrow> clock" where
  "clock_init self p s ms =
     \<lparr>ck_period = p, ck_skew = s, ck_maxsize = ms, ck_size = 0, ck_source = self\<rparr>"

definition clock_copy :: "nat \<Rightarrow> clock \<Rightarrow> clock" where
  "clock_copy self x = x\<lparr>ck_source := self\<rparr>"

definition is_phi :: "clock \<Rightarrow> kernel \<Rightarrow> bool" where
  "is_phi c k \<longleftrightarrow> (if ck_period c = 0 then True else pTime k mod ck_period c = ck_skew c)"

definition next_phi :: "clock \<Rightarrow> kernel \<Rightarrow> ptime res" where
  "next_phi c k =
     (if ck_period c = 0 then Inl DivZero
      else Inr (((pTime k + ck_period c) - ck_skew c) div ck_period c * ck_period c + ck_skew c))"

text \<open>\<^verbatim>\<open>period()\<close> returns an \<^verbatim>\<open>unsigned\<close>: the low 32 bits of the period.\<close>

definition ck_period32 :: "clock \<Rightarrow> u32" where
  "ck_period32 c = ucast (ck_period c)"

definition ck_empty :: "clock \<Rightarrow> bool" where
  "ck_empty c \<longleftrightarrow> ck_size c = 0"

definition ck_allowed_size :: "clock \<Rightarrow> u32" where
  "ck_allowed_size c = (if ck_maxsize c = 0 then 1 else ck_maxsize c)"

definition ck_full :: "clock \<Rightarrow> bool" where
  "ck_full c \<longleftrightarrow> ck_size c \<ge> ck_allowed_size c"

definition ck_interlocked :: "clock \<Rightarrow> bool" where
  "ck_interlocked c \<longleftrightarrow> ck_maxsize c = 0"

definition ck_check_size :: "clock \<Rightarrow> unit res" where
  "ck_check_size c = assertE (ck_maxsize c \<le> 0 \<or> ck_size c \<le> ck_maxsize c)"

section \<open>Waiting consumers\<close>

text \<open>
  \<^verbatim>\<open>SingleConsumerClockChannel\<close>: the reader, the waker thread and the delay handed to it, an \<^verbatim>\<open>int\<close>.
  \<^verbatim>\<open>MultiConsumerClockChannel\<close>: a map from reader to its waker; \<open>bg\<close> is \<^verbatim>\<open>begin()\<close> of that map.
\<close>

datatype clk_cons =
    ClkSingle (clk_waket: "tid option") (clk_delay: "32 word") (clk_readt: "tid option")
  | ClkMulti (clk_broadcast: bool) (clk_map: "tid \<rightharpoonup> tid option")

definition single_init :: clk_cons where
  "single_init = ClkSingle None 0 None"

primrec clk_have_reader :: "clk_cons \<Rightarrow> bool" where
  "clk_have_reader (ClkSingle w d r) \<longleftrightarrow> r \<noteq> None"
| "clk_have_reader (ClkMulti b m) \<longleftrightarrow> m \<noteq> Map.empty"

text \<open>The parameters of a started thread: function, argument address and stack.\<close>

record waker_env =
  we_fn :: nat
  we_self :: nat
  we_stk :: addr
  we_args :: "32 word \<Rightarrow> tid \<Rightarrow> byte list"

text \<open>The delay until the next edge, as the \<^verbatim>\<open>int\<close> it is stored in and as the argument of \<^verbatim>\<open>pDelay\<close>.\<close>

definition edge_delay :: "clock \<Rightarrow> kernel \<Rightarrow> 32 word res" where
  "edge_delay c k = bindE (next_phi c k) (\<lambda>n. Inr (ucast (n - pTime k)))"

definition delay_arg :: "32 word \<Rightarrow> ptime" where
  "delay_arg d = scast d"

primrec single_start_waker :: "waker_env \<Rightarrow> clock \<Rightarrow> clk_cons \<Rightarrow> kernel \<Rightarrow> (clk_cons \<times> kernel) res" where
  "single_start_waker e c (ClkSingle w d r) k =
     (if w = None
      then bindE (edge_delay c k) (\<lambda>d.
           bindE (pSpawn (we_fn e) (we_self e) 0 (we_stk e) k) (\<lambda>(w, k). Inr (ClkSingle w d r, k)))
      else Inr (ClkSingle w d r, k))"
| "single_start_waker e c (ClkMulti b m) k = Inr (ClkMulti b m, k)"

text \<open>\<open>t\<close> is the thread whose entry the iterator refers to.\<close>

definition multi_start_waker ::
  "waker_env \<Rightarrow> clock \<Rightarrow> tid \<Rightarrow> (tid \<rightharpoonup> tid option) \<Rightarrow> kernel \<Rightarrow> ((tid \<rightharpoonup> tid option) \<times> kernel) res" where
  "multi_start_waker e c t m k =
     (if m t = Some None
      then bindE (edge_delay c k) (\<lambda>d.
           let bytes = we_args e d t in
           bindE (pSpawn_args (we_fn e) (length bytes) bytes (- 1) (we_stk e) k) (\<lambda>(w, k).
           Inr (m(t \<mapsto> map_option fst w), k)))
      else Inr (m, k))"

definition single_set_notify ::
  "waker_env \<Rightarrow> clock \<Rightarrow> tid \<Rightarrow> tid option \<Rightarrow> 32 word \<Rightarrow> tid option \<Rightarrow> kernel \<Rightarrow> (clk_cons \<times> kernel) res" where
  "single_set_notify e c t w d r k =
     bindE (assertE (r = None)) (\<lambda>_.
     let s = ClkSingle w d (Some t) in
     if \<not> ck_empty c then single_start_waker e c s k else Inr (s, k))"

text \<open>Inserting a key that is in the map already leaves the map alone.\<close>

definition multi_set_notify ::
  "waker_env \<Rightarrow> clock \<Rightarrow> tid \<Rightarrow> bool \<Rightarrow> (tid \<rightharpoonup> tid option) \<Rightarrow> kernel \<Rightarrow> (clk_cons \<times> kernel) res" where
  "multi_set_notify e c t b m k =
     (let m = (if m t = None then m(t \<mapsto> None) else m) in
      bindE (if \<not> ck_empty c then multi_start_waker e c t m k else Inr (m, k)) (\<lambda>(m, k).
      Inr (ClkMulti b m, k)))"

primrec clk_set_notify :: "waker_env \<Rightarrow> clock \<Rightarrow> tid \<Rightarrow> clk_cons \<Rightarrow> kernel \<Rightarrow> (clk_cons \<times> kernel) res" where
  "clk_set_notify e c t (ClkSingle w d r) k = single_set_notify e c t w d r k"
| "clk_set_notify e c t (ClkMulti b m) k = multi_set_notify e c t b m k"

primrec single_cancel_waker :: "clk_cons \<Rightarrow> kernel \<Rightarrow> (clk_cons \<times> kernel) res" where
  "single_cancel_waker (ClkSingle w d r) k =
     (if w = None then Inr (ClkSingle w d r, k)
      else bindE (pTerminate_thread w k) (\<lambda>k. Inr (ClkSingle None d r, k)))"
| "single_cancel_waker (ClkMulti b m) k = Inr (ClkMulti b m, k)"

definition multi_cancel_waker ::
  "tid \<Rightarrow> (tid \<rightharpoonup> tid option) \<Rightarrow> kernel \<Rightarrow> ((tid \<rightharpoonup> tid option) \<times> kernel) res" where
  "multi_cancel_waker t m k =
     (case m t of
        Some (Some w) \<Rightarrow> bindE (pTerminate_thread (Some w) k) (\<lambda>k. Inr (m(t \<mapsto> None), k))
      | _ \<Rightarrow> Inr (m, k))"

definition single_clear_notify :: "tid option \<Rightarrow> 32 word \<Rightarrow> kernel \<Rightarrow> (clk_cons \<times> kernel) res" where
  "single_clear_notify w d k = single_cancel_waker (ClkSingle w d None) k"

definition multi_clear_notify :: "tid \<Rightarrow> bool \<Rightarrow> (tid \<rightharpoonup> tid option) \<Rightarrow> kernel \<Rightarrow> (clk_cons \<times> kernel) res" where
  "multi_clear_notify current b m k =
     bindE (multi_cancel_waker current m k) (\<lambda>(m, k). Inr (ClkMulti b (m(current := None)), k))"

primrec clk_clear_notify :: "tid \<Rightarrow> clk_cons \<Rightarrow> kernel \<Rightarrow> (clk_cons \<times> kernel) res" where
  "clk_clear_notify current (ClkSingle w d r) k = single_clear_notify w d k"
| "clk_clear_notify current (ClkMulti b m) k = multi_clear_notify current b m k"

text \<open>\<^verbatim>\<open>reset\<close>: the reader to wake, which is no longer registered.\<close>

primrec single_reset :: "clk_cons \<Rightarrow> tid option \<times> clk_cons" where
  "single_reset (ClkSingle w d r) = (r, ClkSingle None d None)"
| "single_reset (ClkMulti b m) = (None, ClkMulti b m)"

definition multi_reset :: "tid \<Rightarrow> (tid \<rightharpoonup> tid option) \<Rightarrow> tid \<times> (tid \<rightharpoonup> tid option)" where
  "multi_reset t m = (t, m(t := None))"

definition single_delayed_wakeup :: "waker_env \<Rightarrow> clock \<Rightarrow> bool \<Rightarrow> clk_cons \<Rightarrow> kernel \<Rightarrow> (clk_cons \<times> kernel) res" where
  "single_delayed_wakeup e c current_data s k =
     (if is_phi c k \<and> current_data \<or> ck_period32 c = 0
      then bindE (single_cancel_waker s k) (\<lambda>(s, k).
           let (t, s) = single_reset s in
           bindE (derefE t) (\<lambda>t. bindE (pWake t k) (\<lambda>k. Inr (s, k))))
      else single_start_waker e c s k)"

definition multi_delayed_wakeup ::
  "waker_env \<Rightarrow> (tid set \<Rightarrow> tid) \<Rightarrow> clock \<Rightarrow> bool \<Rightarrow> bool \<Rightarrow> (tid \<rightharpoonup> tid option) \<Rightarrow> kernel \<Rightarrow> (clk_cons \<times> kernel) res" where
  "multi_delayed_wakeup e bg c current_data b m k =
     (let t = bg (dom m) in
      if is_phi c k \<and> current_data \<or> ck_period32 c = 0
      then bindE (multi_cancel_waker t m k) (\<lambda>(m, k).
           let (t, m) = multi_reset t m in
           bindE (pWake t k) (\<lambda>k. Inr (ClkMulti b m, k)))
      else bindE (multi_start_waker e c t m k) (\<lambda>(m, k). Inr (ClkMulti b m, k)))"

primrec clk_delayed_wakeup ::
  "waker_env \<Rightarrow> (tid set \<Rightarrow> tid) \<Rightarrow> clock \<Rightarrow> bool \<Rightarrow> clk_cons \<Rightarrow> kernel \<Rightarrow> (clk_cons \<times> kernel) res" where
  "clk_delayed_wakeup e bg c current_data (ClkSingle w d r) k =
     single_delayed_wakeup e c current_data (ClkSingle w d r) k"
| "clk_delayed_wakeup e bg c current_data (ClkMulti b m) k = multi_delayed_wakeup e bg c current_data b m k"

text \<open>
  \<^verbatim>\<open>delayed_reader_wakeup\<close> up to the sleep.  After the wake-up the class with several consumers
  also clears its registration.
\<close>

definition clk_reader_sleep :: "waker_env \<Rightarrow> clock \<Rightarrow> clk_cons \<Rightarrow> kernel \<Rightarrow> (clk_cons \<times> kernel) res" where
  "clk_reader_sleep e c s k =
     bindE (derefE (pCurThread k)) (\<lambda>t.
     bindE (clk_set_notify e c t s k) (\<lambda>(s, k). bindE (pSleep k) (\<lambda>k. Inr (s, k))))"

definition clk_reader_awake :: "clk_cons \<Rightarrow> kernel \<Rightarrow> (clk_cons \<times> kernel) res" where
  "clk_reader_awake s k =
     (case s of
        ClkSingle w d r \<Rightarrow> Inr (s, k)
      | ClkMulti b m \<Rightarrow> bindE (derefE (pCurThread k)) (\<lambda>t. clk_clear_notify t s k))"

text \<open>
  The waker threads \<^verbatim>\<open>sc_delayed_waker\<close> and \<^verbatim>\<open>mc_delayed_waker\<close>: they delay, then wake the reader.  The
  first reads its delay from the channel, the second from its argument bytes.
\<close>

definition sc_waker_start :: "clk_cons \<Rightarrow> kernel \<Rightarrow> kernel res" where
  "sc_waker_start s k = pDelay (delay_arg (clk_delay s)) k"

definition mc_waker_start :: "32 word \<Rightarrow> kernel \<Rightarrow> kernel res" where
  "mc_waker_start d k = pDelay (delay_arg d) k"

definition sc_waker_expire :: "clk_cons \<Rightarrow> kernel \<Rightarrow> (clk_cons \<times> kernel) res" where
  "sc_waker_expire s k =
     (let (t, s) = single_reset s in
      bindE (derefE t) (\<lambda>t. bindE (pWake t k) (\<lambda>k. Inr (s, k))))"

definition mc_waker_expire :: "tid \<Rightarrow> (tid \<rightharpoonup> tid option) \<Rightarrow> kernel \<Rightarrow> ((tid \<rightharpoonup> tid option) \<times> kernel) res" where
  "mc_waker_expire t m k =
     (let (t, m) = multi_reset t m in bindE (pWake t k) (\<lambda>k. Inr (m, k)))"

section \<open>Clocked channels\<close>

record 'd clkchan =
  cc_clock :: clock
  cc_cons :: clk_cons
  cc_store :: "('d \<times> ptime) list"
  cc_writers :: writers

definition clkchan_init :: "nat \<Rightarrow> clk_cons \<Rightarrow> ptime \<Rightarrow> ptime \<Rightarrow> int \<Rightarrow> 'd clkchan" where
  "clkchan_init self s p skew sz = \<lparr>cc_clock = clock_init self p skew (word_of_int sz), cc_cons = s,
     cc_store = [], cc_writers = []\<rparr>"

abbreviation upd_clock :: "(clock \<Rightarrow> clock) \<Rightarrow> 'd clkchan \<Rightarrow> 'd clkchan" where
  "upd_clock f c \<equiv> c\<lparr>cc_clock := f (cc_clock c)\<rparr>"

definition cc_current_data :: "'d clkchan \<Rightarrow> kernel \<Rightarrow> bool res" where
  "cc_current_data c k =
     (if ck_empty (cc_clock c) then Inr False
      else if ck_period32 (cc_clock c) = 0 then Inr True
      else bindE (store_back (cc_store c)) (\<lambda>(d, t). Inr (t < pTime k)))"

definition cc_ready :: "'d clkchan \<Rightarrow> kernel \<Rightarrow> bool res" where
  "cc_ready c k = bindE (cc_current_data c k) (\<lambda>b. Inr (b \<and> is_phi (cc_clock c) k))"

definition cc_clear_ready :: "'d clkchan \<Rightarrow> 'd clkchan res" where
  "cc_clear_ready c =
     (if \<not> ck_empty (cc_clock c)
      then bindE (store_pop_back (cc_store c)) (\<lambda>st.
           Inr (upd_clock (\<lambda>q. q\<lparr>ck_size := ck_size q - 1\<rparr>) c\<lparr>cc_store := st\<rparr>))
      else Inr c)"

definition cc_clear :: "'d clkchan \<Rightarrow> kernel \<Rightarrow> ('d clkchan \<times> kernel) res" where
  "cc_clear c k =
     (let c = upd_clock (\<lambda>q. q\<lparr>ck_size := 0\<rparr>) c\<lparr>cc_store := []\<rparr> in
      bindE (release_writer True (cc_writers c) k) (\<lambda>(ws, k). Inr (c\<lparr>cc_writers := ws\<rparr>, k)))"

definition cc_take :: "bool \<Rightarrow> 'd clkchan \<Rightarrow> kernel \<Rightarrow> ('d option \<times> 'd clkchan \<times> kernel) res" where
  "cc_take clearready c k =
     bindE (store_back (cc_store c)) (\<lambda>(temp, _).
     bindE (if clearready then cc_clear_ready c else Inr c) (\<lambda>c.
     bindE (release_writer clearready (cc_writers c) k) (\<lambda>(ws, k).
     Inr (Some temp, c\<lparr>cc_writers := ws\<rparr>, k))))"

definition cc_read_loop ::
  "waker_env \<Rightarrow> bool \<Rightarrow> 'd clkchan \<Rightarrow> kernel \<Rightarrow> ('d option \<times> 'd clkchan \<times> kernel) res" where
  "cc_read_loop e clearready c k =
     bindE (cc_ready c k) (\<lambda>b.
     if b then cc_take clearready c k
     else bindE (clk_reader_sleep e (cc_clock c) (cc_cons c) k) (\<lambda>(s, k). Inr (None, c\<lparr>cc_cons := s\<rparr>, k)))"

definition cc_read_internal ::
  "waker_env \<Rightarrow> bool \<Rightarrow> 'd clkchan \<Rightarrow> kernel \<Rightarrow> ('d option \<times> 'd clkchan \<times> kernel) res" where
  "cc_read_internal e clearready c k =
     bindE (cc_ready c k) (\<lambda>b.
     bindE (release_writer (b \<and> clearready) (cc_writers c) k) (\<lambda>(ws, k).
     cc_read_loop e clearready (c\<lparr>cc_writers := ws\<rparr>) k))"

definition cc_read_resume ::
  "waker_env \<Rightarrow> bool \<Rightarrow> 'd clkchan \<Rightarrow> kernel \<Rightarrow> ('d option \<times> 'd clkchan \<times> kernel) res" where
  "cc_read_resume e clearready c k =
     bindE (clk_reader_awake (cc_cons c) k) (\<lambda>(s, k). cc_read_loop e clearready (c\<lparr>cc_cons := s\<rparr>) k)"

text \<open>
  \<^verbatim>\<open>write\<close> sleeps in two places: while the channel is full, and (interlocked) while its data has
  not been taken.
\<close>

datatype wr_outcome = Written | AwaitRoom | AwaitTaken

definition cc_notify ::
  "waker_env \<Rightarrow> (tid set \<Rightarrow> tid) \<Rightarrow> 'd clkchan \<Rightarrow> kernel \<Rightarrow> ('d clkchan \<times> kernel) res" where
  "cc_notify e bg c k =
     (if clk_have_reader (cc_cons c)
      then bindE (cc_current_data c k) (\<lambda>b.
           bindE (clk_delayed_wakeup e bg (cc_clock c) b (cc_cons c) k) (\<lambda>(s, k). Inr (c\<lparr>cc_cons := s\<rparr>, k)))
      else Inr (c, k))"

definition cc_write_interlock :: "'d clkchan \<Rightarrow> kernel \<Rightarrow> (wr_outcome \<times> 'd clkchan \<times> kernel) res" where
  "cc_write_interlock c k =
     (if \<not> ck_empty (cc_clock c)
      then bindE (sleep_as_writer push_writer (cc_writers c) k) (\<lambda>(ws, k).
           Inr (AwaitTaken, c\<lparr>cc_writers := ws\<rparr>, k))
      else bindE (release_writer True (cc_writers c) k) (\<lambda>(ws, k). Inr (Written, c\<lparr>cc_writers := ws\<rparr>, k)))"

definition cc_write_loop ::
  "waker_env \<Rightarrow> (tid set \<Rightarrow> tid) \<Rightarrow> 'd \<Rightarrow> 'd clkchan \<Rightarrow> kernel \<Rightarrow> (wr_outcome \<times> 'd clkchan \<times> kernel) res" where
  "cc_write_loop e bg d c k =
     (if ck_full (cc_clock c)
      then bindE (sleep_as_writer set_writenotify (cc_writers c) k) (\<lambda>(ws, k).
           Inr (AwaitRoom, c\<lparr>cc_writers := ws\<rparr>, k))
      else let c = upd_clock (\<lambda>q. q\<lparr>ck_size := ck_size q + 1\<rparr>) c\<lparr>cc_store := (d, pTime k) # cc_store c\<rparr> in
           bindE (ck_check_size (cc_clock c)) (\<lambda>_.
           bindE (cc_notify e bg c k) (\<lambda>(c, k).
           if ck_interlocked (cc_clock c) then cc_write_interlock c k else Inr (Written, c, k))))"

definition cc_write ::
  "waker_env \<Rightarrow> (tid set \<Rightarrow> tid) \<Rightarrow> 'd \<Rightarrow> 'd clkchan \<Rightarrow> kernel \<Rightarrow> (wr_outcome \<times> 'd clkchan \<times> kernel) res" where
  "cc_write e bg d c k = bindE (cc_notify e bg c k) (\<lambda>(c, k). cc_write_loop e bg d c k)"

section \<open>Broadcaster\<close>

text \<open>
  \<^verbatim>\<open>Broadcaster\<close> for arbitrary channel classes: their operations are arguments.  The sinks are
  copies of \<open>bc_out\<close>.
\<close>

record ('i, 'o) bcast =
  bc_clear :: bool
  bc_out :: 'o
  bc_source :: 'i
  bc_sinks :: "'o list"

definition bcast_init ::
  "nat \<Rightarrow> nat \<Rightarrow> addr \<Rightarrow> bool \<Rightarrow> 'i \<Rightarrow> 'o \<Rightarrow> kernel \<Rightarrow> (('i, 'o) bcast \<times> kernel) res" where
  "bcast_init fn self stk cl inp out k =
     bindE (pSpawn fn self 0 stk k) (\<lambda>(_, k).
     Inr (\<lparr>bc_clear = cl, bc_out = out, bc_source = inp, bc_sinks = []\<rparr>, k))"

definition get_sink :: "('o \<Rightarrow> 'o) \<Rightarrow> ('o \<Rightarrow> 'o) \<Rightarrow> ('i, 'o) bcast \<Rightarrow> ('i, 'o) bcast" where
  "get_sink copy set_source b = b\<lparr>bc_sinks := bc_sinks b @ [set_source (copy (bc_out b))]\<rparr>"

text \<open>
  The loop over the sinks.  When a write sleeps, the number of sinks behind the blocked one is
  returned.
\<close>

primrec reflect_sinks ::
  "('o \<Rightarrow> kernel \<Rightarrow> 'o \<times> kernel) \<Rightarrow> ('d \<Rightarrow> 'o \<Rightarrow> kernel \<Rightarrow> (bool \<times> 'o \<times> kernel) res) \<Rightarrow> bool \<Rightarrow> 'd \<Rightarrow>
   'o list \<Rightarrow> kernel \<Rightarrow> (nat option \<times> 'o list \<times> kernel) res" where
  "reflect_sinks clear write cl d [] k = Inr (None, [], k)"
| "reflect_sinks clear write cl d (s # ss) k =
     (let (s, k) = (if cl then clear s k else (s, k)) in
      bindE (write d s k) (\<lambda>(done, s, k).
      if done then bindE (reflect_sinks clear write cl d ss k) (\<lambda>(r, ss, k). Inr (r, s # ss, k))
      else Inr (Some (length ss), s # ss, k)))"

text \<open>One pass of the reflector loop: \<open>None\<close> from \<open>get\<close> means that it sleeps at the source.\<close>

definition reflect_pass ::
  "('i \<Rightarrow> kernel \<Rightarrow> ('d option \<times> 'i \<times> kernel) res) \<Rightarrow> ('o \<Rightarrow> kernel \<Rightarrow> 'o \<times> kernel) \<Rightarrow>
   ('d \<Rightarrow> 'o \<Rightarrow> kernel \<Rightarrow> (bool \<times> 'o \<times> kernel) res) \<Rightarrow> ('i, 'o) bcast \<Rightarrow> kernel \<Rightarrow>
   (('d \<times> nat option) option \<times> ('i, 'o) bcast \<times> kernel) res" where
  "reflect_pass get clear write b k =
     bindE (get (bc_source b) k) (\<lambda>(r, src, k).
     let b = b\<lparr>bc_source := src\<rparr> in
     case r of
       None \<Rightarrow> Inr (None, b, k)
     | Some d \<Rightarrow>
         bindE (reflect_sinks clear write (bc_clear b) d (bc_sinks b) k) (\<lambda>(n, ss, k).
         Inr (Some (d, n), b\<lparr>bc_sinks := ss\<rparr>, k)))"

text \<open>
  \<^verbatim>\<open>ClkBroadcaster\<close>: a clocked source, unclocked sinks, clearing.  \<open>d0\<close> is the default value of the
  data type.
\<close>

definition clkbcast_init ::
  "nat \<Rightarrow> nat \<Rightarrow> addr \<Rightarrow> 'd \<Rightarrow> ptime \<Rightarrow> ptime \<Rightarrow> u32 \<Rightarrow> kernel \<Rightarrow> (('d clkchan, 'd channel) bcast \<times> kernel) res" where
  "clkbcast_init fn self stk d0 p s sz k =
     bcast_init fn self stk True (clkchan_init self single_init p s (sint sz))
       (channel_init self (SingleConsumer None) d0 0) k"

end
