(* ===== verification/Chan_Props.thy ===== *)
theory Chan_Props
  imports Clock_Chan Fifo_Spec
begin

text \<open>
  What the channels promise: data comes out in the order it was put in, each item once, whatever
  the interleaving of producers and consumers.  The contract is a locale over the pieces of
  the operations; the three channel classes with a reading loop are its interpretations.
\<close>

section \<open>The contract\<close>

text \<open>
  A run of the pieces of channel operations, in any order and each in an arbitrary state of the
  kernel: the values put so far, the values got so far, and the channel.  A piece that puts
  the thread to sleep adds nothing.
\<close>

inductive chan_run ::
  "('d \<Rightarrow> 'c \<Rightarrow> kernel \<Rightarrow> (bool \<times> 'c \<times> kernel) res) set \<Rightarrow>
   (bool \<Rightarrow> 'c \<Rightarrow> kernel \<Rightarrow> ('d option \<times> 'c \<times> kernel) res) set \<Rightarrow>
   ('c \<Rightarrow> kernel \<Rightarrow> ('c \<times> kernel) res) set \<Rightarrow> 'c \<Rightarrow> 'd list \<Rightarrow> 'd list \<Rightarrow> 'c \<Rightarrow> bool"
  for writes reads others c0 where
  run_start: "chan_run writes reads others c0 [] [] c0"
| run_put: "chan_run writes reads others c0 ws gs c \<Longrightarrow> f \<in> writes \<Longrightarrow> f d c k = Inr (True, c', k')
    \<Longrightarrow> chan_run writes reads others c0 (ws @ [d]) gs c'"
| run_put_sleep: "chan_run writes reads others c0 ws gs c \<Longrightarrow> f \<in> writes \<Longrightarrow> f d c k = Inr (False, c', k')
    \<Longrightarrow> chan_run writes reads others c0 ws gs c'"
| run_get: "chan_run writes reads others c0 ws gs c \<Longrightarrow> f \<in> reads \<Longrightarrow> f True c k = Inr (Some d, c', k')
    \<Longrightarrow> chan_run writes reads others c0 ws (gs @ [d]) c'"
| run_read: "chan_run writes reads others c0 ws gs c \<Longrightarrow> f \<in> reads \<Longrightarrow> f False c k = Inr (Some d, c', k')
    \<Longrightarrow> chan_run writes reads others c0 ws gs c'"
| run_read_sleep: "chan_run writes reads others c0 ws gs c \<Longrightarrow> f \<in> reads \<Longrightarrow> f b c k = Inr (None, c', k')
    \<Longrightarrow> chan_run writes reads others c0 ws gs c'"
| run_other: "chan_run writes reads others c0 ws gs c \<Longrightarrow> g \<in> others \<Longrightarrow> g c k = Inr (c', k')
    \<Longrightarrow> chan_run writes reads others c0 ws gs c'"

locale data_channel =
  fixes maxlen :: nat
    and inv :: "'c \<Rightarrow> bool"
    and contents :: "'c \<Rightarrow> 'd list"
    and writes :: "('d \<Rightarrow> 'c \<Rightarrow> kernel \<Rightarrow> (bool \<times> 'c \<times> kernel) res) set"
    and reads :: "(bool \<Rightarrow> 'c \<Rightarrow> kernel \<Rightarrow> ('d option \<times> 'c \<times> kernel) res) set"
    and others :: "('c \<Rightarrow> kernel \<Rightarrow> ('c \<times> kernel) res) set"
  assumes put: "inv c \<Longrightarrow> length (contents c) < maxlen \<Longrightarrow> f \<in> writes \<Longrightarrow> f d c k = Inr (True, c', k')
      \<Longrightarrow> inv c' \<and> contents c' = contents c @ [d]"
    and put_sleep: "inv c \<Longrightarrow> f \<in> writes \<Longrightarrow> f d c k = Inr (False, c', k') \<Longrightarrow> inv c' \<and> contents c' = contents c"
    and read_sleep: "inv c \<Longrightarrow> r \<in> reads \<Longrightarrow> r b c k = Inr (None, c', k') \<Longrightarrow> inv c' \<and> contents c' = contents c"
    and read_some: "inv c \<Longrightarrow> r \<in> reads \<Longrightarrow> r b c k = Inr (Some d, c', k')
      \<Longrightarrow> inv c' \<and> (\<exists>ds. contents c = d # ds \<and> contents c' = (if b then ds else contents c))"
    and other: "inv c \<Longrightarrow> g \<in> others \<Longrightarrow> g c k = Inr (c', k') \<Longrightarrow> inv c' \<and> contents c' = contents c"
begin

lemma run_fifo:
  "chan_run writes reads others c0 ws gs c \<Longrightarrow> inv c0 \<Longrightarrow> contents c0 = [] \<Longrightarrow> length ws \<le> maxlen
   \<Longrightarrow> inv c \<and> ws = gs @ contents c"
proof (induction rule: chan_run.induct)
  case run_start
  then show ?case by simp
next
  case (run_put ws gs c f d k c' k')
  then have "inv c" "ws = gs @ contents c" by auto
  moreover have "length (contents c) < maxlen" using run_put.prems(3) \<open>ws = _\<close> by simp
  ultimately have "inv c' \<and> contents c' = contents c @ [d]" using put run_put.hyps by blast
  then show ?case using \<open>ws = _\<close> by simp
next
  case (run_put_sleep ws gs c f d k c' k')
  then show ?case using put_sleep [of c f d k c' k'] by simp
next
  case (run_get ws gs c f k d c' k')
  then show ?case using read_some [of c f True k d c' k'] by auto
next
  case (run_read ws gs c f k d c' k')
  then show ?case using read_some [of c f False k d c' k'] by auto
next
  case (run_read_sleep ws gs c f b k c' k')
  then show ?case using read_sleep [of c f b k c' k'] by simp
next
  case (run_other ws gs c g k c' k')
  then show ?case using other [of c g k c' k'] by simp
qed

end

section \<open>Channel\<close>

definition ch_contents :: "'d channel \<Rightarrow> 'd list" where
  "ch_contents c = (if ch_ready c then [ch_data c] else [])"

definition ch_writes :: "(tid set \<Rightarrow> tid) \<Rightarrow> ('d \<Rightarrow> 'd channel \<Rightarrow> kernel \<Rightarrow> (bool \<times> 'd channel \<times> kernel) res) set" where
  "ch_writes bg = {ch_write bg pWake, ch_write_loop bg pWake}"

definition ch_reads :: "(bool \<Rightarrow> 'd channel \<Rightarrow> kernel \<Rightarrow> ('d option \<times> 'd channel \<times> kernel) res) set" where
  "ch_reads = {ch_read_internal, ch_read_resume}"

text \<open>Selection registers and deregisters a reader without reading.\<close>

definition ch_selects :: "('d channel \<Rightarrow> kernel \<Rightarrow> ('d channel \<times> kernel) res) set" where
  "ch_selects = (\<lambda>t c k. bindE (set_notify t (ch_cons c)) (\<lambda>cs. Inr (c\<lparr>ch_cons := cs\<rparr>, k))) ` UNIV \<union>
     (\<lambda>t c k. Inr (c\<lparr>ch_cons := clear_notify t (ch_cons c)\<rparr>, k)) ` UNIV"

lemmas ch_piece_defs = ch_write_def ch_write_loop_def ch_read_internal_def ch_read_resume_def ch_read_loop_def ch_take_def

interpretation ch: data_channel n "\<lambda>_. True" ch_contents "ch_writes bg" ch_reads ch_selects
proof
  fix c :: "'d channel" and f d k c' k'
  assume "f \<in> ch_writes bg" "f d c k = Inr (True, c', k')"
  then show "True \<and> ch_contents c' = ch_contents c @ [d]"
    by (auto simp: ch_writes_def ch_write_def ch_write_loop_def ch_contents_def split: if_splits)
next
  fix c :: "'d channel" and f d k c' k'
  assume "f \<in> ch_writes bg" "f d c k = Inr (False, c', k')"
  then show "True \<and> ch_contents c' = ch_contents c"
    by (auto simp: ch_writes_def ch_write_def ch_write_loop_def ch_contents_def split: if_splits)
next
  fix c :: "'d channel" and r b k c' k'
  assume "r \<in> ch_reads" "r b c k = Inr (None, c', k')"
  then show "True \<and> ch_contents c' = ch_contents c"
    by (auto simp: ch_reads_def ch_piece_defs ch_contents_def Let_def split: if_splits)
next
  fix c :: "'d channel" and r b k d c' k'
  assume "r \<in> ch_reads" "r b c k = Inr (Some d, c', k')"
  then show "True \<and> (\<exists>ds. ch_contents c = d # ds \<and> ch_contents c' = (if b then ds else ch_contents c))"
    by (cases b) (auto simp: ch_reads_def ch_piece_defs ch_contents_def Let_def split: if_splits)
next
  fix c :: "'d channel" and g k c' k'
  assume "g \<in> ch_selects" "g c k = Inr (c', k')"
  then show "True \<and> ch_contents c' = ch_contents c"
    by (auto simp: ch_selects_def ch_contents_def)
qed

section \<open>QueueChan\<close>

definition qc_contents :: "'d qchan \<Rightarrow> 'd list" where
  "qc_contents c = rev (qc_store c)"

definition qc_inv :: "'d qchan \<Rightarrow> bool" where
  "qc_inv c \<longleftrightarrow> qc_size c = of_nat (length (qc_store c)) \<and> length (qc_store c) < 4294967296 \<and>
     (qc_maxsize c \<noteq> 0 \<longrightarrow> qc_size c \<le> qc_maxsize c)"

definition qc_writes :: "(tid set \<Rightarrow> tid) \<Rightarrow> ('d \<Rightarrow> 'd qchan \<Rightarrow> kernel \<Rightarrow> (bool \<times> 'd qchan \<times> kernel) res) set" where
  "qc_writes bg = {qc_write bg, qc_write_loop bg}"

definition qc_reads :: "(bool \<Rightarrow> 'd qchan \<Rightarrow> kernel \<Rightarrow> ('d option \<times> 'd qchan \<times> kernel) res) set" where
  "qc_reads = {qc_read_internal, qc_read_resume}"

definition qc_selects :: "('d qchan \<Rightarrow> kernel \<Rightarrow> ('d qchan \<times> kernel) res) set" where
  "qc_selects = (\<lambda>t c k. bindE (set_notify t (qc_cons c)) (\<lambda>cs. Inr (c\<lparr>qc_cons := cs\<rparr>, k))) ` UNIV \<union>
     (\<lambda>t c k. Inr (c\<lparr>qc_cons := clear_notify t (qc_cons c)\<rparr>, k)) ` UNIV"

lemma size_zero_iff: "n < 4294967296 \<Longrightarrow> (of_nat n :: u32) = 0 \<longleftrightarrow> n = 0"
  by (auto simp: word_of_nat_eq_0_iff dest: nat_dvd_not_less)

lemma unat_of_nat_u32: "n < 4294967296 \<Longrightarrow> unat (of_nat n :: u32) = n"
  by (simp add: unat_of_nat)

lemma store_back_Inr [simp, resE]: "store_back xs = Inr x \<longleftrightarrow> (\<exists>ys. xs = ys @ [x])"
  by (auto simp: store_back_def) (metis append_butlast_last_id)

lemma store_pop_Inr [simp, resE]: "store_pop_back xs = Inr ys \<longleftrightarrow> (\<exists>x. xs = ys @ [x])"
  by (auto simp: store_pop_back_def) (metis append_butlast_last_id)

lemma inc_size_le: "a < b \<Longrightarrow> a + 1 \<le> (b :: u32)"
  by (rule inc_le)

lemma dec_size_le: "s \<noteq> 0 \<Longrightarrow> s \<le> m \<Longrightarrow> s - 1 \<le> (m :: u32)"
  by (simp add: word_le_nat_alt unat_minus_one)

lemma qc_take_ok:
  assumes "qc_inv c" and "qc_take b c k = Inr (r, c', k')"
  shows "qc_inv c' \<and> (\<exists>d ds. r = Some d \<and> qc_contents c = d # ds \<and> qc_contents c' = (if b then ds else qc_contents c))"
proof -
  obtain ys d where y: "qc_store c = ys @ [d]" "r = Some d" using assms by (auto simp: qc_take_def)
  have sz: "qc_size c \<noteq> 0" using assms(1) y size_zero_iff [of "Suc (length ys)"] by (simp add: qc_inv_def)
  show ?thesis
  proof (cases b)
    case True
    then obtain ws where c': "c' = c\<lparr>qc_size := qc_size c - 1, qc_store := ys, qc_writers := ws\<rparr>"
      using assms(2) y sz by (auto simp: qc_take_def qc_clear_ready_def)
    have "qc_maxsize c \<noteq> 0 \<longrightarrow> qc_size c - 1 \<le> qc_maxsize c"
      using assms(1) sz dec_size_le by (auto simp: qc_inv_def)
    then show ?thesis using assms(1) y c' True by (simp add: qc_inv_def qc_contents_def)
  next
    case False
    then show ?thesis using assms y by (auto simp: qc_take_def qc_inv_def qc_contents_def)
  qed
qed

lemma qc_write_loop_ok:
  assumes "qc_inv c" and "qc_write_loop bg d c k = Inr (b, c', k')" and "b \<Longrightarrow> length (qc_store c) < 4294967295"
  shows "qc_inv c' \<and> qc_contents c' = (if b then qc_contents c @ [d] else qc_contents c)"
proof (cases "qc_full c")
  case True
  then show ?thesis using assms by (auto simp: qc_write_loop_def qc_inv_def qc_contents_def)
next
  case False
  then have "b" "qc_maxsize c \<noteq> 0 \<Longrightarrow> qc_size c + 1 \<le> qc_maxsize c"
    using assms(2) inc_size_le by (auto simp: qc_write_loop_def qc_full_def Let_def)
  then show ?thesis using assms False
    by (auto simp: qc_write_loop_def qc_inv_def qc_contents_def Let_def add.commute)
qed

lemma qc_inv_cong [simp]:
  "qc_inv (c\<lparr>qc_cons := cs\<rparr>) = qc_inv c" "qc_inv (c\<lparr>qc_writers := ws\<rparr>) = qc_inv c"
  "qc_contents (c\<lparr>qc_cons := cs\<rparr>) = qc_contents c" "qc_contents (c\<lparr>qc_writers := ws\<rparr>) = qc_contents c"
  "qc_store (c\<lparr>qc_cons := cs\<rparr>) = qc_store c"
  by (simp_all add: qc_inv_def qc_contents_def)

lemma qc_put_ok:
  assumes "qc_inv c" and "f \<in> qc_writes bg" and "f d c k = Inr (b, c', k')" and "b \<Longrightarrow> length (qc_store c) < 4294967295"
  shows "qc_inv c' \<and> qc_contents c' = (if b then qc_contents c @ [d] else qc_contents c)"
  using assms(2)
proof (unfold qc_writes_def, elim insertE emptyE)
  assume "f = qc_write bg"
  then obtain cs k1 where "qc_write_loop bg d (c\<lparr>qc_cons := cs\<rparr>) k1 = Inr (b, c', k')"
    using assms(3) by (auto simp: qc_write_def)
  from qc_write_loop_ok [OF _ this] assms(1,4) show ?thesis by simp
next
  assume f: "f = qc_write_loop bg"
  show ?thesis by (rule qc_write_loop_ok [OF assms(1)]) (use assms(3,4) f in auto)
qed

lemma qc_read_ok:
  assumes "qc_inv c" and "f \<in> qc_reads" and "f b c k = Inr (r, c', k')"
  shows "qc_inv c' \<and> (case r of None \<Rightarrow> qc_contents c' = qc_contents c
    | Some d \<Rightarrow> \<exists>ds. qc_contents c = d # ds \<and> qc_contents c' = (if b then ds else qc_contents c))"
  using assms(2)
proof (unfold qc_reads_def, elim insertE emptyE)
  assume "f = qc_read_internal"
  then obtain ws k1 where "(\<exists>cs. r = None \<and> c' = c\<lparr>qc_writers := ws, qc_cons := cs\<rparr>) \<or>
      qc_take b (c\<lparr>qc_writers := ws\<rparr>) k1 = Inr (r, c', k')"
    using assms(3) by (auto simp: qc_read_internal_def Let_def split: if_splits)
  then show ?thesis
  proof
    assume t: "qc_take b (c\<lparr>qc_writers := ws\<rparr>) k1 = Inr (r, c', k')"
    from qc_take_ok [OF _ t] assms(1) show ?thesis by auto
  qed (use assms(1) in auto)
next
  assume "f = qc_read_resume"
  with assms(3) have t: "qc_take b c k = Inr (r, c', k')" by (simp add: qc_read_resume_def)
  from qc_take_ok [OF assms(1) t] show ?thesis by auto
qed

interpretation qc: data_channel 4294967295 qc_inv qc_contents "qc_writes bg" qc_reads qc_selects
proof
  fix c :: "'d qchan" and f d k c' k'
  assume a: "qc_inv c" "length (qc_contents c) < 4294967295" "f \<in> qc_writes bg" "f d c k = Inr (True, c', k')"
  from qc_put_ok [OF a(1,3,4)] a(2) show "qc_inv c' \<and> qc_contents c' = qc_contents c @ [d]"
    by (simp add: qc_contents_def)
next
  fix c :: "'d qchan" and f d k c' k'
  assume a: "qc_inv c" "f \<in> qc_writes bg" "f d c k = Inr (False, c', k')"
  from qc_put_ok [OF a] show "qc_inv c' \<and> qc_contents c' = qc_contents c" by simp
next
  fix c :: "'d qchan" and r b k c' k'
  assume "qc_inv c" "r \<in> qc_reads" "r b c k = Inr (None, c', k')"
  from qc_read_ok [OF this] show "qc_inv c' \<and> qc_contents c' = qc_contents c" by simp
next
  fix c :: "'d qchan" and r b k d c' k'
  assume "qc_inv c" "r \<in> qc_reads" "r b c k = Inr (Some d, c', k')"
  from qc_read_ok [OF this]
  show "qc_inv c' \<and> (\<exists>ds. qc_contents c = d # ds \<and> qc_contents c' = (if b then ds else qc_contents c))" by simp
next
  fix c :: "'d qchan" and g k c' k'
  assume "qc_inv c" "g \<in> qc_selects" "g c k = Inr (c', k')"
  then show "qc_inv c' \<and> qc_contents c' = qc_contents c" by (auto simp: qc_selects_def)
qed

section \<open>ClockChan\<close>

definition cc_contents :: "'d clkchan \<Rightarrow> 'd list" where
  "cc_contents c = rev (map fst (cc_store c))"

definition cc_inv :: "'d clkchan \<Rightarrow> bool" where
  "cc_inv c \<longleftrightarrow> ck_size (cc_clock c) = of_nat (length (cc_store c)) \<and> length (cc_store c) < 4294967296 \<and>
     ck_size (cc_clock c) \<le> ck_allowed_size (cc_clock c)"

text \<open>A write has stored its item unless it waits for room.\<close>

definition cc_stored :: "(wr_outcome \<times> 'd clkchan \<times> kernel) res \<Rightarrow> (bool \<times> 'd clkchan \<times> kernel) res" where
  "cc_stored r = bindE r (\<lambda>(o', c, k). Inr (o' \<noteq> AwaitRoom, c, k))"

definition cc_writes ::
  "waker_env \<Rightarrow> (tid set \<Rightarrow> tid) \<Rightarrow> ('d \<Rightarrow> 'd clkchan \<Rightarrow> kernel \<Rightarrow> (bool \<times> 'd clkchan \<times> kernel) res) set" where
  "cc_writes e bg = {\<lambda>d c k. cc_stored (cc_write e bg d c k), \<lambda>d c k. cc_stored (cc_write_loop e bg d c k)}"

definition cc_reads :: "waker_env \<Rightarrow> (bool \<Rightarrow> 'd clkchan \<Rightarrow> kernel \<Rightarrow> ('d option \<times> 'd clkchan \<times> kernel) res) set" where
  "cc_reads e = {cc_read_internal e, cc_read_resume e}"

text \<open>The other pieces: a writer waiting for its data to be taken, selection, and the wakers.\<close>

definition cc_others :: "waker_env \<Rightarrow> ('d clkchan \<Rightarrow> kernel \<Rightarrow> ('d clkchan \<times> kernel) res) set" where
  "cc_others e = {\<lambda>c k. bindE (cc_write_interlock c k) (\<lambda>(_, c, k). Inr (c, k)),
     \<lambda>c k. bindE (sc_waker_expire (cc_cons c) k) (\<lambda>(s, k). Inr (c\<lparr>cc_cons := s\<rparr>, k))} \<union>
     (\<lambda>t c k. bindE (clk_set_notify e (cc_clock c) t (cc_cons c) k) (\<lambda>(s, k). Inr (c\<lparr>cc_cons := s\<rparr>, k))) ` UNIV \<union>
     (\<lambda>t c k. bindE (clk_clear_notify t (cc_cons c) k) (\<lambda>(s, k). Inr (c\<lparr>cc_cons := s\<rparr>, k))) ` UNIV"

definition same_data :: "'d clkchan \<Rightarrow> 'd clkchan \<Rightarrow> bool" where
  "same_data c c' \<longleftrightarrow> cc_clock c' = cc_clock c \<and> cc_store c' = cc_store c"

lemma same_dataD: "same_data c c' \<Longrightarrow> cc_inv c' = cc_inv c" "same_data c c' \<Longrightarrow> cc_contents c' = cc_contents c"
  by (simp_all add: same_data_def cc_inv_def cc_contents_def)

lemma allowed_size_upd [simp]: "ck_allowed_size (q\<lparr>ck_size := n\<rparr>) = ck_allowed_size q"
  by (simp add: ck_allowed_size_def)

lemma same_data_upd [simp]: "same_data c (c\<lparr>cc_cons := s\<rparr>)" "same_data c (c\<lparr>cc_writers := ws\<rparr>)"
  "same_data c c" "same_data c (c\<lparr>cc_writers := ws, cc_cons := s\<rparr>)"
  by (simp_all add: same_data_def)

lemma cc_notify_data: "cc_notify e bg c k = Inr (c', k') \<Longrightarrow> same_data c c'"
  by (auto simp: cc_notify_def split: if_splits)

lemma cc_interlock_data: "cc_write_interlock c k = Inr (r, c', k') \<Longrightarrow> same_data c c' \<and> r \<noteq> AwaitRoom"
  by (auto simp: cc_write_interlock_def split: if_splits)

lemma same_data_trans: "same_data a b \<Longrightarrow> same_data b c \<Longrightarrow> same_data a c"
  by (simp add: same_data_def)

lemma cc_write_loop_ok:
  assumes "cc_inv c" and "cc_write_loop e bg d c k = Inr (r, c', k')"
    and "r \<noteq> AwaitRoom \<Longrightarrow> length (cc_store c) < 4294967295"
  shows "cc_inv c' \<and> cc_contents c' = (if r \<noteq> AwaitRoom then cc_contents c @ [d] else cc_contents c)"
proof (cases "ck_full (cc_clock c)")
  case True
  then show ?thesis using assms by (auto simp: cc_write_loop_def same_dataD [OF same_data_upd(2)])
next
  case False
  let ?c = "upd_clock (\<lambda>q. q\<lparr>ck_size := ck_size q + 1\<rparr>) c\<lparr>cc_store := (d, pTime k) # cc_store c\<rparr>"
  obtain c1 k1 where n: "cc_notify e bg ?c k = Inr (c1, k1)"
    and i: "if ck_interlocked (cc_clock c1) then cc_write_interlock c1 k1 = Inr (r, c', k')
            else r = Written \<and> c' = c1"
    using False assms(2) by (auto simp: cc_write_loop_def Let_def split: if_splits)
  have "same_data c1 c' \<and> r \<noteq> AwaitRoom" using i cc_interlock_data [of c1 k1 r c' k'] by (auto split: if_splits)
  moreover have "same_data ?c c1" by (rule cc_notify_data [OF n])
  ultimately have s: "same_data ?c c'" "r \<noteq> AwaitRoom" using same_data_trans by blast+
  have "ck_size (cc_clock c) + 1 \<le> ck_allowed_size (cc_clock c)"
    using False inc_size_le by (simp add: ck_full_def)
  then have "cc_inv ?c" using assms(1,3) s(2) by (simp add: cc_inv_def add.commute)
  then show ?thesis using s same_dataD [OF s(1)] by (simp add: cc_contents_def)
qed

lemma cc_put_ok:
  assumes "cc_inv c" and "f \<in> cc_writes e bg" and "f d c k = Inr (b, c', k')" and "b \<Longrightarrow> length (cc_store c) < 4294967295"
  shows "cc_inv c' \<and> cc_contents c' = (if b then cc_contents c @ [d] else cc_contents c)"
proof -
  have "\<exists>c1 k1 r. same_data c c1 \<and> cc_write_loop e bg d c1 k1 = Inr (r, c', k') \<and> b = (r \<noteq> AwaitRoom)"
    using assms(2)
  proof (unfold cc_writes_def, elim insertE emptyE)
    assume "f = (\<lambda>d c k. cc_stored (cc_write e bg d c k))"
    then obtain c1 k1 r where "cc_notify e bg c k = Inr (c1, k1)" "cc_write_loop e bg d c1 k1 = Inr (r, c', k')"
      "b = (r \<noteq> AwaitRoom)" using assms(3) by (auto simp: cc_stored_def cc_write_def)
    then show ?thesis using cc_notify_data by blast
  next
    assume "f = (\<lambda>d c k. cc_stored (cc_write_loop e bg d c k))"
    then obtain r where "cc_write_loop e bg d c k = Inr (r, c', k')" "b = (r \<noteq> AwaitRoom)"
      using assms(3) by (auto simp: cc_stored_def)
    then show ?thesis using same_data_upd(3) by blast
  qed
  then obtain c1 k1 r where c1: "same_data c c1" "cc_write_loop e bg d c1 k1 = Inr (r, c', k')" "b = (r \<noteq> AwaitRoom)"
    by blast
  have "cc_inv c1" "r \<noteq> AwaitRoom \<Longrightarrow> length (cc_store c1) < 4294967295"
    using assms(1,4) c1 same_dataD(1) [OF c1(1)] by (simp_all add: same_data_def)
  from cc_write_loop_ok [OF this(1) c1(2) this(2)] c1(3) same_dataD(2) [OF c1(1)] show ?thesis by simp
qed

lemma cc_take_ok:
  assumes "cc_inv c" and "cc_take b c k = Inr (r, c', k')"
  shows "cc_inv c' \<and> (\<exists>d ds. r = Some d \<and> cc_contents c = d # ds \<and> cc_contents c' = (if b then ds else cc_contents c))"
proof -
  obtain ys d t where y: "cc_store c = ys @ [(d, t)]" "r = Some d" using assms by (auto simp: cc_take_def)
  have sz: "ck_size (cc_clock c) \<noteq> 0" using assms(1) y size_zero_iff [of "Suc (length ys)"] by (simp add: cc_inv_def)
  show ?thesis
  proof (cases b)
    case True
    then obtain ws where c': "c' = upd_clock (\<lambda>q. q\<lparr>ck_size := ck_size q - 1\<rparr>) c\<lparr>cc_store := ys, cc_writers := ws\<rparr>"
      using assms(2) y sz by (auto simp: cc_take_def cc_clear_ready_def ck_empty_def)
    have "ck_size (cc_clock c) - 1 \<le> ck_allowed_size (cc_clock c)"
      using assms(1) sz dec_size_le by (auto simp: cc_inv_def)
    then show ?thesis using assms(1) y c' True by (simp add: cc_inv_def cc_contents_def)
  next
    case False
    then have "same_data c c'" using assms(2) by (auto simp: cc_take_def)
    then show ?thesis using assms(1) y False same_dataD [of c c'] by (simp add: cc_contents_def)
  qed
qed

lemma cc_read_loop_ok:
  assumes "cc_inv c" and "cc_read_loop e b c k = Inr (r, c', k')"
  shows "cc_inv c' \<and> (case r of None \<Rightarrow> cc_contents c' = cc_contents c
    | Some d \<Rightarrow> \<exists>ds. cc_contents c = d # ds \<and> cc_contents c' = (if b then ds else cc_contents c))"
proof -
  have "(r = None \<and> same_data c c') \<or> cc_take b c k = Inr (r, c', k')"
    using assms(2) by (auto simp: cc_read_loop_def split: if_splits)
  then show ?thesis
  proof
    assume "cc_take b c k = Inr (r, c', k')"
    from cc_take_ok [OF assms(1) this] show ?thesis by auto
  qed (use assms(1) same_dataD [of c c'] in simp)
qed

lemma cc_read_ok:
  assumes "cc_inv c" and "f \<in> cc_reads e" and "f b c k = Inr (r, c', k')"
  shows "cc_inv c' \<and> (case r of None \<Rightarrow> cc_contents c' = cc_contents c
    | Some d \<Rightarrow> \<exists>ds. cc_contents c = d # ds \<and> cc_contents c' = (if b then ds else cc_contents c))"
proof -
  have "\<exists>c1 k1. same_data c c1 \<and> cc_read_loop e b c1 k1 = Inr (r, c', k')"
    using assms(2)
  proof (unfold cc_reads_def, elim insertE emptyE)
    assume "f = cc_read_internal e"
    then obtain ws k1 where "cc_read_loop e b (c\<lparr>cc_writers := ws\<rparr>) k1 = Inr (r, c', k')"
      using assms(3) by (auto simp: cc_read_internal_def)
    then show ?thesis using same_data_upd(2) by blast
  next
    assume "f = cc_read_resume e"
    then obtain s k1 where "cc_read_loop e b (c\<lparr>cc_cons := s\<rparr>) k1 = Inr (r, c', k')"
      using assms(3) by (auto simp: cc_read_resume_def)
    then show ?thesis using same_data_upd(1) by blast
  qed
  then obtain c1 k1 where c1: "same_data c c1" "cc_read_loop e b c1 k1 = Inr (r, c', k')" by blast
  then have "cc_inv c1" using assms(1) same_dataD(1) by blast
  from cc_read_loop_ok [OF this c1(2)] show ?thesis by (simp only: same_dataD(2) [OF c1(1)])
qed

interpretation cc: data_channel 4294967295 cc_inv cc_contents "cc_writes e bg" "cc_reads e" "cc_others e"
proof
  fix c :: "'d clkchan" and f d k c' k'
  assume a: "cc_inv c" "length (cc_contents c) < 4294967295" "f \<in> cc_writes e bg" "f d c k = Inr (True, c', k')"
  from cc_put_ok [OF a(1,3,4)] a(2) show "cc_inv c' \<and> cc_contents c' = cc_contents c @ [d]"
    by (simp add: cc_contents_def)
next
  fix c :: "'d clkchan" and f d k c' k'
  assume a: "cc_inv c" "f \<in> cc_writes e bg" "f d c k = Inr (False, c', k')"
  from cc_put_ok [OF a] show "cc_inv c' \<and> cc_contents c' = cc_contents c" by simp
next
  fix c :: "'d clkchan" and r b k c' k'
  assume "cc_inv c" "r \<in> cc_reads e" "r b c k = Inr (None, c', k')"
  from cc_read_ok [OF this] show "cc_inv c' \<and> cc_contents c' = cc_contents c" by simp
next
  fix c :: "'d clkchan" and r b k d c' k'
  assume "cc_inv c" "r \<in> cc_reads e" "r b c k = Inr (Some d, c', k')"
  from cc_read_ok [OF this]
  show "cc_inv c' \<and> (\<exists>ds. cc_contents c = d # ds \<and> cc_contents c' = (if b then ds else cc_contents c))" by simp
next
  fix c :: "'d clkchan" and g k c' k'
  assume "cc_inv c" "g \<in> cc_others e" "g c k = Inr (c', k')"
  then have "cc_inv c \<and> same_data c c'" by (auto simp: cc_others_def dest: cc_interlock_data)
  then show "cc_inv c' \<and> cc_contents c' = cc_contents c" using same_dataD by blast
qed

end
