(* ===== verification/Chan_Results.thy ===== *)
theory Chan_Results
  imports Chan_Props Kernel_Steps
begin

text \<open>
  Properties of the channels: delivery in order, the clock, timeouts, several consumers and
  broadcasting.
\<close>

section \<open>Delivery\<close>

text \<open>
  A \<^verbatim>\<open>Channel\<close> with any number of producers and consumers delivers the values in the order in which
  they were stored, each exactly once and none lost, for every sequence of the uninterrupted
  pieces of its operations; it never holds more than one value.
\<close>

theorem channel_in_order:
  assumes "chan_run (ch_writes bg) ch_reads ch_selects (channel_init self cs d0 ts) ws gs c"
  shows "ws = gs @ ch_contents c \<and> length ws \<le> length gs + 1"
proof -
  have "ws = gs @ ch_contents c"
    using ch.run_fifo [where n = "length ws", OF assms] by (simp add: ch_contents_def channel_init_def)
  then show ?thesis by (simp add: ch_contents_def)
qed

theorem channel_in_order_witness:
  "\<exists>c. chan_run (ch_writes Min) ch_reads ch_selects (channel_init 0 (SingleConsumer None) 0 0) [7] [7] c \<and> ch_contents (c :: nat channel) = []"
proof -
  let ?c0 = "channel_init 0 (SingleConsumer None) 0 0 :: nat channel" and ?k = "kernel_init 64"
  let ?c1 = "?c0\<lparr>ch_data := 7, ch_ready := True\<rparr>"
  have w: "ch_write Min pWake 7 ?c0 ?k = Inr (True, ?c1, ?k)"
    by (simp add: ch_write_def ch_write_loop_def wake_reader_def channel_init_def)
  have r: "ch_read_internal True ?c1 ?k = Inr (Some 7, ?c1\<lparr>ch_ready := False\<rparr>, ?k)"
    by (simp add: ch_piece_defs release_writer_def have_writers_def channel_init_def Let_def)
  have "chan_run (ch_writes Min) ch_reads ch_selects ?c0 ([] @ [7]) ([] @ [7]) (?c1\<lparr>ch_ready := False\<rparr>)"
    by (rule run_get [where f = ch_read_internal, OF run_put [where f = "ch_write Min pWake", OF run_start _ w] _ r])
      (simp_all add: ch_writes_def ch_reads_def)
  with channel_in_order [OF this] show ?thesis by (intro exI [of _ "?c1\<lparr>ch_ready := False\<rparr>"]) simp
qed

text \<open>
  A \<^verbatim>\<open>QueueChan\<close> delivers in order, each value once and none lost, for up to \<open>2\<^sup>32 - 1\<close> writes; the
  size field is the number of stored values and never exceeds a maximum given at construction.
  Pieces are uninterrupted.
\<close>

theorem qchan_in_order:
  assumes "chan_run (qc_writes bg) qc_reads qc_selects (qchan_init cs sz src) ws gs c" and "length ws < 2 ^ 32"
  shows "ws = gs @ qc_contents c \<and> unat (qc_size c) = length (qc_contents c) \<and>
    (qc_maxsize c = 0 \<or> qc_size c \<le> qc_maxsize c)"
proof -
  have "qc_inv c \<and> ws = gs @ qc_contents c"
    by (rule qc.run_fifo [OF assms(1)])
      (use assms(2) in \<open>simp_all add: qc_inv_def qc_contents_def qchan_init_def\<close>)
  moreover have "unat (of_nat (length (qc_store c)) :: u32) = length (qc_store c)" if "qc_inv c"
    using that by (intro unat_of_nat_u32) (simp add: qc_inv_def)
  moreover have "qc_maxsize c = 0 \<or> qc_size c \<le> qc_maxsize c" if "qc_inv c" using that by (auto simp: qc_inv_def)
  moreover have "qc_size c = of_nat (length (qc_store c))" if "qc_inv c" using that by (simp add: qc_inv_def)
  ultimately show ?thesis by (simp add: qc_contents_def)
qed

theorem qchan_in_order_witness:
  "\<exists>c :: nat qchan. chan_run (qc_writes Min) qc_reads qc_selects (qchan_init (SingleConsumer None) 2 0) [5, 6] [5] c \<and>
     qc_contents c = [6] \<and> unat (qc_size c) = 1"
proof -
  let ?c0 = "qchan_init (SingleConsumer None) 2 0 :: nat qchan" and ?k = "kernel_init 64"
  let ?c1 = "?c0\<lparr>qc_store := [5], qc_size := 1\<rparr>"
  let ?c2 = "?c0\<lparr>qc_store := [6, 5], qc_size := 2\<rparr>"
  let ?c3 = "?c0\<lparr>qc_store := [6], qc_size := 1\<rparr>"
  have w1: "qc_write Min 5 ?c0 ?k = Inr (True, ?c1, ?k)" and w2: "qc_write Min 6 ?c1 ?k = Inr (True, ?c2, ?k)"
    by (simp_all add: qc_write_def qc_write_loop_def wake_reader_def qchan_init_def qc_full_def qc_check_size_def
        word_le_nat_alt)
  have r: "qc_read_internal True ?c2 ?k = Inr (Some 5, ?c3, ?k)"
    by (simp add: qc_read_internal_def qc_take_def qc_clear_ready_def qc_ready_def qc_empty_def release_writer_def
      have_writers_def qchan_init_def Let_def store_back_def store_pop_back_def)
  have "chan_run (qc_writes Min) qc_reads qc_selects ?c0 (([] @ [5]) @ [6]) ([] @ [5]) ?c3"
    by (rule run_get [where f = qc_read_internal, OF run_put [where f = "qc_write Min",
          OF run_put [where f = "qc_write Min", OF run_start _ w1] _ w2] _ r])
      (simp_all add: qc_writes_def qc_reads_def)
  with qchan_in_order [OF this] show ?thesis
    by (intro exI [of _ ?c3]) (simp add: qc_contents_def qchan_init_def)
qed

text \<open>
  A \<^verbatim>\<open>ClockChan\<close>, with or without interlock and with one or several consumers, delivers in order, each
  value once and none lost, and never holds more values than it may, for every sequence of the
  pieces of its operations and fewer than \<open>2\<^sup>32\<close> writes.  A piece is the code between two context
  switches; it runs without interruption in a program without preemption (the channel itself
  takes no lock).
\<close>

theorem clkchan_in_order:
  assumes "chan_run (cc_writes e bg) (cc_reads e) (cc_others e) (clkchan_init self s p skew sz) ws gs c"
    and "length ws < 2 ^ 32"
  shows "ws = gs @ cc_contents c \<and> unat (ck_size (cc_clock c)) = length (cc_contents c) \<and>
    ck_size (cc_clock c) \<le> ck_allowed_size (cc_clock c)"
proof -
  have "cc_inv c \<and> ws = gs @ cc_contents c"
    by (rule cc.run_fifo [OF assms(1)])
      (use assms(2) in \<open>simp_all add: cc_inv_def cc_contents_def clkchan_init_def clock_init_def\<close>)
  moreover have "unat (of_nat (length (cc_store c)) :: u32) = length (cc_store c)" if "cc_inv c"
    using that by (intro unat_of_nat_u32) (simp add: cc_inv_def)
  moreover have "ck_size (cc_clock c) = of_nat (length (cc_store c))" "ck_size (cc_clock c) \<le> ck_allowed_size (cc_clock c)"
    if "cc_inv c" using that unfolding cc_inv_def by blast+
  ultimately show ?thesis by (simp add: cc_contents_def)
qed

definition demo_env :: waker_env where
  "demo_env = \<lparr>we_fn = 1, we_self = 0, we_stk = 4096, we_args = \<lambda>d t. []\<rparr>"

theorem clkchan_in_order_witness:
  "\<exists>c :: nat clkchan. chan_run (cc_writes demo_env Min) (cc_reads demo_env) (cc_others demo_env) (clkchan_init 0 single_init 10 0 4) [5] [] c \<and>
     cc_contents c = [5] \<and> unat (ck_size (cc_clock c)) = 1"
proof -
  let ?c0 = "clkchan_init 0 single_init 10 0 4 :: nat clkchan" and ?k = "kernel_init 64"
  let ?c1 = "upd_clock (\<lambda>q. q\<lparr>ck_size := 1\<rparr>) ?c0\<lparr>cc_store := [(5, pTime ?k)]\<rparr>"
  have w: "cc_stored (cc_write demo_env Min 5 ?c0 ?k) = Inr (True, ?c1, ?k)"
    by (simp add: cc_stored_def cc_write_def cc_notify_def cc_write_loop_def clkchan_init_def clock_init_def
      single_init_def ck_full_def ck_allowed_size_def ck_check_size_def ck_interlocked_def word_le_nat_alt)
  have "chan_run (cc_writes demo_env Min) (cc_reads demo_env) (cc_others demo_env) ?c0 ([] @ [5]) [] ?c1"
    by (rule run_put [where f = "\<lambda>d c k. cc_stored (cc_write demo_env Min d c k)", OF run_start _ w])
      (simp add: cc_writes_def)
  with clkchan_in_order [OF this] show ?thesis
    by (intro exI [of _ ?c1]) (simp add: cc_contents_def)
qed

section \<open>The clock\<close>

lemma unat_div_mult: "unat (a div p * p) = unat a div unat p * unat p" for a p :: u64
proof -
  have "unat a div unat p * unat p \<le> unat a" by simp
  also have "\<dots> < 2 ^ 64" using unat_lt_u64 [of a] by simp
  finally have "unat (a div p) * unat p < 2 ^ LENGTH(64)" by (simp only: unat_div len_num1 len_num0 len_bit0) simp
  then have "unat (a div p * p) = unat (a div p) * unat p" using unat_mult_lem by blast
  then show ?thesis by (simp only: unat_div)
qed

lemma delay_arg_small: "unat x < 2147483648 \<Longrightarrow> delay_arg (ucast x) = x" for x :: u64
proof -
  assume a: "unat x < 2147483648"
  have "uint x = int (unat x)" by simp
  then have x: "- 2147483648 \<le> uint x" "uint x < 2147483648" using a by linarith+
  have "sint (ucast x :: 32 word) = signed_take_bit 31 (uint x)" by (simp add: signed_ucast_eq)
  also have "\<dots> = uint x" by (rule signed_take_bit_int_eq_self) (use x in simp_all)
  finally show ?thesis by (simp only: delay_arg_def scast_eq word_of_int_uint)
qed

lemma next_phi_nat:
  assumes "0 < ck_period c" and "ck_skew c < ck_period c" and "unat (pTime k) + unat (ck_period c) < 2 ^ 64"
  obtains n where "next_phi c k = Inr n"
    and "unat n = (unat (pTime k) + unat (ck_period c) - unat (ck_skew c)) div unat (ck_period c) * unat (ck_period c)
      + unat (ck_skew c)"
    and "unat n \<le> unat (pTime k) + unat (ck_period c)" and "unat (pTime k) < unat n"
proof -
  let ?T = "unat (pTime k)" and ?p = "unat (ck_period c)" and ?s = "unat (ck_skew c)"
  let ?a = "(pTime k + ck_period c) - ck_skew c"
  let ?q = "(?T + ?p - ?s) div ?p * ?p"
  have sp: "?s < ?p" using assms(2) by (simp add: word_less_nat_alt)
  have "unat (pTime k + ck_period c) = ?T + ?p" using assms(3) by (simp add: unat_word_ariths)
  moreover have "ck_skew c \<le> pTime k + ck_period c" using calculation sp by (simp add: word_le_nat_alt)
  ultimately have a: "unat ?a = ?T + ?p - ?s" by (simp add: unat_sub)
  have q: "?q \<le> ?T + ?p - ?s" by simp
  have u: "unat (?a div ck_period c * ck_period c) = ?q" by (simp only: unat_div_mult a)
  have "?T + ?p < 18446744073709551616" using assms(3) by simp
  then have "?q + ?s < 18446744073709551616" using q sp by linarith
  then have "?q + ?s < 2 ^ LENGTH(64)" by simp
  then have n: "unat (?a div ck_period c * ck_period c + ck_skew c) = ?q + ?s"
    using unat_add_lem [of "?a div ck_period c * ck_period c" "ck_skew c"] u by simp
  have "?T + ?p - ?s < ?q + ?p" using div_mult_mod_eq [of "?T + ?p - ?s" ?p] mod_less_divisor [of ?p "?T + ?p - ?s"] sp
    by linarith
  then have "?T < ?q + ?s" "?q + ?s \<le> ?T + ?p" using sp q by linarith+
  moreover have "next_phi c k = Inr (?a div ck_period c * ck_period c + ck_skew c)"
    using assms(1) by (auto simp: next_phi_def)
  ultimately show ?thesis using that n by metis
qed

text \<open>
  C36. \<^verbatim>\<open>next_phi\<close> is the next clock edge: it is later than now, at most one period away, it lies on the
  edge grid \<open>skew (mod period)\<close>, and no time in between does; this holds for every skew below
  the period while the time does not overflow.  A period below \<open>2\<^sup>31\<close> makes the delay handed to the
  waker exact; with a period of \<open>2\<^sup>31\<close> the delay stored in an \<^verbatim>\<open>int\<close> becomes negative and the waker
  sleeps for \<open>2\<^sup>64 - 2\<^sup>31\<close> time units.
\<close>

theorem next_edge:
  assumes "0 < ck_period c" and "ck_skew c < ck_period c" and "unat (pTime k) + unat (ck_period c) < 2 ^ 64"
  shows "\<exists>n. next_phi c k = Inr n \<and> pTime k < n \<and> unat n \<le> unat (pTime k) + unat (ck_period c) \<and>
    n mod ck_period c = ck_skew c \<and> (\<forall>t. pTime k < t \<and> t < n \<longrightarrow> t mod ck_period c \<noteq> ck_skew c) \<and>
    (ck_period c < 2 ^ 31 \<longrightarrow> (\<exists>d. edge_delay c k = Inr d \<and> pTime k + delay_arg d = n)) \<and>
    (ck_period c = 2 ^ 31 \<and> pTime k = 0 \<and> ck_skew c = 0 \<longrightarrow>
      (\<exists>d. edge_delay c k = Inr d \<and> delay_arg d = 0xFFFFFFFF80000000))"
proof -
  let ?T = "unat (pTime k)" and ?p = "unat (ck_period c)" and ?s = "unat (ck_skew c)"
  obtain n where n: "next_phi c k = Inr n" "unat n = (?T + ?p - ?s) div ?p * ?p + ?s"
    "unat n \<le> ?T + ?p" "?T < unat n" using next_phi_nat [OF assms] .
  have sp: "?s < ?p" using assms(2) by (simp add: word_less_nat_alt)
  have "unat n mod ?p = ?s" using n(2) sp by simp
  then have edge: "n mod ck_period c = ck_skew c" by (simp add: word_unat_eq_iff unat_mod)
  have none: "t mod ck_period c \<noteq> ck_skew c" if "pTime k < t" "t < n" for t
  proof
    assume "t mod ck_period c = ck_skew c"
    then have "unat t mod ?p = ?s" by (metis unat_mod)
    moreover have "?T < unat t" "unat t < unat n" using that by (simp_all add: word_less_nat_alt)
    moreover obtain m where m: "unat n = m * ?p + ?s" using n(2) by blast
    ultimately obtain j where "unat t = j * ?p + ?s" "j < m"
      by (metis add_less_cancel_right div_mult_mod_eq mult_less_cancel2)
    then have "unat t + ?p \<le> unat n"
      using m mult_le_mono1 [of "Suc j" m ?p] by simp
    then show False using n(3) \<open>?T < unat t\<close> by linarith
  qed
  have len: "unat (n - pTime k) = unat n - ?T" using n(4) by (simp add: unat_sub word_le_nat_alt)
  have delay: "edge_delay c k = Inr (ucast (n - pTime k))" using n(1) by (simp add: edge_delay_def)
  have exact: "pTime k + delay_arg (ucast (n - pTime k)) = n" if "ck_period c < 2 ^ 31"
  proof -
    have "unat (n - pTime k) < 2147483648" using len n(3) that by (simp add: word_less_nat_alt)
    from delay_arg_small [OF this] show ?thesis by simp
  qed
  have over: "delay_arg (ucast (n - pTime k)) = 0xFFFFFFFF80000000"
    if "ck_period c = 2 ^ 31 \<and> pTime k = 0 \<and> ck_skew c = 0"
  proof -
    have "n = 0x80000000" using n(1) that by (simp add: next_phi_def)
    moreover have "delay_arg (ucast (0x80000000 :: u64)) = 0xFFFFFFFF80000000" by code_simp
    ultimately show ?thesis using that by simp
  qed
  show ?thesis using n edge none delay exact over by (intro exI [of _ n]) (simp add: word_less_nat_alt)
qed

lemma start_time [simp]: "pTime (kernel_init 64) = 0"
  by (simp add: pTime_def kernel_init_def sys_add_active_thread_def set_cont_def upd_th_def upd_sys_def
    system_init_def Let_def split: option.split)

theorem next_edge_witness:
  "\<exists>n. next_phi (clock_init 0 10 3 0) (kernel_init 64) = Inr n \<and> n mod 10 = 3 \<and> 0 < n"
proof -
  have "0 < ck_period (clock_init 0 10 3 0)" "ck_skew (clock_init 0 10 3 0) < ck_period (clock_init 0 10 3 0)"
    by (simp_all add: clock_init_def word_less_nat_alt)
  from next_edge [OF this, of "kernel_init 64"] show ?thesis by (auto simp: clock_init_def)
qed

lemma addready_frame: "pAddReady t k = Inr k' \<Longrightarrow> run_frame k k'"
  by (auto simp: pAddReady_def intro: run_frame_trans dest!: add_proc_run_frame add_ready_frame ready_run_frame)

lemma release_frame: "release_writer go ws k = Inr (ws', k') \<Longrightarrow> run_frame k k'"
  by (auto simp: release_writer_def dest: addready_frame split: if_splits)

lemma frame_time: "run_frame k k' \<Longrightarrow> pTime k' = pTime k"
  by (simp add: run_frame_def pTime_def)

lemma wake_waiters_time: "wake_waiters c k = Inr k' \<Longrightarrow> sy_time (k_sys k') = sy_time (k_sys k)"
proof (induction c k rule: wake_waiters.induct)
  case (1 c k)
  obtain r k1 where g: "th_get_waiter c k = (r, k1)" by fastforce
  then have q: "k_sys k1 = k_sys k" by (auto simp: th_get_waiter_def Let_def split: if_splits)
  show ?case
  proof (cases r)
    case (Some w)
    then obtain p k2 k3 where *: "th_proc (k_threads k1 w) = Some p" "proc_add_ready p w k1 = Inr k2"
      "cl_add_proc (th_proc (k_threads k2 w)) k2 = Inr k3" "wake_waiters c k3 = Inr k'"
      using "1.prems" g by (subst (asm) wake_waiters.simps) auto
    then have "sy_time (k_sys k') = sy_time (k_sys k3)" using "1.IH" [OF g [symmetric] Some, of k3] by auto
    then show ?thesis using * q add_proc_sys [OF *(3)] ready_frameD(3) [OF add_ready_frame [OF *(2)]] by simp
  qed (use "1.prems" g q in \<open>simp add: wake_waiters.simps\<close>)
qed

lemma destroy_time: "sy_time (k_sys (th_destroy t k)) = sy_time (k_sys k)"
  by (simp add: th_destroy_def sys_dispose_def th_setState_def sys_remove_active_thread_def Let_def split: option.splits)

lemma terminate_thread_time: "cl_terminate_thread w k = Inr k' \<Longrightarrow> pTime k' = pTime k"
  by (auto simp: cl_terminate_thread_def cl_terminate_def cl_get_ready_def switch_term_def leave_kernel_def pTime_def destroy_time Let_def
      split: option.splits if_splits dest!: wake_waiters_time get_ready_frame get_ready_item_frame simp: ready_frameD(3))

lemma reader_awake_time: "clk_reader_awake s k = Inr (s', k') \<Longrightarrow> pTime k' = pTime k"
  by (cases s) (auto simp: clk_reader_awake_def multi_clear_notify_def multi_cancel_waker_def dest!: terminate_thread_time split: option.splits)

lemma read_loop_edge:
  assumes "0 < ck_period (cc_clock c)" and "ck_period (cc_clock c) < 2 ^ 32" and "cc_read_loop e b c k = Inr (Some d, c', k')"
  shows "(\<exists>st t. cc_store c = st @ [(d, t)] \<and> t < pTime k) \<and> pTime k mod ck_period (cc_clock c) = ck_skew (cc_clock c)"
proof -
  have p: "ck_period32 (cc_clock c) \<noteq> 0"
    using assms by (simp add: ck_period32_def word_unat_eq_iff unat_ucast_u32 word_less_nat_alt)
  have "\<exists>st t. cc_store c = st @ [(d, t)] \<and> t < pTime k"
    using assms(3) p by (auto simp: cc_read_loop_def cc_ready_def cc_current_data_def cc_take_def split: if_splits)
  moreover have "pTime k mod ck_period (cc_clock c) = ck_skew (cc_clock c)"
    using assms(1,3) by (auto simp: cc_read_loop_def cc_ready_def is_phi_def split: if_splits)
  ultimately show ?thesis by blast
qed


definition edge_demo :: "nat clkchan" where
  "edge_demo = (clkchan_init 0 single_init 10 0 4)\<lparr>cc_clock := (clock_init 0 10 0 4)\<lparr>ck_size := 1\<rparr>,
     cc_store := [(7, 3)]\<rparr>"


section \<open>Without a lock\<close>

text \<open>
  \<^verbatim>\<open>pTMutex\<close> is defined empty, so the channel operations take no lock.  If a writer is preempted between the
  test of \<^verbatim>\<open>ready\<close> and the store, another writer can pass the test too: both store, and the first
  value is lost.
\<close>

theorem preempted_write_lost:
  assumes "ch_store bg wake d c k = Inr (b, c', k')" and "ch_store bg wake d' c' k'' = Inr (b', c'', k3)"
  shows "b \<and> b' \<and> ch_contents c'' = [d']"
  using assms by (auto simp: ch_contents_def)

theorem preempted_write_lost_witness:
  "\<exists>c. ch_write_loop Min pWake 1 (channel_init 0 (SingleConsumer None) (0 :: nat) 0) (kernel_init 64) = Inr (True, c, kernel_init 64) \<and>
     (\<exists>c'. ch_store Min pWake 2 c (kernel_init 64) = Inr (True, c', kernel_init 64) \<and> ch_contents c' = [2])"
proof -
  let ?c0 = "channel_init 0 (SingleConsumer None) (0 :: nat) 0" and ?k = "kernel_init 64"
  have 1: "ch_store Min pWake 1 ?c0 ?k = Inr (True, ?c0\<lparr>ch_data := 1, ch_ready := True\<rparr>, ?k)"
    and 2: "ch_store Min pWake 2 (?c0\<lparr>ch_data := 1, ch_ready := True\<rparr>) ?k = Inr (True, ?c0\<lparr>ch_data := 2, ch_ready := True\<rparr>, ?k)"
    by (simp_all add: wake_reader_def channel_init_def)
  then show ?thesis using preempted_write_lost [OF 1 2] by (auto simp: ch_write_loop_def channel_init_def)
qed

section \<open>Several consumers\<close>

text \<open>
  C40. \<^verbatim>\<open>Channel\<close> reads in a loop, so that a reader which is woken after another consumer has taken the data
  sleeps again.  \<^verbatim>\<open>BusyChan\<close> and \<^verbatim>\<open>QueueChan\<close> have no such loop: when a second reader takes the
  only value before the woken reader runs, the woken \<^verbatim>\<open>BusyChan\<close> reader returns the same value a
  second time, and the woken \<^verbatim>\<open>QueueChan\<close> reader reads the back of an empty list.
\<close>

theorem woken_reader_finds_nothing:
  "(ch_ready c \<and> ch_writers c = [] \<and> ch_data c = d \<longrightarrow>
      (\<exists>c'. busychan_read_internal True c k = Inr (Some d, c', k) \<and> ch_contents c' = [] \<and>
            busychan_read_resume True c' k = Inr (Some d, c', k) \<and>
            (\<forall>r c'' k'. ch_read_resume True c' k = Inr (r, c'', k') \<longrightarrow> r = None))) \<and>
   (qc_inv q \<and> qc_contents q = [d] \<and> qc_writers q = [] \<longrightarrow>
      (\<exists>q'. qc_read_internal True q k = Inr (Some d, q', k) \<and> qc_contents q' = [] \<and>
            qc_read_resume True q' k = Inl OutOfRange))"
proof (intro conjI impI)
  assume a: "ch_ready c \<and> ch_writers c = [] \<and> ch_data c = d"
  let ?c = "c\<lparr>ch_ready := False\<rparr>"
  have "c\<lparr>ch_ready := False, ch_writers := []\<rparr> = ?c" using a by simp
  then have "busychan_read_internal True c k = Inr (Some d, ?c, k)" "busychan_read_resume True ?c k = Inr (Some d, ?c, k)"
    using a by (simp_all add: busychan_read_internal_def busychan_read_resume_def ch_take_def release_writer_def
        have_writers_def Let_def)
  moreover have "r = None" if "ch_read_resume True ?c k = Inr (r, c'', k')" for r c'' k'
    using that by (auto simp: ch_read_resume_def ch_read_loop_def)
  ultimately show "\<exists>c'. busychan_read_internal True c k = Inr (Some d, c', k) \<and> ch_contents c' = [] \<and>
      busychan_read_resume True c' k = Inr (Some d, c', k) \<and>
      (\<forall>r c'' k'. ch_read_resume True c' k = Inr (r, c'', k') \<longrightarrow> r = None)"
    by (intro exI [of _ ?c]) (auto simp: ch_contents_def)
next
  assume a: "qc_inv q \<and> qc_contents q = [d] \<and> qc_writers q = []"
  then have s: "qc_store q = [d]" "qc_size q = 1" by (simp_all add: qc_inv_def qc_contents_def)
  let ?q = "q\<lparr>qc_size := 0, qc_store := []\<rparr>"
  have "q\<lparr>qc_size := 0, qc_store := [], qc_writers := []\<rparr> = ?q" using a by simp
  then have "qc_read_internal True q k = Inr (Some d, ?q, k)" "qc_read_resume True ?q k = Inl OutOfRange"
    using a s by (simp_all add: qc_read_internal_def qc_read_resume_def qc_take_def qc_clear_ready_def qc_ready_def
        qc_empty_def store_back_def store_pop_back_def release_writer_def have_writers_def Let_def)
  then show "\<exists>q'. qc_read_internal True q k = Inr (Some d, q', k) \<and> qc_contents q' = [] \<and>
      qc_read_resume True q' k = Inl OutOfRange"
    by (intro exI [of _ ?q]) (simp add: qc_contents_def)
qed

theorem woken_reader_finds_nothing_witness:
  "\<exists>q'. qc_read_internal True ((qchan_init (MultiConsumer {}) 4 0)\<lparr>qc_store := [9 :: nat], qc_size := 1\<rparr>) (kernel_init 64)
      = Inr (Some 9, q', kernel_init 64) \<and> qc_read_resume True q' (kernel_init 64) = Inl OutOfRange"
  using woken_reader_finds_nothing [of "channel_init 0 (MultiConsumer {}) 0 0" 9 "kernel_init 64"
      "(qchan_init (MultiConsumer {}) 4 0)\<lparr>qc_store := [9 :: nat], qc_size := 1\<rparr>"]
  by (auto simp: qchan_init_def qc_inv_def qc_contents_def word_le_nat_alt)

section \<open>Timeouts\<close>

lemma convert_some: "convert_priority n k = Inr (Some q, k') \<Longrightarrow> k' = k"
  by (auto simp: convert_priority_def split: if_splits)

lemma spawn_cur:
  assumes "pSpawn f a pr stk k = Inr (Some t, k')" and "cur k = Some c" and "c \<noteq> k_ntid k"
  shows "cur k' = cur k \<and> t = k_ntid k"
proof -
  obtain p q where "proc_create p f a q stk k = Inr (t, k')"
    using assms(1) by (auto simp: pSpawn_def spawn_on_def spawn_priority_def dest!: convert_some
        split: if_splits option.splits)
  moreover obtain i where "create_priority q k = Inr i"
    using assms(2) by (cases "q < 0") (auto simp: create_priority_def)
  ultimately obtain k1 where k1: "proc_add_ready p (k_ntid k) (spawned p f a i stk (cl_lock k)) = Inr k1"
    "t = k_ntid k" "k' = cl_unlock k1" using proc_create_eq [of q k i] assms(2,3) by auto
  have "cur k1 = cur (spawned p f a i stk (cl_lock k))"
    using ready_run_frame [OF add_ready_frame [OF k1(1)]] by (simp add: run_frame_def)
  then show ?thesis using k1(2,3) by (simp add: spawned_sel cl_unlock_def cl_lock_def)
qed

text \<open>
  \<^verbatim>\<open>Timeout::get\<close> on a timeout that is not ready does not sleep: it registers the caller, starts the
  timeout thread, and returns at once with the caller still running and the timeout not ready.
  When the delay is over, the timeout thread wakes the registered caller, asleep or not.
\<close>

theorem timeout_get_does_not_sleep:
  assumes "\<not> to_ready c" and "cur k = Some t" and "t \<noteq> k_ntid k"
    and "to_get fn self stk c k = Inr (c', k')" and "to_writet c' \<noteq> None"
  shows "cur k' = Some t \<and> to_readt c' = Some t \<and> \<not> to_ready c' \<and> to_writet c' = Some (k_ntid k) \<and>
    timeout_expire c' k'' = bindE (pWake t k'') (\<lambda>k3. Inr (c'\<lparr>to_ready := True, to_readt := None\<rparr>, k3))"
proof -
  obtain w k1 where k1: "pSpawn fn self 0 stk (pUnlock (pLock k)) = Inr (w, k1)"
    and c': "c' = c\<lparr>to_ready := False, to_readt := Some t, to_writet := w\<rparr>" "k' = pUnlock (pLock k1)"
    using assms(1,2,4) by (auto simp: to_get_def to_set_notify_def pCurThread_def cl_lock_def cl_unlock_def Let_def)
  obtain w' where w: "w = Some w'" using assms(5) c' by auto
  have "cur k1 = cur k \<and> w' = k_ntid k"
    using spawn_cur [of fn self 0 stk "pUnlock (pLock k)" w' k1 t] k1 w assms(2,3)
    by (simp add: cl_lock_def cl_unlock_def)
  then show ?thesis using c' w assms(2)
    by (simp add: timeout_expire_def to_reset_def cl_lock_def cl_unlock_def)
qed

theorem timeout_get_does_not_sleep_witness:
  "\<exists>k k' c' t. reachable plain_setup 64 4096 k \<and> cur k = Some t \<and> to_get 5 6 8192 (tmout_init 100) k = Inr (c', k') \<and>
     cur k' = Some t \<and> \<not> to_ready c'"
proof -
  obtain k where k: "reachable plain_setup 64 4096 k" "in_user k" using plain_start by blast
  then obtain R P c where r: "running k R P" and c: "cur k = Some c" "c \<noteq> mainth k"
    using reachable_running by (fastforce simp: in_user_def)
  let ?k = "pUnlock (pLock k)"
  obtain p0 where "user_run k R P c p0" using running_user [OF r c] by blast
  then have "running ?k R P" using unlock_running [OF user_running [OF lock_user]] by simp
  moreover have "cur ?k = Some c" "c \<noteq> mainth ?k" using c by (simp_all add: cl_lock_def cl_unlock_def)
  ultimately obtain p where u: "user_run ?k R P c p" using running_user by blast
  then have co: "core ?k R P" "c < k_ntid ?k" "p < k_npid ?k"
    using coreD(5) by (auto simp: user_run_def runs_at_def procq_ok_def core_def)
  have "0 < int (k_numpri ?k)" using core_thread(1) [OF co(1,2)] by linarith
  then obtain t k1 where k1: "pSpawn 5 6 0 8192 ?k = Inr (Some t, k1)"
    using spawn_ok(2) [OF u co(3)] by blast
  have g: "to_get 5 6 8192 (tmout_init 100) k =
      Inr (\<lparr>to_ready = False, to_delay = 100, to_readt = Some c, to_writet = Some t\<rparr>, pUnlock (pLock k1))"
    using k1 c by (simp add: to_get_def to_set_notify_def tmout_init_def pCurThread_def cl_lock_def cl_unlock_def Let_def)
  have "c \<noteq> k_ntid k" using co(2) by (simp add: cl_lock_def cl_unlock_def)
  from timeout_get_does_not_sleep [OF _ c(1) this g] show ?thesis
    using k(1) c(1) g by (auto simp: tmout_init_def)
qed

section \<open>Broadcasting\<close>

text \<open>
  C38. The reflector of a clearing \<^verbatim>\<open>Broadcaster\<close> with \<^verbatim>\<open>Channel\<close> sinks never sleeps in a write and leaves the
  value in every sink, whatever the sinks held before.
\<close>

theorem broadcast_reaches_all:
  assumes "reflect_sinks ch_clear_ready (ch_write bg pWake) True d ss k = Inr (r, ss', k')"
  shows "r = None \<and> length ss' = length ss \<and> (\<forall>s \<in> set ss'. ch_contents s = [d])"
  using assms
proof (induction ss arbitrary: k r ss')
  case Nil
  then show ?case by simp
next
  case (Cons s ss)
  let ?s = "s\<lparr>ch_ready := False\<rparr>"
  obtain b s1 k1 where w: "ch_write bg pWake d ?s (pUnlock (pLock k)) = Inr (b, s1, k1)"
    and rest: "if b then \<exists>rs. reflect_sinks ch_clear_ready (ch_write bg pWake) True d ss k1 = Inr (r, rs, k') \<and> ss' = s1 # rs
               else r = Some (length ss) \<and> ss' = s1 # ss"
    using Cons.prems by (auto simp: ch_clear_ready_def [of s k] simp del: pWake_def split: if_splits)
  have b: "b" "ch_contents s1 = [d]"
    using w by (auto simp: ch_write_def ch_write_loop_def ch_contents_def)
  then obtain rs where rs: "reflect_sinks ch_clear_ready (ch_write bg pWake) True d ss k1 = Inr (r, rs, k')" "ss' = s1 # rs"
    using rest by auto
  from Cons.IH [OF rs(1)] rs(2) b(2) show ?case by simp
qed

theorem broadcast_reaches_all_witness:
  "\<exists>ss. reflect_sinks ch_clear_ready (ch_write Min pWake) True 3 [channel_init 0 (SingleConsumer None) (0 :: nat) 0]
      (kernel_init 64) = Inr (None, ss, cl_unlock (cl_lock (kernel_init 64))) \<and> (\<forall>s \<in> set ss. ch_contents s = [3])"
proof -
  let ?s = "(channel_init 0 (SingleConsumer None) (0 :: nat) 0)\<lparr>ch_data := 3, ch_ready := True\<rparr>"
  have r: "reflect_sinks ch_clear_ready (ch_write Min pWake) True 3 [channel_init 0 (SingleConsumer None) (0 :: nat) 0]
      (kernel_init 64) = Inr (None, [?s], cl_unlock (cl_lock (kernel_init 64)))"
    by (simp add: ch_clear_ready_def ch_write_def ch_write_loop_def wake_reader_def channel_init_def)
  show ?thesis by (rule exI [of _ "[?s]"], rule conjI [OF r]) (use broadcast_reaches_all [OF r] in simp)
qed

end
