(* ===== verification/Chan_Kernel.thy ===== *)
theory Chan_Kernel
  imports Chan_Props Kernel_Steps
begin

text \<open>
  Channels on the running kernel, for programs without preemption.  The threads of a program use one
  channel and make other kernel calls; a piece of an operation is the code of a read or write
  between two context switches.  The channels of \<^verbatim>\<open>plasma.h\<close> are not locked (\<^verbatim>\<open>pTMutex\<close> is defined
  empty), so a piece is uninterrupted only because the alarm signal is blocked; that it is
  blocked is part of what holds in every state.  Between two pieces the kernel schedules and
  advances time.
  The contract of a blocking channel is a locale; its client lemmas say that no piece of an
  operation fails and that every registered thread is asleep.  \<^verbatim>\<open>Channel\<close> and \<^verbatim>\<open>QueueChan\<close> are
  interpretations.
\<close>

section \<open>What channels use of the kernel\<close>

definition on_cpu :: "kernel \<Rightarrow> tid \<Rightarrow> bool" where
  "on_cpu k t \<longleftrightarrow> (\<exists>R P p. user_run k R P t p) \<and> alarm_off k"

definition alive :: "kernel \<Rightarrow> bool" where
  "alive k \<longleftrightarrow> (\<exists>R P. running k R P) \<and> alarm_off k"

lemma on_cpu_alive: "on_cpu k t \<Longrightarrow> alive k"
  by (auto simp: on_cpu_def alive_def intro: user_running)

lemma on_cpu_cur: "on_cpu k t \<Longrightarrow> pCurThread k = Some t \<and> \<not> sleeping k t"
  by (auto simp: on_cpu_def user_run_def runs_at_def sleeping_def pCurThread_def)

lemma alive_on_cpu: "alive k \<Longrightarrow> in_user k \<Longrightarrow> cur k = Some t \<Longrightarrow> on_cpu k t"
  using running_user by (fastforce simp: alive_def on_cpu_def in_user_def)

lemma wake_on_cpu:
  assumes "on_cpu k c" and "sleeping k t"
  shows "\<exists>k'. pWake t k = Inr k' \<and> on_cpu k' c \<and> calm {t} k k' \<and> \<not> sleeping k' t"
proof -
  obtain R P p where u: "user_run k R P c p" and off: "alarm_off k" using assms(1) by (auto simp: on_cpu_def)
  then have t: "t < k_ntid k" "th_state (k_threads k t) = TRun" "t \<noteq> c" "t \<notin># parked k" "t \<noteq> mainth k"
    using assms(2) by (auto simp: sleeping_def user_run_def runs_at_def)
  then show ?thesis using wake_ok [OF u t] call_off_defs(5) [of t k] off by (fastforce simp: on_cpu_def)
qed

lemma add_ready_on_cpu:
  assumes "on_cpu k c" and "sleeping k t"
  shows "\<exists>k'. pAddReady t k = Inr k' \<and> on_cpu k' c \<and> calm {t} k k' \<and> \<not> sleeping k' t"
  using add_ready_ok [of k _ _ c _ t] call_off_defs(6) [of t k] assms by (fastforce simp: on_cpu_def)

lemma sleep_on_cpu:
  assumes "on_cpu k c"
  shows "\<exists>k'. pSleep k = Inr k' \<and> alive k' \<and> calm {c} k k' \<and> sleeping k' c"
  using sleep_ok [of k _ _ c] call_off_defs(2) [of k] assms by (fastforce simp: on_cpu_def alive_def)

section \<open>Registered threads\<close>

primrec readers :: "consumers \<Rightarrow> tid set" where
  "readers (SingleConsumer r) = set_option r"
| "readers (MultiConsumer cs) = cs"

text \<open>What the hash set promises of \<^verbatim>\<open>begin()\<close>: it refers to an element of a non-empty set.\<close>

definition begin_ok :: "(tid set \<Rightarrow> tid) \<Rightarrow> bool" where
  "begin_ok bg \<longleftrightarrow> (\<forall>S. finite S \<longrightarrow> S \<noteq> {} \<longrightarrow> bg S \<in> S)"

text \<open>The threads of \<open>S\<close> sleep; the other threads of \<open>N\<close> do not.\<close>

definition asleep :: "kernel \<Rightarrow> tid set \<Rightarrow> tid set \<Rightarrow> bool" where
  "asleep k N S \<longleftrightarrow> (\<forall>t\<in>S. sleeping k t) \<and> (\<forall>t\<in>N - S. \<not> sleeping k t)"

lemma asleep_calm: "asleep k N S \<Longrightarrow> calm W k k' \<Longrightarrow> S \<inter> W = {} \<Longrightarrow> N \<inter> W = {} \<Longrightarrow> asleep k' N S"
  by (auto simp: asleep_def calm_def)

lemma asleep_wake: "asleep k N S \<Longrightarrow> calm {w} k k' \<Longrightarrow> \<not> sleeping k' w \<Longrightarrow> asleep k' N (S - {w})"
  unfolding asleep_def calm_def
proof (intro conjI ballI)
  fix u
  assume "(\<forall>t\<in>S. sleeping k t) \<and> (\<forall>t\<in>N - S. \<not> sleeping k t)" "\<forall>t. t \<notin> {w} \<longrightarrow> sleeping k' t = sleeping k t" "\<not> sleeping k' w"
  then show "u \<in> S - {w} \<Longrightarrow> sleeping k' u" "u \<in> N - (S - {w}) \<Longrightarrow> \<not> sleeping k' u" by (cases "u = w"; simp)+
qed

lemma asleep_sleep: "asleep k N S \<Longrightarrow> calm {t} k k' \<Longrightarrow> sleeping k' t \<Longrightarrow> asleep k' (insert t N) (insert t S)"
  by (auto simp: asleep_def calm_def)

lemma asleep_awake: "asleep k N S \<Longrightarrow> \<not> sleeping k t \<Longrightarrow> t \<notin> S"
  by (auto simp: asleep_def)

lemma release_writer_on_cpu:
  assumes "on_cpu k t" and "asleep k N (A \<union> set ws)" and "distinct ws" and "A \<inter> set ws = {}"
  shows "\<exists>k'. release_writer go ws k = Inr (if go then tl ws else ws, k') \<and> on_cpu k' t \<and>
    asleep k' N (A \<union> set (if go then tl ws else ws))"
proof (cases "go \<and> ws \<noteq> []")
  case True
  then obtain w us where ws: "ws = w # us" by (cases ws) auto
  obtain k' where k': "pAddReady w k = Inr k'" "on_cpu k' t" "calm {w} k k'" "\<not> sleeping k' w"
    using add_ready_on_cpu [OF assms(1), of w] assms(2) ws by (auto simp: asleep_def)
  have "(A \<union> set ws) - {w} = A \<union> set us" using ws assms(3,4) by auto
  then have "asleep k' N (A \<union> set us)" using asleep_wake [OF assms(2) k'(3,4)] by simp
  then show ?thesis using True ws k' by (simp add: release_writer_def have_writers_def)
next
  case False
  then show ?thesis using assms by (auto simp: release_writer_def have_writers_def)
qed

lemma wake_reader_on_cpu:
  assumes "on_cpu k t" and "asleep k N (readers cs \<union> A)" and "readers cs \<inter> A = {}" and "finite (readers cs)" and "begin_ok bg"
  shows "\<exists>cs' k'. wake_reader bg pWake cs k = Inr (cs', k') \<and> on_cpu k' t \<and> asleep k' N (readers cs' \<union> A) \<and>
    readers cs' \<subseteq> readers cs \<and> (readers cs \<noteq> {} \<longrightarrow> readers cs' \<noteq> readers cs) \<and>
    multiple_consumers_allowed cs' = multiple_consumers_allowed cs"
proof (cases "readers cs = {}")
  case True
  then have "wake_reader bg pWake cs k = Inr (cs, k)" by (cases cs) (auto simp: wake_reader_def)
  then show ?thesis using assms True by auto
next
  case False
  obtain r cs' where n: "notify_reader bg cs = (Some r, cs')" "r \<in> readers cs" "readers cs' = readers cs - {r}" "have_reader cs"
    "multiple_consumers_allowed cs' = multiple_consumers_allowed cs"
    using False assms(4,5) by (cases cs) (auto simp: begin_ok_def)
  obtain k' where k': "pWake r k = Inr k'" "on_cpu k' t" "calm {r} k k'" "\<not> sleeping k' r"
    using wake_on_cpu [OF assms(1), of r] assms(2) n(2) by (auto simp: asleep_def)
  have "(readers cs \<union> A) - {r} = readers cs' \<union> A" using n(2,3) assms(3) by auto
  then have "asleep k' N (readers cs' \<union> A)" using asleep_wake [OF assms(2) k'(3,4)] by simp
  then show ?thesis using n k' by (auto simp: wake_reader_def)
qed

lemma sleep_as_writer_on_cpu:
  assumes "on_cpu k t" and "asleep k N S"
  shows "\<exists>k'. sleep_as_writer register ws k = Inr (register t ws, k') \<and> alive k' \<and> asleep k' (insert t N) (insert t S)"
proof -
  obtain k' where k': "pSleep k = Inr k'" "alive k'" "calm {t} k k'" "sleeping k' t" using sleep_on_cpu [OF assms(1)] by blast
  then have "asleep k' (insert t N) (insert t S)" using asleep_sleep [OF assms(2)] by blast
  then show ?thesis using k' on_cpu_cur [OF assms(1)] by (simp add: sleep_as_writer_def del: pCurThread_def pSleep_def)
qed

lemma sleep_as_reader_on_cpu:
  assumes "on_cpu k t" and "asleep k N S" and "readers cs \<subseteq> S" and "multiple_consumers_allowed cs \<or> readers cs \<subseteq> {t}"
  shows "\<exists>cs' k'. sleep_as_reader pSleep cs k = Inr (cs', k') \<and> alive k' \<and> asleep k' (insert t N) (insert t S) \<and>
    readers cs' = insert t (readers cs) \<and> multiple_consumers_allowed cs' = multiple_consumers_allowed cs"
proof -
  obtain k' where k': "pSleep k = Inr k'" "alive k'" "calm {t} k k'" "sleeping k' t" using sleep_on_cpu [OF assms(1)] by blast
  then have "asleep k' (insert t N) (insert t S)" using asleep_sleep [OF assms(2)] by blast
  moreover have "t \<notin> readers cs" using assms on_cpu_cur [OF assms(1)] by (auto simp: asleep_def)
  then obtain cs' where "set_notify t cs = Inr cs'" "readers cs' = insert t (readers cs)"
    "multiple_consumers_allowed cs' = multiple_consumers_allowed cs"
    using assms(4) by (cases cs) auto
  ultimately show ?thesis using k' on_cpu_cur [OF assms(1)]
    by (simp add: sleep_as_reader_def del: pCurThread_def pSleep_def)
qed

section \<open>A program with a channel\<close>

text \<open>Where a thread stands: outside the channel, or inside a read or a write that went to sleep.\<close>

datatype 'd phase = Idle | Reading bool | Writing 'd

definition active :: "(tid \<Rightarrow> 'd phase) \<Rightarrow> tid set" where
  "active ph = {t. ph t \<noteq> Idle}"

lemma active_upd [simp]:
  "active (ph(t := Idle)) = active ph - {t}" "active (ph(t := Reading b)) = insert t (active ph)"
  "active (ph(t := Writing d)) = insert t (active ph)" "active (\<lambda>_. Idle) = {}"
  by (auto simp: active_def)

lemma asleep_idle: "asleep k (active ph) S \<Longrightarrow> asleep k (active (ph(t := Idle))) S"
  by (auto simp: asleep_def)

text \<open>
  The alarm (which never comes while it is blocked), pending kernel code, and user code that moves the
  stack pointer.
\<close>

definition background :: "kernel \<Rightarrow> kernel \<Rightarrow> bool" where
  "background k k' \<longleftrightarrow> in_user k \<and> (\<exists>a. k' = k\<lparr>k_sp := a\<rparr>) \<or>
     in_user k \<and> \<not> cl_alarm_blocked (k_cl k) \<and> preempt_handler k = Inr k' \<or>
     \<not> in_user k \<and> resume k = Inr (True, k')"

text \<open>
  The reachable states of a program whose threads use the channel \<open>c\<close>, with the values put and got so
  far.  \<open>wr\<close> and \<open>rd\<close> are the operations up to their return or first sleep, \<open>wr'\<close> and \<open>rd'\<close> the
  pieces after a wake-up, \<open>waiting\<close> the threads registered with the channel.  Threads that
  may read are given by \<open>mayread\<close>, the flags they may pass (\<^verbatim>\<open>get\<close> or \<^verbatim>\<open>read\<close>) by \<open>flags\<close>.  The
  program wakes only sleeping threads that are not registered with the channel.
\<close>

inductive chan_sys ::
  "('d \<Rightarrow> 'c \<Rightarrow> kernel \<Rightarrow> (bool \<times> 'c \<times> kernel) res) \<Rightarrow> ('d \<Rightarrow> 'c \<Rightarrow> kernel \<Rightarrow> (bool \<times> 'c \<times> kernel) res) \<Rightarrow>
   (bool \<Rightarrow> 'c \<Rightarrow> kernel \<Rightarrow> ('d option \<times> 'c \<times> kernel) res) \<Rightarrow> (bool \<Rightarrow> 'c \<Rightarrow> kernel \<Rightarrow> ('d option \<times> 'c \<times> kernel) res) \<Rightarrow>
   ('c \<Rightarrow> tid set) \<Rightarrow> (tid \<Rightarrow> bool) \<Rightarrow> bool set \<Rightarrow> kernel \<Rightarrow> 'c \<Rightarrow>
   kernel \<Rightarrow> 'c \<Rightarrow> (tid \<Rightarrow> 'd phase) \<Rightarrow> 'd list \<Rightarrow> 'd list \<Rightarrow> bool"
  for wr wr' rd rd' waiting mayread flags k0 c0 where
  sys_start: "chan_sys wr wr' rd rd' waiting mayread flags k0 c0 k0 c0 (\<lambda>_. Idle) [] []"
| sys_call: "chan_sys wr wr' rd rd' waiting mayread flags k0 c0 k c ph ws gs \<Longrightarrow> in_user k \<Longrightarrow> cur k = Some t \<Longrightarrow>
    ph t = Idle \<Longrightarrow> call_ok k u \<Longrightarrow> (\<And>w. u = UWake w \<or> u = UAddReady w \<Longrightarrow> w \<notin> waiting c) \<Longrightarrow> do_call u k = Inr k' \<Longrightarrow>
    chan_sys wr wr' rd rd' waiting mayread flags k0 c0 k' c ph ws gs"
| sys_background: "chan_sys wr wr' rd rd' waiting mayread flags k0 c0 k c ph ws gs \<Longrightarrow> background k k' \<Longrightarrow>
    chan_sys wr wr' rd rd' waiting mayread flags k0 c0 k' c ph ws gs"
| sys_write: "chan_sys wr wr' rd rd' waiting mayread flags k0 c0 k c ph ws gs \<Longrightarrow> in_user k \<Longrightarrow> cur k = Some t \<Longrightarrow>
    f = (if ph t = Idle then wr else wr') \<Longrightarrow> ph t = Idle \<or> ph t = Writing d \<Longrightarrow> f d c k = Inr (b, c', k') \<Longrightarrow>
    chan_sys wr wr' rd rd' waiting mayread flags k0 c0 k' c' (ph(t := if b then Idle else Writing d)) (if b then ws @ [d] else ws) gs"
| sys_read: "chan_sys wr wr' rd rd' waiting mayread flags k0 c0 k c ph ws gs \<Longrightarrow> in_user k \<Longrightarrow> cur k = Some t \<Longrightarrow>
    f = (if ph t = Idle then rd else rd') \<Longrightarrow> ph t = Idle \<and> mayread t \<and> b \<in> flags \<or> ph t = Reading b \<Longrightarrow> f b c k = Inr (r, c', k') \<Longrightarrow>
    chan_sys wr wr' rd rd' waiting mayread flags k0 c0 k' c' (ph(t := if r = None then Reading b else Idle)) ws
      (case r of Some d \<Rightarrow> if b then gs @ [d] else gs | None \<Rightarrow> gs)"

text \<open>The values put and got in a program are those of a run of the channel alone.\<close>

lemma sys_chan_run:
  "chan_sys wr wr' rd rd' waiting mayread flags k0 c0 k c ph ws gs \<Longrightarrow> chan_run {wr, wr'} {rd, rd'} {} c0 ws gs c"
proof (induction rule: chan_sys.induct)
  case (sys_write k c ph ws gs t f d b c' k')
  then have "f \<in> {wr, wr'}" by auto
  then show ?case using sys_write run_put [OF sys_write.IH] run_put_sleep [OF sys_write.IH] by (cases b) auto
next
  case (sys_read k c ph ws gs t f b r c' k')
  then have "f \<in> {rd, rd'}" by auto
  then show ?case using sys_read run_get [OF sys_read.IH] run_read [OF sys_read.IH] run_read_sleep [OF sys_read.IH]
    by (cases r; cases b) auto
qed (auto intro: run_start)

lemma background_alive: "background k k' \<Longrightarrow> alive k \<Longrightarrow> alive k' \<and> calm {} k k'"
proof -
  assume b: "background k k'" and "alive k"
  then obtain R P where r: "running k R P" and off: "alarm_off k" by (auto simp: alive_def)
  show ?thesis
  proof (cases "\<exists>a. k' = k\<lparr>k_sp := a\<rparr>")
    case True
    then have "running k' R P" "calm {} k k'" "alarm_off k'" using running_same [OF r, of k'] calm_cong [of k' k "{}"] off
      by (auto simp: same_core_def parked_def)
    then show ?thesis by (auto simp: alive_def)
  next
    case False
    then have "resume k = Inr (True, k')" using b off by (auto simp: background_def alarm_off_def)
    then show ?thesis using resume_running [OF r] resume_off [OF r _ off] by (auto simp: alive_def)
  qed
qed

text \<open>
  The contract: on a running thread, while the registered threads are asleep, each piece returns, and
  the registered threads are asleep again.
\<close>

locale blocking_channel =
  fixes wr wr' :: "'d \<Rightarrow> 'c \<Rightarrow> kernel \<Rightarrow> (bool \<times> 'c \<times> kernel) res"
    and rd rd' :: "bool \<Rightarrow> 'c \<Rightarrow> kernel \<Rightarrow> ('d option \<times> 'c \<times> kernel) res"
    and waiting :: "'c \<Rightarrow> tid set" and mayread :: "tid \<Rightarrow> bool" and flags :: "bool set"
    and cinv :: "(tid \<Rightarrow> 'd phase) \<Rightarrow> 'c \<Rightarrow> bool"
  assumes write_piece: "on_cpu k t \<Longrightarrow> asleep k (active ph) (waiting c) \<Longrightarrow> cinv ph c \<Longrightarrow> ph t = Idle \<or> ph t = Writing d \<Longrightarrow>
      f = (if ph t = Idle then wr else wr') \<Longrightarrow>
      \<exists>b c' k'. f d c k = Inr (b, c', k') \<and> alive k' \<and> asleep k' (active (ph(t := if b then Idle else Writing d))) (waiting c') \<and>
        cinv (ph(t := if b then Idle else Writing d)) c'"
    and read_piece: "on_cpu k t \<Longrightarrow> asleep k (active ph) (waiting c) \<Longrightarrow> cinv ph c \<Longrightarrow>
      ph t = Idle \<and> mayread t \<and> b \<in> flags \<or> ph t = Reading b \<Longrightarrow> g = (if ph t = Idle then rd else rd') \<Longrightarrow>
      \<exists>r c' k'. g b c k = Inr (r, c', k') \<and> alive k' \<and> asleep k' (active (ph(t := if r = None then Reading b else Idle))) (waiting c') \<and>
        cinv (ph(t := if r = None then Reading b else Idle)) c'"
begin

lemma sys_inv:
  "chan_sys wr wr' rd rd' waiting mayread flags k0 c0 k c ph ws gs \<Longrightarrow> alive k0 \<Longrightarrow> waiting c0 = {} \<Longrightarrow> cinv (\<lambda>_. Idle) c0 \<Longrightarrow>
   alive k \<and> asleep k (active ph) (waiting c) \<and> cinv ph c"
proof (induction rule: chan_sys.induct)
  case sys_start
  then show ?case by (simp add: asleep_def)
next
  case (sys_call k c ph ws gs t u k')
  then have i: "on_cpu k t" "asleep k (active ph) (waiting c)" "cinv ph c" "alive k" using alive_on_cpu by blast+
  obtain R P where "running k R P" "alarm_off k" using i(4) by (auto simp: alive_def)
  then have "alive k' \<and> calm (touched u k) k k'"
    using call_running [of k R P u] call_off [of u k k'] sys_call.hyps by (auto simp: alive_def)
  moreover have "waiting c \<inter> touched u k = {}"
    using sys_call.hyps(3,6) asleep_awake [OF i(2)] on_cpu_cur [OF i(1)] by (cases u) (auto simp: touched_def)
  moreover have "active ph \<inter> touched u k = {}"
    using sys_call.hyps(3-6) i(2) by (cases u) (auto simp: touched_def active_def asleep_def call_ok_def)
  ultimately show ?case using asleep_calm [OF i(2)] i(3) by blast
next
  case (sys_background k c ph ws gs k')
  then show ?case using background_alive [of k k'] asleep_calm [of k "active ph" "waiting c" "{}" k'] by auto
next
  case (sys_write k c ph ws gs t f d b c' k')
  then have i: "on_cpu k t" "asleep k (active ph) (waiting c)" "cinv ph c" using alive_on_cpu by blast+
  obtain b1 c1 k1 where p: "f d c k = Inr (b1, c1, k1)" "alive k1" "asleep k1 (active (ph(t := if b1 then Idle else Writing d))) (waiting c1)"
    "cinv (ph(t := if b1 then Idle else Writing d)) c1"
    using write_piece [OF i sys_write.hyps(5,4)] by blast
  moreover have "b1 = b" "c1 = c'" "k1 = k'" using p(1) sys_write.hyps(6) by simp_all
  ultimately show ?case by blast
next
  case (sys_read k c ph ws gs t f b r c' k')
  then have i: "on_cpu k t" "asleep k (active ph) (waiting c)" "cinv ph c" using alive_on_cpu by blast+
  obtain r1 c1 k1 where p: "f b c k = Inr (r1, c1, k1)" "alive k1" "asleep k1 (active (ph(t := if r1 = None then Reading b else Idle))) (waiting c1)"
    "cinv (ph(t := if r1 = None then Reading b else Idle)) c1"
    using read_piece [OF i sys_read.hyps(5,4)] by blast
  moreover have "r1 = r" "c1 = c'" "k1 = k'" using p(1) sys_read.hyps(6) by simp_all
  ultimately show ?case by blast
qed

lemma sys_safe:
  assumes "chan_sys wr wr' rd rd' waiting mayread flags k0 c0 k c ph ws gs" and "alive k0" and "waiting c0 = {}" and "cinv (\<lambda>_. Idle) c0"
    and "in_user k" and "cur k = Some t"
  shows "ph t = Idle \<Longrightarrow> \<exists>z. wr d c k = Inr z"
    and "ph t = Writing d \<Longrightarrow> \<exists>z. wr' d c k = Inr z"
    and "ph t = Idle \<Longrightarrow> mayread t \<Longrightarrow> b \<in> flags \<Longrightarrow> \<exists>z. rd b c k = Inr z"
    and "ph t = Reading b \<Longrightarrow> \<exists>z. rd' b c k = Inr z"
proof -
  have i: "on_cpu k t" "asleep k (active ph) (waiting c)" "cinv ph c"
    using sys_inv [OF assms(1-4)] alive_on_cpu assms(5,6) by blast+
  show "\<exists>z. wr d c k = Inr z" if "ph t = Idle" using write_piece [OF i, of d] that by fastforce
  show "\<exists>z. wr' d c k = Inr z" if "ph t = Writing d" using write_piece [OF i, of d] that by fastforce
  show "\<exists>z. rd b c k = Inr z" if "ph t = Idle" "mayread t" "b \<in> flags" using read_piece [OF i, of b] that by fastforce
  show "\<exists>z. rd' b c k = Inr z" if "ph t = Reading b" using read_piece [OF i, of b] that by fastforce
qed

end

section \<open>Registration\<close>

text \<open>
  Registered threads are inside an operation; with \<^verbatim>\<open>SingleConsumerChannel\<close> only the thread \<open>one\<close> reads.
  \<open>pend_readers\<close> and \<open>pend_writers\<close> are the threads that were woken and have not gone on yet.
\<close>

definition reg_ok :: "(tid set \<Rightarrow> tid) \<Rightarrow> tid \<Rightarrow> bool set \<Rightarrow> (tid \<Rightarrow> 'd phase) \<Rightarrow> consumers \<Rightarrow> writers \<Rightarrow> bool" where
  "reg_ok bg one flags ph cs ws \<longleftrightarrow> begin_ok bg \<and> finite {t. ph t \<noteq> Idle} \<and> distinct ws \<and>
     (\<forall>t\<in>readers cs. \<exists>b. ph t = Reading b) \<and> (\<forall>t\<in>set ws. \<exists>d. ph t = Writing d) \<and>
     (\<forall>t b. ph t = Reading b \<longrightarrow> b \<in> flags \<and> (multiple_consumers_allowed cs \<or> t = one))"

definition pend_readers :: "(tid \<Rightarrow> 'd phase) \<Rightarrow> consumers \<Rightarrow> tid set" where
  "pend_readers ph cs = {t. (\<exists>b. ph t = Reading b) \<and> t \<notin> readers cs}"

definition pend_writers :: "(tid \<Rightarrow> 'd phase) \<Rightarrow> writers \<Rightarrow> tid set" where
  "pend_writers ph ws = {t. (\<exists>d. ph t = Writing d) \<and> t \<notin> set ws}"

lemma reg_disjoint: "reg_ok bg one flags ph cs ws \<Longrightarrow> readers cs \<inter> set ws = {}"
  by (fastforce simp: reg_ok_def)

lemma reg_finite: "reg_ok bg one flags ph cs ws \<Longrightarrow> finite (readers cs)"
  by (rule finite_subset [of _ "{t. ph t \<noteq> Idle}"]) (fastforce simp: reg_ok_def)+

lemma finite_pend: "reg_ok bg one flags ph cs ws \<Longrightarrow> finite (pend_writers ph vs)"
  by (rule finite_subset [of _ "{t. ph t \<noteq> Idle}"]) (fastforce simp: reg_ok_def pend_writers_def)+

lemma reg_fewer:
  "reg_ok bg one flags ph cs ws \<Longrightarrow> readers cs' \<subseteq> readers cs \<Longrightarrow>
   multiple_consumers_allowed cs' = multiple_consumers_allowed cs \<Longrightarrow> reg_ok bg one flags ph cs' (if go then tl ws else ws)"
  by (auto simp: reg_ok_def distinct_tl dest: list.set_sel(2) [rotated])
    (metis empty_iff list.set(1) list.set_sel(2) list.sel(2))+

lemma finite_phases: "finite {t. ph t \<noteq> Idle} \<Longrightarrow> finite {u. (ph(t := x)) u \<noteq> Idle}"
  by (rule finite_subset [of _ "insert t {t. ph t \<noteq> Idle}"]) auto

lemma reg_idle:
  "reg_ok bg one flags ph cs ws \<Longrightarrow> t \<notin> readers cs \<Longrightarrow> t \<notin> set ws \<Longrightarrow> reg_ok bg one flags (ph(t := Idle)) cs ws"
  unfolding reg_ok_def by (intro conjI finite_phases) auto

lemma reg_writer:
  "reg_ok bg one flags ph cs ws \<Longrightarrow> t \<notin> readers cs \<Longrightarrow> t \<notin> set ws \<Longrightarrow> 
   reg_ok bg one flags (ph(t := Writing d)) cs (ws @ [t])"
  unfolding reg_ok_def by (intro conjI finite_phases) auto

lemma reg_reader:
  "reg_ok bg one flags ph cs ws \<Longrightarrow> t \<notin> set ws \<Longrightarrow> b \<in> flags \<Longrightarrow> multiple_consumers_allowed cs \<or> t = one \<Longrightarrow>
   readers cs' = insert t (readers cs) \<Longrightarrow> multiple_consumers_allowed cs' = multiple_consumers_allowed cs \<Longrightarrow>
   reg_ok bg one flags (ph(t := Reading b)) cs' ws"
  unfolding reg_ok_def by (intro conjI finite_phases) auto

text \<open>The kernel calls of a channel keep the registration.\<close>

lemma release_step:
  assumes "on_cpu k t" and "asleep k (active ph) (readers cs \<union> set ws)" and "reg_ok bg one flags ph cs ws"
  shows "\<exists>k'. release_writer go ws k = Inr (if go then tl ws else ws, k') \<and> on_cpu k' t \<and>
    asleep k' (active ph) (readers cs \<union> set (if go then tl ws else ws)) \<and> reg_ok bg one flags ph cs (if go then tl ws else ws)"
proof -
  have "distinct ws" using assms(3) by (simp add: reg_ok_def)
  then show ?thesis
    using release_writer_on_cpu [OF assms(1,2) _ reg_disjoint [OF assms(3)], of go] reg_fewer [OF assms(3) order_refl refl, of go]
    by blast
qed

lemma wake_step:
  assumes "on_cpu k t" and "asleep k (active ph) (readers cs \<union> set ws)" and "reg_ok bg one flags ph cs ws"
  shows "\<exists>cs' k'. wake_reader bg pWake cs k = Inr (cs', k') \<and> on_cpu k' t \<and> asleep k' (active ph) (readers cs' \<union> set ws) \<and>
    reg_ok bg one flags ph cs' ws \<and> (readers cs' \<noteq> {} \<longrightarrow> readers cs \<noteq> {}) \<and> (readers cs \<noteq> {} \<longrightarrow> pend_readers ph cs' \<noteq> {}) \<and>
    multiple_consumers_allowed cs' = multiple_consumers_allowed cs \<and> readers cs' \<subseteq> readers cs"
proof -
  have "begin_ok bg" using assms(3) by (simp add: reg_ok_def)
  then obtain cs' k' where w: "wake_reader bg pWake cs k = Inr (cs', k')" "on_cpu k' t" "asleep k' (active ph) (readers cs' \<union> set ws)"
    "readers cs' \<subseteq> readers cs" "readers cs \<noteq> {} \<longrightarrow> readers cs' \<noteq> readers cs"
    "multiple_consumers_allowed cs' = multiple_consumers_allowed cs"
    using wake_reader_on_cpu [OF assms(1,2) reg_disjoint [OF assms(3)] reg_finite [OF assms(3)]] by blast
  have "pend_readers ph cs' \<noteq> {}" if "readers cs \<noteq> {}"
  proof -
    have "readers cs' \<noteq> readers cs" using that w(5) by simp
    then obtain u where "u \<in> readers cs" "u \<notin> readers cs'" using w(4) by auto
    then show ?thesis using assms(3) by (fastforce simp: pend_readers_def reg_ok_def)
  qed
  then show ?thesis using w reg_fewer [OF assms(3) w(4,6), of False] by auto
qed

lemma writer_sleep_step:
  assumes "on_cpu k t" and "asleep k (active ph) (readers cs \<union> set ws)" and "reg_ok bg one flags ph cs ws"
  shows "\<exists>k'. sleep_as_writer set_writenotify ws k = Inr (ws @ [t], k') \<and> alive k' \<and> asleep k' (active (ph(t := Writing d))) (readers cs \<union> set (ws @ [t])) \<and>
    reg_ok bg one flags (ph(t := Writing d)) cs (ws @ [t])"
proof -
  have "t \<notin> readers cs \<union> set ws" using assms(1,2) on_cpu_cur asleep_awake by blast
  then show ?thesis
    using sleep_as_writer_on_cpu [OF assms(1,2), of set_writenotify ws] reg_writer [OF assms(3), of t d]
    by (auto simp: set_writenotify_def)
qed

lemma reader_sleep_step:
  assumes "on_cpu k t" and "asleep k (active ph) (readers cs \<union> set ws)" and "reg_ok bg one flags ph cs ws"
    and "b \<in> flags" and "multiple_consumers_allowed cs \<or> t = one"
  shows "\<exists>cs' k'. sleep_as_reader pSleep cs k = Inr (cs', k') \<and> alive k' \<and> asleep k' (active (ph(t := Reading b))) (readers cs' \<union> set ws) \<and>
    reg_ok bg one flags (ph(t := Reading b)) cs' ws \<and> readers cs' = insert t (readers cs) \<and>
    multiple_consumers_allowed cs' = multiple_consumers_allowed cs"
proof -
  have t: "t \<notin> readers cs \<union> set ws" using assms(1,2) on_cpu_cur asleep_awake by blast
  have "multiple_consumers_allowed cs \<or> readers cs \<subseteq> {t}" using assms(3,5) by (auto simp: reg_ok_def)
  then obtain cs' k' where r: "sleep_as_reader pSleep cs k = Inr (cs', k')" "alive k'" "asleep k' (insert t (active ph)) (insert t (readers cs \<union> set ws))"
    "readers cs' = insert t (readers cs)" "multiple_consumers_allowed cs' = multiple_consumers_allowed cs"
    using sleep_as_reader_on_cpu [OF assms(1,2)] by blast
  then show ?thesis using reg_reader [OF assms(3) _ assms(4,5) r(4,5)] t by auto
qed

lemma clear_notify_same:
  assumes "reg_ok bg one flags ph cs ws" and "t \<notin> readers cs" and "ph t = Reading b"
  shows "clear_notify t cs = cs"
proof (cases cs)
  case (SingleConsumer r)
  then have "u = one" if "r = Some u" for u using assms(1) that by (auto simp: reg_ok_def)
  moreover have "t = one" using assms(1,3) SingleConsumer by (auto simp: reg_ok_def)
  ultimately show ?thesis using assms(2) SingleConsumer by (cases r) auto
qed (use assms(2) in simp)

text \<open>A released writer is pending.\<close>

lemma pend_tl: "reg_ok bg one flags ph cs ws \<Longrightarrow> ws \<noteq> [] \<Longrightarrow> pend_writers ph (tl ws) = insert (hd ws) (pend_writers ph ws)"
  by (cases ws) (auto simp: reg_ok_def pend_writers_def)

section \<open>Channel\<close>

definition ch_waiting :: "'d channel \<Rightarrow> tid set" where
  "ch_waiting c = readers (ch_cons c) \<union> set (ch_writers c)"

text \<open>
  No wake-up is lost: a full channel with a sleeping reader has a reader that was woken, an empty one
  with a sleeping writer a writer that was woken.  The first needs that every read takes the
  value (\<^verbatim>\<open>get\<close>): \<^verbatim>\<open>read\<close> leaves it there and wakes nobody.
\<close>

definition ch_cinv :: "(tid set \<Rightarrow> tid) \<Rightarrow> bool \<Rightarrow> tid \<Rightarrow> bool set \<Rightarrow> (tid \<Rightarrow> 'd phase) \<Rightarrow> 'd channel \<Rightarrow> bool" where
  "ch_cinv bg m one flags ph c \<longleftrightarrow> reg_ok bg one flags ph (ch_cons c) (ch_writers c) \<and>
     multiple_consumers_allowed (ch_cons c) = m \<and>
     (False \<notin> flags \<longrightarrow> ch_ready c \<longrightarrow> readers (ch_cons c) \<noteq> {} \<longrightarrow> pend_readers ph (ch_cons c) \<noteq> {}) \<and>
     (\<not> ch_ready c \<longrightarrow> ch_writers c \<noteq> [] \<longrightarrow> pend_writers ph (ch_writers c) \<noteq> {})"

lemma ch_write_loop_sys:
  assumes "on_cpu k t" and "asleep k (active ph) (ch_waiting c)" and "ch_cinv bg m one flags ph c" and "\<forall>b. ph t \<noteq> Reading b"
  shows "\<exists>b c' k'. ch_write_loop bg pWake d c k = Inr (b, c', k') \<and> alive k' \<and> asleep k' (active (ph(t := if b then Idle else Writing d))) (ch_waiting c') \<and>
    ch_cinv bg m one flags (ph(t := if b then Idle else Writing d)) c'"
proof -
  note i = assms(3) [unfolded ch_cinv_def]
  have reg: "reg_ok bg one flags ph (ch_cons c) (ch_writers c)" and sl: "asleep k (active ph) (readers (ch_cons c) \<union> set (ch_writers c))"
    using i assms(2) by (simp_all add: ch_waiting_def)
  have t: "t \<notin> set (ch_writers c)" "t \<notin> readers (ch_cons c)" using sl on_cpu_cur [OF assms(1)] by (auto simp: asleep_def)
  have keep: "pend_readers ph cs \<noteq> {} \<Longrightarrow> pend_readers (ph(t := x)) cs \<noteq> {}" for cs x
    using assms(4) by (auto simp: pend_readers_def)
  show ?thesis
  proof (cases "ch_ready c")
    case True
    obtain k' where "sleep_as_writer set_writenotify (ch_writers c) k = Inr (ch_writers c @ [t], k')" "alive k'"
      "asleep k' (active (ph(t := Writing d))) (readers (ch_cons c) \<union> set (ch_writers c @ [t]))"
      "reg_ok bg one flags (ph(t := Writing d)) (ch_cons c) (ch_writers c @ [t])"
      using writer_sleep_step [OF assms(1) sl reg] by blast
    then show ?thesis using True i keep by (auto simp: ch_write_loop_def ch_cinv_def ch_waiting_def)
  next
    case False
    obtain cs' k' where w: "wake_reader bg pWake (ch_cons c) k = Inr (cs', k')" "on_cpu k' t"
      "asleep k' (active ph) (readers cs' \<union> set (ch_writers c))" "reg_ok bg one flags ph cs' (ch_writers c)"
      "readers cs' \<noteq> {} \<longrightarrow> pend_readers ph cs' \<noteq> {}" "multiple_consumers_allowed cs' = m" "readers cs' \<subseteq> readers (ch_cons c)"
      using wake_step [OF assms(1) sl reg] i by metis
    have "reg_ok bg one flags (ph(t := Idle)) cs' (ch_writers c)" using reg_idle [OF w(4)] t w(7) by blast
    moreover have "asleep k' (active (ph(t := Idle))) (readers cs' \<union> set (ch_writers c))" using w(3) by (rule asleep_idle)
    ultimately show ?thesis using False w keep [of cs' Idle] on_cpu_alive by (auto simp: ch_write_loop_def ch_cinv_def ch_waiting_def)
  qed
qed

lemma ch_read_loop_sys:
  assumes "on_cpu k t" and "asleep k (active ph) (ch_waiting c)" and "ch_cinv bg m one flags ph c" and "\<forall>d. ph t \<noteq> Writing d"
    and "b \<in> flags" and "m \<or> t = one"
  shows "\<exists>r c' k'. ch_read_loop b c k = Inr (r, c', k') \<and> alive k' \<and> asleep k' (active (ph(t := if r = None then Reading b else Idle))) (ch_waiting c') \<and>
    ch_cinv bg m one flags (ph(t := if r = None then Reading b else Idle)) c'"
proof -
  note i = assms(3) [unfolded ch_cinv_def]
  have reg: "reg_ok bg one flags ph (ch_cons c) (ch_writers c)" and sl: "asleep k (active ph) (readers (ch_cons c) \<union> set (ch_writers c))"
    using i assms(2) by (simp_all add: ch_waiting_def)
  have t: "t \<notin> set (ch_writers c)" "t \<notin> readers (ch_cons c)" using sl on_cpu_cur [OF assms(1)] by (auto simp: asleep_def)
  have keep: "pend_writers ph ws \<noteq> {} \<Longrightarrow> pend_writers (ph(t := x)) ws \<noteq> {}" for ws x
    using assms(4) by (auto simp: pend_writers_def)
  show ?thesis
  proof (cases "ch_ready c")
    case True
    let ?ws = "if b then tl (ch_writers c) else ch_writers c"
    obtain k' where r: "release_writer b (ch_writers c) k = Inr (?ws, k')" "on_cpu k' t"
      "asleep k' (active ph) (readers (ch_cons c) \<union> set ?ws)" "reg_ok bg one flags ph (ch_cons c) ?ws"
      using release_step [OF assms(1) sl reg] by blast
    have "t \<notin> set ?ws" using t by (auto dest: list.set_sel(2) [rotated]) (metis empty_iff list.set(1) list.set_sel(2) tl_Nil)
    then have "reg_ok bg one flags (ph(t := Idle)) (ch_cons c) ?ws" using reg_idle [OF r(4)] t by blast
    moreover have "pend_writers (ph(t := Idle)) (tl (ch_writers c)) \<noteq> {}" if "tl (ch_writers c) \<noteq> []"
      by (rule keep) (use pend_tl [OF reg] that in \<open>metis insert_not_empty tl_Nil\<close>)
    moreover have "asleep k' (active (ph(t := Idle))) (readers (ch_cons c) \<union> set ?ws)" using r(3) by (rule asleep_idle)
    ultimately show ?thesis using True r assms(5) i on_cpu_alive
      by (cases b) (auto simp: ch_read_loop_def ch_take_def ch_cinv_def ch_waiting_def Let_def)
  next
    case False
    obtain cs' k' where w: "sleep_as_reader pSleep (ch_cons c) k = Inr (cs', k')" "alive k'"
      "asleep k' (active (ph(t := Reading b))) (readers cs' \<union> set (ch_writers c))" "reg_ok bg one flags (ph(t := Reading b)) cs' (ch_writers c)"
      "multiple_consumers_allowed cs' = m"
      using reader_sleep_step [OF assms(1) sl reg assms(5)] assms(6) i by blast
    then show ?thesis using False i keep by (auto simp: ch_read_loop_def ch_cinv_def ch_waiting_def)
  qed
qed

lemma ch_write_sys:
  assumes "on_cpu k t" and "asleep k (active ph) (ch_waiting c)" and "ch_cinv bg m one flags ph c" and "\<forall>b. ph t \<noteq> Reading b"
  shows "\<exists>b c' k'. ch_write bg pWake d c k = Inr (b, c', k') \<and> alive k' \<and> asleep k' (active (ph(t := if b then Idle else Writing d))) (ch_waiting c') \<and>
    ch_cinv bg m one flags (ph(t := if b then Idle else Writing d)) c'"
proof -
  note i = assms(3) [unfolded ch_cinv_def]
  have reg: "reg_ok bg one flags ph (ch_cons c) (ch_writers c)" and sl: "asleep k (active ph) (readers (ch_cons c) \<union> set (ch_writers c))"
    using i assms(2) by (simp_all add: ch_waiting_def)
  obtain cs' k' where w: "wake_reader bg pWake (ch_cons c) k = Inr (cs', k')" "on_cpu k' t"
    "asleep k' (active ph) (readers cs' \<union> set (ch_writers c))" "reg_ok bg one flags ph cs' (ch_writers c)"
    "readers cs' \<noteq> {} \<longrightarrow> pend_readers ph cs' \<noteq> {}" "multiple_consumers_allowed cs' = m"
    using wake_step [OF assms(1) sl reg] i by metis
  let ?c = "c\<lparr>ch_cons := cs'\<rparr>"
  have "asleep k' (active ph) (ch_waiting ?c)" "ch_cinv bg m one flags ph ?c" using w i by (simp_all add: ch_waiting_def ch_cinv_def)
  from ch_write_loop_sys [OF w(2) this assms(4), of d] show ?thesis using w(1) by (simp add: ch_write_def)
qed

lemma ch_read_internal_sys:
  assumes "on_cpu k t" and "asleep k (active ph) (ch_waiting c)" and "ch_cinv bg m one flags ph c" and "\<forall>d. ph t \<noteq> Writing d"
    and "b \<in> flags" and "m \<or> t = one"
  shows "\<exists>r c' k'. ch_read_internal b c k = Inr (r, c', k') \<and> alive k' \<and> asleep k' (active (ph(t := if r = None then Reading b else Idle))) (ch_waiting c') \<and>
    ch_cinv bg m one flags (ph(t := if r = None then Reading b else Idle)) c'"
proof -
  note i = assms(3) [unfolded ch_cinv_def]
  have reg: "reg_ok bg one flags ph (ch_cons c) (ch_writers c)" and sl: "asleep k (active ph) (readers (ch_cons c) \<union> set (ch_writers c))"
    using i assms(2) by (simp_all add: ch_waiting_def)
  let ?ws = "if b then tl (ch_writers c) else ch_writers c"
  obtain k' where r: "release_writer b (ch_writers c) k = Inr (?ws, k')" "on_cpu k' t"
    "asleep k' (active ph) (readers (ch_cons c) \<union> set ?ws)" "reg_ok bg one flags ph (ch_cons c) ?ws"
    using release_step [OF assms(1) sl reg] by blast
  let ?c = "c\<lparr>ch_writers := ?ws\<rparr>"
  have "pend_writers ph (tl (ch_writers c)) \<noteq> {}" if "tl (ch_writers c) \<noteq> []"
    using pend_tl [OF reg] that by (metis insert_not_empty tl_Nil)
  then have "asleep k' (active ph) (ch_waiting ?c)" "ch_cinv bg m one flags ph ?c" using r i by (auto simp: ch_waiting_def ch_cinv_def)
  from ch_read_loop_sys [OF r(2) this assms(4-6)] show ?thesis using r(1) by (simp add: ch_read_internal_def)
qed

lemma ch_read_resume_sys:
  assumes "on_cpu k t" and "asleep k (active ph) (ch_waiting c)" and "ch_cinv bg m one flags ph c" and "ph t = Reading b"
  shows "\<exists>r c' k'. ch_read_resume b c k = Inr (r, c', k') \<and> alive k' \<and> asleep k' (active (ph(t := if r = None then Reading b else Idle))) (ch_waiting c') \<and>
    ch_cinv bg m one flags (ph(t := if r = None then Reading b else Idle)) c'"
proof -
  have reg: "reg_ok bg one flags ph (ch_cons c) (ch_writers c)" using assms(3) by (simp add: ch_cinv_def)
  have "t \<notin> readers (ch_cons c)" using assms(1,2) on_cpu_cur by (auto simp: asleep_def ch_waiting_def)
  then have "c\<lparr>ch_cons := clear_notify t (ch_cons c)\<rparr> = c" using clear_notify_same [OF reg _ assms(4)] by simp
  then have "ch_read_resume b c k = ch_read_loop b c k"
    using on_cpu_cur [OF assms(1)] by (simp add: ch_read_resume_def del: pCurThread_def)
  moreover have "b \<in> flags" "m \<or> t = one" using reg assms(3,4) by (auto simp: ch_cinv_def reg_ok_def)
  ultimately show ?thesis using ch_read_loop_sys [OF assms(1-3)] assms(4) by simp
qed

interpretation chs: blocking_channel "ch_write bg pWake" "ch_write_loop bg pWake" ch_read_internal ch_read_resume
  ch_waiting "\<lambda>t. m \<or> t = one" flags "ch_cinv bg m one flags :: (tid \<Rightarrow> 'd phase) \<Rightarrow> 'd channel \<Rightarrow> bool"
proof
  fix k t ph and d :: 'd and c :: "'d channel" and f
  assume s: "on_cpu k t" "asleep k (active ph) (ch_waiting c)" "ch_cinv bg m one flags ph c" and p: "ph t = Idle \<or> ph t = Writing d"
    and f: "f = (if ph t = Idle then ch_write bg pWake else ch_write_loop bg pWake :: 'd \<Rightarrow> 'd channel \<Rightarrow> _)"
  have nr: "\<forall>b. ph t \<noteq> Reading b" using p by auto
  show "\<exists>b c' k'. f d c k = Inr (b, c', k') \<and> alive k' \<and> asleep k' (active (ph(t := if b then Idle else Writing d))) (ch_waiting c') \<and>
      ch_cinv bg m one flags (ph(t := if b then Idle else Writing d)) c'"
    unfolding f using ch_write_sys [OF s nr, of d] ch_write_loop_sys [OF s nr, of d] by presburger
next
  fix k t b and c :: "'d channel" and g and ph :: "tid \<Rightarrow> 'd phase"
  assume s: "on_cpu k t" "asleep k (active ph) (ch_waiting c)" "ch_cinv bg m one flags ph c"
    and p: "ph t = Idle \<and> (m \<or> t = one) \<and> b \<in> flags \<or> ph t = Reading b"
    and g: "g = (if ph t = Idle then ch_read_internal else ch_read_resume :: bool \<Rightarrow> 'd channel \<Rightarrow> _)"
  show "\<exists>r c' k'. g b c k = Inr (r, c', k') \<and> alive k' \<and> asleep k' (active (ph(t := if r = None then Reading b else Idle))) (ch_waiting c') \<and>
      ch_cinv bg m one flags (ph(t := if r = None then Reading b else Idle)) c'"
  proof (cases "ph t = Idle")
    case True
    then have "g = ch_read_internal" "b \<in> flags" "m \<or> t = one" "\<forall>d. ph t \<noteq> Writing d" using p g by auto
    then show ?thesis using ch_read_internal_sys [OF s] by blast
  next
    case False
    then have "g = ch_read_resume" "ph t = Reading b" using p g by auto
    then show ?thesis using ch_read_resume_sys [OF s] by blast
  qed
qed

end
