(* ===== verification/Chan_System.thy ===== *)
theory Chan_System
  imports Chan_Kernel
begin

text \<open>
  \<^verbatim>\<open>QueueChan\<close> with one consumer on the running kernel, and the properties of programs with a \<^verbatim>\<open>Channel\<close>
  or a \<^verbatim>\<open>QueueChan\<close>.
\<close>

section \<open>QueueChan\<close>

definition qc_waiting :: "'d qchan \<Rightarrow> tid set" where
  "qc_waiting c = readers (qc_cons c) \<union> set (qc_writers c)"

text \<open>
  At least as many writers have been woken as there are free places, as long as any writer sleeps; a
  stored value means that the reader does not sleep.
\<close>

definition qc_open :: "(tid set \<Rightarrow> tid) \<Rightarrow> tid \<Rightarrow> bool set \<Rightarrow> (tid \<Rightarrow> 'd phase) \<Rightarrow> 'd qchan \<Rightarrow> bool" where
  "qc_open bg one flags ph c \<longleftrightarrow> qc_inv c \<and> qc_maxsize c \<noteq> 0 \<and>
     reg_ok bg one flags ph (qc_cons c) (qc_writers c) \<and> \<not> multiple_consumers_allowed (qc_cons c) \<and>
     (qc_store c \<noteq> [] \<longrightarrow> readers (qc_cons c) = {}) \<and>
     (qc_writers c \<noteq> [] \<longrightarrow> unat (qc_maxsize c) \<le> length (qc_store c) + card (pend_writers ph (qc_writers c)))"

definition qc_cinv :: "(tid set \<Rightarrow> tid) \<Rightarrow> tid \<Rightarrow> bool set \<Rightarrow> (tid \<Rightarrow> 'd phase) \<Rightarrow> 'd qchan \<Rightarrow> bool" where
  "qc_cinv bg one flags ph c \<longleftrightarrow> qc_open bg one flags ph c \<and>
     (pend_readers ph (qc_cons c) \<noteq> {} \<longrightarrow> qc_store c \<noteq> [])"

lemma qc_size_unat: "qc_inv c \<Longrightarrow> unat (qc_size c) = length (qc_store c)"
  by (simp add: qc_inv_def unat_of_nat_u32)

lemma qc_ready_iff: "qc_inv c \<Longrightarrow> qc_ready c \<longleftrightarrow> qc_store c \<noteq> []"
  by (auto simp: qc_ready_def qc_empty_def qc_inv_def size_zero_iff)

lemma qc_full_iff: "qc_inv c \<Longrightarrow> qc_maxsize c \<noteq> 0 \<Longrightarrow> qc_full c \<longleftrightarrow> unat (qc_maxsize c) \<le> length (qc_store c)"
  by (simp add: qc_full_def word_le_nat_alt qc_size_unat)

lemma wake_single:
  "wake_reader bg wake cs k = Inr (cs', k') \<Longrightarrow> \<not> multiple_consumers_allowed cs \<Longrightarrow> readers cs' = {}"
  by (cases cs) (auto simp: wake_reader_def split: if_splits)

lemma card_pend_idle:
  assumes "reg_ok bg one flags ph cs ws"
  shows "card (pend_writers ph vs) \<le> Suc (card (pend_writers (ph(t := Idle)) vs))"
proof -
  have "card (pend_writers ph vs) - 1 \<le> card (pend_writers ph vs - {t})"
    using finite_pend [OF assms, of vs] by (cases "t \<in> pend_writers ph vs") simp_all
  also have "pend_writers ph vs - {t} = pend_writers (ph(t := Idle)) vs" by (auto simp: pend_writers_def)
  finally show ?thesis by simp
qed

lemma card_pend_other:
  assumes "\<forall>d. ph t \<noteq> Writing d" and "\<forall>d. x \<noteq> Writing d"
  shows "pend_writers (ph(t := x)) ws = pend_writers ph ws"
  using assms by (auto simp: pend_writers_def)

lemma card_pend_tl:
  assumes "reg_ok bg one flags ph cs ws" and "ws \<noteq> []"
  shows "card (pend_writers ph (tl ws)) = Suc (card (pend_writers ph ws))"
proof -
  have "hd ws \<notin> pend_writers ph ws" using assms(2) by (simp add: pend_writers_def)
  then show ?thesis using pend_tl [OF assms] finite_pend [OF assms(1), of ws] by simp
qed

lemma qc_write_loop_sys:
  assumes "on_cpu k t" and "asleep k (active ph) (qc_waiting c)" and "qc_open bg one flags ph c" and "\<forall>b. ph t \<noteq> Reading b"
  shows "\<exists>b c' k'. qc_write_loop bg d c k = Inr (b, c', k') \<and> alive k' \<and> asleep k' (active (ph(t := if b then Idle else Writing d))) (qc_waiting c') \<and>
    qc_cinv bg one flags (ph(t := if b then Idle else Writing d)) c'"
proof -
  note i = assms(3) [unfolded qc_open_def]
  have inv: "qc_inv c" and mx: "qc_maxsize c \<noteq> 0" using i by auto
  have mu: "unat (qc_maxsize c) \<noteq> 0" using mx by (simp add: unat_eq_zero)
  have reg: "reg_ok bg one flags ph (qc_cons c) (qc_writers c)" and sl: "asleep k (active ph) (readers (qc_cons c) \<union> set (qc_writers c))"
    using i assms(2) by (simp_all add: qc_waiting_def)
  have t: "t \<notin> set (qc_writers c)" "t \<notin> readers (qc_cons c)" using sl on_cpu_cur [OF assms(1)] by (auto simp: asleep_def)
  show ?thesis
  proof (cases "qc_full c")
    case True
    then have full: "unat (qc_maxsize c) \<le> length (qc_store c)" using qc_full_iff [OF inv mx] by simp
    obtain k' where w: "sleep_as_writer set_writenotify (qc_writers c) k = Inr (qc_writers c @ [t], k')" "alive k'"
      "asleep k' (active (ph(t := Writing d))) (readers (qc_cons c) \<union> set (qc_writers c @ [t]))"
      "reg_ok bg one flags (ph(t := Writing d)) (qc_cons c) (qc_writers c @ [t])"
      using writer_sleep_step [OF assms(1) sl reg] by blast
    have "qc_cinv bg one flags (ph(t := Writing d)) (c\<lparr>qc_writers := qc_writers c @ [t]\<rparr>)"
      unfolding qc_cinv_def qc_open_def using w(4) i full mu by auto
    then show ?thesis using True w by (auto simp: qc_write_loop_def qc_waiting_def)
  next
    case False
    then have room: "length (qc_store c) < unat (qc_maxsize c)" using qc_full_iff [OF inv mx] by simp
    have sz: "qc_size c + 1 \<le> qc_maxsize c" using False mx by (simp add: qc_full_def inc_size_le)
    let ?c = "c\<lparr>qc_store := d # qc_store c, qc_size := qc_size c + 1\<rparr>"
    have inv': "qc_inv ?c" using inv sz room unat_lt_u32 [of "qc_maxsize c"] by (simp add: qc_inv_def add.commute)
    obtain cs' k' where w: "wake_reader bg pWake (qc_cons c) k = Inr (cs', k')" "on_cpu k' t"
      "asleep k' (active ph) (readers cs' \<union> set (qc_writers c))" "reg_ok bg one flags ph cs' (qc_writers c)"
      "\<not> multiple_consumers_allowed cs'" "readers cs' \<subseteq> readers (qc_cons c)"
      using wake_step [OF assms(1) sl reg] i by metis
    have e: "readers cs' = {}" using wake_single [OF w(1)] i by blast
    have "reg_ok bg one flags (ph(t := Idle)) cs' (qc_writers c)" using reg_idle [OF w(4)] t w(6) by blast
    then have "qc_cinv bg one flags (ph(t := Idle)) (?c\<lparr>qc_cons := cs'\<rparr>)"
      unfolding qc_cinv_def qc_open_def using inv' mx w(5) e i card_pend_idle [OF reg, of "qc_writers c" t] by auto
    moreover have "asleep k' (active (ph(t := Idle))) (readers cs' \<union> set (qc_writers c))" using w(3) by (rule asleep_idle)
    ultimately show ?thesis using False w sz on_cpu_alive
      by (auto simp: qc_write_loop_def qc_check_size_def qc_waiting_def Let_def)
  qed
qed

lemma qc_write_sys:
  assumes "on_cpu k t" and "asleep k (active ph) (qc_waiting c)" and "qc_open bg one flags ph c" and "\<forall>b. ph t \<noteq> Reading b"
  shows "\<exists>b c' k'. qc_write bg d c k = Inr (b, c', k') \<and> alive k' \<and> asleep k' (active (ph(t := if b then Idle else Writing d))) (qc_waiting c') \<and>
    qc_cinv bg one flags (ph(t := if b then Idle else Writing d)) c'"
proof -
  note i = assms(3) [unfolded qc_open_def]
  have reg: "reg_ok bg one flags ph (qc_cons c) (qc_writers c)" and sl: "asleep k (active ph) (readers (qc_cons c) \<union> set (qc_writers c))"
    using i assms(2) by (simp_all add: qc_waiting_def)
  obtain cs' k' where w: "wake_reader bg pWake (qc_cons c) k = Inr (cs', k')" "on_cpu k' t"
    "asleep k' (active ph) (readers cs' \<union> set (qc_writers c))" "reg_ok bg one flags ph cs' (qc_writers c)"
    "\<not> multiple_consumers_allowed cs'"
    using wake_step [OF assms(1) sl reg] i by metis
  let ?c = "c\<lparr>qc_cons := cs'\<rparr>"
  have "asleep k' (active ph) (qc_waiting ?c)" "qc_open bg one flags ph ?c"
    using w i wake_single [OF w(1)] by (simp_all add: qc_waiting_def qc_open_def)
  from qc_write_loop_sys [OF w(2) this assms(4), of d] show ?thesis using w(1) by (simp add: qc_write_def)
qed

lemma reader_is_one:
  "reg_ok bg one flags ph cs ws \<Longrightarrow> \<not> multiple_consumers_allowed cs \<Longrightarrow> pend_readers (ph(one := Idle)) cs' = {}"
  by (auto simp: reg_ok_def pend_readers_def)

lemma qc_take_sys:
  assumes "on_cpu k one" and "asleep k (active ph) (qc_waiting c)" and "qc_open bg one flags ph c" and "\<forall>d. ph one \<noteq> Writing d"
    and "qc_store c \<noteq> []"
  shows "\<exists>d c' k'. qc_take b c k = Inr (Some d, c', k') \<and> alive k' \<and> asleep k' (active (ph(one := Idle))) (qc_waiting c') \<and>
    qc_cinv bg one flags (ph(one := Idle)) c'"
proof -
  note i = assms(3) [unfolded qc_open_def]
  have inv: "qc_inv c" using i by auto
  have reg: "reg_ok bg one flags ph (qc_cons c) (qc_writers c)" and sl: "asleep k (active ph) (readers (qc_cons c) \<union> set (qc_writers c))"
    using i assms(2) by (simp_all add: qc_waiting_def)
  have t: "one \<notin> set (qc_writers c)" "one \<notin> readers (qc_cons c)" using sl on_cpu_cur [OF assms(1)] by (auto simp: asleep_def)
  let ?ws = "if b then tl (qc_writers c) else qc_writers c"
  obtain k' where r: "release_writer b (qc_writers c) k = Inr (?ws, k')" "on_cpu k' one"
    "asleep k' (active ph) (readers (qc_cons c) \<union> set ?ws)" "reg_ok bg one flags ph (qc_cons c) ?ws"
    using release_step [OF assms(1) sl reg] by blast
  obtain ys d where y: "qc_store c = ys @ [d]" using assms(5) by (metis rev_exhaust)
  have sz: "qc_size c \<noteq> 0" using inv y size_zero_iff [of "Suc (length ys)"] by (simp add: qc_inv_def)
  let ?c = "if b then c\<lparr>qc_size := qc_size c - 1, qc_store := ys, qc_writers := ?ws\<rparr> else c\<lparr>qc_writers := ?ws\<rparr>"
  have tk: "qc_take b c k = Inr (Some d, ?c, k')"
    using r(1) y sz by (cases b) (simp_all add: qc_take_def qc_clear_ready_def store_back_def store_pop_back_def)
  have inv': "qc_inv ?c" using qc_take_ok [OF inv tk] by simp
  have "one \<notin> set ?ws" using t by (auto dest: list.set_sel(2) [rotated]) (metis empty_iff list.set(1) list.set_sel(2) tl_Nil)
  then have reg': "reg_ok bg one flags (ph(one := Idle)) (qc_cons c) ?ws" using reg_idle [OF r(4)] t by blast
  have pw: "pend_writers (ph(one := Idle)) vs = pend_writers ph vs" for vs using card_pend_other [of ph one] assms(4) by simp
  have "unat (qc_maxsize c) \<le> length ys + card (pend_writers ph (tl (qc_writers c)))" if "tl (qc_writers c) \<noteq> []"
    using that i y card_pend_tl [OF reg] by fastforce
  then have "qc_open bg one flags (ph(one := Idle)) ?c"
    unfolding qc_open_def using inv' reg' i y by (cases b) (auto simp: pw)
  moreover have "pend_readers (ph(one := Idle)) (qc_cons ?c) = {}" using reader_is_one [OF reg] i by blast
  ultimately have "qc_cinv bg one flags (ph(one := Idle)) ?c" by (simp add: qc_cinv_def)
  moreover have "asleep k' (active (ph(one := Idle))) (qc_waiting ?c)" using asleep_idle [OF r(3)] by (cases b) (simp_all add: qc_waiting_def)
  ultimately show ?thesis using tk on_cpu_alive [OF r(2)] by blast
qed

lemma qc_read_internal_sys:
  assumes "on_cpu k one" and "asleep k (active ph) (qc_waiting c)" and "qc_open bg one flags ph c" and "\<forall>d. ph one \<noteq> Writing d"
    and "b \<in> flags"
  shows "\<exists>r c' k'. qc_read_internal b c k = Inr (r, c', k') \<and> alive k' \<and> asleep k' (active (ph(one := if r = None then Reading b else Idle))) (qc_waiting c') \<and>
    qc_cinv bg one flags (ph(one := if r = None then Reading b else Idle)) c'"
proof -
  note i = assms(3) [unfolded qc_open_def]
  have reg: "reg_ok bg one flags ph (qc_cons c) (qc_writers c)" and sl: "asleep k (active ph) (readers (qc_cons c) \<union> set (qc_writers c))"
    using i assms(2) by (simp_all add: qc_waiting_def)
  let ?ws = "if b then tl (qc_writers c) else qc_writers c"
  obtain k' where r: "release_writer b (qc_writers c) k = Inr (?ws, k')" "on_cpu k' one"
    "asleep k' (active ph) (readers (qc_cons c) \<union> set ?ws)" "reg_ok bg one flags ph (qc_cons c) ?ws"
    using release_step [OF assms(1) sl reg] by blast
  let ?c = "c\<lparr>qc_writers := ?ws\<rparr>"
  have "unat (qc_maxsize c) \<le> length (qc_store c) + card (pend_writers ph (tl (qc_writers c)))" if "tl (qc_writers c) \<noteq> []"
    using that i card_pend_tl [OF reg] by fastforce
  then have op: "asleep k' (active ph) (qc_waiting ?c)" "qc_open bg one flags ph ?c"
    using r i by (auto simp: qc_waiting_def qc_open_def)
  have inv: "qc_inv ?c" using i by simp
  show ?thesis
  proof (cases "qc_ready ?c")
    case True
    then have "qc_store ?c \<noteq> []" using qc_ready_iff [OF inv] by simp
    from qc_take_sys [OF r(2) op assms(4) this, of b] show ?thesis using True r(1)
      by (fastforce simp: qc_read_internal_def Let_def)
  next
    case False
    then have e: "qc_store c = []" using qc_ready_iff [OF inv] by simp
    obtain cs' k'' where w: "sleep_as_reader pSleep (qc_cons c) k' = Inr (cs', k'')" "alive k''"
      "asleep k'' (active (ph(one := Reading b))) (readers cs' \<union> set ?ws)" "reg_ok bg one flags (ph(one := Reading b)) cs' ?ws"
      "\<not> multiple_consumers_allowed cs'" "readers cs' = insert one (readers (qc_cons c))"
      using reader_sleep_step [OF r(2-4) assms(5)] i by metis
    have pw: "pend_writers (ph(one := Reading b)) vs = pend_writers ph vs" for vs using card_pend_other [of ph one] assms(4) by simp
    have "u = one" if "(ph(one := Reading b)) u = Reading b'" for u b'
      using w(4,5) that unfolding reg_ok_def by blast
    then have "pend_readers (ph(one := Reading b)) cs' = {}" unfolding pend_readers_def w(6) by blast
    then have "qc_cinv bg one flags (ph(one := Reading b)) (?c\<lparr>qc_cons := cs'\<rparr>)"
      using op(2) w(4,5) e unfolding qc_cinv_def qc_open_def by (simp add: pw)
    then show ?thesis using False r(1) w by (auto simp: qc_read_internal_def qc_waiting_def Let_def)
  qed
qed

interpretation qcs: blocking_channel "qc_write bg" "qc_write_loop bg" qc_read_internal qc_read_resume
  qc_waiting "\<lambda>t. t = one" flags "qc_cinv bg one flags :: (tid \<Rightarrow> 'd phase) \<Rightarrow> 'd qchan \<Rightarrow> bool"
proof
  fix k t ph and d :: 'd and c :: "'d qchan" and f
  assume s: "on_cpu k t" "asleep k (active ph) (qc_waiting c)" "qc_cinv bg one flags ph c" and p: "ph t = Idle \<or> ph t = Writing d"
    and f: "f = (if ph t = Idle then qc_write bg else qc_write_loop bg :: 'd \<Rightarrow> 'd qchan \<Rightarrow> _)"
  have nr: "\<forall>b. ph t \<noteq> Reading b" using p by auto
  have op: "qc_open bg one flags ph c" using s(3) by (simp add: qc_cinv_def)
  show "\<exists>b c' k'. f d c k = Inr (b, c', k') \<and> alive k' \<and> asleep k' (active (ph(t := if b then Idle else Writing d))) (qc_waiting c') \<and>
      qc_cinv bg one flags (ph(t := if b then Idle else Writing d)) c'"
    unfolding f using qc_write_sys [OF s(1,2) op nr, of d] qc_write_loop_sys [OF s(1,2) op nr, of d] by presburger
next
  fix k t b and c :: "'d qchan" and g and ph :: "tid \<Rightarrow> 'd phase"
  assume s: "on_cpu k t" "asleep k (active ph) (qc_waiting c)" "qc_cinv bg one flags ph c"
    and p: "ph t = Idle \<and> t = one \<and> b \<in> flags \<or> ph t = Reading b"
    and g: "g = (if ph t = Idle then qc_read_internal else qc_read_resume :: bool \<Rightarrow> 'd qchan \<Rightarrow> _)"
  have op: "qc_open bg one flags ph c" using s(3) by (simp add: qc_cinv_def)
  show "\<exists>r c' k'. g b c k = Inr (r, c', k') \<and> alive k' \<and> asleep k' (active (ph(t := if r = None then Reading b else Idle))) (qc_waiting c') \<and>
      qc_cinv bg one flags (ph(t := if r = None then Reading b else Idle)) c'"
  proof (cases "ph t = Idle")
    case True
    then have "g = qc_read_internal" "b \<in> flags" "t = one" "\<forall>d. ph t \<noteq> Writing d" using p g by auto
    then show ?thesis using qc_read_internal_sys [of k one ph c bg flags b] s(1,2) op by blast
  next
    case False
    then have g': "g = qc_read_resume" "ph t = Reading b" using p g by auto
    have t1: "t = one" using op g'(2) by (auto simp: qc_open_def reg_ok_def)
    have "t \<notin> readers (qc_cons c)" using s(1,2) on_cpu_cur by (auto simp: asleep_def qc_waiting_def)
    then have "pend_readers ph (qc_cons c) \<noteq> {}" using g'(2) by (auto simp: pend_readers_def)
    then have "qc_store c \<noteq> []" using s(3) by (simp add: qc_cinv_def)
    from qc_take_sys [OF s(1) [unfolded t1] s(2) op _ this, of b] g' t1 show ?thesis
      by (fastforce simp: qc_read_resume_def)
  qed
qed

section \<open>Programs with a channel\<close>

lemma chan_run_mono: "chan_run W R X c0 ws gs c \<Longrightarrow> X \<subseteq> Y \<Longrightarrow> chan_run W R Y c0 ws gs c"
  by (induction rule: chan_run.induct) (blast intro: chan_run.intros)+

lemma qc_run_maxsize: "chan_run (qc_writes bg) qc_reads {} c0 ws gs c \<Longrightarrow> qc_maxsize c = qc_maxsize c0"
  by (induction rule: chan_run.induct)
    (auto simp: qc_writes_def qc_reads_def qc_write_def qc_write_loop_def qc_read_internal_def qc_read_resume_def
      qc_take_def qc_clear_ready_def Let_def split: if_splits)

abbreviation ch_sys where
  "ch_sys bg m one flags \<equiv> chan_sys (ch_write bg pWake) (ch_write_loop bg pWake) ch_read_internal ch_read_resume
     ch_waiting (\<lambda>t. m \<or> t = one) flags"

abbreviation qc_sys where
  "qc_sys bg one flags \<equiv> chan_sys (qc_write bg) (qc_write_loop bg) qc_read_internal qc_read_resume
     qc_waiting (\<lambda>t. t = one) flags"

definition no_consumers :: "bool \<Rightarrow> consumers" where
  "no_consumers m = (if m then MultiConsumer {} else SingleConsumer None)"

lemma reachable_alive: "reachable pSetup bottom stk k \<Longrightarrow> no_preempt pSetup \<Longrightarrow> alive k"
  using reachable_running reachable_off by (auto simp: alive_def)

lemma alive_blocked: "alive k \<Longrightarrow> cl_alarm_blocked (k_cl k)"
  by (simp add: alive_def alarm_off_def)

lemma ch_init_cinv:
  assumes "begin_ok bg"
  shows "ch_waiting (channel_init self (no_consumers m) d0 ts) = {}"
    and "ch_cinv bg m one flags (\<lambda>_. Idle) (channel_init self (no_consumers m) d0 ts)"
  using assms by (simp_all add: ch_waiting_def ch_cinv_def channel_init_def no_consumers_def reg_ok_def)

lemma qc_init_cinv:
  assumes "begin_ok bg" and "word_of_int sz \<noteq> (0 :: u32)"
  shows "qc_waiting (qchan_init (SingleConsumer None) sz src) = {}"
    and "qc_cinv bg one flags (\<lambda>_. Idle) (qchan_init (SingleConsumer None) sz src)"
  using assms by (simp_all add: qc_waiting_def qc_cinv_def qc_open_def qchan_init_def reg_ok_def qc_inv_def pend_readers_def)

text \<open>No wake-up of a channel is lost: the conditions of \<open>ch_cinv\<close> in terms of the threads.\<close>

lemma ch_pending:
  assumes "ch_cinv bg m one flags ph c" and "asleep k (active ph) (ch_waiting c)"
  shows "\<not> ch_ready c \<and> ch_writers c \<noteq> [] \<longrightarrow> (\<exists>t d. ph t = Writing d \<and> t \<notin> ch_waiting c \<and> \<not> sleeping k t)"
    and "flags = {True} \<and> ch_ready c \<and> readers (ch_cons c) \<noteq> {} \<longrightarrow> (\<exists>t b. ph t = Reading b \<and> t \<notin> ch_waiting c \<and> \<not> sleeping k t)"
proof -
  have d: "pend_writers ph (ch_writers c) \<inter> ch_waiting c = {}" "pend_readers ph (ch_cons c) \<inter> ch_waiting c = {}"
    using assms(1) by (fastforce simp: ch_cinv_def pend_readers_def pend_writers_def ch_waiting_def reg_ok_def)+
  have p: "t \<notin> ch_waiting c \<and> \<not> sleeping k t" if "t \<in> pend_writers ph (ch_writers c) \<union> pend_readers ph (ch_cons c)" for t
  proof -
    have "t \<notin> ch_waiting c" using that d by blast
    moreover have "t \<in> active ph" using that by (auto simp: pend_writers_def pend_readers_def active_def)
    ultimately show ?thesis using assms(2) by (auto simp: asleep_def)
  qed
  have w: "\<exists>t d. ph t = Writing d \<and> t \<notin> ch_waiting c \<and> \<not> sleeping k t" if "pend_writers ph (ch_writers c) \<noteq> {}"
    using that p by (fastforce simp: pend_writers_def)
  have q: "\<exists>t b. ph t = Reading b \<and> t \<notin> ch_waiting c \<and> \<not> sleeping k t" if "pend_readers ph (ch_cons c) \<noteq> {}"
    using that p by (fastforce simp: pend_readers_def)
  show "\<not> ch_ready c \<and> ch_writers c \<noteq> [] \<longrightarrow> (\<exists>t d. ph t = Writing d \<and> t \<notin> ch_waiting c \<and> \<not> sleeping k t)"
    "flags = {True} \<and> ch_ready c \<and> readers (ch_cons c) \<noteq> {} \<longrightarrow> (\<exists>t b. ph t = Reading b \<and> t \<notin> ch_waiting c \<and> \<not> sleeping k t)"
    using assms(1) w q unfolding ch_cinv_def by blast+
qed


text \<open>
  C6. The same for a bounded \<^verbatim>\<open>QueueChan\<close> with one consumer, without preemption: the alarm is blocked, no
  operation fails (the woken reader always finds a value, the size assertion holds), registered threads sleep, delivery is in order and
  within the bound; a stored value means that the reader is not asleep, and while a writer
  sleeps at least as many writers have been woken as there are free places.
\<close>

theorem qchan_in_kernel:
  assumes "reachable pSetup bottom stk k0" and "no_preempt pSetup" and "begin_ok bg" and "0 < sz" and "sz < 2 ^ 32"
    and "qc_sys bg one flags k0 (qchan_init (SingleConsumer None) sz src) k c ph ws gs"
  shows "cl_alarm_blocked (k_cl k) \<and> (\<forall>t\<in>qc_waiting c. sleeping k t) \<and> (\<forall>t. ph t \<noteq> Idle \<and> t \<notin> qc_waiting c \<longrightarrow> \<not> sleeping k t) \<and> length (qc_store c) \<le> nat sz \<and>
    (length ws < 2 ^ 32 \<longrightarrow> ws = gs @ qc_contents c) \<and>
    (qc_store c \<noteq> [] \<longrightarrow> readers (qc_cons c) = {}) \<and>
    (qc_writers c \<noteq> [] \<longrightarrow> nat sz - length (qc_store c) \<le> card {t. (\<exists>d. ph t = Writing d) \<and> t \<notin> qc_waiting c}) \<and>
    (in_user k \<and> cur k = Some t \<longrightarrow>
      (ph t = Idle \<longrightarrow> (\<exists>z. qc_write bg d c k = Inr z)) \<and>
      (ph t = Writing d \<longrightarrow> (\<exists>z. qc_write_loop bg d c k = Inr z)) \<and>
      (ph t = Idle \<and> t = one \<and> b \<in> flags \<longrightarrow> (\<exists>z. qc_read_internal b c k = Inr z)) \<and>
      (ph t = Reading b \<longrightarrow> (\<exists>z. qc_read_resume b c k = Inr z)))"
proof -
  let ?c0 = "qchan_init (SingleConsumer None) sz src"
  have u: "unat (word_of_int sz :: u32) = nat sz" using assms(4,5) by (simp add: unsigned_of_int take_bit_int_eq_self)
  then have nz: "(word_of_int sz :: u32) \<noteq> 0" using assms(4) by auto
  have i: "alive k0" "qc_waiting ?c0 = {}" "qc_cinv bg one flags (\<lambda>_. Idle) ?c0"
    by (simp_all add: reachable_alive [OF assms(1,2)] qc_init_cinv [OF assms(3) nz])
  have run: "chan_run (qc_writes bg) qc_reads {} ?c0 ws gs c"
    using sys_chan_run [OF assms(6)] by (simp add: qc_writes_def qc_reads_def)
  have "chan_run (qc_writes bg) qc_reads qc_selects ?c0 ws gs c" by (rule chan_run_mono [OF run]) simp
  then have "length ws < 2 ^ 32 \<longrightarrow> ws = gs @ qc_contents c"
    using qc.run_fifo by (fastforce simp: qc_inv_def qc_contents_def qchan_init_def)
  moreover have cv: "qc_cinv bg one flags ph c" "asleep k (active ph) (qc_waiting c)" "alive k" using qcs.sys_inv [OF assms(6) i] by auto
  then have inv: "qc_inv c" and reg: "reg_ok bg one flags ph (qc_cons c) (qc_writers c)"
    by (auto simp: qc_cinv_def qc_open_def)
  have mx: "qc_maxsize c = word_of_int sz" using qc_run_maxsize [OF run] by (simp add: qchan_init_def)
  have "length (qc_store c) \<le> nat sz"
    using inv nz mx u qc_size_unat [OF inv] by (simp add: qc_inv_def word_le_nat_alt)
  moreover have "{t. (\<exists>d. ph t = Writing d) \<and> t \<notin> qc_waiting c} = pend_writers ph (qc_writers c)"
    using reg by (auto simp: pend_writers_def qc_waiting_def reg_ok_def)
  moreover have "(qc_store c \<noteq> [] \<longrightarrow> readers (qc_cons c) = {}) \<and>
      (qc_writers c \<noteq> [] \<longrightarrow> nat sz \<le> length (qc_store c) + card (pend_writers ph (qc_writers c)))"
    using cv(1) mx u by (simp add: qc_cinv_def qc_open_def)
  ultimately show ?thesis
    using cv(2) alive_blocked [OF cv(3)] qcs.sys_safe [OF assms(6) i] unfolding asleep_def active_def by auto
qed

text \<open>
  A concrete program: the start thread of a program without preemption writes a value, then reads it, and
  sleeps at the second read.
\<close>

lemma begin_Min: "begin_ok Min"
  by (simp add: begin_ok_def)

lemma start_reads:
  obtains k t where "reachable plain_setup 64 4096 k" and "no_preempt plain_setup" and "in_user k" and "cur k = Some t" and "pCurThread k = Some t"
  using plain_start by (auto simp: in_user_def pCurThread_def)

lemma idle_idle: "(\<lambda>_. Idle)(t := Idle) = (\<lambda>_. Idle)"
  by auto


theorem qchan_in_kernel_witness:
  "\<exists>k0 k t ph. reachable plain_setup 64 4096 k0 \<and>
     qc_sys Min t UNIV k0 (qchan_init (SingleConsumer None) 2 0) k ((qchan_init (SingleConsumer (Some t)) 2 0) :: nat qchan) ph [7] [7] \<and>
     ph t = Reading True \<and> sleeping k t \<and> cl_alarm_blocked (k_cl k)"
proof -
  obtain k0 t where k0: "reachable plain_setup 64 4096 k0" "no_preempt plain_setup" "in_user k0" "cur k0 = Some t" "pCurThread k0 = Some t"
    by (rule start_reads)
  let ?c0 = "qchan_init (SingleConsumer None) 2 0 :: nat qchan"
  let ?c1 = "?c0\<lparr>qc_store := [7], qc_size := 1\<rparr>"
  note start = sys_start [of "qc_write Min" "qc_write_loop Min" qc_read_internal qc_read_resume
      qc_waiting "\<lambda>u. u = t" UNIV k0 ?c0]
  have w: "qc_write Min 7 ?c0 k0 = Inr (True, ?c1, k0)"
    by (simp add: qc_write_def qc_write_loop_def qc_full_def qc_check_size_def qchan_init_def wake_reader_def Let_def)
  have s1: "qc_sys Min t UNIV k0 ?c0 k0 ?c1 (\<lambda>_. Idle) [7] []"
    using sys_write [OF start k0(3,4) refl, of 7 True ?c1 k0] w by (simp add: idle_idle)
  have r1: "qc_read_internal True ?c1 k0 = Inr (Some 7, ?c0, k0)"
    by (simp add: qc_read_internal_def qchan_init_def release_writer_def have_writers_def qc_ready_def qc_empty_def qc_take_def
        qc_clear_ready_def store_back_def store_pop_back_def Let_def)
  have s2: "qc_sys Min t UNIV k0 ?c0 k0 ?c0 (\<lambda>_. Idle) [7] [7]"
    using sys_read [OF s1 k0(3,4) refl, of True "Some 7" ?c0 k0] r1 by (simp add: idle_idle)
  let ?c2 = "?c0\<lparr>qc_cons := SingleConsumer (Some t)\<rparr>"
  obtain z where z: "qc_read_internal True ?c0 k0 = Inr z"
    using qchan_in_kernel [OF k0(1,2) begin_Min _ _ s2, of t 0 True] k0 by auto
  then obtain k1 where k1: "qc_read_internal True ?c0 k0 = Inr (None, ?c2, k1)"
    using k0(5) by (auto simp: qc_read_internal_def qchan_init_def release_writer_def have_writers_def qc_ready_def
        qc_empty_def sleep_as_reader_def Let_def simp del: pCurThread_def pSleep_def)
  have s3: "qc_sys Min t UNIV k0 ?c0 k1 ?c2 ((\<lambda>_. Idle)(t := Reading True)) [7] [7]"
    using sys_read [OF s2 k0(3,4) refl, of True None ?c2 k1] k1 by simp
  moreover have "sleeping k1 t" "cl_alarm_blocked (k_cl k1)"
    using qchan_in_kernel [OF k0(1,2) begin_Min _ _ s3] by (auto simp: qc_waiting_def)
  moreover have "?c2 = qchan_init (SingleConsumer (Some t)) 2 0" by (simp add: qchan_init_def)
  ultimately show ?thesis using k0(1) by (intro exI [of _ k0] exI [of _ k1] exI [of _ t] exI [of _ "(\<lambda>_. Idle)(t := Reading True)"]) auto
qed

end
