(* ===== verification/Quantity_Energy.thy ===== *)
theory Quantity_Energy
  imports Chan_Props
begin

text \<open>
  The resource manager (\<^verbatim>\<open>src/Quantity.h\<close>), a client of the channels, and the energy accounts of
  the processors (\<^verbatim>\<open>src/Energy.h\<close>, \<^verbatim>\<open>src/Energy.C\<close>).
\<close>

section \<open>Quantity\<close>

text \<open>
  The list of requests: the nodes in their order, and for every node its return channel and the
  amount left, a 32-bit number.  An iterator is a node.  \<^verbatim>\<open>push_front\<close> makes a new node.
\<close>

record quantity =
  qy_order :: "nat list"
  qy_chan :: "nat \<Rightarrow> int channel"
  qy_amount :: "nat \<Rightarrow> u32"
  qy_fresh :: nat
  qy_request :: "nat channel"
  qy_ts :: ptime
  qy_proc :: pid

text \<open>The constructor starts the worker on the quantity's own processor \<open>p\<close>.\<close>

definition quantity_new :: "nat \<Rightarrow> nat \<Rightarrow> addr \<Rightarrow> pid \<Rightarrow> int \<Rightarrow> kernel \<Rightarrow> (quantity \<times> kernel) res" where
  "quantity_new fn self stk p ts k =
     bindE (pSpawn_on p fn self (- 1) stk k) (\<lambda>(_, k).
     Inr (\<lparr>qy_order = [], qy_chan = \<lambda>_. channel_init 0 (SingleConsumer None) 0 0, qy_amount = \<lambda>_. 0, qy_fresh = 0,
       qy_request = channel_init self (SingleConsumer None) 0 0, qy_ts = word_of_int ts, qy_proc = p\<rparr>, k))"

definition register_request :: "int \<Rightarrow> quantity \<Rightarrow> nat \<times> quantity" where
  "register_request amount q =
     (let n = qy_fresh q in
      (n, q\<lparr>qy_order := n # qy_order q, qy_fresh := Suc n, qy_amount := (qy_amount q)(n := word_of_int amount),
            qy_chan := (qy_chan q)(n := channel_init n (SingleConsumer None) 0 (qy_ts q))\<rparr>))"

text \<open>
  \<^verbatim>\<open>request\<close>: up to the end of the write, which may sleep, and the read of the return channel.
\<close>

definition quantity_request :: "(tid set \<Rightarrow> tid) \<Rightarrow> int \<Rightarrow> quantity \<Rightarrow> kernel \<Rightarrow> (nat \<times> bool \<times> quantity \<times> kernel) res" where
  "quantity_request bg amount q k =
     (let (n, q) = register_request amount q in
      bindE (ch_write bg pWake n (qy_request q) k) (\<lambda>(done, c, k). Inr (n, done, q\<lparr>qy_request := c\<rparr>, k)))"

definition quantity_await :: "nat \<Rightarrow> quantity \<Rightarrow> kernel \<Rightarrow> (int option \<times> quantity \<times> kernel) res" where
  "quantity_await n q k =
     bindE (busychan_read_internal True (qy_chan q n) k) (\<lambda>(r, c, k).
     Inr (r, q\<lparr>qy_chan := (qy_chan q)(n := c)\<rparr>, k))"

text \<open>\<^verbatim>\<open>++iter\<close>, wrapping around at the end of the list.\<close>

fun next_node :: "nat list \<Rightarrow> nat \<Rightarrow> nat list \<Rightarrow> nat res" where
  "next_node all n [] = Inl OutOfRange"
| "next_node all n [x] = (if x = n then nthE all 0 else Inl OutOfRange)"
| "next_node all n (x # y # xs) = (if x = n then Inr y else next_node all n (y # xs))"

text \<open>The inner \<^verbatim>\<open>do\<close> loop: the next node with an amount left.\<close>

partial_function (option) find_pending :: "quantity \<Rightarrow> nat \<Rightarrow> nat res option" where
  "find_pending q it =
     (case next_node (qy_order q) it (qy_order q) of
        Inl e \<Rightarrow> Some (Inl e)
      | Inr n \<Rightarrow> if qy_amount q n \<noteq> 0 then Some (Inr n) else find_pending q n)"

text \<open>
  One turn of the worker after its delay: serve one node; when its amount is used up, answer the
  requester and take the node out.  The new iterator, or \<open>None\<close> when the list is empty and the
  worker waits for a request again.
\<close>

definition serve :: "(tid set \<Rightarrow> tid) \<Rightarrow> nat \<Rightarrow> quantity \<Rightarrow> kernel \<Rightarrow> (nat option \<times> quantity \<times> kernel) res" where
  "serve bg it q k =
     bindE (bindE (returnsE (find_pending q it)) (\<lambda>r. r)) (\<lambda>n.
     let q = q\<lparr>qy_amount := (qy_amount q)(n := qy_amount q n - 1)\<rparr> in
     if qy_amount q n = 0
     then bindE (busychan_write bg 0 (qy_chan q n) k) (\<lambda>(_, c, k).
          let q = q\<lparr>qy_chan := (qy_chan q)(n := c), qy_order := remove1 n (qy_order q)\<rparr> in
          Inr (if qy_order q = [] then None else Some (hd (qy_order q)), q, k))
     else Inr (Some n, q, k))"

text \<open>The \<^verbatim>\<open>alt\<close> block with a default: a waiting request is taken, its value ignored.\<close>

definition poll_requests :: "quantity \<Rightarrow> kernel \<Rightarrow> (quantity \<times> kernel) res" where
  "poll_requests q k =
     (if ch_ready (qy_request q)
      then bindE (ch_read_internal True (qy_request q) k) (\<lambda>(_, c, k). Inr (q\<lparr>qy_request := c\<rparr>, k))
      else Inr (q, k))"

definition work_turn :: "(tid set \<Rightarrow> tid) \<Rightarrow> nat \<Rightarrow> quantity \<Rightarrow> kernel \<Rightarrow> (nat option \<times> quantity \<times> kernel) res" where
  "work_turn bg it q k =
     bindE (serve bg it q k) (\<lambda>(r, q, k).
     if r = None then Inr (r, q, k) else bindE (poll_requests q k) (\<lambda>(q, k). Inr (r, q, k)))"

section \<open>Energy\<close>

text \<open>\<^verbatim>\<open>ProcValue\<close>: a map from processors to values; the value is created on access through \<^verbatim>\<open>operator[]\<close>.\<close>

type_synonym 'v proc_value = "pid \<rightharpoonup> 'v"

definition pv_index :: "'v::zero proc_value \<Rightarrow> pid \<Rightarrow> 'v \<times> 'v proc_value" where
  "pv_index m p = (case m p of Some v \<Rightarrow> (v, m) | None \<Rightarrow> (0, m(p \<mapsto> 0)))"

definition pv_add :: "pid \<Rightarrow> 'v::{zero,plus} \<Rightarrow> 'v proc_value \<Rightarrow> 'v \<times> 'v proc_value" where
  "pv_add p d m = (let (v, m) = pv_index m p; v' = v + d in (v', m(p \<mapsto> v')))"

definition pv_get :: "pid \<Rightarrow> 'v::zero proc_value \<Rightarrow> 'v \<times> 'v proc_value" where
  "pv_get p m = (case m p of Some v \<Rightarrow> (v, m(p \<mapsto> 0)) | None \<Rightarrow> (0, m))"

definition pv_read :: "pid \<Rightarrow> 'v::zero proc_value \<Rightarrow> 'v" where
  "pv_read p m = (case m p of Some v \<Rightarrow> v | None \<Rightarrow> 0)"

text \<open>The energy interface: the account of the current processor, and those of others.\<close>

definition pEnergy :: "'v::{zero,plus} \<Rightarrow> kernel \<Rightarrow> 'v proc_value \<Rightarrow> ('v \<times> 'v proc_value) res" where
  "pEnergy e k m = bindE (derefE (pCurProc k)) (\<lambda>p. Inr (pv_add p e m))"

definition pGetEnergy :: "pid \<Rightarrow> 'v::zero proc_value \<Rightarrow> 'v \<times> 'v proc_value" where
  "pGetEnergy p m = pv_get p m"

definition pReadEnergy :: "pid \<Rightarrow> 'v::zero proc_value \<Rightarrow> 'v \<times> 'v proc_value" where
  "pReadEnergy p m = pv_index m p"

section \<open>The search for the next request\<close>

lemma next_node_at:
  "distinct xs \<Longrightarrow> i < length xs \<Longrightarrow> all \<noteq> [] \<Longrightarrow>
   next_node all (xs ! i) xs = Inr (if Suc i < length xs then xs ! Suc i else hd all)"
proof (induction xs arbitrary: i rule: induct_list012)
  case (3 x y zs)
  show ?case
  proof (cases i)
    case (Suc j)
    then have "(y # zs) ! j \<in> set (y # zs)" using "3.prems"(2) by (intro nth_mem) simp
    then have "x \<noteq> (y # zs) ! j" using "3.prems"(1) by auto
    then show ?thesis using "3.IH"(2) [of j] "3.prems" Suc by simp
  qed simp
qed (auto simp: nthE_def hd_conv_nth)

lemma next_node_cyclic:
  assumes "distinct xs" and "i < length xs"
  shows "next_node xs (xs ! i) xs = Inr (xs ! (Suc i mod length xs))"
proof -
  have ne: "xs \<noteq> []" using assms(2) by auto
  show ?thesis
  proof (cases "Suc i < length xs")
    case False
    then have "Suc i = length xs" using assms(2) by simp
    then show ?thesis using next_node_at [OF assms ne] by (simp add: hd_conv_nth ne)
  qed (use next_node_at [OF assms ne] in simp)
qed

lemma find_pending_at:
  assumes d: "distinct (qy_order q)" and "i < length (qy_order q)" and "0 < n"
    and "qy_amount q (qy_order q ! ((i + n) mod length (qy_order q))) \<noteq> 0"
    and "\<And>m. 0 < m \<Longrightarrow> m < n \<Longrightarrow> qy_amount q (qy_order q ! ((i + m) mod length (qy_order q))) = 0"
  shows "find_pending q (qy_order q ! i) = Some (Inr (qy_order q ! ((i + n) mod length (qy_order q))))"
  using assms(2-)
proof (induction n arbitrary: i)
  case 0
  then show ?case by simp
next
  case (Suc n)
  let ?xs = "qy_order q"
  let ?j = "Suc i mod length ?xs"
  have j: "?j < length ?xs" by (rule mod_less_divisor) (use Suc.prems(1) in linarith)
  have sh: "(?j + m) mod length ?xs = (i + Suc m) mod length ?xs" for m by (simp add: mod_add_left_eq)
  note step = find_pending.simps [of q "?xs ! i"] next_node_cyclic [OF d Suc.prems(1)]
  show ?case
  proof (cases "n = 0")
    case True
    then show ?thesis using Suc.prems(3) step by simp
  next
    case False
    then have "qy_amount q (?xs ! ?j) = 0" using Suc.prems(4) [of 1] by simp
    moreover have "find_pending q (?xs ! ?j) = Some (Inr (?xs ! ((?j + n) mod length ?xs)))"
      by (rule Suc.IH [OF j]) (use False Suc.prems(3,4) sh in \<open>auto simp del: add_Suc_right\<close>)
    ultimately show ?thesis using step sh by simp
  qed
qed

lemma find_pending_ok:
  assumes d: "distinct (qy_order q)" and it: "it \<in> set (qy_order q)" and p: "p \<in> set (qy_order q)" "qy_amount q p \<noteq> 0"
  obtains n where "find_pending q it = Some (Inr n)" and "n \<in> set (qy_order q)" and "qy_amount q n \<noteq> 0"
proof -
  let ?xs = "qy_order q" and ?l = "length (qy_order q)"
  obtain i where i: "i < ?l" "it = ?xs ! i" using it by (auto simp: in_set_conv_nth)
  obtain j where j: "j < ?l" "p = ?xs ! j" using p by (auto simp: in_set_conv_nth)
  let ?Q = "\<lambda>n. 0 < n \<and> qy_amount q (?xs ! ((i + n) mod ?l)) \<noteq> 0"
  have "(i + (?l - i + j)) mod ?l = j" using i(1) j(1) by simp
  then have ex: "?Q (?l - i + j)" using i(1) j p(2) by simp
  define n where "n = (LEAST n. ?Q n)"
  have n: "?Q n" unfolding n_def using ex by (rule LeastI)
  have least: "\<And>m. 0 < m \<Longrightarrow> m < n \<Longrightarrow> qy_amount q (?xs ! ((i + m) mod ?l)) = 0"
    unfolding n_def using not_less_Least by blast
  have "find_pending q (?xs ! i) = Some (Inr (?xs ! ((i + n) mod ?l)))"
    by (rule find_pending_at [OF d i(1)]) (use n least in auto)
  moreover have "(i + n) mod ?l < ?l" by (rule mod_less_divisor) (use i(1) in linarith)
  ultimately show thesis using n i(2) that [of "?xs ! ((i + n) mod ?l)"] by simp
qed

lemma find_pending_diverges:
  assumes "distinct (qy_order q)" and "it \<in> set (qy_order q)" and "\<forall>n \<in> set (qy_order q). qy_amount q n = 0"
  shows "find_pending q it = None"
proof -
  have "q' = q \<Longrightarrow> it' \<in> set (qy_order q) \<Longrightarrow> False" if "find_pending q' it' = Some r" for q' it' r
    using that
  proof (induction rule: find_pending.raw_induct [rotated, consumes 1, case_names step])
    case (step f q' it' r)
    obtain i where i: "i < length (qy_order q)" "it' = qy_order q ! i"
      using \<open>it' \<in> set (qy_order q)\<close> by (auto simp: in_set_conv_nth)
    let ?n = "qy_order q ! (Suc i mod length (qy_order q))"
    have n: "?n \<in> set (qy_order q)" by (intro nth_mem mod_less_divisor) (use i(1) in linarith)
    then have "f q ?n = Some r"
      using step \<open>q' = q\<close> next_node_cyclic [OF assms(1) i(1)] i(2) assms(3) by simp
    then show ?case using step(1) n by blast
  qed
  then show ?thesis using assms(2) by (cases "find_pending q it") auto
qed

section \<open>Service\<close>

text \<open>The work left, and the state in which every request asks for something.\<close>

definition total :: "quantity \<Rightarrow> nat" where
  "total q = (\<Sum>n \<in> set (qy_order q). unat (qy_amount q n))"

definition pending :: "quantity \<Rightarrow> nat \<Rightarrow> bool" where
  "pending q it \<longleftrightarrow> distinct (qy_order q) \<and> it \<in> set (qy_order q) \<and> (\<forall>n \<in> set (qy_order q). qy_amount q n \<noteq> 0)"

lemma total_split:
  "n \<in> set (qy_order q) \<Longrightarrow> total q = unat (qy_amount q n) + (\<Sum>m \<in> set (qy_order q) - {n}. unat (qy_amount q m))"
  unfolding total_def by (rule sum.remove) simp_all

lemma serve_ok:
  assumes p: "pending q it" and s: "serve bg it q k = Inr (r, q', k')"
  shows "total q = Suc (total q') \<and> (case r of None \<Rightarrow> qy_order q' = [] | Some i \<Rightarrow> pending q' i)"
proof -
  obtain n where n: "find_pending q it = Some (Inr n)" "n \<in> set (qy_order q)" "qy_amount q n \<noteq> 0"
    using find_pending_ok [of q it it] p by (auto simp: pending_def)
  let ?a = "qy_amount q n - 1" and ?rest = "\<Sum>m \<in> set (qy_order q) - {n}. unat (qy_amount q m)"
  have a: "unat (qy_amount q n) = Suc (unat ?a)" using n(3) by (simp add: unat_minus_one unat_gt_0)
  show ?thesis
  proof (cases "?a = 0")
    case True
    then have o': "qy_order q' = remove1 n (qy_order q)" "r = (if qy_order q' = [] then None else Some (hd (qy_order q')))"
      "qy_amount q' = (qy_amount q)(n := 0)"
      using s n(1) by (auto simp: serve_def Let_def)
    have st: "set (qy_order q') = set (qy_order q) - {n}" using o'(1) p by (simp add: pending_def)
    then have "total q' = ?rest" using o'(3) by (simp add: total_def)
    moreover have "pending q' (hd (qy_order q'))" if "qy_order q' \<noteq> []"
      unfolding pending_def using that p o' st hd_in_set [OF that] by (simp add: pending_def)
    ultimately show ?thesis using True a o'(2) total_split [OF n(2)] by simp
  next
    case False
    then have o': "qy_order q' = qy_order q" "r = Some n" "qy_amount q' = (qy_amount q)(n := ?a)"
      using s n(1) by (auto simp: serve_def Let_def)
    have "(\<Sum>m \<in> set (qy_order q) - {n}. unat (qy_amount q' m)) = ?rest" by (rule sum.cong) (simp_all add: o'(3))
    then have "total q' = unat ?a + ?rest" using o'(1,3) n(2) total_split [of n q'] by simp
    then show ?thesis using False a p o' n(2) total_split [OF n(2)] by (auto simp: pending_def)
  qed
qed

text \<open>A number of turns of the worker, with no request arriving in between.\<close>

inductive serves :: "(tid set \<Rightarrow> tid) \<Rightarrow> nat \<Rightarrow> nat \<Rightarrow> quantity \<Rightarrow> nat option \<Rightarrow> quantity \<Rightarrow> bool" for bg where
  serves_none: "serves bg 0 it q (Some it) q"
| serves_more: "serves bg m it q (Some i) q' \<Longrightarrow> serve bg i q' k = Inr (r, q'', k') \<Longrightarrow> serves bg (Suc m) it q r q''"

lemma serves_ok:
  "serves bg m it q r q' \<Longrightarrow> pending q it \<Longrightarrow>
   total q = m + total q' \<and> (case r of None \<Rightarrow> qy_order q' = [] | Some i \<Rightarrow> pending q' i)"
proof (induction rule: serves.induct)
  case (serves_more m it q i q' k r q'' k')
  then show ?case using serve_ok [of q' i bg k r q'' k'] by simp
qed simp

lemma pending_total: "pending q it \<Longrightarrow> 0 < total q"
  using total_split [of it q] by (auto simp: pending_def unat_gt_0)

text \<open>
  The resource manager serves round robin and finishes: while requests are pending, the search for the
  next one ends at a pending request; every turn uses up one unit of exactly one request, and
  the worker goes back to waiting exactly after as many turns as units were requested, with
  no request left.  A request of 0 units alone in the list makes the search loop run forever.
\<close>

theorem quantity_drains:
  assumes "pending q it"
  shows "(\<exists>n. find_pending q it = Some (Inr n) \<and> n \<in> set (qy_order q) \<and> qy_amount q n \<noteq> 0) \<and>
    (serves bg m it q r q' \<longrightarrow> total q = m + total q' \<and> (r = None \<longleftrightarrow> m = total q) \<and> (r = None \<longrightarrow> qy_order q' = [])) \<and>
    find_pending (q\<lparr>qy_order := [z], qy_amount := (qy_amount q)(z := 0)\<rparr>) z = None"
proof (intro conjI)
  show "\<exists>n. find_pending q it = Some (Inr n) \<and> n \<in> set (qy_order q) \<and> qy_amount q n \<noteq> 0"
    using find_pending_ok [of q it it] assms unfolding pending_def by metis
  show "serves bg m it q r q' \<longrightarrow> total q = m + total q' \<and> (r = None \<longleftrightarrow> m = total q) \<and> (r = None \<longrightarrow> qy_order q' = [])"
  proof
    assume "serves bg m it q r q'"
    from serves_ok [OF this assms] have t: "total q = m + total q'"
      "case r of None \<Rightarrow> qy_order q' = [] | Some i \<Rightarrow> pending q' i" by auto
    have "r = None \<Longrightarrow> qy_order q' = [] \<and> total q' = 0" using t(2) by (simp add: total_def)
    moreover have "r = None \<or> 0 < total q'" using t(2) pending_total by (cases r) auto
    ultimately show "total q = m + total q' \<and> (r = None \<longleftrightarrow> m = total q) \<and> (r = None \<longrightarrow> qy_order q' = [])"
      using t(1) by auto
  qed
  show "find_pending (q\<lparr>qy_order := [z], qy_amount := (qy_amount q)(z := 0)\<rparr>) z = None"
    by (rule find_pending_diverges) simp_all
qed

text \<open>Two requests, for one and two units.\<close>

definition quantity_demo :: quantity where
  "quantity_demo = \<lparr>qy_order = [1, 0], qy_chan = \<lambda>_. channel_init 0 (SingleConsumer None) 0 0,
     qy_amount = (\<lambda>_. 0)(0 := 1, 1 := 2), qy_fresh = 2, qy_request = channel_init 0 (SingleConsumer None) 0 0,
     qy_ts = 10, qy_proc = 0\<rparr>"

theorem quantity_drains_witness:
  "\<exists>n. find_pending quantity_demo 1 = Some (Inr n) \<and> n \<in> {0, 1}"
proof -
  have "pending quantity_demo 1" "set (qy_order quantity_demo) = {0, 1}"
    by (auto simp: quantity_demo_def pending_def)
  then show ?thesis using quantity_drains [of quantity_demo 1 Min 0 None quantity_demo 0] by auto
qed

section \<open>Energy accounts\<close>

datatype 'v energy_op = EnergyAdd pid 'v | EnergyGet pid | EnergyRead pid

text \<open>A sequence of calls, with the values they return.\<close>

fun energy_run :: "'v::{zero,plus} energy_op list \<Rightarrow> 'v proc_value \<Rightarrow> 'v list \<times> 'v proc_value" where
  "energy_run [] m = ([], m)"
| "energy_run (EnergyAdd p d # ops) m =
     (let (v, m) = pv_add p d m; (vs, m) = energy_run ops m in (v # vs, m))"
| "energy_run (EnergyGet p # ops) m =
     (let (v, m) = pGetEnergy p m; (vs, m) = energy_run ops m in (v # vs, m))"
| "energy_run (EnergyRead p # ops) m =
     (let (v, m) = pReadEnergy p m; (vs, m) = energy_run ops m in (v # vs, m))"

fun spent :: "pid \<Rightarrow> 'v::comm_monoid_add energy_op list \<Rightarrow> 'v" where
  "spent p [] = 0"
| "spent p (EnergyAdd q d # ops) = (if p = q then d + spent p ops else spent p ops)"
| "spent p (_ # ops) = spent p ops"

fun collected :: "pid \<Rightarrow> 'v::comm_monoid_add energy_op list \<Rightarrow> 'v list \<Rightarrow> 'v" where
  "collected p (EnergyGet q # ops) (v # vs) = (if p = q then v + collected p ops vs else collected p ops vs)"
| "collected p (_ # ops) (v # vs) = collected p ops vs"
| "collected p _ _ = 0"

text \<open>
  Energy is neither lost nor counted twice: for every processor, what was on its account plus
  what was added equals what the clearing reads returned plus what is left; a plain read
  changes no account.  (Values of any commutative addition, so without rounding.)
\<close>

theorem energy_conserved:
  "pv_read p m + spent p ops = collected p ops (fst (energy_run ops m)) + pv_read p (snd (energy_run ops m))"
proof (induction ops arbitrary: m)
  case (Cons op ops)
  show ?case
  proof (cases op)
    case (EnergyAdd q d)
    have "pv_read p (snd (pv_add q d m)) = (if p = q then pv_read p m + d else pv_read p m)"
      by (auto simp: pv_add_def pv_index_def pv_read_def Let_def split: option.splits)
    then show ?thesis using Cons [of "snd (pv_add q d m)"] EnergyAdd
      by (auto simp: split_beta Let_def add.assoc)
  next
    case (EnergyGet q)
    have "fst (pGetEnergy q m) = pv_read q m"
      "pv_read p (snd (pGetEnergy q m)) = (if p = q then 0 else pv_read p m)"
      by (auto simp: pGetEnergy_def pv_get_def pv_read_def split: option.splits)
    then show ?thesis using Cons [of "snd (pGetEnergy q m)"] EnergyGet
      by (auto simp: split_beta Let_def add.assoc)
  next
    case (EnergyRead q)
    have "pv_read p (snd (pReadEnergy q m)) = pv_read p m"
      by (auto simp: pReadEnergy_def pv_index_def pv_read_def split: option.splits)
    then show ?thesis using Cons [of "snd (pReadEnergy q m)"] EnergyRead by (simp add: split_beta Let_def)
  qed
qed (simp add: pv_read_def)

end
