(* ===== verification/C_Types.thy ===== *)
theory C_Types
  imports Prelude
begin

text \<open>
  The unsigned integers and the characters of C, as the cords and the source translator use them.
\<close>

section \<open>Integers\<close>

text \<open>Unsigned 32-bit arithmetic on natural numbers, and the conversion to \<^verbatim>\<open>int\<close>.\<close>

definition sz :: "nat \<Rightarrow> nat" where
  "sz n = n mod 4294967296"

definition szsub :: "nat \<Rightarrow> nat \<Rightarrow> nat" where
  "szsub a b = sz (a + 4294967296 - b)"

definition as_int :: "nat \<Rightarrow> int" where
  "as_int n = (if n < 2147483648 then int n else int n - 4294967296)"

lemma sz_small [simp]: "n < 4294967296 \<Longrightarrow> sz n = n"
  by (simp add: sz_def)

lemma szsub_small: "b \<le> a \<Longrightarrow> a < 4294967296 \<Longrightarrow> szsub a b = a - b"
  by (simp add: szsub_def sz_def mod_if)

section \<open>Characters\<close>

abbreviation NUL :: char where "NUL \<equiv> CHR 0x00"

text \<open>A character as \<^verbatim>\<open>unsigned char\<close> and as (signed) \<^verbatim>\<open>char\<close>.\<close>

definition ucode :: "char \<Rightarrow> int" where "ucode c = of_char c"
definition scode :: "char \<Rightarrow> int" where "scode c = (if ucode c < 128 then ucode c else ucode c - 256)"

lemma ucode_inj [simp]: "ucode a = ucode b \<longleftrightarrow> a = b"
  by (simp add: ucode_def)

lemma ucode_range: "0 \<le> ucode c \<and> ucode c < 256"
  using of_nat_of_char [of c, where 'a = int] nat_of_char_less_256 [of c]
  by (metis (mono_tags) of_nat_0_le_iff of_nat_less_iff of_nat_numeral ucode_def)

lemma scode_inj [simp]: "scode a = scode b \<longleftrightarrow> a = b"
proof -
  have "scode a = scode b \<Longrightarrow> ucode a = ucode b"
    using ucode_range [of a] ucode_range [of b] by (simp add: scode_def split: if_splits)
  then show ?thesis by auto
qed

end
