(* ===== verification/Cord_Ops.thy ===== *)
theory Cord_Ops
  imports C_Types
begin

text \<open>
  Cords (\<^verbatim>\<open>gc/cord/cordbscs.c\<close>): immutable strings of any length as trees of C strings, concatenations
  and functions.  The node layout and \<^verbatim>\<open>size_t\<close> are those of a 32-bit machine.  A cord is a
  pointer to an immutable object, so a node is a value: \<open>Empty\<close> is the null pointer \<^verbatim>\<open>CORD_EMPTY\<close>, \<open>Str\<close>
  a C string without its terminator.  Allocation succeeds.  \<^verbatim>\<open>ABORT(msg)\<close> is \<open>RuntimeError msg\<close>.
\<close>

section \<open>Representation\<close>

text \<open>
  \<^verbatim>\<open>struct Concatenation\<close> with its depth, \<^verbatim>\<open>left_len\<close>, \<^verbatim>\<open>len\<close>, left and right part; \<^verbatim>\<open>struct Function\<close> with its
  length and its function applied to the client data; and a function node with \<^verbatim>\<open>SUBSTR_HDR\<close>,
  whose client data is a cord and an index and whose function is one of two.
\<close>

datatype access = IndexAccess | ApplyAccess

datatype cord =
    Empty
  | Str string
  | Conc nat nat nat cord cord
  | Func nat "nat \<Rightarrow> char"
  | Substr nat access cord nat

text \<open>The test for the null pointer, for evaluation.\<close>

fun is_null :: "cord \<Rightarrow> bool" where
  "is_null Empty = True"
| "is_null _ = False"

lemma is_null_eq [code_unfold]: "HOL.equal x Empty \<longleftrightarrow> is_null x"
  by (cases x) (simp_all add: equal)

fun CORD_IS_STRING :: "cord \<Rightarrow> bool" where
  "CORD_IS_STRING (Str s) = True"
| "CORD_IS_STRING _ = False"

fun IS_CONCATENATION :: "cord \<Rightarrow> bool" where
  "IS_CONCATENATION (Conc d ll n l r) = True"
| "IS_CONCATENATION _ = False"

fun IS_FUNCTION :: "cord \<Rightarrow> bool" where
  "IS_FUNCTION (Func n f) = True"
| "IS_FUNCTION (Substr n a c i) = True"
| "IS_FUNCTION _ = False"

fun GEN_LEN :: "cord \<Rightarrow> nat" where
  "GEN_LEN Empty = 0"
| "GEN_LEN (Str s) = length s"
| "GEN_LEN (Conc d ll n l r) = n"
| "GEN_LEN (Func n f) = n"
| "GEN_LEN (Substr n a c i) = n"

fun DEPTH :: "cord \<Rightarrow> nat" where
  "DEPTH (Conc d ll n l r) = d"
| "DEPTH _ = 0"

definition LEFT_LEN :: "nat \<Rightarrow> nat \<Rightarrow> cord \<Rightarrow> cord \<Rightarrow> nat" where
  "LEFT_LEN ll n l r = (if ll \<noteq> 0 then ll else if CORD_IS_STRING l then szsub n (GEN_LEN r) else GEN_LEN l)"

definition MAX_LEFT_LEN :: nat where "MAX_LEFT_LEN = 255"
definition SHORT_LIMIT :: nat where "SHORT_LIMIT = 15"
definition SUBSTR_LIMIT :: nat where "SUBSTR_LIMIT = 10 * SHORT_LIMIT"
definition MAX_DEPTH :: nat where "MAX_DEPTH = 48"

definition CORD_len :: "cord \<Rightarrow> nat" where
  "CORD_len x = GEN_LEN x"

text \<open>The function of a function node, with \<^verbatim>\<open>CORD_index_access_fn\<close> and \<^verbatim>\<open>CORD_apply_access_fn\<close>.\<close>

definition string_read :: "string \<Rightarrow> nat \<Rightarrow> char res" where
  "string_read s i = (if i < length s then Inr (s ! i) else if i = length s then Inr NUL else Inl OutOfRange)"

fun cord_fn :: "cord \<Rightarrow> nat \<Rightarrow> char res" where
  "cord_fn (Func n f) j = Inr (f j)"
| "cord_fn (Substr n IndexAccess (Str s) i) j = string_read s (sz (j + i))"
| "cord_fn (Substr n ApplyAccess c i) j = cord_fn c (sz (j + i))"
| "cord_fn _ j = Inl OutOfRange"

section \<open>Concatenation\<close>

text \<open>The common end of both concatenations; \<open>bal\<close> is \<^verbatim>\<open>CORD_balance\<close>.\<close>

definition cat_node :: "(cord \<Rightarrow> cord res) \<Rightarrow> nat \<Rightarrow> nat \<Rightarrow> nat \<Rightarrow> cord \<Rightarrow> cord \<Rightarrow> cord res" where
  "cat_node bal depth lenx result_len x y =
     (let result = Conc depth (if lenx \<le> MAX_LEFT_LEN then lenx else 0) result_len x y in
      if depth \<ge> MAX_DEPTH then bal result else Inr result)"

text \<open>A short string is merged into a short right part.\<close>

definition merge_right :: "cord \<Rightarrow> nat \<Rightarrow> string \<Rightarrow> nat \<Rightarrow> cord \<times> string \<times> nat \<times> nat" where
  "merge_right x lenx y leny = (case x of
       Conc d ll n left (Str right) \<Rightarrow>
         if leny \<le> SHORT_LIMIT div 2
         then let right_len = (if \<not> CORD_IS_STRING left then szsub lenx (GEN_LEN left)
                               else if ll \<noteq> 0 then szsub lenx ll else length right);
                  result_len = sz (right_len + leny) in
              if result_len \<le> SHORT_LIMIT
              then (left, take right_len right @ take leny y, result_len, szsub lenx right_len)
              else (x, y, leny, lenx)
         else (x, y, leny, lenx)
     | _ \<Rightarrow> (x, y, leny, lenx))"

definition cat_char_star :: "(cord \<Rightarrow> cord res) \<Rightarrow> cord \<Rightarrow> string \<Rightarrow> nat \<Rightarrow> cord res" where
  "cat_char_star bal x y leny =
     (if x = Empty then Inr (Str y)
      else if leny = 0 then Inr x
      else case x of
         Str s \<Rightarrow>
           let lenx = length s; result_len = sz (lenx + leny) in
           if result_len \<le> SHORT_LIMIT then Inr (Str (s @ take leny y))
           else cat_node bal 1 lenx result_len x (Str y)
       | _ \<Rightarrow>
           let (x, y, leny, lenx) = merge_right x (GEN_LEN x) y leny;
               depth = (if CORD_IS_STRING x then 1 else DEPTH x + 1)
           in cat_node bal depth lenx (sz (lenx + leny)) x (Str y))"

definition cord_cat :: "(cord \<Rightarrow> cord res) \<Rightarrow> cord \<Rightarrow> cord \<Rightarrow> cord res" where
  "cord_cat bal x y =
     (if x = Empty then Inr y
      else if y = Empty then Inr x
      else case y of
         Str s \<Rightarrow> cat_char_star bal x s (length s)
       | _ \<Rightarrow>
           let lenx = GEN_LEN x;
               depth = (if CORD_IS_STRING x then DEPTH y + 1
                        else if DEPTH y \<ge> DEPTH x + 1 then DEPTH y + 1 else DEPTH x + 1)
           in cat_node bal depth lenx (sz (lenx + GEN_LEN y)) x y)"

section \<open>Balancing\<close>

text \<open>
  The least lengths of balanced cords by depth: Fibonacci numbers, up to the first that does not fit.
\<close>

fun min_len_loop :: "nat \<Rightarrow> nat \<Rightarrow> nat \<Rightarrow> nat list" where
  "min_len_loop 0 lst previous = []"
| "min_len_loop (Suc k) lst previous =
     (let current = sz (lst + previous);
          current = (if current < lst then lst else current)
      in current # min_len_loop k current lst)"

definition CORD_init_min_len :: "nat list" where
  "CORD_init_min_len = 1 # 2 # min_len_loop (MAX_DEPTH - 2) 2 1"

definition min_len :: "nat \<Rightarrow> nat res" where
  "min_len i = nthE CORD_init_min_len i"

text \<open>A forest entry is \<open>None\<close> before it is initialised; reading one is an error.\<close>

type_synonym forest = "(cord \<times> nat) option list"

definition forest_get :: "forest \<Rightarrow> nat \<Rightarrow> (cord \<times> nat) res" where
  "forest_get fo i = bindE (nthE fo i) (\<lambda>e. case e of None \<Rightarrow> Inl OutOfRange | Some p \<Rightarrow> Inr p)"

definition forest_put :: "forest \<Rightarrow> nat \<Rightarrow> cord \<times> nat \<Rightarrow> forest res" where
  "forest_put fo i p = (if i < length fo then Inr (fo[i := Some p]) else Inl OutOfRange)"

fun init_forest_loop :: "nat \<Rightarrow> nat \<Rightarrow> nat \<Rightarrow> forest \<Rightarrow> forest res" where
  "init_forest_loop 0 i max_len fo = Inl (RuntimeError ''Cord too long'')"
| "init_forest_loop (Suc k) i max_len fo =
     bindE (forest_put fo i (Empty, 0)) (\<lambda>fo.
     bindE (min_len i) (\<lambda>m.
     if m > max_len then Inr fo else init_forest_loop k (i + 1) max_len fo))"

definition CORD_init_forest :: "nat \<Rightarrow> forest res" where
  "CORD_init_forest max_len = init_forest_loop MAX_DEPTH 0 max_len (replicate MAX_DEPTH None)"

text \<open>Take the tree at one level out of the forest and put it in front of the sum.\<close>

definition take_level :: "(cord \<Rightarrow> cord \<Rightarrow> cord res) \<Rightarrow> nat \<Rightarrow> forest \<Rightarrow> cord \<Rightarrow> nat \<Rightarrow> (forest \<times> cord \<times> nat) res" where
  "take_level cat i fo sm sum_len =
     bindE (forest_get fo i) (\<lambda>(c, len).
     if c \<noteq> Empty
     then bindE (cat c sm) (\<lambda>s. Inr (fo[i := Some (Empty, len)], s, sz (sum_len + len)))
     else Inr (fo, sm, sum_len))"

lemma length_min_len_loop [simp]: "length (min_len_loop k a b) = k"
  by (induction k arbitrary: a b) (simp_all add: Let_def)

lemma min_len_bound: "min_len i = Inr m \<Longrightarrow> i < 48"
  by (simp add: min_len_def CORD_init_min_len_def MAX_DEPTH_def)

function add_loop1 :: "(cord \<Rightarrow> cord \<Rightarrow> cord res) \<Rightarrow> nat \<Rightarrow> nat \<Rightarrow> forest \<Rightarrow> cord \<Rightarrow> nat
    \<Rightarrow> (nat \<times> forest \<times> cord \<times> nat) res" where
  "add_loop1 cat len i fo sm sum_len =
     bindE (min_len (i + 1)) (\<lambda>m.
     if len > m
     then bindE (take_level cat i fo sm sum_len) (\<lambda>(fo, sm, sum_len). add_loop1 cat len (i + 1) fo sm sum_len)
     else Inr (i, fo, sm, sum_len))"
  by auto
termination by (relation "measure (\<lambda>(cat, len, i, fo, sm, sum_len). 48 - i)") (auto dest: min_len_bound)

function add_loop2 :: "(cord \<Rightarrow> cord \<Rightarrow> cord res) \<Rightarrow> nat \<Rightarrow> forest \<Rightarrow> cord \<Rightarrow> nat
    \<Rightarrow> (nat \<times> forest \<times> cord \<times> nat) res" where
  "add_loop2 cat i fo sm sum_len =
     bindE (min_len i) (\<lambda>m.
     if sum_len \<ge> m
     then bindE (take_level cat i fo sm sum_len) (\<lambda>(fo, sm, sum_len). add_loop2 cat (i + 1) fo sm sum_len)
     else Inr (i, fo, sm, sum_len))"
  by auto
termination by (relation "measure (\<lambda>(cat, i, fo, sm, sum_len). 48 - i)") (auto dest: min_len_bound)

definition CORD_add_forest :: "(cord \<Rightarrow> cord \<Rightarrow> cord res) \<Rightarrow> forest \<Rightarrow> cord \<Rightarrow> nat \<Rightarrow> forest res" where
  "CORD_add_forest cat fo x len =
     bindE (add_loop1 cat len 0 fo Empty 0) (\<lambda>(i, fo, sm, sum_len).
     bindE (cat sm x) (\<lambda>sm.
     bindE (add_loop2 cat i fo sm (sz (sum_len + len))) (\<lambda>(i, fo, sm, sum_len).
     if i = 0 then Inl OutOfRange else forest_put fo (i - 1) (sm, sum_len))))"

function concat_loop :: "(cord \<Rightarrow> cord \<Rightarrow> cord res) \<Rightarrow> nat \<Rightarrow> nat \<Rightarrow> forest \<Rightarrow> cord \<Rightarrow> nat \<Rightarrow> cord res" where
  "concat_loop cat expected_len i fo sm sum_len =
     (if sum_len = expected_len then Inr sm
      else bindE (forest_get fo i) (\<lambda>(c, len).
           bindE (if c \<noteq> Empty then bindE (cat c sm) (\<lambda>s. Inr (s, sz (sum_len + len))) else Inr (sm, sum_len)) (\<lambda>(sm, sum_len).
           concat_loop cat expected_len (i + 1) fo sm sum_len)))"
  by auto
termination by (relation "measure (\<lambda>(cat, expected_len, i, fo, sm, sum_len). length fo - i)") (auto simp: forest_get_def)

definition CORD_concat_forest :: "(cord \<Rightarrow> cord \<Rightarrow> cord res) \<Rightarrow> forest \<Rightarrow> nat \<Rightarrow> cord res" where
  "CORD_concat_forest cat fo expected_len = concat_loop cat expected_len 0 fo Empty 0"

declare add_loop1.simps [simp del] add_loop2.simps [simp del] concat_loop.simps [simp del]

fun CORD_balance_insert :: "(cord \<Rightarrow> cord \<Rightarrow> cord res) \<Rightarrow> cord \<Rightarrow> nat \<Rightarrow> forest \<Rightarrow> forest res" where
  "CORD_balance_insert cat (Conc d ll n l r) len fo =
     bindE (if d \<ge> MAX_DEPTH then Inr True else bindE (min_len d) (\<lambda>m. Inr (len < m))) (\<lambda>deep.
     if deep
     then let left_len = LEFT_LEN ll n l r in
          bindE (CORD_balance_insert cat l left_len fo) (\<lambda>fo. CORD_balance_insert cat r (szsub len left_len) fo)
     else CORD_add_forest cat fo (Conc d ll n l r) len)"
| "CORD_balance_insert cat x len fo = CORD_add_forest cat fo x len"

definition cord_balance :: "(cord \<Rightarrow> cord \<Rightarrow> cord res) \<Rightarrow> cord \<Rightarrow> cord res" where
  "cord_balance cat x =
     (if x = Empty then Inr Empty
      else if CORD_IS_STRING x then Inr x
      else let len = GEN_LEN x in
           bindE (CORD_init_forest len) (\<lambda>fo.
           bindE (CORD_balance_insert cat x len fo) (\<lambda>fo. CORD_concat_forest cat fo len)))"

text \<open>
  \<^verbatim>\<open>CORD_cat\<close> and \<^verbatim>\<open>CORD_balance\<close> call each other.  The first argument bounds the number of nested calls;
  at 0 the call has not returned.
\<close>

primrec cat_n :: "nat \<Rightarrow> cord \<Rightarrow> cord \<Rightarrow> cord res" where
  "cat_n 0 x y = Inl Diverge"
| "cat_n (Suc n) x y = cord_cat (cord_balance (cat_n n)) x y"

definition CORD_cat :: "cord \<Rightarrow> cord \<Rightarrow> cord res" where
  "CORD_cat = cat_n 2"

definition CORD_balance :: "cord \<Rightarrow> cord res" where
  "CORD_balance = cord_balance (cat_n 1)"

definition CORD_cat_char_star :: "cord \<Rightarrow> string \<Rightarrow> nat \<Rightarrow> cord res" where
  "CORD_cat_char_star = cat_char_star CORD_balance"

end
