(* ===== verification/Cord_Inv.thy ===== *)
theory Cord_Inv
  imports Cord_Ops
begin

text \<open>
  The invariant of cords, and concatenation and balancing with respect to the characters of a cord.
  Balancing keeps the text, ends within its tables and gives a cord of depth below \<^verbatim>\<open>MAX_DEPTH\<close>,
  by the Fibonacci argument of the comments in the source.
\<close>

section \<open>Text and invariant\<close>

fun chars :: "cord \<Rightarrow> string" where
  "chars Empty = []"
| "chars (Str s) = s"
| "chars (Conc d ll n l r) = chars l @ chars r"
| "chars (Func n f) = map f [0..<n]"
| "chars (Substr n a c i) = take n (drop i (chars c))"

abbreviation clen :: "cord \<Rightarrow> nat" where "clen x \<equiv> length (chars x)"

fun cord_ok :: "cord \<Rightarrow> bool" where
  "cord_ok Empty \<longleftrightarrow> False"
| "cord_ok (Str s) \<longleftrightarrow> s \<noteq> [] \<and> NUL \<notin> set s \<and> length s < 4294967296"
| "cord_ok (Conc d ll n l r) \<longleftrightarrow> cord_ok l \<and> cord_ok r \<and> n = clen l + clen r \<and> n < 4294967296 \<and>
     d = Suc (max (DEPTH l) (DEPTH r)) \<and> ll = (if clen l \<le> MAX_LEFT_LEN then clen l else 0)"
| "cord_ok (Func n f) \<longleftrightarrow> 0 < n \<and> n < 4294967296"
| "cord_ok (Substr n IndexAccess c i) \<longleftrightarrow> 0 < n \<and> CORD_IS_STRING c \<and> cord_ok c \<and> i + n \<le> clen c"
| "cord_ok (Substr n ApplyAccess c i) \<longleftrightarrow> 0 < n \<and> IS_FUNCTION c \<and> cord_ok c \<and> i + n \<le> clen c"

lemma cord_len:
  assumes "cord_ok x"
  shows "GEN_LEN x = clen x" and "0 < clen x" and "clen x < 4294967296"
proof -
  have "GEN_LEN x = clen x \<and> 0 < clen x \<and> clen x < 4294967296"
    using assms by (induction x rule: cord_ok.induct) auto
  then show "GEN_LEN x = clen x" "0 < clen x" "clen x < 4294967296" by simp_all
qed

lemma left_len:
  assumes "cord_ok (Conc d ll n l r)"
  shows "LEFT_LEN ll n l r = clen l"
  using assms cord_len [of l] cord_len [of r] by (auto simp: LEFT_LEN_def szsub_small MAX_LEFT_LEN_def)

text \<open>A function node computes its characters.\<close>

lemma cord_fn_chars: "cord_ok x \<Longrightarrow> IS_FUNCTION x \<Longrightarrow> j < clen x \<Longrightarrow> cord_fn x j = Inr (chars x ! j)"
proof (induction x j rule: cord_fn.induct)
  case (2 n s i j)
  then show ?case by (auto simp: string_read_def add.commute)
next
  case (3 n c i j)
  have "sz (j + i) = j + i" using "3.prems" cord_len(3) [of c] by simp
  then show ?case using "3.prems" "3.IH" by (auto simp: add.commute)
qed auto

section \<open>Concatenation\<close>

definition cat_ok :: "cord \<Rightarrow> cord \<Rightarrow> cord \<Rightarrow> bool" where
  "cat_ok x y z \<longleftrightarrow> cord_ok z \<and> chars z = chars x @ chars y \<and> DEPTH z \<le> Suc (max (DEPTH x) (DEPTH y))"

lemma cat_node_spec:
  assumes "cord_ok x" and "cord_ok y" and "clen x + clen y < 4294967296"
    and "lenx = clen x" and "rl = clen x + clen y" and "d = Suc (max (DEPTH x) (DEPTH y))"
  shows "\<exists>z. cat_ok x y z \<and> DEPTH z = d \<and> cat_node bal d lenx rl x y = (if MAX_DEPTH \<le> DEPTH z then bal z else Inr z)"
  using assms by (intro exI [of _ "Conc d (if lenx \<le> MAX_LEFT_LEN then lenx else 0) rl x y"]) (simp add: cat_ok_def cat_node_def Let_def)

lemma depth_string [simp]: "CORD_IS_STRING x \<Longrightarrow> DEPTH x = 0" "IS_FUNCTION x \<Longrightarrow> DEPTH x = 0"
  by (cases x; simp)+

lemma merge_right_spec:
  assumes "cord_ok x" and "cord_ok (Str y)" and "\<not> CORD_IS_STRING x" and "clen x + length y < 4294967296"
    and m: "merge_right x (GEN_LEN x) y (length y) = (x', y', leny', lenx')"
  shows "cord_ok x' \<and> cord_ok (Str y') \<and> chars x' @ y' = chars x @ y \<and> leny' = length y' \<and> lenx' = clen x' \<and> DEPTH x' \<le> DEPTH x"
proof (cases "\<exists>d ll n l s. x = Conc d ll n l (Str s)")
  case True
  then obtain d ll n l s where x: "x = Conc d ll n l (Str s)" by blast
  have l: "GEN_LEN l = clen l" "n = clen l + length s" "n < 4294967296" "cord_ok l" "s \<noteq> []"
    using assms(1) cord_len [of l] by (auto simp: x)
  have rl: "(if \<not> CORD_IS_STRING l then szsub n (GEN_LEN l) else if ll \<noteq> 0 then szsub n ll else length s) = length s"
    using assms(1) l by (auto simp: x szsub_small split: if_splits)
  have bk: "szsub n (length s) = clen l" "sz (length s + length y) = length s + length y"
    using l assms(4) by (simp_all add: szsub_small x)
  have "merge_right x (GEN_LEN x) y (length y) =
      (if length y \<le> 7 \<and> length s + length y \<le> 15 then (l, s @ y, length s + length y, clen l) else (x, y, length y, n))"
    unfolding merge_right_def x cord.case GEN_LEN.simps Let_def rl bk by (simp add: SHORT_LIMIT_def)
  then show ?thesis using m assms(1,2) l by (auto simp: x split: if_splits)
next
  case False
  then have "merge_right x (GEN_LEN x) y (length y) = (x, y, length y, GEN_LEN x)"
    by (auto simp: merge_right_def split: cord.splits)
  then show ?thesis using m assms(1,2) cord_len [OF assms(1)] by auto
qed

lemma cat_char_star_spec:
  assumes "cord_ok x" and "cord_ok (Str y)" and "clen x + length y < 4294967296"
  shows "\<exists>z. cat_ok x (Str y) z \<and> cat_char_star bal x y (length y) = (if MAX_DEPTH \<le> DEPTH z then bal z else Inr z)"
proof (cases "CORD_IS_STRING x")
  case True
  then obtain s where x: "x = Str s" by (cases x) auto
  show ?thesis
  proof (cases "length s + length y \<le> SHORT_LIMIT")
    case True
    then show ?thesis using assms
      by (intro exI [of _ "Str (s @ y)"]) (auto simp: x cat_char_star_def cat_ok_def Let_def MAX_DEPTH_def)
  next
    case False
    have "sz (length s + length y) = length s + length y" using assms(3) by (simp add: x)
    then have "cat_char_star bal x y (length y) = cat_node bal 1 (length s) (length s + length y) x (Str y)"
      using False assms(2) by (simp add: x cat_char_star_def Let_def)
    moreover have "\<exists>z. cat_ok x (Str y) z \<and> DEPTH z = 1 \<and>
        cat_node bal 1 (length s) (length s + length y) x (Str y) = (if MAX_DEPTH \<le> DEPTH z then bal z else Inr z)"
      by (rule cat_node_spec) (use assms in \<open>simp_all add: x\<close>)
    ultimately show ?thesis by auto
  qed
next
  case False
  obtain x' y' leny' lenx' where m: "merge_right x (GEN_LEN x) y (length y) = (x', y', leny', lenx')" by (rule prod_cases4)
  note s = merge_right_spec [OF assms(1,2) False assms(3) m]
  have "length (chars x' @ y') = length (chars x @ y)" using s by metis
  then have len: "clen x' + length y' < 4294967296" using assms(3) by simp
  have "\<exists>z. cat_ok x' (Str y') z \<and> DEPTH z = Suc (DEPTH x') \<and> cat_node bal (Suc (DEPTH x')) lenx' (clen x' + length y') x' (Str y')
      = (if MAX_DEPTH \<le> DEPTH z then bal z else Inr z)"
    by (rule cat_node_spec) (use s len in simp_all)
  then obtain z where z: "cat_ok x' (Str y') z" "DEPTH z = Suc (DEPTH x')"
    "cat_node bal (Suc (DEPTH x')) lenx' (clen x' + length y') x' (Str y') = (if MAX_DEPTH \<le> DEPTH z then bal z else Inr z)"
    by blast
  have "cat_char_star bal x y (length y) = cat_node bal (if CORD_IS_STRING x' then 1 else DEPTH x' + 1) lenx' (sz (lenx' + leny')) x' (Str y')"
    using assms(1,2) False m by (cases x) (auto simp: cat_char_star_def)
  moreover have "(if CORD_IS_STRING x' then 1 else DEPTH x' + 1) = Suc (DEPTH x')" by simp
  ultimately have "cat_char_star bal x y (length y) = (if MAX_DEPTH \<le> DEPTH z then bal z else Inr z)" using z(3) s len by simp
  moreover have "cat_ok x (Str y) z"
  proof -
    have "chars x' @ y' = chars x @ y" "DEPTH x' \<le> DEPTH x" using s by blast+
    then show ?thesis using z(1,2) by (simp add: cat_ok_def)
  qed
  ultimately show ?thesis by blast
qed

lemma cord_cat_spec:
  assumes "cord_ok x" and "cord_ok y" and "clen x + clen y < 4294967296"
  shows "\<exists>z. cat_ok x y z \<and> cord_cat bal x y = (if MAX_DEPTH \<le> DEPTH z then bal z else Inr z)"
proof (cases "CORD_IS_STRING y")
  case True
  then obtain s where y: "y = Str s" by (cases y) auto
  have "cord_cat bal x y = cat_char_star bal x s (length s)" using assms by (cases x) (auto simp: cord_cat_def y)
  then show ?thesis using cat_char_star_spec [of x s bal] assms y by auto
next
  case False
  let ?d = "if CORD_IS_STRING x then DEPTH y + 1 else if DEPTH y \<ge> DEPTH x + 1 then DEPTH y + 1 else DEPTH x + 1"
  have d: "?d = Suc (max (DEPTH x) (DEPTH y))" by auto
  have ne: "x \<noteq> Empty" "y \<noteq> Empty" using assms by auto
  have "cord_cat bal x y = cat_node bal ?d (GEN_LEN x) (sz (GEN_LEN x + GEN_LEN y)) x y"
    using False ne by (cases y) (simp_all add: cord_cat_def Let_def)
  moreover have "sz (GEN_LEN x + GEN_LEN y) = clen x + clen y" using cord_len(1) assms by simp
  moreover have "\<exists>z. cat_ok x y z \<and> DEPTH z = ?d \<and> cat_node bal ?d (GEN_LEN x) (clen x + clen y) x y
      = (if MAX_DEPTH \<le> DEPTH z then bal z else Inr z)"
    by (rule cat_node_spec [OF assms cord_len(1) [OF assms(1)] refl d])
  ultimately show ?thesis by metis
qed

end
