(* ===== verification/Cord_Balance.thy ===== *)
theory Cord_Balance
  imports Cord_Inv
begin

text \<open>
  Balancing: \<^verbatim>\<open>CORD_balance\<close> and the forest operations of \<^verbatim>\<open>gc/cord/cordbscs.c\<close>.
\<close>

section \<open>The table of least lengths\<close>

lemma min_len_loop_Suc:
  "a + b < 4294967296 \<Longrightarrow> min_len_loop (Suc k) a b = (a + b) # min_len_loop k (a + b) a"
  "4294967296 \<le> a + b \<Longrightarrow> b < 4294967296 \<Longrightarrow> a < 4294967296 \<Longrightarrow> min_len_loop (Suc k) a b = a # min_len_loop k a a"
  by (auto simp: Let_def sz_def mod_if)

lemmas min_len_loop_numeral = min_len_loop_Suc [of _ _ "pred_numeral n" for n, folded numeral_eq_Suc]

lemma min_len_table: "CORD_init_min_len =
  [1, 2, 3, 5, 8, 13, 21, 34, 55, 89, 144, 233, 377, 610, 987, 1597, 2584, 4181, 6765, 10946, 17711, 28657, 46368,
   75025, 121393, 196418, 317811, 514229, 832040, 1346269, 2178309, 3524578, 5702887, 9227465, 14930352, 24157817,
   39088169, 63245986, 102334155, 165580141, 267914296, 433494437, 701408733, 1134903170, 1836311903, 2971215073,
   2971215073, 2971215073]"
  unfolding CORD_init_min_len_def MAX_DEPTH_def
  by (simp add: min_len_loop_numeral min_len_loop_Suc del: min_len_loop.simps(2))

definition F :: "nat \<Rightarrow> nat" where
  "F i = CORD_init_min_len ! i"

lemma F_checks:
  "take 44 (drop 2 CORD_init_min_len) = map2 (+) (take 44 (drop 1 CORD_init_min_len)) (take 44 CORD_init_min_len)"
  "sorted_wrt (<) (take 46 CORD_init_min_len)"
  "F 0 = 1" "F 45 = 2971215073" "F 46 = 2971215073" "F 47 = 2971215073"
  by (simp_all add: F_def min_len_table)

lemma F_rec:
  assumes "i < 44"
  shows "F (Suc (Suc i)) = F (Suc i) + F i"
proof -
  have "length CORD_init_min_len = 48" by (simp add: CORD_init_min_len_def MAX_DEPTH_def)
  then show ?thesis using arg_cong [OF F_checks(1), of "\<lambda>xs. xs ! i"] assms by (simp add: F_def)
qed

lemma F_Suc:
  assumes "i < 45"
  shows "F i < F (Suc i)"
proof -
  have "length CORD_init_min_len = 48" by (simp add: CORD_init_min_len_def MAX_DEPTH_def)
  then show ?thesis using sorted_wrt_nth_less [OF F_checks(2), of i "Suc i"] assms by (simp add: F_def)
qed

lemma F_mono: "i \<le> j \<Longrightarrow> j \<le> 45 \<Longrightarrow> F i \<le> F j"
proof (induction j)
  case (Suc j)
  then show ?case using F_Suc [of j] by (cases "i = Suc j") auto
qed simp

lemma F_less: "F i \<le> n \<Longrightarrow> n < F j \<Longrightarrow> i \<le> 45 \<Longrightarrow> j \<le> 45 \<Longrightarrow> i < j"
  using F_mono [of j i] by (meson leD le_trans not_le_imp_less order.strict_trans1)

lemma F_top: "i < 48 \<Longrightarrow> 45 \<le> i \<Longrightarrow> F i = 2971215073"
proof -
  assume "i < 48" "45 \<le> i"
  then have "i = 45 \<or> i = 46 \<or> i = 47" by auto
  then show ?thesis using F_checks by auto
qed

lemma F_pos: "i < 48 \<Longrightarrow> 1 \<le> F i"
  using F_mono [of 0 i] F_checks(3) F_top [of i] by (cases "i \<le> 45") auto

lemma F_double: "i < 45 \<Longrightarrow> F (Suc i) \<le> 2 * F i"
proof (cases i)
  case (Suc k)
  assume "i < 45"
  then show ?thesis using Suc F_rec [of k] F_Suc [of k] by simp
qed (simp add: F_def min_len_table)

lemma min_len_F: "i < 48 \<Longrightarrow> min_len i = Inr (F i)"
  by (simp add: min_len_def F_def CORD_init_min_len_def MAX_DEPTH_def)

section \<open>Forests\<close>

definition lev :: "forest \<Rightarrow> nat \<Rightarrow> string" where
  "lev fo i = (case fo ! i of Some (c, _) \<Rightarrow> chars c | None \<Rightarrow> [])"

primrec ftext :: "forest \<Rightarrow> nat \<Rightarrow> string" where
  "ftext fo 0 = []"
| "ftext fo (Suc i) = lev fo i @ ftext fo i"

text \<open>A tree at level \<open>i\<close> has at least the length of the table and a depth of at most \<open>i + 2\<close>.\<close>

definition tree_ok :: "nat \<Rightarrow> cord \<Rightarrow> nat \<Rightarrow> bool" where
  "tree_ok i c len \<longleftrightarrow> c \<noteq> Empty \<longrightarrow> cord_ok c \<and> len = clen c \<and> F i \<le> clen c \<and> DEPTH c \<le> i + 2"

definition forest_ok :: "nat \<Rightarrow> forest \<Rightarrow> bool" where
  "forest_ok j fo \<longleftrightarrow> length fo = 48 \<and> (\<forall>i<j. \<exists>c len. fo ! i = Some (c, len) \<and> tree_ok i c len)"

lemma ftext_upd: "k \<le> i \<Longrightarrow> ftext (fo[i := e]) k = ftext fo k"
  by (induction k) (simp_all add: lev_def)

lemma ftext_empty: "(\<And>m. m < i \<Longrightarrow> lev fo m = []) \<Longrightarrow> ftext fo i = []"
  by (induction i) simp_all

lemma ftext_set:
  assumes "i < k" and "i < length fo" and "\<And>m. m < i \<Longrightarrow> lev fo m = []"
  shows "ftext fo k = ftext (fo[i := Some (Empty, n)]) k @ lev fo i"
    and "lev fo i = [] \<Longrightarrow> ftext (fo[i := Some (c, n)]) k = ftext fo k @ chars c"
proof -
  have e: "ftext fo i = []" using assms(3) by (rule ftext_empty)
  show "ftext fo k = ftext (fo[i := Some (Empty, n)]) k @ lev fo i"
    using assms(1,2) by (induction k) (auto simp: less_Suc_eq lev_def ftext_upd e)
  show "ftext (fo[i := Some (c, n)]) k = ftext fo k @ chars c" if "lev fo i = []"
    using assms(1,2) that by (induction k) (auto simp: less_Suc_eq lev_def ftext_upd e)
qed

lemma lev_upd: "i < length fo \<Longrightarrow> lev (fo[i := Some (c, n)]) m = (if m = i then chars c else lev fo m)"
  by (simp add: lev_def)

lemma forest_upd:
  assumes "forest_ok j fo" and "tree_ok i c n"
  shows "forest_ok j (fo[i := Some (c, n)])"
proof -
  have "\<exists>c' n'. fo[i := Some (c, n)] ! m = Some (c', n') \<and> tree_ok m c' n'" if "m < j" for m
    using assms that by (cases "m = i \<and> i < length fo") (auto simp: forest_ok_def nth_list_update list_update_beyond)
  then show ?thesis using assms(1) by (simp add: forest_ok_def)
qed

lemma length_ftext_lev: "i < k \<Longrightarrow> length (lev fo i) \<le> length (ftext fo k)"
  by (induction k) (auto simp: less_Suc_eq)

section \<open>Short concatenations\<close>

definition ok0 :: "cord \<Rightarrow> bool" where
  "ok0 x \<longleftrightarrow> x = Empty \<or> cord_ok x"

text \<open>A concatenation that stays below the depth limit does not balance.\<close>

definition cat_small :: "(cord \<Rightarrow> cord \<Rightarrow> cord res) \<Rightarrow> bool" where
  "cat_small cat \<longleftrightarrow> (\<forall>x y. ok0 x \<longrightarrow> ok0 y \<longrightarrow> clen x + clen y < 4294967296 \<longrightarrow> Suc (max (DEPTH x) (DEPTH y)) < 48 \<longrightarrow>
     (\<exists>z. cat x y = Inr z \<and> ok0 z \<and> chars z = chars x @ chars y \<and> DEPTH z \<le> Suc (max (DEPTH x) (DEPTH y)) \<and>
       (x = Empty \<longrightarrow> z = y) \<and> (y = Empty \<longrightarrow> z = x)))"

lemma cat_smallD:
  assumes "cat_small cat" and "ok0 x" and "ok0 y" and "clen x + clen y < 4294967296" and "Suc (max (DEPTH x) (DEPTH y)) < 48"
  obtains z where "cat x y = Inr z" and "ok0 z" and "chars z = chars x @ chars y" and "DEPTH z \<le> Suc (max (DEPTH x) (DEPTH y))"
    and "x = Empty \<Longrightarrow> z = y" and "y = Empty \<Longrightarrow> z = x"
  using assms unfolding cat_small_def by blast

lemma cat_n_small: "cat_small (cat_n (Suc n))"
  unfolding cat_small_def
proof (intro allI impI)
  fix x y
  assume a: "ok0 x" "ok0 y" "clen x + clen y < 4294967296" "Suc (max (DEPTH x) (DEPTH y)) < 48"
  consider "x = Empty" | "x \<noteq> Empty" "y = Empty" | "cord_ok x" "cord_ok y" using a by (auto simp: ok0_def)
  then show "\<exists>z. cat_n (Suc n) x y = Inr z \<and> ok0 z \<and> chars z = chars x @ chars y \<and> DEPTH z \<le> Suc (max (DEPTH x) (DEPTH y)) \<and>
       (x = Empty \<longrightarrow> z = y) \<and> (y = Empty \<longrightarrow> z = x)"
  proof cases
    case 1
    then show ?thesis using a by (simp add: cord_cat_def)
  next
    case 2
    then show ?thesis using a by (simp add: cord_cat_def)
  next
    case 3
    obtain z where z: "cat_ok x y z" "cord_cat (cord_balance (cat_n n)) x y = (if MAX_DEPTH \<le> DEPTH z then cord_balance (cat_n n) z else Inr z)"
      using cord_cat_spec [OF 3 a(3)] by blast
    then have "\<not> MAX_DEPTH \<le> DEPTH z" using a(4) by (auto simp: cat_ok_def MAX_DEPTH_def)
    then show ?thesis using z 3 by (auto simp: cat_ok_def ok0_def)
  qed
qed

lemma take_level_spec:
  assumes c: "cat_small cat" and fo: "forest_ok j fo" and i: "i < j" "j \<le> 45" and sm: "ok0 sm" "n = clen sm"
    and low: "\<And>m. m < i \<Longrightarrow> lev fo m = []" and len: "length (ftext fo j) + clen sm < 4294967296"
    and d: "DEPTH sm < 47"
  obtains fo' s where "take_level cat i fo sm n = Inr (fo', s, clen s)" and "forest_ok j fo'" and "ok0 s"
    and "\<And>m. m < Suc i \<Longrightarrow> lev fo' m = []" and "ftext fo' j @ chars s = ftext fo j @ chars sm"
    and "s = sm \<or> F i + clen sm \<le> clen s \<and> DEPTH s \<le> (if sm = Empty then i + 2 else Suc (max (i + 2) (DEPTH sm)))"
proof -
  obtain c0 n0 where e: "fo ! i = Some (c0, n0)" "tree_ok i c0 n0" and l48: "length fo = 48"
    using fo i by (auto simp: forest_ok_def)
  have g: "forest_get fo i = Inr (c0, n0)" using e l48 i by (simp add: forest_get_def)
  have lv: "lev fo i = chars c0" using e by (simp add: lev_def)
  show thesis
  proof (cases "c0 = Empty")
    case True
    have "lev fo m = []" if "m < Suc i" for m using that low lv True by (cases "m = i") auto
    then show thesis using that [of fo sm] g True fo sm by (simp add: take_level_def)
  next
    case False
    then have t: "cord_ok c0" "n0 = clen c0" "F i \<le> clen c0" "DEPTH c0 \<le> i + 2" using e(2) by (auto simp: tree_ok_def)
    have ln: "clen c0 + clen sm < 4294967296" using length_ftext_lev [OF i(1), of fo] len lv by simp
    have "Suc (max (DEPTH c0) (DEPTH sm)) < 48" using t(4) i d by simp
    then obtain s where s: "cat c0 sm = Inr s" "ok0 s" "chars s = chars c0 @ chars sm"
      "DEPTH s \<le> Suc (max (DEPTH c0) (DEPTH sm))" "sm = Empty \<Longrightarrow> s = c0"
      using cat_smallD [OF c, of c0 sm] t(1) sm(1) ln by (auto simp: ok0_def)
    let ?fo = "fo[i := Some (Empty, n0)]"
    have "take_level cat i fo sm n = Inr (?fo, s, clen s)"
      using g False s(1,3) t(2) sm(2) ln by (simp add: take_level_def add.commute)
    moreover have "forest_ok j ?fo" by (rule forest_upd [OF fo]) (simp add: tree_ok_def)
    moreover have "lev ?fo m = []" if "m < Suc i" for m using that low l48 i by (auto simp: lev_upd)
    moreover have "ftext ?fo j @ chars s = ftext fo j @ chars sm"
      using ftext_set(1) [OF i(1) _ low, of n0] l48 i lv s(3) by simp
    moreover have "F i + clen sm \<le> clen s \<and> DEPTH s \<le> (if sm = Empty then i + 2 else Suc (max (i + 2) (DEPTH sm)))"
      using s t by auto
    ultimately show thesis using that s(2) by blast
  qed
qed

section \<open>Adding to the forest\<close>

definition sum_small :: "nat \<Rightarrow> cord \<Rightarrow> bool" where
  "sum_small i s \<longleftrightarrow> DEPTH s \<le> i + 1 \<or> 0 < i \<and> DEPTH s \<le> i + 2 \<and> F (i - 1) \<le> clen s"

lemma add_loop1_spec:
  assumes "cat_small cat" and "j \<le> 45" and "len < F j" and "i < j" and "forest_ok j fo" and "ok0 sm" and "n = clen sm"
    and "\<And>m. m < i \<Longrightarrow> lev fo m = []" and "length (ftext fo j) + clen sm < 4294967296" and "sum_small i sm"
  shows "\<exists>i' fo' s. add_loop1 cat len i fo sm n = Inr (i', fo', s, clen s) \<and> i' < j \<and> forest_ok j fo' \<and> ok0 s \<and>
    (\<forall>m<i'. lev fo' m = []) \<and> ftext fo' j @ chars s = ftext fo j @ chars sm \<and> len \<le> F (Suc i') \<and> (i' = i \<or> F i' < len) \<and> sum_small i' s"
  using assms(4-)
proof (induction "j - i" arbitrary: i fo sm n rule: less_induct)
  case less
  have m: "min_len (i + 1) = Inr (F (Suc i))" using less.prems(1) assms(2) by (simp add: min_len_F)
  show ?case
  proof (cases "F (Suc i) < len")
    case False
    then have "add_loop1 cat len i fo sm n = Inr (i, fo, sm, clen sm)" using m less.prems(4) by (subst add_loop1.simps) simp
    then show ?thesis using False less.prems by auto
  next
    case True
    have ij: "Suc i < j" by (rule F_less [of "Suc i" len]) (use True assms(2,3) less.prems(1) in simp_all)
    have d: "DEPTH sm < 47" using less.prems(7) ij assms(2) by (auto simp: sum_small_def)
    obtain fo' s where t: "take_level cat i fo sm n = Inr (fo', s, clen s)" "forest_ok j fo'" "ok0 s"
      "\<And>m. m < Suc i \<Longrightarrow> lev fo' m = []" "ftext fo' j @ chars s = ftext fo j @ chars sm"
      "s = sm \<or> F i + clen sm \<le> clen s \<and> DEPTH s \<le> (if sm = Empty then i + 2 else Suc (max (i + 2) (DEPTH sm)))"
      using take_level_spec [OF assms(1) less.prems(2,1) assms(2) less.prems(3,4,5,6) d] by blast
    have "length (ftext fo' j @ chars s) = length (ftext fo j @ chars sm)" using t(5) by simp
    then have l: "length (ftext fo' j) + clen s < 4294967296" using less.prems(6) by simp
    have dl: "j - Suc i < j - i" using ij by simp
    have sm: "sum_small (Suc i) s" using t(6) less.prems(7) by (auto simp: sum_small_def split: if_splits)
    obtain i' fo'' s' where "add_loop1 cat len (Suc i) fo' s (clen s) = Inr (i', fo'', s', clen s')" "i' < j" "forest_ok j fo''" "ok0 s'"
      "\<forall>m<i'. lev fo'' m = []" "ftext fo'' j @ chars s' = ftext fo' j @ chars s" "len \<le> F (Suc i')" "i' = Suc i \<or> F i' < len" "sum_small i' s'"
      using less.hyps [OF dl ij t(2,3) refl t(4) l sm] by blast
    moreover have "add_loop1 cat len i fo sm n = add_loop1 cat len (Suc i) fo' s (clen s)"
      using m True t(1) by (subst add_loop1.simps) simp
    ultimately show ?thesis using t(5) True by auto
  qed
qed

definition sum_big :: "nat \<Rightarrow> cord \<Rightarrow> bool" where
  "sum_big i s \<longleftrightarrow> F (i - 1) \<le> clen s \<and> (DEPTH s \<le> i + 1 \<or> DEPTH s \<le> i + 2 \<and> F i \<le> clen s \<or> DEPTH s \<le> i + 3 \<and> F (Suc i) \<le> clen s)"

lemma add_loop2_spec:
  assumes "cat_small cat" and "j \<le> 45" and "i \<le> j" and "forest_ok j fo" and "cord_ok sm" and "n = clen sm"
    and "\<And>m. m < i \<Longrightarrow> lev fo m = []" and "length (ftext fo j) + clen sm < F j" and "sum_big i sm"
  shows "\<exists>i' fo' s. add_loop2 cat i fo sm n = Inr (i', fo', s, clen s) \<and> i' \<le> j \<and> forest_ok j fo' \<and> cord_ok s \<and>
    (\<forall>m<i'. lev fo' m = []) \<and> ftext fo' j @ chars s = ftext fo j @ chars sm \<and> clen s < F i' \<and> F (i' - 1) \<le> clen s \<and> DEPTH s \<le> i' + 1"
  using assms(3-)
proof (induction "j - i" arbitrary: i fo sm n rule: less_induct)
  case less
  have m: "min_len i = Inr (F i)" using less.prems(1) assms(2) by (simp add: min_len_F)
  have ne: "sm \<noteq> Empty" "ok0 sm" using less.prems(3) by (auto simp: ok0_def)
  show ?case
  proof (cases "F i \<le> clen sm")
    case False
    then have "add_loop2 cat i fo sm n = Inr (i, fo, sm, clen sm)" using m less.prems(4) by (subst add_loop2.simps) simp
    moreover have "\<not> F (Suc i) \<le> clen sm" if "i < 45" using False F_Suc [OF that] by simp
    moreover have "F (Suc i) = F i" if "\<not> i < 45" using that less.prems(1) assms(2) F_top [of i] F_top [of "Suc i"] by simp
    ultimately show ?thesis using False less.prems by (cases "i < 45") (auto simp: sum_big_def)
  next
    case True
    have ij: "i < j" by (rule F_less [of i "clen sm"]) (use True less.prems(1,6) assms(2) in simp_all)
    have i44: "Suc i < j" if "F (Suc i) \<le> clen sm" by (rule F_less [of "Suc i" "clen sm"]) (use that ij less.prems(6) assms(2) in simp_all)
    have d: "DEPTH sm \<le> i + 2 \<or> DEPTH sm \<le> i + 3 \<and> F (Suc i) \<le> clen sm" using less.prems(7) True by (auto simp: sum_big_def)
    then have d47: "DEPTH sm < 47" using ij i44 assms(2) by auto
    have l0: "length (ftext fo j) + clen sm < 4294967296" using less.prems(6) F_mono [of j 45] F_checks(4) assms(2) by simp
    obtain fo' s where t: "take_level cat i fo sm n = Inr (fo', s, clen s)" "forest_ok j fo'" "ok0 s"
      "\<And>m. m < Suc i \<Longrightarrow> lev fo' m = []" "ftext fo' j @ chars s = ftext fo j @ chars sm"
      "s = sm \<or> F i + clen sm \<le> clen s \<and> DEPTH s \<le> (if sm = Empty then i + 2 else Suc (max (i + 2) (DEPTH sm)))"
      using take_level_spec [OF assms(1) less.prems(2) ij assms(2) ne(2) less.prems(4,5) l0 d47] by blast
    have "length (ftext fo' j @ chars s) = length (ftext fo j @ chars sm)" using t(5) by simp
    then have l: "length (ftext fo' j) + clen s < F j" using less.prems(6) by simp
    have s: "cord_ok s" using t(3,6) less.prems(3) cord_len(2) [OF less.prems(3)] by (auto simp: ok0_def)
    have big: "sum_big (Suc i) s"
    proof -
      consider "s = sm" | "s \<noteq> sm" "DEPTH sm \<le> i + 2" | "s \<noteq> sm" "DEPTH sm \<le> i + 3" "F (Suc i) \<le> clen sm" using d by blast
      then show ?thesis
      proof cases
        case 1
        then show ?thesis using d True by (auto simp: sum_big_def)
      next
        case 2
        then have g: "F i + clen sm \<le> clen s" "DEPTH s \<le> i + 3" using t(6) ne by auto
        show ?thesis using g True F_double [of i] ij assms(2) by (simp add: sum_big_def)
      next
        case 3
        then have g: "F i + clen sm \<le> clen s" "DEPTH s \<le> i + 4" using t(6) ne by auto
        have "F (Suc (Suc i)) = F (Suc i) + F i" using i44 [OF 3(3)] assms(2) by (intro F_rec) simp
        then show ?thesis using g 3 True by (simp add: sum_big_def)
      qed
    qed
    have dl: "j - Suc i < j - i" and sj: "Suc i \<le> j" using ij by simp_all
    obtain i' fo'' s' where "add_loop2 cat (Suc i) fo' s (clen s) = Inr (i', fo'', s', clen s')" "i' \<le> j" "forest_ok j fo''" "cord_ok s'"
      "\<forall>m<i'. lev fo'' m = []" "ftext fo'' j @ chars s' = ftext fo' j @ chars s" "clen s' < F i'" "F (i' - 1) \<le> clen s'" "DEPTH s' \<le> i' + 1"
      using less.hyps [OF dl sj t(2) s refl t(4) l big] by blast
    moreover have "add_loop2 cat i fo sm n = add_loop2 cat (Suc i) fo' s (clen s)"
      using m True t(1) less.prems(4) by (subst add_loop2.simps) simp
    ultimately show ?thesis using t(5) by auto
  qed
qed

text \<open>
  A leaf, or a subtree that is long enough for its depth, goes into the forest behind the text so far.
\<close>

lemma add_forest_spec:
  assumes c: "cat_small cat" and j: "j \<le> 45" and fo: "forest_ok j fo" and x: "cord_ok x" "F (DEPTH x) \<le> clen x" "DEPTH x < 48"
    and len: "length (ftext fo j) + clen x < F j"
  shows "\<exists>fo'. CORD_add_forest cat fo x (clen x) = Inr fo' \<and> forest_ok j fo' \<and> ftext fo' j = ftext fo j @ chars x"
proof -
  have big: "length (ftext fo j) + clen x < 2971215073" using len F_mono [of j 45] F_checks(4) j by simp
  have x0: "0 < clen x" by (rule cord_len [OF x(1)])
  have j0: "0 < j" by (rule F_less [of 0 "clen x"]) (use x0 len j in \<open>simp_all add: F_checks(3) Suc_le_eq\<close>)
  have lx: "clen x < F j" "length (ftext fo j) + clen Empty < 4294967296" "sum_small 0 Empty"
    using len big by (simp_all add: sum_small_def)
  obtain i fo1 s where a: "add_loop1 cat (clen x) 0 fo Empty 0 = Inr (i, fo1, s, clen s)" "i < j" "forest_ok j fo1" "ok0 s"
    "\<forall>m<i. lev fo1 m = []" "ftext fo1 j @ chars s = ftext fo j @ chars Empty" "clen x \<le> F (Suc i)" "i = 0 \<or> F i < clen x" "sum_small i s"
    using add_loop1_spec [OF c j lx(1) j0 fo _ _ _ lx(2,3), of 0] by (auto simp: ok0_def)
  have "length (ftext fo1 j @ chars s) = length (ftext fo j)" using a(6) by simp
  then have l1: "length (ftext fo1 j) + clen s + clen x < F j" using len by simp
  have dx45: "DEPTH x < 45" using x(2,3) big F_top [of "DEPTH x"] by (cases "DEPTH x < 45") auto
  have "\<not> Suc (Suc i) \<le> DEPTH x"
  proof
    assume "Suc (Suc i) \<le> DEPTH x"
    then have "F (Suc (Suc i)) \<le> F (DEPTH x)" "F (Suc i) < F (Suc (Suc i))" using F_mono F_Suc dx45 by simp_all
    then show False using x(2) a(7) by simp
  qed
  then have dx: "DEPTH x \<le> i + 1" by simp
  have fi: "F i \<le> clen x" using a(8) F_checks(3) x0 by (auto simp: Suc_le_eq)
  have ds: "DEPTH s \<le> i + 2" using a(9) by (auto simp: sum_small_def)
  have "Suc (max (DEPTH s) (DEPTH x)) < 48" using ds dx a(2) j by simp
  then obtain z where z: "cat s x = Inr z" "ok0 z" "chars z = chars s @ chars x" "DEPTH z \<le> Suc (max (DEPTH s) (DEPTH x))"
    "s = Empty \<Longrightarrow> z = x"
    using cat_smallD [OF c a(4), of x] x(1) l1 big F_mono [of j 45] F_checks(4) j by (auto simp: ok0_def)
  have zok: "cord_ok z" using z(2,3) x0 by (auto simp: ok0_def)
  have fi1: "F (i - 1) \<le> F i" using F_mono [of "i - 1" i] a(2) j by simp
  have zb: "sum_big i z"
  proof (cases "DEPTH s \<le> i + 1")
    case True
    then show ?thesis using z(3,4) dx fi fi1 by (auto simp: sum_big_def)
  next
    case False
    then have s: "0 < i" "F (i - 1) \<le> clen s" using a(9) by (auto simp: sum_small_def)
    then have "F (Suc i) = F i + F (i - 1)" using F_rec [of "i - 1"] a(2) j by simp
    then show ?thesis using z(3,4) s dx ds fi fi1 by (auto simp: sum_big_def)
  qed
  have sz: "sz (clen s + clen x) = clen z" using z(3) l1 big F_mono [of j 45] F_checks(4) j by simp
  have lz: "length (ftext fo1 j) + clen z < F j" using l1 z(3) by simp
  have low: "\<And>m. m < i \<Longrightarrow> lev fo1 m = []" using a(5) by blast
  obtain i' fo2 y where b: "add_loop2 cat i fo1 z (clen z) = Inr (i', fo2, y, clen y)" "i' \<le> j" "forest_ok j fo2" "cord_ok y"
    "\<forall>m<i'. lev fo2 m = []" "ftext fo2 j @ chars y = ftext fo1 j @ chars z" "clen y < F i'" "F (i' - 1) \<le> clen y" "DEPTH y \<le> i' + 1"
    using add_loop2_spec [OF c j less_imp_le [OF a(2)] a(3) zok refl low lz zb] by blast
  have i0: "0 < i'" using b(7) F_checks(3) cord_len(2) [OF b(4)] by (cases i') auto
  let ?fo = "fo2[i' - 1 := Some (y, clen y)]"
  have l48: "length fo2 = 48" using b(3) by (simp add: forest_ok_def)
  have "forest_ok j ?fo" by (rule forest_upd [OF b(3)]) (use b i0 in \<open>auto simp: tree_ok_def\<close>)
  moreover have "ftext ?fo j = ftext fo2 j @ chars y" by (rule ftext_set(2)) (use b(2,5) i0 l48 j in auto)
  then have "ftext ?fo j = ftext fo j @ chars x" using b(6) z(3) a(6) by simp
  moreover have "CORD_add_forest cat fo x (clen x) = Inr ?fo"
    using a(1) z(1) b(1) sz i0 l48 b(2) j by (simp add: CORD_add_forest_def forest_put_def)
  ultimately show ?thesis by blast
qed

lemma leaf_spec:
  assumes "cat_small cat" and "j \<le> 45" and "cord_ok x" and "DEPTH x = 0" and "forest_ok j fo" and "length (ftext fo j) + clen x < F j"
  shows "\<exists>fo'. CORD_add_forest cat fo x (clen x) = Inr fo' \<and> forest_ok j fo' \<and> ftext fo' j = ftext fo j @ chars x"
proof -
  have "F (DEPTH x) \<le> clen x" using cord_len(2) [OF assms(3)] by (simp add: assms(4) F_checks(3) Suc_le_eq)
  then show ?thesis using add_forest_spec [OF assms(1,2,5,3) _ _ assms(6)] assms(4) by simp
qed

lemma balance_insert_spec:
  assumes c: "cat_small cat" and j: "j \<le> 45"
  shows "cord_ok x \<Longrightarrow> forest_ok j fo \<Longrightarrow> length (ftext fo j) + clen x < F j \<Longrightarrow>
    \<exists>fo'. CORD_balance_insert cat x (clen x) fo = Inr fo' \<and> forest_ok j fo' \<and> ftext fo' j = ftext fo j @ chars x"
proof (induction x arbitrary: fo)
  case (Conc d ll n l r)
  let ?x = "Conc d ll n l r"
  have ok: "cord_ok l" "cord_ok r" "d = DEPTH ?x" using Conc.prems(1) by auto
  have ll: "LEFT_LEN ll n l r = clen l" using Conc.prems(1) by (rule left_len)
  have rl: "szsub (clen ?x) (clen l) = clen r" using cord_len(3) [OF Conc.prems(1)] by (simp add: szsub_small)
  show ?case
  proof (cases "d \<ge> MAX_DEPTH \<or> clen ?x < F d")
    case True
    then have deep: "bindE (if d \<ge> MAX_DEPTH then Inr True else bindE (min_len d) (\<lambda>m. Inr (clen ?x < m))) f = f True" for f :: "bool \<Rightarrow> forest res"
      by (cases "d \<ge> MAX_DEPTH") (simp_all add: min_len_F MAX_DEPTH_def)
    obtain fo1 where f1: "CORD_balance_insert cat l (clen l) fo = Inr fo1" "forest_ok j fo1" "ftext fo1 j = ftext fo j @ chars l"
      using Conc.IH(1) [OF ok(1) Conc.prems(2)] Conc.prems(3) by auto
    obtain fo2 where f2: "CORD_balance_insert cat r (clen r) fo1 = Inr fo2" "forest_ok j fo2" "ftext fo2 j = ftext fo1 j @ chars r"
      using Conc.IH(2) [OF ok(2) f1(2)] Conc.prems(3) f1(3) by auto
    have "CORD_balance_insert cat ?x (clen ?x) fo = Inr fo2"
      unfolding CORD_balance_insert.simps deep by (simp only: if_True Let_def ll rl f1(1) f2(1) bindE.simps)
    moreover have "ftext fo2 j = ftext fo j @ chars ?x" using f1(3) f2(3) by simp
    ultimately show ?thesis using f2(2) by blast
  next
    case False
    then have flat: "bindE (if d \<ge> MAX_DEPTH then Inr True else bindE (min_len d) (\<lambda>m. Inr (clen ?x < m))) f = f False" for f :: "bool \<Rightarrow> forest res"
      by (simp add: min_len_F MAX_DEPTH_def)
    have "CORD_balance_insert cat ?x (clen ?x) fo = CORD_add_forest cat fo ?x (clen ?x)"
      unfolding CORD_balance_insert.simps flat by (simp only: if_False)
    moreover have "F (DEPTH ?x) \<le> clen ?x" "DEPTH ?x < 48" using False by (auto simp: MAX_DEPTH_def)
    ultimately show ?thesis using add_forest_spec [OF c j Conc.prems(2,1) _ _ Conc.prems(3)] by simp
  qed
next
  case (Str s)
  then show ?case using leaf_spec [OF c j, of "Str s" fo] by simp
next
  case (Func n f)
  then show ?case using leaf_spec [OF c j, of "Func n f" fo] by simp
next
  case (Substr n a x i)
  then show ?case using leaf_spec [OF c j, of "Substr n a x i" fo] by simp
qed simp

section \<open>Start and end\<close>

lemma init_forest_ok:
  assumes "L < 2971215073" and "i \<le> 45" and "k = 48 - i" and "length fo = 48" and "\<forall>m<i. fo ! m = Some (Empty, 0)"
  shows "\<exists>j fo'. init_forest_loop k i L fo = Inr fo' \<and> j \<le> 45 \<and> L < F j \<and> length fo' = 48 \<and> (\<forall>m<j. fo' ! m = Some (Empty, 0))"
  using assms(2-)
proof (induction k arbitrary: i fo)
  case (Suc k)
  let ?fo = "fo[i := Some (Empty, 0)]"
  have e: "init_forest_loop (Suc k) i L fo = (if F i > L then Inr ?fo else init_forest_loop k (i + 1) L ?fo)"
  proof -
    have "i < 48" using Suc.prems(1) by simp
    then show ?thesis using Suc.prems(3) by (simp add: forest_put_def min_len_F)
  qed
  have p: "\<forall>m<i + 1. ?fo ! m = Some (Empty, 0)" using Suc.prems by (auto simp: less_Suc_eq nth_list_update)
  show ?case
  proof (cases "F i > L")
    case True
    then show ?thesis using e Suc.prems p by (intro exI [of _ i] exI [of _ ?fo]) auto
  next
    case False
    then have "i \<noteq> 45" using F_checks(4) assms(1) by auto
    moreover have "k = 48 - (i + 1)" using Suc.prems(2) by simp
    ultimately show ?thesis using Suc.IH [of "i + 1" ?fo] Suc.prems(1,3) e False p by simp
  qed
qed simp

lemma init_forest_abort:
  assumes "2971215073 \<le> L" and "k = 48 - i" and "length fo = 48"
  shows "init_forest_loop k i L fo = Inl (RuntimeError ''Cord too long'')"
  using assms(2-)
proof (induction k arbitrary: i fo)
  case (Suc k)
  have "F i \<le> L" using Suc.prems assms(1) F_mono [of i 45] F_top [of i] F_checks(4) by (cases "i \<le> 45") auto
  moreover have "i < 48" "k = 48 - (i + 1)" using Suc.prems(1) by simp_all
  ultimately show ?case using Suc.IH [of "i + 1" "fo[i := Some (Empty, 0)]"] Suc.prems(2)
    by (simp add: forest_put_def min_len_F)
qed simp

lemma ftext_suffix: "i \<le> k \<Longrightarrow> \<exists>us. ftext fo k = us @ ftext fo i"
proof (induction k)
  case (Suc k)
  then show ?case by (cases "i = Suc k") auto
qed simp

lemma concat_loop_spec:
  assumes c: "cat_small cat" and fo: "forest_ok j fo" and j: "j \<le> 45" and L: "L = length (ftext fo j)" "L < 4294967296"
  shows "i \<le> j \<Longrightarrow> ok0 sm \<Longrightarrow> n = clen sm \<Longrightarrow> chars sm = ftext fo i \<Longrightarrow> DEPTH sm \<le> i + 2 \<Longrightarrow>
    \<exists>z. concat_loop cat L i fo sm n = Inr z \<and> ok0 z \<and> chars z = ftext fo j \<and> DEPTH z < 48"
proof (induction "j - i" arbitrary: i sm n rule: less_induct)
  case less
  obtain us where us: "ftext fo j = us @ ftext fo i" using ftext_suffix [OF less.prems(1)] by blast
  show ?case
  proof (cases "n = L")
    case True
    then have "us = []" using us L less.prems(3,4) by simp
    then show ?thesis using True less.prems us j by (subst concat_loop.simps) auto
  next
    case False
    then have ij: "i < j" using less.prems L by (cases "i = j") auto
    obtain c0 n0 where e: "fo ! i = Some (c0, n0)" "tree_ok i c0 n0" and l48: "length fo = 48"
      using fo ij by (auto simp: forest_ok_def)
    have g: "forest_get fo i = Inr (c0, n0)" using e l48 ij j by (simp add: forest_get_def)
    have ft: "ftext fo (Suc i) = chars c0 @ chars sm" using e less.prems(4) by (simp add: lev_def)
    obtain vs where vs: "ftext fo j = vs @ ftext fo (Suc i)" using ftext_suffix [of "Suc i" j] ij by auto
    have "length (ftext fo j) = length vs + (clen c0 + clen sm)" unfolding vs ft by simp
    then have ln: "clen c0 + clen sm < 4294967296" using L by simp
    have dl: "j - Suc i < j - i" "Suc i \<le> j" using ij by simp_all
    show ?thesis
    proof (cases "c0 = Empty")
      case True
      have "concat_loop cat L i fo sm n = concat_loop cat L (Suc i) fo sm n"
        using False g True by (subst concat_loop.simps) simp
      then show ?thesis using less.hyps [OF dl less.prems(2,3)] ft True less.prems(5) by simp
    next
      case ne: False
      then have t: "cord_ok c0" "n0 = clen c0" "DEPTH c0 \<le> i + 2" using e(2) by (auto simp: tree_ok_def)
      have "Suc (max (DEPTH c0) (DEPTH sm)) < 48" using t(3) less.prems(5) ij j by simp
      then obtain s where s: "cat c0 sm = Inr s" "ok0 s" "chars s = chars c0 @ chars sm" "DEPTH s \<le> Suc (max (DEPTH c0) (DEPTH sm))"
        using cat_smallD [OF c, of c0 sm] t(1) less.prems(2) ln by (auto simp: ok0_def)
      have "concat_loop cat L i fo sm n = concat_loop cat L (Suc i) fo s (clen s)"
        using False g ne s(1,3) t(2) less.prems(3) ln by (subst concat_loop.simps) (simp add: add.commute)
      moreover have "DEPTH s \<le> Suc i + 2" using s(4) t(3) less.prems(5) by simp
      moreover have "chars s = ftext fo (Suc i)" using s(3) ft by simp
      ultimately show ?thesis using less.hyps [OF dl s(2) refl] by metis
    qed
  qed
qed

text \<open>Balancing keeps the text, and its result is not too deep.\<close>

lemma cord_balance_spec:
  assumes c: "cat_small cat" and x: "cord_ok x"
  shows "if CORD_IS_STRING x then cord_balance cat x = Inr x
    else if clen x < 2971215073 then \<exists>z. cord_balance cat x = Inr z \<and> cord_ok z \<and> chars z = chars x \<and> DEPTH z < 48
    else cord_balance cat x = Inl (RuntimeError ''Cord too long'')"
proof -
  have ne: "x \<noteq> Empty" and gl: "GEN_LEN x = clen x" and lx: "0 < clen x" using x cord_len [OF x] by auto
  show ?thesis
  proof (cases "CORD_IS_STRING x")
    case True
    then show ?thesis using ne by (simp add: cord_balance_def)
  next
    case ns: False
    show ?thesis
    proof (cases "clen x < 2971215073")
      case True
      obtain j fo where f: "CORD_init_forest (clen x) = Inr fo" "j \<le> 45" "clen x < F j" "length fo = 48" "\<forall>m<j. fo ! m = Some (Empty, 0)"
        using init_forest_ok [OF True, of 0 48 "replicate 48 None"] by (auto simp: CORD_init_forest_def MAX_DEPTH_def)
      have fo: "forest_ok j fo" using f by (simp add: forest_ok_def tree_ok_def)
      have ft: "ftext fo j = []" by (rule ftext_empty) (use f(5) in \<open>simp add: lev_def\<close>)
      obtain fo' where b: "CORD_balance_insert cat x (clen x) fo = Inr fo'" "forest_ok j fo'" "ftext fo' j = chars x"
        using balance_insert_spec [OF c f(2) x fo] ft f(3) by auto
      have L: "clen x = length (ftext fo' j)" "clen x < 4294967296" using b(3) True by simp_all
      obtain z where z: "concat_loop cat (clen x) 0 fo' Empty 0 = Inr z" "ok0 z" "chars z = chars x" "DEPTH z < 48"
        using concat_loop_spec [OF c b(2) f(2) L, of 0 Empty 0] b(3) by (auto simp: ok0_def)
      then have "cord_ok z" using lx by (auto simp: ok0_def)
      then show ?thesis using z ns True ne gl f(1) b(1) by (simp add: cord_balance_def CORD_concat_forest_def)
    next
      case False
      then have "CORD_init_forest (clen x) = Inl (RuntimeError ''Cord too long'')"
        unfolding CORD_init_forest_def by (intro init_forest_abort) (simp_all add: MAX_DEPTH_def)
      then show ?thesis using ns False ne gl by (simp add: cord_balance_def)
    qed
  qed
qed

section \<open>Results\<close>

text \<open>What a client may hold: the empty cord, or a cord that is not too deep.\<close>

definition is_cord :: "cord \<Rightarrow> bool" where
  "is_cord x \<longleftrightarrow> x = Empty \<or> cord_ok x \<and> DEPTH x < 48"

text \<open>An operation gives a text: it returns a cord with it, or aborts because it is too long.\<close>

definition gives :: "string \<Rightarrow> cord res \<Rightarrow> bool" where
  "gives txt r \<longleftrightarrow> (case r of Inr z \<Rightarrow> is_cord z \<and> chars z = txt
     | Inl e \<Rightarrow> e = RuntimeError ''Cord too long'' \<and> 2971215073 \<le> length txt)"

lemma gives_Inr [simp]: "gives txt (Inr z) \<longleftrightarrow> is_cord z \<and> chars z = txt"
  by (simp add: gives_def)

lemma givesD: "gives txt r \<Longrightarrow> length txt < 2971215073 \<Longrightarrow> \<exists>z. r = Inr z \<and> is_cord z \<and> chars z = txt"
  by (cases r) (auto simp: gives_def)

lemma is_cord_Empty [simp]: "is_cord Empty"
  by (simp add: is_cord_def)

lemma is_cord_Str [simp]: "is_cord (Str s) \<longleftrightarrow> s \<noteq> [] \<and> NUL \<notin> set s \<and> length s < 4294967296"
  by (simp add: is_cord_def)

lemma balance_gives:
  assumes "cord_ok x"
  shows "gives (chars x) (cord_balance (cat_n (Suc n)) x)"
proof (cases "CORD_IS_STRING x")
  case True
  then show ?thesis using cord_balance_spec [OF cat_n_small assms] assms by (cases x) auto
next
  case False
  then show ?thesis
    using cord_balance_spec [OF cat_n_small assms, of n]
    by (cases "clen x < 2971215073") (auto simp: is_cord_def gives_def)
qed

lemma bal_or_node:
  assumes "cat_ok x y z" and "r = (if MAX_DEPTH \<le> DEPTH z then cord_balance (cat_n (Suc n)) z else Inr z)"
  shows "gives (chars x @ chars y) r"
  using assms balance_gives [of z n] by (auto simp: cat_ok_def is_cord_def MAX_DEPTH_def)

lemma cat_n_gives:
  assumes "is_cord x" and "is_cord y" and "clen x + clen y < 4294967296"
  shows "gives (chars x @ chars y) (cat_n (Suc (Suc n)) x y)"
proof (cases "x = Empty \<or> y = Empty")
  case True
  then show ?thesis using assms by (auto simp: cord_cat_def)
next
  case False
  then have "cord_ok x" "cord_ok y" using assms by (auto simp: is_cord_def)
  then show ?thesis
    using cord_cat_spec [of x y "cord_balance (cat_n (Suc n))"] assms(3) bal_or_node by (metis cat_n.simps(2))
qed

lemma cat_char_star_gives:
  assumes "is_cord x" and "cord_ok (Str y)" and "clen x + length y < 4294967296"
  shows "gives (chars x @ y) (CORD_cat_char_star x y (length y))"
proof (cases "x = Empty")
  case True
  then show ?thesis using assms by (simp add: CORD_cat_char_star_def cat_char_star_def)
next
  case False
  then have "cord_ok x" using assms(1) by (simp add: is_cord_def)
  then obtain z where "cat_ok x (Str y) z" "CORD_cat_char_star x y (length y) =
      (if MAX_DEPTH \<le> DEPTH z then cord_balance (cat_n (Suc 0)) z else Inr z)"
    using cat_char_star_spec [of x y CORD_balance] assms unfolding CORD_cat_char_star_def CORD_balance_def by auto
  then show ?thesis using bal_or_node [of x "Str y" z _ 0] by simp
qed

lemma cat_gives:
  assumes "is_cord x" and "is_cord y" and "clen x + clen y < 4294967296"
  shows "gives (chars x @ chars y) (CORD_cat x y)"
  using cat_n_gives [OF assms, of 0] unfolding CORD_cat_def numeral_2_eq_2 .

text \<open>
  C15. Concatenation appends: for any two cords of together less than \<^verbatim>\<open>2^32\<close> characters it returns a well formed
  cord of depth below \<^verbatim>\<open>MAX_DEPTH\<close> with the text of both, or aborts with \<^verbatim>\<open>Cord too long\<close>, and that only from
  2971215073 characters on.  It returns within two nested calls, so that any larger bound gives this result too.
\<close>

theorem cord_cat_appends:
  assumes "is_cord x" and "is_cord y" and "length (chars x) + length (chars y) < 4294967296" and "2 \<le> n"
  shows "gives (chars x @ chars y) (CORD_cat x y) \<and> gives (chars x @ chars y) (cat_n n x y)"
proof
  obtain m where "n = Suc (Suc m)" using assms(4) by (metis add_2_eq_Suc le_Suc_ex)
  then show "gives (chars x @ chars y) (cat_n n x y)" using cat_n_gives [OF assms(1-3)] by blast
qed (rule cat_gives [OF assms(1-3)])

theorem cord_cat_appends_witness:
  "gives ''the quick brown fox jumped'' (CORD_cat (Str ''the quick '') (Conc 1 5 16 (Str ''brown'') (Str '' fox jumped'')))"
proof -
  have "is_cord (Conc 1 5 16 (Str ''brown'') (Str '' fox jumped''))"
    by (simp add: is_cord_def MAX_LEFT_LEN_def)
  then show ?thesis
    using cord_cat_appends [of "Str ''the quick ''" "Conc 1 5 16 (Str ''brown'') (Str '' fox jumped'')" 2] by simp
qed

text \<open>
  C16. Balancing any well formed cord shorter than 2971215073 characters, however deep, returns a well formed cord of
  depth below \<^verbatim>\<open>MAX_DEPTH\<close> with the same text: it never leaves the forest or the table of least lengths.  A longer
  cord which is not a string aborts with \<^verbatim>\<open>Cord too long\<close>.
\<close>

theorem cord_balance_keeps_text:
  assumes "cord_ok x"
  shows "if CORD_IS_STRING x then CORD_balance x = Inr x
    else if length (chars x) < 2971215073
    then \<exists>z. CORD_balance x = Inr z \<and> cord_ok z \<and> chars z = chars x \<and> DEPTH z < MAX_DEPTH
    else CORD_balance x = Inl (RuntimeError ''Cord too long'')"
  using cord_balance_spec [OF cat_n_small assms, of 0] unfolding CORD_balance_def MAX_DEPTH_def One_nat_def .

theorem cord_balance_keeps_text_witness:
  "\<exists>z. CORD_balance (Conc 2 10 26 (Str ''the quick '') (Conc 1 5 16 (Str ''brown'') (Str '' fox jumped''))) = Inr z \<and>
     cord_ok z \<and> chars z = ''the quick brown fox jumped'' \<and> DEPTH z < MAX_DEPTH"
  using cord_balance_keeps_text [of "Conc 2 10 26 (Str ''the quick '') (Conc 1 5 16 (Str ''brown'') (Str '' fox jumped''))"]
  by (simp add: MAX_LEFT_LEN_def)

end
