(* ===== verification/Cord_Substr.thy ===== *)
theory Cord_Substr
  imports Cord_Balance
begin

text \<open>
  Cords from functions and parts of cords: \<^verbatim>\<open>CORD_from_fn\<close>, \<^verbatim>\<open>CORD_substr_closure\<close>, \<^verbatim>\<open>CORD_substr_checked\<close> and
  \<^verbatim>\<open>CORD_substr\<close> of \<^verbatim>\<open>gc/cord/cordbscs.c\<close>, and what they return.
\<close>

section \<open>Operations\<close>

text \<open>Read \<open>k\<close> characters from index \<open>i\<close> on; \<open>None\<close> when one of them is a NUL.\<close>

fun collect :: "(nat \<Rightarrow> char res) \<Rightarrow> nat \<Rightarrow> nat \<Rightarrow> string option res" where
  "collect fn 0 i = Inr (Some [])"
| "collect fn (Suc k) i =
     bindE (fn i) (\<lambda>c.
     if c = NUL then Inr None
     else bindE (collect fn k (sz (i + 1))) (\<lambda>r. Inr (map_option (\<lambda>s. c # s) r)))"

text \<open>\<open>node\<close> is the function node of the general case.\<close>

definition from_fn :: "(nat \<Rightarrow> char res) \<Rightarrow> nat \<Rightarrow> cord \<Rightarrow> cord res" where
  "from_fn fn len node =
     (if len = 0 then Inr Empty
      else if len \<le> SHORT_LIMIT
      then bindE (collect fn len 0) (\<lambda>r. case r of None \<Rightarrow> Inr node | Some buf \<Rightarrow> Inr (Str buf))
      else Inr node)"

definition CORD_from_fn :: "(nat \<Rightarrow> char) \<Rightarrow> nat \<Rightarrow> cord res" where
  "CORD_from_fn f len = from_fn (\<lambda>i. Inr (f i)) len (Func len f)"

text \<open>The header is written whatever \<^verbatim>\<open>CORD_from_fn\<close> returned: into a string it goes as its second byte.\<close>

definition CORD_substr_closure :: "cord \<Rightarrow> nat \<Rightarrow> nat \<Rightarrow> access \<Rightarrow> cord res" where
  "CORD_substr_closure x i n a =
     (let node = Substr n a x i in
      bindE (from_fn (cord_fn node) n node) (\<lambda>result.
      case result of
        Str s \<Rightarrow> if 1 < length s then Inr (Str (s[1 := CHR 0x06])) else Inl OutOfRange
      | _ \<Rightarrow> Inr result))"

text \<open>The number of turns of \<^verbatim>\<open>for (int j = i; j < lim; j++)\<close> with \<^verbatim>\<open>int lim = i + n\<close>.\<close>

definition substr_turns :: "nat \<Rightarrow> nat \<Rightarrow> nat" where
  "substr_turns i n = nat (as_int (sz (i + n)) - as_int i)"

definition substr_function :: "cord \<Rightarrow> nat \<Rightarrow> nat \<Rightarrow> cord res" where
  "substr_function x i n =
     (if n > SUBSTR_LIMIT
      then (case x of Substr m a c k \<Rightarrow> CORD_substr_closure c (sz (i + k)) n a
                    | _ \<Rightarrow> CORD_substr_closure x i n ApplyAccess)
      else bindE (collect (cord_fn x) (substr_turns i n) i) (\<lambda>r.
           case r of None \<Rightarrow> CORD_substr_closure x i n ApplyAccess | Some buf \<Rightarrow> Inr (Str buf)))"

fun CORD_substr_checked :: "cord \<Rightarrow> nat \<Rightarrow> nat \<Rightarrow> cord res" where
  "CORD_substr_checked Empty i n = Inl NullDeref"
| "CORD_substr_checked (Str s) i n =
     (if n > SUBSTR_LIMIT then CORD_substr_closure (Str s) i n IndexAccess
      else if i \<le> length s then Inr (Str (take n (drop i s))) else Inl OutOfRange)"
| "CORD_substr_checked (Conc d ll len left right) i n =
     (let left_len = LEFT_LEN ll len left right; right_len = szsub len left_len in
      if i \<ge> left_len
      then if n = right_len then Inr right else CORD_substr_checked right (i - left_len) n
      else if sz (i + n) \<le> left_len
      then if n = left_len then Inr left else CORD_substr_checked left i n
      else let left_part_len = left_len - i in
           bindE (if i = 0 then Inr left else CORD_substr_checked left i left_part_len) (\<lambda>left_part.
           bindE (if sz (i + n) = sz (right_len + left_len) then Inr right
                  else CORD_substr_checked right 0 (szsub n left_part_len)) (\<lambda>right_part.
           CORD_cat left_part right_part)))"
| "CORD_substr_checked x i n = substr_function x i n"

definition CORD_substr :: "cord \<Rightarrow> nat \<Rightarrow> nat \<Rightarrow> cord res" where
  "CORD_substr x i n =
     (let len = CORD_len x in
      if i \<ge> len \<or> n = 0 then Inr Empty
      else CORD_substr_checked x i (if sz (i + n) > len then len - i else n))"

section \<open>Cords from functions\<close>

lemma collect_spec:
  assumes "\<And>j. i \<le> j \<Longrightarrow> j < i + k \<Longrightarrow> fn j = Inr (f j)" and "i + k < 4294967296"
  shows "collect fn k i = Inr (if NUL \<in> f ` {i..<i + k} then None else Some (map f [i..<i + k]))"
  using assms
proof (induction k arbitrary: i)
  case (Suc k)
  have "collect fn k (i + 1) = Inr (if NUL \<in> f ` {i + 1..<i + 1 + k} then None else Some (map f [i + 1..<i + 1 + k]))"
    by (rule Suc.IH) (use Suc.prems in auto)
  moreover have "{i..<i + Suc k} = insert i {i + 1..<i + 1 + k}" "[i..<i + Suc k] = i # [i + 1..<i + 1 + k]"
    by (auto simp: upt_conv_Cons)
  ultimately show ?case using Suc.prems(1) [of i] Suc.prems(2) by auto
qed simp

lemma collect_chars:
  assumes "cord_ok x" and "IS_FUNCTION x" and "i + k \<le> clen x"
  shows "collect (cord_fn x) k i = Inr (if NUL \<in> set (take k (drop i (chars x))) then None else Some (take k (drop i (chars x))))"
proof -
  have t: "map ((!) (chars x)) [i..<i + k] = take k (drop i (chars x))"
    using assms(3) by (intro nth_equalityI) auto
  then have s: "(!) (chars x) ` {i..<i + k} = set (take k (drop i (chars x)))"
    by (metis atLeastLessThan_upt image_set)
  have "collect (cord_fn x) k i = Inr (if NUL \<in> (!) (chars x) ` {i..<i + k} then None else Some (map ((!) (chars x)) [i..<i + k]))"
    by (rule collect_spec) (use assms cord_len(3) [OF assms(1)] cord_fn_chars [OF assms(1,2)] in auto)
  then show ?thesis unfolding s t .
qed

text \<open>A node is made by \<^verbatim>\<open>CORD_from_fn\<close> only for a long text or one with a NUL.\<close>

lemma from_fn_spec:
  assumes "cord_ok node" and "IS_FUNCTION node" and "len = clen node" and "\<And>j. j < len \<Longrightarrow> fn j = cord_fn node j"
  shows "from_fn fn len node = Inr (if len \<le> SHORT_LIMIT \<and> NUL \<notin> set (chars node) then Str (chars node) else node)"
proof -
  have fn: "fn j = Inr (chars node ! j)" if "j < len" for j
    using that assms cord_fn_chars [OF assms(1,2)] by simp
  have "collect fn len 0 = Inr (if NUL \<in> (!) (chars node) ` {0..<0 + len} then None else Some (map ((!) (chars node)) [0..<0 + len]))"
    by (rule collect_spec) (use fn assms(3) cord_len(3) [OF assms(1)] in auto)
  moreover have "(!) (chars node) ` {0..<0 + len} = set (chars node)" "map ((!) (chars node)) [0..<0 + len] = chars node"
    using assms(3) map_nth [of "chars node"] by (auto simp: in_set_conv_nth)
  ultimately show ?thesis using cord_len(2) [OF assms(1)] assms(3) by (simp add: from_fn_def)
qed

lemma from_fn_gives:
  assumes "0 < len" and "len < 4294967296"
  shows "\<exists>z. CORD_from_fn f len = Inr z \<and> is_cord z \<and> chars z = map f [0..<len] \<and> (z = Str (chars z) \<or> z = Func len f)"
proof -
  have "from_fn (\<lambda>i. Inr (f i)) len (Func len f) =
      Inr (if len \<le> SHORT_LIMIT \<and> NUL \<notin> set (chars (Func len f)) then Str (chars (Func len f)) else Func len f)"
    by (rule from_fn_spec) (use assms in auto)
  then show ?thesis using assms by (auto simp: CORD_from_fn_def is_cord_def)
qed

text \<open>So the header of a part is never written into a string.\<close>

lemma closure_spec:
  assumes "cord_ok (Substr n a x i)" and "SHORT_LIMIT < n \<or> NUL \<in> set (chars (Substr n a x i))"
  shows "CORD_substr_closure x i n a = Inr (Substr n a x i)"
proof -
  have "n = clen (Substr n a x i)" using cord_len(1) [OF assms(1)] by simp
  then have "from_fn (cord_fn (Substr n a x i)) n (Substr n a x i) = Inr (Substr n a x i)"
    using from_fn_spec [OF assms(1) _ _ refl] assms(2) by auto
  then show ?thesis by (simp add: CORD_substr_closure_def)
qed

section \<open>Parts\<close>

lemma substr_turns_small: "i + n < 2147483648 \<Longrightarrow> substr_turns i n = n"
  by (simp add: substr_turns_def as_int_def)

text \<open>The part of \<open>n\<close> characters from \<open>i\<close> on.\<close>

abbreviation part :: "cord \<Rightarrow> nat \<Rightarrow> nat \<Rightarrow> string" where
  "part x i n \<equiv> take n (drop i (chars x))"

definition part_ok :: "string \<Rightarrow> cord res \<Rightarrow> bool" where
  "part_ok s r \<longleftrightarrow> (\<exists>z. r = Inr z \<and> cord_ok z \<and> DEPTH z < 48 \<and> chars z = s)"

lemma part_okI: "r = Inr z \<Longrightarrow> cord_ok z \<Longrightarrow> DEPTH z < 48 \<Longrightarrow> chars z = s \<Longrightarrow> part_ok s r"
  by (auto simp: part_ok_def)

lemma closure_part:
  assumes "cord_ok (Substr n a x i)" and "SHORT_LIMIT < n \<or> NUL \<in> set (part x i n)"
  shows "part_ok (part x i n) (CORD_substr_closure x i n a)"
  using closure_spec [OF assms(1)] assms by (intro part_okI [of _ "Substr n a x i"]) auto

lemma string_part:
  assumes "cord_ok (Str s)" and "0 < n" and "i + n \<le> length s"
  shows "part_ok (part (Str s) i n) (CORD_substr_checked (Str s) i n)"
proof (cases "n > SUBSTR_LIMIT")
  case True
  then show ?thesis
    using closure_part [of n IndexAccess "Str s" i] assms by (simp add: SUBSTR_LIMIT_def)
next
  case False
  then show ?thesis using assms
    by (intro part_okI [of _ "Str (take n (drop i s))"]) (auto dest: in_set_takeD in_set_dropD)
qed

lemma function_part:
  assumes x: "cord_ok x" "IS_FUNCTION x" and n: "0 < n" "i + n \<le> clen x" "clen x < 2147483648"
  shows "part_ok (part x i n) (substr_function x i n)"
proof (cases "n > SUBSTR_LIMIT")
  case True
  then have short: "SHORT_LIMIT < n" by (simp add: SUBSTR_LIMIT_def)
  have "part_ok (part x i n) (CORD_substr_closure x i n ApplyAccess)"
    using closure_part [of n ApplyAccess x i] x n short by simp
  moreover have "part_ok (part x i n) (CORD_substr_closure c (i + k) n a)" "sz (i + k) = i + k" if s: "x = Substr m a c k" for m a c k
  proof -
    have ok: "i + n \<le> m" "m + k \<le> clen c" "clen c < 4294967296" using x n(2) s cord_len(3) [of c] by (cases a; auto)+
    then show "sz (i + k) = i + k" using n(1) by simp
    have "cord_ok (Substr n a c (i + k))" using x n(1) s ok(1) by (cases a) auto
    moreover have "part x i n = part c (i + k) n" using ok by (simp add: s take_drop drop_drop min_def add.commute)
    ultimately show "part_ok (part x i n) (CORD_substr_closure c (i + k) n a)" using closure_part short by metis
  qed
  ultimately show ?thesis using True x(2) by (cases x) (simp_all add: substr_function_def)
next
  case False
  have col: "collect (cord_fn x) (substr_turns i n) i = Inr (if NUL \<in> set (part x i n) then None else Some (part x i n))"
    using collect_chars [OF x n(2)] n by (simp add: substr_turns_small)
  have via: "part_ok (part x i n) (CORD_substr_closure x i n ApplyAccess)" if "NUL \<in> set (part x i n)"
    using closure_part [of n ApplyAccess x i] x n that by simp
  have str: "cord_ok (Str (part x i n))" if "NUL \<notin> set (part x i n)" using n that by simp
  show ?thesis
  proof (cases "NUL \<in> set (part x i n)")
    case True
    then show ?thesis using False col via by (simp add: substr_function_def)
  next
    case no: False
    have "substr_function x i n = Inr (Str (part x i n))" using False col no by (simp add: substr_function_def)
    then show ?thesis using str [OF no] by (rule part_okI) simp_all
  qed
qed

lemma cat_part:
  assumes "part_ok s r" and "part_ok t q" and "length s + length t < 2971215073"
  shows "part_ok (s @ t) (bindE r (\<lambda>x. bindE q (\<lambda>y. CORD_cat x y)))"
proof -
  obtain x y where xy: "r = Inr x" "q = Inr y" "cord_ok x" "cord_ok y" "DEPTH x < 48" "DEPTH y < 48" "chars x = s" "chars y = t"
    using assms(1,2) by (auto simp: part_ok_def)
  then obtain z where "CORD_cat x y = Inr z" "is_cord z" "chars z = s @ t"
    using givesD [OF cat_gives [of x y]] assms(3) by (auto simp: is_cord_def)
  moreover have "z \<noteq> Empty" using cord_len(2) [OF xy(3)] xy(7) calculation(3) by auto
  ultimately show ?thesis using xy by (auto simp: is_cord_def part_ok_def)
qed

lemma substr_checked_part:
  "cord_ok x \<Longrightarrow> DEPTH x < 48 \<Longrightarrow> 0 < n \<Longrightarrow> i + n \<le> clen x \<Longrightarrow> clen x < 2147483648 \<Longrightarrow>
    part_ok (part x i n) (CORD_substr_checked x i n)"
proof (induction x arbitrary: i n)
  case (Str s)
  then show ?case using string_part by simp
next
  case (Conc d ll len l r)
  note p = Conc.prems
  let ?L = "clen l"
  have ok: "cord_ok l" "cord_ok r" "DEPTH l < 48" "DEPTH r < 48" "len = ?L + clen r" using p by auto
  have L: "LEFT_LEN ll len l r = ?L" by (rule left_len [OF p(1)])
  have R: "szsub len ?L = clen r" using p(5) ok(5) by (simp add: szsub_small)
  have z: "sz (i + n) = i + n" "sz (clen r + ?L) = clen r + ?L" using p(4,5) by simp_all
  have whole: "part_ok (chars l) (Inr l)" "part_ok (chars r) (Inr r)" using ok by (simp_all add: part_ok_def)
  consider "?L \<le> i" | "i < ?L" "i + n \<le> ?L" | "i < ?L" "?L < i + n" by linarith
  then show ?case
  proof cases
    case 1
    have "part_ok (part r (i - ?L) n) (CORD_substr_checked r (i - ?L) n)" if "n \<noteq> clen r"
      using Conc.IH(2) [of n "i - ?L"] 1 ok p by simp
    then show ?thesis using 1 whole p(4) by (auto simp: L R Let_def)
  next
    case 2
    have "part_ok (part l i n) (CORD_substr_checked l i n)" if "n \<noteq> ?L"
      using Conc.IH(1) [of n i] 2 ok p by simp
    then show ?thesis using 2 whole p(4) by (auto simp: L R z Let_def)
  next
    case 3
    have k: "szsub n (?L - i) = n - (?L - i)" using 3 p by (simp add: szsub_small)
    have "part_ok (drop i (chars l)) (if i = 0 then Inr l else CORD_substr_checked l i (?L - i))"
      using Conc.IH(1) [of "?L - i" i] 3 ok p whole by (cases "i = 0") simp_all
    moreover have "part_ok (part r 0 (n - (?L - i)))
        (if i + n = clen r + ?L then Inr r else CORD_substr_checked r 0 (n - (?L - i)))"
      using Conc.IH(2) [of "n - (?L - i)" 0] 3 ok p whole by (cases "i + n = clen r + ?L") simp_all
    ultimately have "part_ok (drop i (chars l) @ part r 0 (n - (?L - i)))
       (bindE (if i = 0 then Inr l else CORD_substr_checked l i (?L - i)) (\<lambda>x.
        bindE (if i + n = clen r + ?L then Inr r else CORD_substr_checked r 0 (n - (?L - i))) (\<lambda>y. CORD_cat x y)))"
      by (rule cat_part) (use p 3 in simp)
    moreover have "\<not> ?L \<le> i" "\<not> i + n \<le> ?L" using 3 by simp_all
    then have "CORD_substr_checked (Conc d ll len l r) i n =
       bindE (if i = 0 then Inr l else CORD_substr_checked l i (?L - i)) (\<lambda>x.
       bindE (if i + n = clen r + ?L then Inr r else CORD_substr_checked r 0 (n - (?L - i))) (\<lambda>y. CORD_cat x y))"
      by (simp only: CORD_substr_checked.simps L R k z Let_def if_False)
    moreover have "part (Conc d ll len l r) i n = drop i (chars l) @ part r 0 (n - (?L - i))" using 3 by simp
    ultimately show ?thesis by metis
  qed
next
  case (Func m f)
  then show ?case using function_part [of "Func m f"] by simp
next
  case (Substr m a c k)
  then show ?case using function_part [of "Substr m a c k"] by simp
qed simp

lemma substr_part:
  assumes "is_cord x" and "clen x < 2147483648" and "i + n < 4294967296"
  shows "\<exists>z. CORD_substr x i n = Inr z \<and> is_cord z \<and> chars z = part x i n"
proof (cases "clen x \<le> i \<or> n = 0")
  case True
  have "CORD_len x = clen x" using assms(1) cord_len(1) by (auto simp: is_cord_def CORD_len_def)
  then show ?thesis using True by (auto simp: CORD_substr_def)
next
  case False
  then have x: "cord_ok x" "DEPTH x < 48" using assms(1) by (auto simp: is_cord_def)
  define m where "m = (if i + n > clen x then clen x - i else n)"
  have "CORD_substr x i n = CORD_substr_checked x i m"
    using False cord_len(1) [OF x(1)] assms(3) by (simp add: CORD_substr_def CORD_len_def m_def)
  moreover have "part_ok (part x i m) (CORD_substr_checked x i m)"
    using substr_checked_part [OF x, of m i] False assms(2) by (auto simp: m_def)
  moreover have "part x i m = part x i n" by (auto simp: m_def)
  ultimately show ?thesis by (auto simp: part_ok_def is_cord_def)
qed

text \<open>
  C17. For a cord below \<^verbatim>\<open>2^31\<close> characters, and an index and a length whose sum is below \<^verbatim>\<open>2^32\<close>, \<^verbatim>\<open>CORD_substr\<close> returns a cord with
  the characters at positions \<open>i\<close> to \<open>i + n - 1\<close>, as far as the cord has them; it does not abort and does not write its header
  into a string.  Both conditions are needed (\<open>substr_limit_negative\<close>, \<open>substr_rest_wraps\<close>).
\<close>

theorem substr_takes_part:
  assumes "is_cord x" and "length (chars x) < 2147483648" and "i + n < 4294967296"
  shows "\<exists>z. CORD_substr x i n = Inr z \<and> is_cord z \<and> chars z = take n (drop i (chars x))"
  by (rule substr_part [OF assms])

theorem substr_takes_part_witness:
  "\<exists>z. CORD_substr (Conc 1 5 16 (Str ''brown'') (Str '' fox jumped'')) 3 7 = Inr z \<and> is_cord z \<and> chars z = ''wn fox ''"
proof -
  have "is_cord (Conc 1 5 16 (Str ''brown'') (Str '' fox jumped''))"
    by (simp add: is_cord_def MAX_LEFT_LEN_def)
  then show ?thesis
    using substr_takes_part [of "Conc 1 5 16 (Str ''brown'') (Str '' fox jumped'')" 3 7] by simp
qed

text \<open>
  A length that makes \<open>i + n\<close> wrap is not cut: the rest of a string, asked for with the largest \<^verbatim>\<open>size_t\<close>, comes back
  as a function node of that length over the string.
\<close>

theorem substr_rest_wraps:
  assumes "1 < length s" and "length s < 4294967296"
  shows "CORD_substr (Str s) 1 4294967295 = Inr (Substr 4294967295 IndexAccess (Str s) 1)"
  using assms by (simp add: CORD_substr_def CORD_len_def sz_def CORD_substr_closure_def from_fn_def SUBSTR_LIMIT_def SHORT_LIMIT_def)

theorem substr_rest_wraps_witness:
  "CORD_substr (Str ''cord'') 1 4294967295 = Inr (Substr 4294967295 IndexAccess (Str ''cord'') 1)"
  using substr_rest_wraps [of "''cord''"] by simp

text \<open>
  In a function node that reaches past \<^verbatim>\<open>2^31\<close>, a short part across that position is an empty C string: its limit is
  a negative \<^verbatim>\<open>int\<close>.
\<close>

lemma substr_limit_negative:
  assumes "i < 2147483648" and "2147483648 \<le> i + n" and "n \<le> 150" and "i + n < len" and "len < 4294967296"
  shows "CORD_substr (Func len f) i n = Inr (Str [])"
  using assms by (simp add: CORD_substr_def CORD_len_def substr_function_def substr_turns_def as_int_def SUBSTR_LIMIT_def SHORT_LIMIT_def)

end
