(* ===== verification/Cord_Iter.thy ===== *)
theory Cord_Iter
  imports Cord_Substr
begin

text \<open>
  Traversal of cords: \<^verbatim>\<open>CORD_iter5\<close>, \<^verbatim>\<open>CORD_iter\<close>, \<^verbatim>\<open>CORD_riter4\<close> and \<^verbatim>\<open>CORD_riter\<close> of \<^verbatim>\<open>gc/cord/cordbscs.c\<close>, and their
  clients in \<^verbatim>\<open>gc/cord/cordxtra.c\<close>: conversion to a C string and search for a character.  A client
  function changes its data and says whether to stop.
\<close>

section \<open>Operations\<close>

type_synonym 'd iter_fn = "char \<Rightarrow> 'd \<Rightarrow> (bool \<times> 'd) res"
type_synonym 'd batched_fn = "string \<Rightarrow> 'd \<Rightarrow> (bool \<times> 'd) res"

text \<open>The loop over a C string.\<close>

fun iter_string :: "'d iter_fn \<Rightarrow> string \<Rightarrow> 'd \<Rightarrow> (bool \<times> 'd) res" where
  "iter_string f1 [] d = Inr (False, d)"
| "iter_string f1 (c # s) d = bindE (f1 c d) (\<lambda>(stop, d). if stop then Inr (True, d) else iter_string f1 s d)"

text \<open>The loop over \<open>k\<close> indices of a function node.\<close>

fun iter_function :: "(nat \<Rightarrow> char res) \<Rightarrow> 'd iter_fn \<Rightarrow> nat \<Rightarrow> nat \<Rightarrow> 'd \<Rightarrow> (bool \<times> 'd) res" where
  "iter_function fn f1 0 j d = Inr (False, d)"
| "iter_function fn f1 (Suc k) j d =
     bindE (fn j) (\<lambda>c. bindE (f1 c d) (\<lambda>(stop, d). if stop then Inr (True, d) else iter_function fn f1 k (j + 1) d))"

fun CORD_iter5 :: "cord \<Rightarrow> nat \<Rightarrow> 'd iter_fn \<Rightarrow> 'd batched_fn option \<Rightarrow> 'd \<Rightarrow> (bool \<times> 'd) res" where
  "CORD_iter5 Empty i f1 f2 d = Inr (False, d)"
| "CORD_iter5 (Str s) i f1 f2 d =
     bindE (string_read s i) (\<lambda>c.
     if c = NUL then Inl (RuntimeError ''2nd arg to CORD_iter5 too big'')
     else case f2 of Some f2 \<Rightarrow> f2 (drop i s) d | None \<Rightarrow> iter_string f1 (drop i s) d)"
| "CORD_iter5 (Conc dp ll n l r) i f1 f2 d =
     (let left_len = LEFT_LEN ll n l r in
      if 0 < i \<and> i \<ge> left_len then CORD_iter5 r (i - left_len) f1 f2 d
      else bindE (CORD_iter5 l i f1 f2 d) (\<lambda>(stop, d).
           if stop then Inr (True, d) else CORD_iter5 r 0 f1 f2 d))"
| "CORD_iter5 x i f1 f2 d = iter_function (cord_fn x) f1 (GEN_LEN x - i) i d"

definition CORD_iter :: "cord \<Rightarrow> 'd iter_fn \<Rightarrow> 'd \<Rightarrow> (bool \<times> 'd) res" where
  "CORD_iter x f1 d = CORD_iter5 x 0 f1 None d"

text \<open>Backwards from index \<open>j\<close> to 0.\<close>

fun riter_string :: "'d iter_fn \<Rightarrow> string \<Rightarrow> nat \<Rightarrow> 'd \<Rightarrow> (bool \<times> 'd) res" where
  "riter_string f1 s j d =
     bindE (string_read s j) (\<lambda>c.
     if c = NUL then Inl (RuntimeError ''2nd arg to CORD_riter4 too big'')
     else bindE (f1 c d) (\<lambda>(stop, d).
          if stop then Inr (True, d) else case j of 0 \<Rightarrow> Inr (False, d) | Suc j \<Rightarrow> riter_string f1 s j d))"

fun riter_function :: "(nat \<Rightarrow> char res) \<Rightarrow> 'd iter_fn \<Rightarrow> nat \<Rightarrow> 'd \<Rightarrow> (bool \<times> 'd) res" where
  "riter_function fn f1 j d =
     bindE (fn j) (\<lambda>c. bindE (f1 c d) (\<lambda>(stop, d).
     if stop then Inr (True, d) else case j of 0 \<Rightarrow> Inr (False, d) | Suc j \<Rightarrow> riter_function fn f1 j d))"

declare riter_string.simps [simp del] riter_function.simps [simp del]

fun CORD_riter4 :: "cord \<Rightarrow> nat \<Rightarrow> 'd iter_fn \<Rightarrow> 'd \<Rightarrow> (bool \<times> 'd) res" where
  "CORD_riter4 Empty i f1 d = Inr (False, d)"
| "CORD_riter4 (Str s) i f1 d = riter_string f1 s i d"
| "CORD_riter4 (Conc dp ll n l r) i f1 d =
     (let left_len = LEFT_LEN ll n l r in
      if i \<ge> left_len
      then bindE (CORD_riter4 r (i - left_len) f1 d) (\<lambda>(stop, d).
           if stop then Inr (True, d) else CORD_riter4 l (szsub left_len 1) f1 d)
      else CORD_riter4 l i f1 d)"
| "CORD_riter4 x i f1 d = riter_function (cord_fn x) f1 i d"

definition CORD_riter :: "cord \<Rightarrow> 'd iter_fn \<Rightarrow> 'd \<Rightarrow> (bool \<times> 'd) res" where
  "CORD_riter x f1 d = (let len = CORD_len x in if len = 0 then Inr (False, d) else CORD_riter4 x (len - 1) f1 d)"

section \<open>Filling a buffer\<close>

record CORD_fill_data =
  fd_len :: nat
  fd_count :: nat
  fd_buf :: string

definition buf_put :: "string \<Rightarrow> nat \<Rightarrow> char \<Rightarrow> string res" where
  "buf_put buf i c = (if i < length buf then Inr (buf[i := c]) else Inl OutOfRange)"

definition CORD_fill_proc :: "CORD_fill_data iter_fn" where
  "CORD_fill_proc c d =
     bindE (buf_put (fd_buf d) (fd_count d) c) (\<lambda>buf.
     let count = sz (fd_count d + 1) in Inr (count \<ge> fd_len d, d\<lparr>fd_buf := buf, fd_count := count\<rparr>))"

text \<open>The terminator of the C string is copied too, when the loop gets to it.\<close>

fun CORD_batched_fill_proc :: "CORD_fill_data batched_fn" where
  "CORD_batched_fill_proc [] d =
     bindE (buf_put (fd_buf d) (fd_count d) NUL) (\<lambda>buf. Inr (False, d\<lparr>fd_buf := buf\<rparr>))"
| "CORD_batched_fill_proc (c # t) d =
     bindE (buf_put (fd_buf d) (fd_count d) c) (\<lambda>buf.
     let count = sz (fd_count d + 1); d = d\<lparr>fd_buf := buf, fd_count := count\<rparr> in
     if count \<ge> fd_len d then Inr (True, d) else CORD_batched_fill_proc t d)"

definition CORD_fill_buf :: "cord \<Rightarrow> nat \<Rightarrow> nat \<Rightarrow> string \<Rightarrow> string res" where
  "CORD_fill_buf x i len buf =
     bindE (CORD_iter5 x i CORD_fill_proc (Some CORD_batched_fill_proc) \<lparr>fd_len = len, fd_count = 0, fd_buf = buf\<rparr>) (\<lambda>(stop, d).
     Inr (fd_buf d))"

text \<open>\<open>mem\<close> is what the allocated memory holds.\<close>

definition CORD_to_char_star :: "(nat \<Rightarrow> string) \<Rightarrow> cord \<Rightarrow> string res" where
  "CORD_to_char_star mem x =
     (let len = CORD_len x in
      bindE (CORD_fill_buf x 0 len (mem (sz (len + 1)))) (\<lambda>result. buf_put result len NUL))"

text \<open>A C string as an array ends at its first NUL.\<close>

definition c_string :: "string \<Rightarrow> string" where
  "c_string buf = takeWhile (\<lambda>c. c \<noteq> NUL) buf"

definition CORD_from_char_star :: "string \<Rightarrow> cord" where
  "CORD_from_char_star s = (if c_string s = [] then Empty else Str (c_string s))"

definition CORD_to_const_char_star :: "(nat \<Rightarrow> string) \<Rightarrow> cord \<Rightarrow> string res" where
  "CORD_to_const_char_star mem x = (case x of Empty \<Rightarrow> Inr [NUL] | Str s \<Rightarrow> Inr (s @ [NUL]) | _ \<Rightarrow> CORD_to_char_star mem x)"

section \<open>Searching a character\<close>

record chr_data =
  cd_pos :: nat
  cd_target :: char

definition CORD_chr_proc :: "chr_data iter_fn" where
  "CORD_chr_proc c d = (if c = cd_target d then Inr (True, d) else Inr (False, d\<lparr>cd_pos := sz (cd_pos d + 1)\<rparr>))"

definition CORD_rchr_proc :: "chr_data iter_fn" where
  "CORD_rchr_proc c d = (if c = cd_target d then Inr (True, d) else Inr (False, d\<lparr>cd_pos := szsub (cd_pos d) 1\<rparr>))"

text \<open>\<^verbatim>\<open>strchr\<close> also finds the terminator.\<close>

definition strchr :: "string \<Rightarrow> char \<Rightarrow> nat option" where
  "strchr s c = (if c \<in> set (s @ [NUL]) then Some (length (takeWhile (\<lambda>x. x \<noteq> c) (s @ [NUL]))) else None)"

definition CORD_batched_chr_proc :: "chr_data batched_fn" where
  "CORD_batched_chr_proc s d = (case strchr s (cd_target d) of
       None \<Rightarrow> Inr (False, d\<lparr>cd_pos := sz (cd_pos d + length s)\<rparr>)
     | Some occ \<Rightarrow> Inr (True, d\<lparr>cd_pos := sz (cd_pos d + occ)\<rparr>))"

definition CORD_NOT_FOUND :: nat where "CORD_NOT_FOUND = 4294967295"

definition CORD_chr :: "cord \<Rightarrow> nat \<Rightarrow> char \<Rightarrow> nat res" where
  "CORD_chr x i c =
     bindE (CORD_iter5 x i CORD_chr_proc (Some CORD_batched_chr_proc) \<lparr>cd_pos = i, cd_target = c\<rparr>) (\<lambda>(found, d).
     Inr (if found then cd_pos d else CORD_NOT_FOUND))"

definition CORD_rchr :: "cord \<Rightarrow> nat \<Rightarrow> char \<Rightarrow> nat res" where
  "CORD_rchr x i c =
     bindE (CORD_riter4 x i CORD_rchr_proc \<lparr>cd_pos = i, cd_target = c\<rparr>) (\<lambda>(found, d).
     Inr (if found then cd_pos d else CORD_NOT_FOUND))"

section \<open>Traversal is a loop over the text\<close>

lemma iter_string_append:
  "iter_string f1 (s @ t) d = bindE (iter_string f1 s d) (\<lambda>(stop, d). if stop then Inr (True, d) else iter_string f1 t d)"
  by (induction s arbitrary: d) (auto simp: bindE_assoc intro!: bindE_cong)

lemma no_nul: "NUL \<notin> set s \<Longrightarrow> i < length s \<Longrightarrow> s ! i \<noteq> NUL"
  using nth_mem by metis

lemma iter_function_spec:
  assumes "\<And>j. i \<le> j \<Longrightarrow> j < i + k \<Longrightarrow> fn j = Inr (g j)"
  shows "iter_function fn f1 k i d = iter_string f1 (map g [i..<i + k]) d"
  using assms
proof (induction k arbitrary: i d)
  case (Suc k)
  have "iter_function fn f1 k (i + 1) d = iter_string f1 (map g [i + 1..<i + 1 + k]) d" for d
    by (rule Suc.IH) (use Suc.prems in simp)
  moreover have "map g [i..<i + Suc k] = g i # map g [i + 1..<i + 1 + k]" by (simp add: upt_conv_Cons del: upt_Suc)
  ultimately show ?case using Suc.prems [of i] by (simp del: upt_Suc cong: if_cong)
qed simp

lemma iter_function_chars:
  assumes "cord_ok x" and "IS_FUNCTION x" and "i < clen x"
  shows "iter_function (cord_fn x) f1 (GEN_LEN x - i) i d = iter_string f1 (drop i (chars x)) d"
proof -
  have "map ((!) (chars x)) [i..<clen x] = drop i (chars x)" by (intro nth_equalityI) auto
  then show ?thesis
    using iter_function_spec [of i "clen x - i" "cord_fn x" "(!) (chars x)" f1 d] cord_fn_chars [OF assms(1,2)] assms cord_len(1)
    by simp
qed

lemma iter_function_node:
  assumes "cord_ok x" and "IS_FUNCTION x" and "i < clen x"
  shows "CORD_iter5 x i f1 f2 d = iter_string f1 (drop i (chars x)) d"
  using iter_function_chars [OF assms] assms(2) by (cases x) simp_all

lemma iter5_Conc:
  assumes "cord_ok (Conc dp ll n l r)"
  shows "CORD_iter5 (Conc dp ll n l r) i f1 f2 d =
      (if 0 < i \<and> clen l \<le> i then CORD_iter5 r (i - clen l) f1 f2 d
       else bindE (CORD_iter5 l i f1 f2 d) (\<lambda>(stop, d). if stop then Inr (True, d) else CORD_iter5 r 0 f1 f2 d))"
  by (simp only: CORD_iter5.simps left_len [OF assms] Let_def)

text \<open>
  What \<^verbatim>\<open>CORD_iter5\<close> needs of a client: called on a piece of a cord, the batched function does what the other one
  would do character by character, up to an equivalence \<open>E\<close> of client data while the loop goes on and \<open>Q\<close> when it
  has stopped.  Then the traversal is the loop over the characters from the start position on.
\<close>

definition step_rel :: "('d \<Rightarrow> 'd \<Rightarrow> bool) \<Rightarrow> ('d \<Rightarrow> 'd \<Rightarrow> bool) \<Rightarrow> (bool \<times> 'd) res \<Rightarrow> (bool \<times> 'd) res \<Rightarrow> bool" where
  "step_rel E Q = rel_sum (=) (\<lambda>(b, d) (b', d'). b = b' \<and> (if b then Q d d' else E d d'))"

lemma step_rel_simps [simp]:
  "step_rel E Q (Inr (b, d)) (Inr (b', d')) \<longleftrightarrow> b = b' \<and> (if b then Q d d' else E d d')"
  "step_rel E Q (Inl e) (Inl e') \<longleftrightarrow> e = e'"
  "\<not> step_rel E Q (Inl e) (Inr v)"
  "\<not> step_rel E Q (Inr v) (Inl e)"
  by (simp_all add: step_rel_def)

lemma step_rel_bind:
  assumes "step_rel E Q r r'" and "\<And>d d'. E d d' \<Longrightarrow> step_rel E Q (g d) (g' d')"
  shows "step_rel E Q (bindE r (\<lambda>(stop, d). if stop then Inr (True, d) else g d))
    (bindE r' (\<lambda>(stop, d). if stop then Inr (True, d) else g' d))"
  using assms by (cases r; cases r') (auto split: prod.splits)

locale batched_client =
  fixes f1 :: "'d iter_fn" and f2 :: "'d batched_fn" and E Q :: "'d \<Rightarrow> 'd \<Rightarrow> bool"
  assumes each: "E d d' \<Longrightarrow> step_rel E Q (f1 c d) (f1 c d')"
    and batch: "E d d' \<Longrightarrow> s \<noteq> [] \<Longrightarrow> NUL \<notin> set s \<Longrightarrow> step_rel E Q (f2 s d) (iter_string f1 s d')"
begin

lemma loop_rel: "E d d' \<Longrightarrow> step_rel E Q (iter_string f1 s d) (iter_string f1 s d')"
proof (induction s arbitrary: d d')
  case (Cons c s)
  then show ?case using step_rel_bind [OF each] by simp
qed simp

lemma iter5_batched:
  "cord_ok x \<Longrightarrow> i < clen x \<Longrightarrow> E d d' \<Longrightarrow>
    step_rel E Q (CORD_iter5 x i f1 (Some f2) d) (iter_string f1 (drop i (chars x)) d')"
proof (induction x arbitrary: i d d')
  case (Str s)
  have "s ! i \<noteq> NUL" using Str.prems no_nul by simp
  moreover have "NUL \<notin> set (drop i s)" "drop i s \<noteq> []" using Str.prems by (auto dest: in_set_dropD)
  ultimately show ?case using Str.prems batch by (simp add: string_read_def)
next
  case (Conc dp ll n l r)
  have ok: "cord_ok l" "cord_ok r" using Conc.prems by auto
  note pos = cord_len(2) [OF ok(1)] cord_len(2) [OF ok(2)]
  show ?case
  proof (cases "clen l \<le> i")
    case True
    then have "0 < i" using pos by linarith
    then show ?thesis
      using True Conc.IH(2) [OF ok(2), of "i - clen l"] Conc.prems unfolding iter5_Conc [OF Conc.prems(1)] by simp
  next
    case False
    then have "step_rel E Q (CORD_iter5 l i f1 (Some f2) d) (iter_string f1 (drop i (chars l)) d')"
      using Conc.IH(1) [OF ok(1)] Conc.prems by simp
    moreover have "step_rel E Q (CORD_iter5 r 0 f1 (Some f2) e) (iter_string f1 (chars r) e')" if "E e e'" for e e'
      using Conc.IH(2) [OF ok(2), of 0] pos that by simp
    ultimately have "step_rel E Q
       (bindE (CORD_iter5 l i f1 (Some f2) d) (\<lambda>(stop, d). if stop then Inr (True, d) else CORD_iter5 r 0 f1 (Some f2) d))
       (bindE (iter_string f1 (drop i (chars l)) d') (\<lambda>(stop, d). if stop then Inr (True, d) else iter_string f1 (chars r) d))"
      by (rule step_rel_bind)
    then show ?thesis using False unfolding iter5_Conc [OF Conc.prems(1)] by (simp add: iter_string_append)
  qed
next
  case (Func n f)
  then show ?case using iter_function_node [of "Func n f"] loop_rel by (metis IS_FUNCTION.simps(1))
next
  case (Substr n a c k)
  then show ?case using iter_function_node [of "Substr n a c k"] loop_rel by (metis IS_FUNCTION.simps(2))
qed simp

end

text \<open>Without a batched function the client is free.\<close>

lemma iter5_each:
  "cord_ok x \<Longrightarrow> i < clen x \<Longrightarrow> CORD_iter5 x i f1 None d = iter_string f1 (drop i (chars x)) d"
proof (induction x arbitrary: i d)
  case (Str s)
  have "s ! i \<noteq> NUL" using Str.prems no_nul by simp
  then show ?case using Str.prems by (simp add: string_read_def)
next
  case (Conc dp ll n l r)
  have ok: "cord_ok l" "cord_ok r" using Conc.prems by auto
  note pos = cord_len(2) [OF ok(1)] cord_len(2) [OF ok(2)]
  show ?case
  proof (cases "clen l \<le> i")
    case True
    then have "0 < i" using pos by linarith
    then show ?thesis using True Conc.IH(2) [of "i - clen l"] ok Conc.prems unfolding iter5_Conc [OF Conc.prems(1)] by simp
  next
    case False
    then show ?thesis using Conc.IH(1) [of i] Conc.IH(2) [of 0] ok pos
      unfolding iter5_Conc [OF Conc.prems(1)] by (simp add: iter_string_append cong: if_cong)
  qed
next
  case (Func n f)
  then show ?case using iter_function_node [of "Func n f"] by simp
next
  case (Substr n a c k)
  then show ?case using iter_function_node [of "Substr n a c k"] by simp
qed simp

text \<open>Backwards, the loop runs over the characters up to the position, from the last.\<close>

lemma riter_string_spec:
  assumes "NUL \<notin> set s" and "i < length s"
  shows "riter_string f1 s i d = iter_string f1 (rev (take (Suc i) s)) d"
  using assms
proof (induction i arbitrary: d)
  case 0
  moreover have "s ! 0 \<noteq> NUL" using 0 no_nul by blast
  ultimately show ?case by (subst riter_string.simps) (simp add: string_read_def take_Suc_conv_app_nth cong: if_cong)
next
  case (Suc i)
  moreover have "s ! Suc i \<noteq> NUL" using Suc.prems no_nul by blast
  ultimately show ?case by (subst riter_string.simps) (simp add: string_read_def take_Suc_conv_app_nth [of "Suc i"] cong: if_cong)
qed

lemma riter_function_spec:
  assumes "\<And>j. j < length s \<Longrightarrow> fn j = Inr (s ! j)" and "i < length s"
  shows "riter_function fn f1 i d = iter_string f1 (rev (take (Suc i) s)) d"
  using assms(2)
proof (induction i arbitrary: d)
  case 0
  then show ?case using assms(1) [of 0] by (subst riter_function.simps) (simp add: take_Suc_conv_app_nth cong: if_cong)
next
  case (Suc i)
  then show ?case using assms(1) [of "Suc i"]
    by (subst riter_function.simps) (simp add: take_Suc_conv_app_nth [of "Suc i"] cong: if_cong)
qed

lemma riter4_loop:
  "cord_ok x \<Longrightarrow> i < clen x \<Longrightarrow> CORD_riter4 x i f1 d = iter_string f1 (rev (take (Suc i) (chars x))) d"
proof (induction x arbitrary: i d)
  case (Conc dp ll n l r)
  have ok: "cord_ok l" "cord_ok r" using Conc.prems by auto
  note pos = cord_len(2,3) [OF ok(1)]
  have "szsub (clen l) 1 = clen l - 1" by (rule szsub_small) (use pos in linarith)+
  then have e: "CORD_riter4 (Conc dp ll n l r) i f1 d =
      (if clen l \<le> i then bindE (CORD_riter4 r (i - clen l) f1 d) (\<lambda>(stop, d). if stop then Inr (True, d) else CORD_riter4 l (clen l - 1) f1 d)
       else CORD_riter4 l i f1 d)"
    by (simp only: CORD_riter4.simps left_len [OF Conc.prems(1)] Let_def)
  have "Suc i - clen l = Suc (i - clen l)" if "clen l \<le> i" using that by simp
  then show ?case
    using Conc.IH(1) [of i] Conc.IH(1) [of "clen l - 1"] Conc.IH(2) [of "i - clen l"] ok pos Conc.prems
    unfolding e by (simp add: iter_string_append cong: if_cong)
next
  case (Func n f)
  then show ?case using riter_function_spec [of "chars (Func n f)" "cord_fn (Func n f)"] by simp
next
  case (Substr n a c k)
  then show ?case
    using riter_function_spec [of "chars (Substr n a c k)" "cord_fn (Substr n a c k)"] cord_fn_chars [of "Substr n a c k"]
    by simp
qed (auto simp: riter_string_spec)

section \<open>Conversion to a C string\<close>

definition fill_eq :: "CORD_fill_data \<Rightarrow> CORD_fill_data \<Rightarrow> bool" where
  "fill_eq d d' \<longleftrightarrow> fd_len d = fd_len d' \<and> fd_count d = fd_count d' \<and> length (fd_buf d) = length (fd_buf d') \<and>
     take (fd_count d) (fd_buf d) = take (fd_count d) (fd_buf d') \<and> fd_len d \<le> length (fd_buf d) \<and> fd_len d < 4294967296"

definition filling :: "CORD_fill_data \<Rightarrow> CORD_fill_data \<Rightarrow> bool" where
  "filling d d' \<longleftrightarrow> fill_eq d d' \<and> fd_count d < fd_len d"

lemma take_upd: "i < length xs \<Longrightarrow> take (Suc i) (xs[i := v]) = take i xs @ [v]"
  by (simp add: take_Suc_conv_app_nth)

definition fill_next :: "char \<Rightarrow> CORD_fill_data \<Rightarrow> CORD_fill_data" where
  "fill_next c d = d\<lparr>fd_buf := (fd_buf d)[fd_count d := c], fd_count := Suc (fd_count d)\<rparr>"

lemma fill_next_simps [simp]:
  "fd_len (fill_next c d) = fd_len d" "fd_count (fill_next c d) = Suc (fd_count d)"
  "fd_buf (fill_next c d) = (fd_buf d)[fd_count d := c]"
  by (simp_all add: fill_next_def)

lemma fill_proc_next:
  assumes "fd_count d < fd_len d" and "fd_len d \<le> length (fd_buf d)" and "fd_len d < 4294967296"
  shows "CORD_fill_proc c d = Inr (fd_len d \<le> Suc (fd_count d), fill_next c d)"
    and "CORD_batched_fill_proc (c # s) d =
      (if fd_len d \<le> Suc (fd_count d) then Inr (True, fill_next c d) else CORD_batched_fill_proc s (fill_next c d))"
proof -
  have "sz (Suc (fd_count d)) = Suc (fd_count d)" using assms by simp
  then show "CORD_fill_proc c d = Inr (fd_len d \<le> Suc (fd_count d), fill_next c d)"
    "CORD_batched_fill_proc (c # s) d =
      (if fd_len d \<le> Suc (fd_count d) then Inr (True, fill_next c d) else CORD_batched_fill_proc s (fill_next c d))"
    using assms by (simp_all add: CORD_fill_proc_def buf_put_def fill_next_def)
qed

lemma fill_next_eq: "filling d d' \<Longrightarrow> fill_eq (fill_next c d) (fill_next c d')"
  by (auto simp: filling_def fill_eq_def take_upd)

lemma fillingD:
  assumes "filling d d'"
  shows "fd_count d < fd_len d" "fd_len d \<le> length (fd_buf d)" "fd_len d < 4294967296"
    "fd_count d' < fd_len d'" "fd_len d' \<le> length (fd_buf d')" "fd_len d' < 4294967296" "fd_len d' = fd_len d" "fd_count d' = fd_count d"
  using assms by (auto simp: filling_def fill_eq_def)

lemma fill_each:
  assumes "filling d d'"
  shows "step_rel filling fill_eq (CORD_fill_proc c d) (CORD_fill_proc c d')"
  using fill_next_eq [OF assms, of c] fillingD [OF assms] by (auto simp: fill_proc_next filling_def)

lemma batched_fill_step:
  "filling d d' \<Longrightarrow> step_rel filling fill_eq (CORD_batched_fill_proc s d) (iter_string CORD_fill_proc s d')"
proof (induction s arbitrary: d d')
  case Nil
  then show ?case by (auto simp: filling_def fill_eq_def buf_put_def)
next
  case (Cons c s)
  note f = fillingD [OF Cons.prems] and eq = fill_next_eq [OF Cons.prems, of c]
  have "filling (fill_next c d) (fill_next c d')" if "\<not> fd_len d \<le> Suc (fd_count d)"
    using that eq by (simp add: filling_def)
  then show ?case using f eq Cons.IH by (simp add: fill_proc_next del: CORD_batched_fill_proc.simps)
qed

interpretation fill: batched_client CORD_fill_proc CORD_batched_fill_proc filling fill_eq
  by unfold_locales (simp_all add: fill_each batched_fill_step)

text \<open>Character by character, the buffer gets the text.\<close>

lemma fill_loop:
  "s \<noteq> [] \<Longrightarrow> fd_count d + length s = fd_len d \<Longrightarrow> fd_len d \<le> length (fd_buf d) \<Longrightarrow> fd_len d < 4294967296 \<Longrightarrow>
    \<exists>e. iter_string CORD_fill_proc s d = Inr (True, e) \<and> fd_count e = fd_len d \<and> length (fd_buf e) = length (fd_buf d) \<and>
      take (fd_len d) (fd_buf e) = take (fd_count d) (fd_buf d) @ s"
proof (induction s arbitrary: d)
  case (Cons c s)
  have b: "fd_count d < fd_len d" "fd_count d < length (fd_buf d)" using Cons.prems(2,3) by auto
  have p: "iter_string CORD_fill_proc (c # s) d =
      (if fd_len d \<le> Suc (fd_count d) then Inr (True, fill_next c d) else iter_string CORD_fill_proc s (fill_next c d))"
    using fill_proc_next(1) [OF b(1) Cons.prems(3,4)] by simp
  show ?case
  proof (cases "s = []")
    case True
    then have "fd_len d = Suc (fd_count d)" using Cons.prems(2) by simp
    then show ?thesis using p b(2) True by (intro exI [of _ "fill_next c d"]) (simp add: take_upd del: iter_string.simps)
  next
    case False
    then have "\<not> fd_len d \<le> Suc (fd_count d)" using Cons.prems(2) by (cases s) auto
    then show ?thesis using p Cons.IH [OF False, of "fill_next c d"] Cons.prems b by (simp add: take_upd del: iter_string.simps)
  qed
qed simp

lemma fill_buf_text:
  assumes "cord_ok x" and "clen x \<le> length buf"
  shows "\<exists>b. CORD_fill_buf x 0 (clen x) buf = Inr b \<and> length b = length buf \<and> take (clen x) b = chars x"
proof -
  let ?d = "\<lparr>fd_len = clen x, fd_count = 0, fd_buf = buf\<rparr>"
  note len = cord_len(2,3) [OF assms(1)]
  have "filling ?d ?d" using len assms(2) by (simp add: filling_def fill_eq_def)
  then have "step_rel filling fill_eq (CORD_iter5 x 0 CORD_fill_proc (Some CORD_batched_fill_proc) ?d) (iter_string CORD_fill_proc (chars x) ?d)"
    using fill.iter5_batched [OF assms(1) len(1)] by simp
  moreover obtain e where "iter_string CORD_fill_proc (chars x) ?d = Inr (True, e)" "fd_count e = clen x"
    "length (fd_buf e) = length buf" "take (clen x) (fd_buf e) = chars x"
    using fill_loop [of "chars x" ?d] len assms(2) by auto
  ultimately show ?thesis
    by (cases "CORD_iter5 x 0 CORD_fill_proc (Some CORD_batched_fill_proc) ?d") (auto simp: CORD_fill_buf_def fill_eq_def)
qed

lemma is_cord_len: "is_cord x \<Longrightarrow> CORD_len x = clen x"
  using cord_len(1) by (auto simp: is_cord_def CORD_len_def)

lemma to_char_star_text:
  assumes "is_cord x" and "clen x < 4294967295" and "\<And>n. length (mem n) = n"
  shows "CORD_to_char_star mem x = Inr (chars x @ [NUL])"
proof -
  let ?n = "clen x" and ?m = "mem (Suc (clen x))"
  have "\<exists>b. CORD_fill_buf x 0 ?n ?m = Inr b \<and> length b = Suc ?n \<and> take ?n b = chars x"
  proof (cases "x = Empty")
    case True
    then show ?thesis using assms(3) by (simp add: CORD_fill_buf_def)
  next
    case False
    then show ?thesis using fill_buf_text [of x ?m] assms by (simp add: is_cord_def)
  qed
  then obtain b where b: "CORD_fill_buf x 0 ?n ?m = Inr b" "length b = Suc ?n" "take ?n b = chars x" by blast
  then have "b[?n := NUL] = chars x @ [NUL]" using take_upd [of ?n b NUL] by simp
  then show ?thesis using b assms(2) by (simp add: CORD_to_char_star_def is_cord_len [OF assms(1)] buf_put_def)
qed

section \<open>Search\<close>

text \<open>The first and the last occurrence of a character.\<close>

definition first_pos :: "char \<Rightarrow> string \<Rightarrow> nat" where
  "first_pos c s = length (takeWhile (\<lambda>x. x \<noteq> c) s)"

lemma first_pos_le: "first_pos c s \<le> length s"
  by (simp add: first_pos_def length_takeWhile_le)

lemma first_pos_Cons [simp]: "first_pos c [] = 0" "first_pos c (x # s) = (if x = c then 0 else Suc (first_pos c s))"
  by (simp_all add: first_pos_def)

lemma first_pos_props:
  "c \<in> set s \<Longrightarrow> first_pos c s < length s \<and> s ! first_pos c s = c"
  "j < first_pos c s \<Longrightarrow> s ! j \<noteq> c"
  "c \<notin> set s \<Longrightarrow> first_pos c s = length s"
  by (induction s arbitrary: j) (auto simp: nth_Cons split: nat.splits if_splits)

lemma first_pos_append: "c \<in> set s \<Longrightarrow> first_pos c (s @ t) = first_pos c s"
  by (simp add: first_pos_def)

lemma sz_add [simp]: "sz (sz a + b) = sz (a + b)" "sz (a + sz b) = sz (a + b)" "sz (sz a) = sz a" "sz (Suc (sz a)) = sz (Suc a)"
  by (simp_all add: sz_def mod_simps mod_Suc_eq)

lemma sz_less [simp]: "sz a < 4294967296"
  by (simp add: sz_def)

lemma chr_loop:
  "cd_pos d < 4294967296 \<Longrightarrow> iter_string CORD_chr_proc s d =
    Inr (cd_target d \<in> set s, d\<lparr>cd_pos := sz (cd_pos d + first_pos (cd_target d) s)\<rparr>)"
proof (induction s arbitrary: d)
  case (Cons c s)
  show ?case
  proof (cases "c = cd_target d")
    case True
    then show ?thesis using Cons.prems by (simp add: CORD_chr_proc_def)
  next
    case False
    then have "iter_string CORD_chr_proc (c # s) d = iter_string CORD_chr_proc s (d\<lparr>cd_pos := sz (cd_pos d + 1)\<rparr>)"
      by (simp add: CORD_chr_proc_def)
    then show ?thesis using Cons.IH [of "d\<lparr>cd_pos := sz (cd_pos d + 1)\<rparr>"] False by simp
  qed
qed simp

lemma rchr_loop:
  "length s \<le> Suc (cd_pos d) \<Longrightarrow> cd_pos d < 4294967296 \<Longrightarrow>
    \<exists>p. iter_string CORD_rchr_proc s d = Inr (cd_target d \<in> set s, d\<lparr>cd_pos := p\<rparr>) \<and>
    (cd_target d \<in> set s \<longrightarrow> p = cd_pos d - first_pos (cd_target d) s)"
proof (induction s arbitrary: d)
  case Nil
  then show ?case by (auto intro: exI [of _ "cd_pos d"])
next
  case (Cons c s)
  show ?case
  proof (cases "c = cd_target d")
    case True
    then show ?thesis by (auto simp: CORD_rchr_proc_def intro: exI [of _ "cd_pos d"])
  next
    case False
    let ?d = "d\<lparr>cd_pos := szsub (cd_pos d) 1\<rparr>"
    have e: "iter_string CORD_rchr_proc (c # s) d = iter_string CORD_rchr_proc s ?d"
      using False by (simp add: CORD_rchr_proc_def)
    show ?thesis
    proof (cases "s = []")
      case True
      then show ?thesis unfolding e using False by auto
    next
      case s: False
      then have "0 < cd_pos d" using Cons.prems(1) by (cases s) auto
      then have z: "szsub (cd_pos d) 1 = cd_pos d - 1" using Cons.prems(2) by (intro szsub_small) simp_all
      have "cd_pos ?d < 4294967296" "length s \<le> Suc (cd_pos ?d)" using Cons.prems \<open>0 < cd_pos d\<close> z by simp_all
      then obtain p where "iter_string CORD_rchr_proc s ?d = Inr (cd_target ?d \<in> set s, ?d\<lparr>cd_pos := p\<rparr>)"
        "cd_target ?d \<in> set s \<longrightarrow> p = cd_pos ?d - first_pos (cd_target ?d) s"
        using Cons.IH [of ?d] by metis
      then show ?thesis unfolding e using False z by (intro exI [of _ p]) simp
    qed
  qed
qed

text \<open>The batched search is right unless a NUL is sought.\<close>

definition seeking :: "chr_data \<Rightarrow> chr_data \<Rightarrow> bool" where
  "seeking d d' \<longleftrightarrow> d = d' \<and> cd_target d \<noteq> NUL \<and> cd_pos d < 4294967296"

lemma batched_chr_proc_loop:
  assumes "cd_target d \<noteq> NUL" and "cd_pos d < 4294967296"
  shows "CORD_batched_chr_proc s d = iter_string CORD_chr_proc s d"
proof (cases "cd_target d \<in> set s")
  case True
  then show ?thesis using chr_loop [OF assms(2)] first_pos_append [OF True]
    by (simp add: CORD_batched_chr_proc_def strchr_def first_pos_def)
next
  case False
  then show ?thesis using assms chr_loop [OF assms(2)] first_pos_props(3)
    by (simp add: CORD_batched_chr_proc_def strchr_def)
qed

interpretation seek: batched_client CORD_chr_proc CORD_batched_chr_proc seeking seeking
proof
  fix d d' :: chr_data and c
  assume "seeking d d'"
  then show "step_rel seeking seeking (CORD_chr_proc c d) (CORD_chr_proc c d')"
    by (auto simp: seeking_def CORD_chr_proc_def)
next
  fix d d' :: chr_data and s
  assume "seeking d d'"
  then show "step_rel seeking seeking (CORD_batched_chr_proc s d) (iter_string CORD_chr_proc s d')"
    by (auto simp: seeking_def batched_chr_proc_loop chr_loop)
qed

lemma chr_found:
  assumes "cord_ok x" and "i < clen x" and "c \<noteq> NUL"
  shows "CORD_chr x i c = Inr (if c \<in> set (drop i (chars x)) then i + first_pos c (drop i (chars x)) else CORD_NOT_FOUND)"
proof -
  let ?d = "\<lparr>cd_pos = i, cd_target = c\<rparr>" and ?s = "drop i (chars x)"
  note len = cord_len(3) [OF assms(1)]
  have "seeking ?d ?d" using assms len by (simp add: seeking_def)
  then have "step_rel seeking seeking (CORD_iter5 x i CORD_chr_proc (Some CORD_batched_chr_proc) ?d) (iter_string CORD_chr_proc ?s ?d)"
    using seek.iter5_batched [OF assms(1,2)] by simp
  moreover have "iter_string CORD_chr_proc ?s ?d = Inr (c \<in> set ?s, ?d\<lparr>cd_pos := sz (i + first_pos c ?s)\<rparr>)"
    using chr_loop [of ?d ?s] assms(2) len by simp
  moreover have "i + first_pos c ?s < 4294967296" using first_pos_le [of c ?s] assms(2) len by simp
  ultimately show ?thesis
    by (cases "CORD_iter5 x i CORD_chr_proc (Some CORD_batched_chr_proc) ?d") (auto simp: CORD_chr_def seeking_def)
qed

lemma rchr_found:
  assumes "cord_ok x" and "i < clen x"
  shows "CORD_rchr x i c = Inr (if c \<in> set (take (Suc i) (chars x)) then i - first_pos c (rev (take (Suc i) (chars x))) else CORD_NOT_FOUND)"
proof -
  let ?d = "\<lparr>cd_pos = i, cd_target = c\<rparr>" and ?s = "rev (take (Suc i) (chars x))"
  obtain p where "iter_string CORD_rchr_proc ?s ?d = Inr (c \<in> set ?s, ?d\<lparr>cd_pos := p\<rparr>)" "c \<in> set ?s \<longrightarrow> p = i - first_pos c ?s"
    using rchr_loop [of ?s ?d] assms(2) cord_len(3) [OF assms(1)] by auto
  then show ?thesis using riter4_loop [OF assms, of CORD_rchr_proc ?d] by (simp add: CORD_rchr_def)
qed

section \<open>Results\<close>

text \<open>
  A traversal calls the client function on the characters from the start position on, in order, until it asks to
  stop, and backwards on those up to the position; a failure of the client function ends it.  In particular it does
  not abort and does not read outside a string.
\<close>

theorem cord_iter_each_char:
  assumes "cord_ok x" and "i < length (chars x)"
  shows "CORD_iter5 x i f1 None d = iter_string f1 (drop i (chars x)) d \<and>
    CORD_riter4 x i f1 d = iter_string f1 (rev (take (Suc i) (chars x))) d"
  by (intro conjI iter5_each riter4_loop assms)

theorem cord_iter_each_char_witness:
  "CORD_iter5 (Conc 1 5 16 (Str ''brown'') (Str '' fox jumped'')) 7 (\<lambda>c d. Inr (c = CHR ''j'', d @ [c])) None [] = Inr (True, ''ox j'') \<and>
   CORD_riter4 (Conc 1 5 16 (Str ''brown'') (Str '' fox jumped'')) 7 (\<lambda>c d. Inr (c = CHR ''w'', d @ [c])) [] = Inr (True, ''of nw'')"
  using cord_iter_each_char [of "Conc 1 5 16 (Str ''brown'') (Str '' fox jumped'')" 7 "\<lambda>c d. Inr (c = CHR ''j'', d @ [c])" "[]"]
    cord_iter_each_char [of "Conc 1 5 16 (Str ''brown'') (Str '' fox jumped'')" 7 "\<lambda>c d. Inr (c = CHR ''w'', d @ [c])" "[]"]
  by (simp add: MAX_LEFT_LEN_def del: CORD_iter5.simps CORD_riter4.simps)

text \<open>
  C22. Conversion gives the characters of the cord and a terminator, whatever the memory held, and writes nothing outside
  the buffer of \<^verbatim>\<open>CORD_len + 1\<close> bytes.  A C string becomes a cord and comes back unchanged, by both conversions.
\<close>

theorem cord_char_star_roundtrip:
  assumes "length (chars x) < 4294967295" and "is_cord x" and "\<And>n. length (mem n) = n"
    and "NUL \<notin> set s" and "length s < 4294967295"
  shows "CORD_to_char_star mem x = Inr (chars x @ [NUL]) \<and> CORD_to_const_char_star mem x = Inr (chars x @ [NUL]) \<and>
    is_cord (CORD_from_char_star (s @ [NUL])) \<and> CORD_to_char_star mem (CORD_from_char_star (s @ [NUL])) = Inr (s @ [NUL])"
proof -
  have c: "c_string (s @ [NUL]) = s" using assms(4) by (auto simp: c_string_def takeWhile_append)
  then have "is_cord (CORD_from_char_star (s @ [NUL]))" "chars (CORD_from_char_star (s @ [NUL])) = s"
    using assms(4,5) by (auto simp: CORD_from_char_star_def)
  moreover have "CORD_to_char_star mem x = Inr (chars x @ [NUL])" by (rule to_char_star_text [OF assms(2,1,3)])
  moreover from this have "CORD_to_const_char_star mem x = Inr (chars x @ [NUL])"
    by (cases x) (simp_all add: CORD_to_const_char_star_def)
  ultimately show ?thesis using to_char_star_text [of "CORD_from_char_star (s @ [NUL])"] assms(3,5) by simp
qed

theorem cord_char_star_roundtrip_witness:
  "CORD_to_char_star (\<lambda>n. replicate n CHR ''?'') (Conc 1 5 16 (Str ''brown'') (Str '' fox jumped'')) = Inr (''brown fox jumped'' @ [NUL]) \<and>
   CORD_to_char_star (\<lambda>n. replicate n CHR ''?'') (CORD_from_char_star (''fox'' @ [NUL])) = Inr (''fox'' @ [NUL])"
proof -
  have "is_cord (Conc 1 5 16 (Str ''brown'') (Str '' fox jumped''))" by (simp add: is_cord_def MAX_LEFT_LEN_def)
  then show ?thesis
    using cord_char_star_roundtrip [of "Conc 1 5 16 (Str ''brown'') (Str '' fox jumped'')" "\<lambda>n. replicate n CHR ''?''" "''fox''"]
    by simp
qed

text \<open>
  The search for a character other than NUL returns the first position from \<open>i\<close> on which holds it, the backward
  search the last one up to \<open>i\<close>, and both \<^verbatim>\<open>CORD_NOT_FOUND\<close> when there is none.
\<close>

theorem cord_chr_finds:
  assumes "cord_ok x" and "i < length (chars x)" and "c \<noteq> NUL"
  shows "(\<exists>p. CORD_chr x i c = Inr p \<and> (if c \<in> set (drop i (chars x))
      then i \<le> p \<and> p < length (chars x) \<and> chars x ! p = c \<and> (\<forall>j. i \<le> j \<and> j < p \<longrightarrow> chars x ! j \<noteq> c) else p = CORD_NOT_FOUND)) \<and>
    (\<exists>p. CORD_rchr x i c = Inr p \<and> (if c \<in> set (take (Suc i) (chars x))
      then p \<le> i \<and> chars x ! p = c \<and> (\<forall>j. p < j \<and> j \<le> i \<longrightarrow> chars x ! j \<noteq> c) else p = CORD_NOT_FOUND))"
proof
  let ?s = "drop i (chars x)" and ?t = "rev (take (Suc i) (chars x))"
  have p: "first_pos c ?s < length ?s \<and> ?s ! first_pos c ?s = c" if "c \<in> set ?s" using first_pos_props(1) [OF that] .
  have q: "chars x ! j \<noteq> c" if "i \<le> j" "j < i + first_pos c ?s" for j
  proof -
    have "?s ! (j - i) \<noteq> c" using that by (intro first_pos_props(2)) simp
    then show ?thesis using that(1) assms(2) by simp
  qed
  show "\<exists>p. CORD_chr x i c = Inr p \<and> (if c \<in> set ?s
      then i \<le> p \<and> p < length (chars x) \<and> chars x ! p = c \<and> (\<forall>j. i \<le> j \<and> j < p \<longrightarrow> chars x ! j \<noteq> c) else p = CORD_NOT_FOUND)"
    unfolding chr_found [OF assms] using p q assms(2) by (cases "c \<in> set ?s") auto
  have len: "length ?t = Suc i" using assms(2) by simp
  have t: "?t ! k = chars x ! (i - k)" if "k \<le> i" for k using that assms(2) by (simp add: rev_nth)
  have r: "first_pos c ?t \<le> i \<and> chars x ! (i - first_pos c ?t) = c" if "c \<in> set (take (Suc i) (chars x))"
    using first_pos_props(1) [of c ?t] that t [of "first_pos c ?t"] len by auto
  have u: "chars x ! j \<noteq> c" if "i - first_pos c ?t < j" "j \<le> i" for j
  proof -
    have "?t ! (i - j) \<noteq> c" using that by (intro first_pos_props(2)) simp
    then show ?thesis using t [of "i - j"] that by simp
  qed
  show "\<exists>p. CORD_rchr x i c = Inr p \<and> (if c \<in> set (take (Suc i) (chars x))
      then p \<le> i \<and> chars x ! p = c \<and> (\<forall>j. p < j \<and> j \<le> i \<longrightarrow> chars x ! j \<noteq> c) else p = CORD_NOT_FOUND)"
    unfolding rchr_found [OF assms(1,2)] using r u by (cases "c \<in> set (take (Suc i) (chars x))") auto
qed

theorem cord_chr_finds_witness:
  "CORD_chr (Conc 1 5 16 (Str ''brown'') (Str '' fox jumped'')) 1 CHR ''o'' = Inr 2"
  using cord_chr_finds [of "Conc 1 5 16 (Str ''brown'') (Str '' fox jumped'')" 1 "CHR ''o''"]
  by (simp add: MAX_LEFT_LEN_def CORD_chr_def LEFT_LEN_def string_read_def CORD_batched_chr_proc_def strchr_def sz_def)

text \<open>
  A search for NUL in a string cord, which holds none, finds the terminator of the string.
\<close>

lemma chr_finds_terminator:
  assumes "cord_ok (Str s)" and "i < length s"
  shows "CORD_chr (Str s) i NUL = Inr (length s)"
proof -
  have n: "s ! i \<noteq> NUL" "NUL \<notin> set (drop i s)" using assms no_nul by (auto dest: in_set_dropD)
  then have "strchr (drop i s) NUL = Some (length s - i)" by (auto simp: strchr_def takeWhile_append)
  then show ?thesis using assms n by (simp add: CORD_chr_def string_read_def CORD_batched_chr_proc_def)
qed

end
