(* ===== verification/Cord_Pos.thy ===== *)
theory Cord_Pos
  imports Cord_Iter
begin

text \<open>
  Cord positions: a cord, an index and the path of nodes to the leaf at that index, with a cache of its characters.
  The operations are those of \<^verbatim>\<open>gc/cord/cordbscs.c\<close> and the macros of \<^verbatim>\<open>gc/include/private/cord_pos.h\<close>, which replace
  the functions of the same name in every file that includes \<^verbatim>\<open>cord.h\<close>; a macro has the suffix \<open>_m\<close> here where it differs.
\<close>

section \<open>Operations\<close>

text \<open>\<^verbatim>\<open>cur_leaf\<close> points nowhere yet, to a C string, or to the buffer \<^verbatim>\<open>function_buf\<close> of the position.\<close>

datatype leaf_ptr = NoLeaf | LeafStr string | LeafBuf

record CORD_pos =
  cur_pos :: nat
  path_len :: nat
  cur_leaf :: leaf_ptr
  cur_start :: nat
  cur_end :: nat
  path :: "(cord \<times> nat) option list"
  function_buf :: string

definition CORD_POS_INVALID :: nat where "CORD_POS_INVALID = 1431655765"
definition FUNCTION_BUF_SZ :: nat where "FUNCTION_BUF_SZ = 8"

definition path_get :: "CORD_pos \<Rightarrow> nat \<Rightarrow> (cord \<times> nat) res" where
  "path_get p k = bindE (nthE (path p) k) (\<lambda>e. case e of None \<Rightarrow> Inl OutOfRange | Some pe \<Rightarrow> Inr pe)"

definition path_put :: "CORD_pos \<Rightarrow> nat \<Rightarrow> cord \<times> nat \<Rightarrow> CORD_pos res" where
  "path_put p k pe = (if k < length (path p) then Inr (p\<lparr>path := (path p)[k := Some pe]\<rparr>) else Inl OutOfRange)"

definition leaf_get :: "CORD_pos \<Rightarrow> nat \<Rightarrow> char res" where
  "leaf_get p i = (case cur_leaf p of NoLeaf \<Rightarrow> Inl OutOfRange | LeafStr s \<Rightarrow> string_read s i | LeafBuf \<Rightarrow> nthE (function_buf p) i)"

definition CORD_pos_valid :: "CORD_pos \<Rightarrow> bool" where
  "CORD_pos_valid p \<longleftrightarrow> path_len p \<noteq> CORD_POS_INVALID"

text \<open>Go down from a node to the leaf, adding to the path.\<close>

fun extend_loop :: "cord \<Rightarrow> nat \<Rightarrow> nat \<Rightarrow> CORD_pos \<Rightarrow> (cord \<times> nat \<times> nat \<times> CORD_pos) res" where
  "extend_loop (Conc d ll n l r) top_pos top_len p =
     (let left_len = LEFT_LEN ll n l r; k = path_len p + 1 in
      if cur_pos p \<ge> sz (top_pos + left_len)
      then bindE (path_put p k (r, sz (top_pos + left_len))) (\<lambda>p.
           extend_loop r (sz (top_pos + left_len)) (szsub top_len left_len) (p\<lparr>path_len := k\<rparr>))
      else bindE (path_put p k (l, top_pos)) (\<lambda>p. extend_loop l top_pos left_len (p\<lparr>path_len := k\<rparr>)))"
| "extend_loop tp top_pos top_len p = Inr (tp, top_pos, top_len, p)"

definition CORD__extend_path :: "CORD_pos \<Rightarrow> CORD_pos res" where
  "CORD__extend_path p =
     bindE (path_get p (path_len p)) (\<lambda>(tp, top_pos).
     if tp = Empty then Inl NullDeref
     else bindE (extend_loop tp top_pos (GEN_LEN tp) p) (\<lambda>(tp, top_pos, top_len, p).
     let p = (case tp of
         Str s \<Rightarrow> p\<lparr>cur_leaf := LeafStr s, cur_start := top_pos, cur_end := sz (top_pos + top_len)\<rparr>
       | _ \<Rightarrow> p\<lparr>cur_end := 0\<rparr>)
     in Inr (if cur_pos p \<ge> sz (top_pos + top_len) then p\<lparr>path_len := CORD_POS_INVALID\<rparr> else p)))"

definition CORD__pos_fetch :: "CORD_pos \<Rightarrow> char res" where
  "CORD__pos_fetch p =
     bindE (path_get p (path_len p)) (\<lambda>(leaf, start_pos). case leaf of
       Empty \<Rightarrow> Inl NullDeref
     | Str s \<Rightarrow> Inl OutOfRange
     | Conc d ll n l r \<Rightarrow> Inl (RuntimeError ''CORD_pos_fetch: bad leaf'')
     | _ \<Rightarrow> cord_fn leaf (szsub (cur_pos p) start_pos))"

text \<open>Fill the cache from a function.\<close>

fun fill_cache :: "(nat \<Rightarrow> char res) \<Rightarrow> nat \<Rightarrow> nat \<Rightarrow> nat \<Rightarrow> string \<Rightarrow> string res" where
  "fill_cache fn 0 i b buf = Inr buf"
| "fill_cache fn (Suc k) i b buf = bindE (fn i) (\<lambda>c. bindE (buf_put buf b c) (\<lambda>buf. fill_cache fn k (i + 1) (b + 1) buf))"

text \<open>Go up while the node is a right part, or a left part.\<close>

fun pop_right :: "CORD_pos \<Rightarrow> nat \<Rightarrow> nat res" where
  "pop_right p 0 = Inr 0"
| "pop_right p (Suc k) =
     bindE (path_get p (Suc k)) (\<lambda>(_, s). bindE (path_get p k) (\<lambda>(_, s').
     if s \<noteq> s' then pop_right p k else Inr (Suc k)))"

fun pop_left :: "CORD_pos \<Rightarrow> nat \<Rightarrow> nat res" where
  "pop_left p 0 = Inr 0"
| "pop_left p (Suc k) =
     bindE (path_get p (Suc k)) (\<lambda>(_, s). bindE (path_get p k) (\<lambda>(_, s').
     if s = s' then pop_left p k else Inr (Suc k)))"

definition next_leaf :: "CORD_pos \<Rightarrow> CORD_pos res" where
  "next_leaf p =
     bindE (pop_right p (path_len p)) (\<lambda>k.
     if k = 0 then Inr (p\<lparr>path_len := CORD_POS_INVALID\<rparr>)
     else CORD__extend_path (p\<lparr>path_len := k - 1\<rparr>))"

definition CORD__next :: "CORD_pos \<Rightarrow> CORD_pos res" where
  "CORD__next p =
     bindE (path_get p (path_len p)) (\<lambda>(leaf, start_pos).
     let pos = sz (cur_pos p + 1); p = p\<lparr>cur_pos := pos\<rparr>; end_pos = sz (start_pos + GEN_LEN leaf) in
     if leaf = Empty then Inl NullDeref
     else if \<not> CORD_IS_STRING leaf \<and> pos < end_pos
     then let limit = sz (pos + FUNCTION_BUF_SZ); limit = (if limit > end_pos then end_pos else limit) in
          bindE (fill_cache (cord_fn leaf) (limit - pos) (szsub pos start_pos) 0 (function_buf p)) (\<lambda>buf.
          Inr (p\<lparr>function_buf := buf, cur_start := pos, cur_leaf := LeafBuf, cur_end := limit\<rparr>))
     else next_leaf p)"

definition CORD__prev :: "CORD_pos \<Rightarrow> CORD_pos res" where
  "CORD__prev p =
     bindE (path_get p (path_len p)) (\<lambda>(_, start_pos).
     if cur_pos p = 0 then Inr (p\<lparr>path_len := CORD_POS_INVALID\<rparr>)
     else let p = p\<lparr>cur_pos := cur_pos p - 1\<rparr> in
          if cur_pos p \<ge> start_pos then Inr p
          else bindE (pop_left p (path_len p)) (\<lambda>k.
               if k = 0 then Inl OutOfRange else CORD__extend_path (p\<lparr>path_len := k - 1\<rparr>)))"

definition CORD_pos_fetch :: "CORD_pos \<Rightarrow> char res" where
  "CORD_pos_fetch p =
     (if cur_start p \<le> cur_pos p \<and> cur_pos p < cur_end p then leaf_get p (cur_pos p - cur_start p) else CORD__pos_fetch p)"

definition CORD_pos_fetch_m :: "CORD_pos \<Rightarrow> char res" where
  "CORD_pos_fetch_m p =
     (if cur_end p \<noteq> 0 then leaf_get p (szsub (cur_pos p) (cur_start p)) else CORD__pos_fetch p)"

definition CORD_next :: "CORD_pos \<Rightarrow> CORD_pos res" where
  "CORD_next p = (if cur_pos p < szsub (cur_end p) 1 then Inr (p\<lparr>cur_pos := sz (cur_pos p + 1)\<rparr>) else CORD__next p)"

definition CORD_next_m :: "CORD_pos \<Rightarrow> CORD_pos res" where
  "CORD_next_m p = (if sz (cur_pos p + 1) < cur_end p then Inr (p\<lparr>cur_pos := sz (cur_pos p + 1)\<rparr>) else CORD__next p)"

definition CORD_prev :: "CORD_pos \<Rightarrow> CORD_pos res" where
  "CORD_prev p = (if cur_end p \<noteq> 0 \<and> cur_pos p > cur_start p then Inr (p\<lparr>cur_pos := cur_pos p - 1\<rparr>) else CORD__prev p)"

definition CORD_pos_to_index :: "CORD_pos \<Rightarrow> nat" where
  "CORD_pos_to_index p = cur_pos p"

definition CORD_pos_to_cord :: "CORD_pos \<Rightarrow> cord res" where
  "CORD_pos_to_cord p = bindE (path_get p 0) (\<lambda>(x, _). Inr x)"

definition CORD_set_pos :: "CORD_pos \<Rightarrow> cord \<Rightarrow> nat \<Rightarrow> CORD_pos res" where
  "CORD_set_pos p x i =
     (if x = Empty then Inr (p\<lparr>path_len := CORD_POS_INVALID\<rparr>)
      else bindE (path_put p 0 (x, 0)) (\<lambda>p. CORD__extend_path (p\<lparr>path_len := 0, cur_pos := i\<rparr>)))"

definition CORD_fetch :: "CORD_pos \<Rightarrow> cord \<Rightarrow> nat \<Rightarrow> char res" where
  "CORD_fetch xpos x i =
     bindE (CORD_set_pos xpos x i) (\<lambda>xpos.
     if \<not> CORD_pos_valid xpos then Inl (RuntimeError ''bad index?'') else CORD_pos_fetch_m xpos)"

text \<open>The loop \<^verbatim>\<open>CORD_FOR\<close>, collecting the characters; the first argument bounds its turns.\<close>

fun CORD_FOR_loop :: "nat \<Rightarrow> CORD_pos \<Rightarrow> string res" where
  "CORD_FOR_loop 0 p = Inl Diverge"
| "CORD_FOR_loop (Suc k) p =
     (if \<not> CORD_pos_valid p then Inr []
      else bindE (CORD_pos_fetch_m p) (\<lambda>c. bindE (CORD_next_m p) (\<lambda>p. bindE (CORD_FOR_loop k p) (\<lambda>s. Inr (c # s)))))"

definition CORD_FOR :: "nat \<Rightarrow> CORD_pos \<Rightarrow> cord \<Rightarrow> string res" where
  "CORD_FOR k p x = bindE (CORD_set_pos p x 0) (CORD_FOR_loop k)"

section \<open>Paths\<close>

text \<open>A node on the path to position \<open>s\<close> of the cord \<open>x\<close>, \<open>j\<close> steps down.\<close>

definition node_at :: "cord \<Rightarrow> nat \<Rightarrow> cord \<times> nat \<Rightarrow> bool" where
  "node_at x j = (\<lambda>(c, s). cord_ok c \<and> DEPTH c + j \<le> DEPTH x \<and> s + clen c \<le> clen x \<and> part x s (clen c) = chars c)"

fun child :: "cord \<times> nat \<Rightarrow> cord \<times> nat \<Rightarrow> bool" where
  "child (Conc d ll n l r, s) (c, t) \<longleftrightarrow> c = l \<and> t = s \<or> c = r \<and> t = s + clen l"
| "child _ _ \<longleftrightarrow> False"

definition path_ok :: "cord \<Rightarrow> CORD_pos \<Rightarrow> nat \<Rightarrow> bool" where
  "path_ok x p k \<longleftrightarrow> cord_ok x \<and> DEPTH x \<le> 48 \<and> length (path p) = 49 \<and> path p ! 0 = Some (x, 0) \<and>
     (\<forall>j\<le>k. \<exists>e. path p ! j = Some e \<and> node_at x j e) \<and>
     (\<forall>j<k. child (the (path p ! j)) (the (path p ! Suc j)))"

lemma node_root: "cord_ok x \<Longrightarrow> node_at x 0 (x, 0)"
  by (simp add: node_at_def)

lemma node_children:
  assumes "node_at x j (Conc d ll n l r, s)"
  shows "node_at x (Suc j) (l, s)" and "node_at x (Suc j) (r, s + clen l)"
proof -
  have p: "s + (clen l + clen r) \<le> clen x" "take (clen l + clen r) (drop s (chars x)) = chars l @ chars r"
    and ok: "cord_ok l" "cord_ok r" "Suc (max (DEPTH l) (DEPTH r)) + j \<le> DEPTH x"
    using assms by (auto simp: node_at_def)
  have "part x s (clen l) = chars l" using arg_cong [OF p(2), of "take (clen l)"] by (simp add: min_def)
  then show "node_at x (Suc j) (l, s)" using p(1) ok by (simp add: node_at_def)
  have "part x (s + clen l) (clen r) = chars r"
    using arg_cong [OF p(2), of "drop (clen l)"] by (simp add: drop_take add.commute)
  then show "node_at x (Suc j) (r, s + clen l)" using p(1) ok by (simp add: node_at_def add.assoc)
qed

lemma path_okD:
  assumes "path_ok x p k" and "j \<le> k"
  obtains c s where "path p ! j = Some (c, s)" and "node_at x j (c, s)" and "path_get p j = Inr (c, s)" and "j \<le> 48"
proof -
  obtain c s where e: "path p ! j = Some (c, s)" "node_at x j (c, s)" using assms by (auto simp: path_ok_def)
  then have "j \<le> 48" using assms by (auto simp: path_ok_def node_at_def)
  then show thesis using that e assms by (simp add: path_ok_def path_get_def)
qed

lemma path_ok_mono: "path_ok x p k \<Longrightarrow> j \<le> k \<Longrightarrow> path_ok x p j"
  by (auto simp: path_ok_def)

lemma path_ok_cong [simp]:
  "path_ok x (p\<lparr>path_len := a\<rparr>) k = path_ok x p k" "path_ok x (p\<lparr>cur_pos := b\<rparr>) k = path_ok x p k"
  "path_ok x (p\<lparr>cur_end := e\<rparr>) k = path_ok x p k" "path_ok x (p\<lparr>cur_start := e\<rparr>) k = path_ok x p k"
  "path_ok x (p\<lparr>cur_leaf := l\<rparr>) k = path_ok x p k" "path_ok x (p\<lparr>function_buf := f\<rparr>) k = path_ok x p k"
  by (simp_all add: path_ok_def)

lemma path_ok_push:
  assumes "path_ok x p k" and "path p ! k = Some e" and "child e e'" and "node_at x (Suc k) e'"
  shows "path_put p (Suc k) e' = Inr (p\<lparr>path := (path p)[Suc k := Some e']\<rparr>)"
    and "path_ok x (p\<lparr>path := (path p)[Suc k := Some e']\<rparr>) (Suc k)" and "Suc k < length (path p)"
proof -
  have k: "Suc k < 49" using assms(1,4) by (auto simp: path_ok_def node_at_def split: prod.splits)
  then show "path_put p (Suc k) e' = Inr (p\<lparr>path := (path p)[Suc k := Some e']\<rparr>)"
    using assms(1) by (simp add: path_put_def path_ok_def)
  show "path_ok x (p\<lparr>path := (path p)[Suc k := Some e']\<rparr>) (Suc k)"
    using assms k by (cases e') (auto simp: path_ok_def nth_list_update le_Suc_eq less_Suc_eq)
  show "Suc k < length (path p)" using assms(1) k by (simp add: path_ok_def)
qed

text \<open>Going down ends at a leaf which holds the position, if the node does.\<close>

definition leaf_of :: "cord \<Rightarrow> CORD_pos \<Rightarrow> cord \<Rightarrow> nat \<Rightarrow> bool" where
  "leaf_of x p c s \<longleftrightarrow> path_ok x p (path_len p) \<and> path p ! path_len p = Some (c, s) \<and> \<not> IS_CONCATENATION c"

lemma extend_loop_spec:
  "path_ok x p (path_len p) \<Longrightarrow> path p ! path_len p = Some (c, s) \<Longrightarrow> s \<le> cur_pos p \<Longrightarrow>
   \<exists>c' s' p'. extend_loop c s (clen c) p = Inr (c', s', clen c', p') \<and> leaf_of x p' c' s' \<and> s' \<le> cur_pos p \<and> cur_pos p' = cur_pos p \<and>
     function_buf p' = function_buf p \<and> (cur_pos p < s + clen c \<longleftrightarrow> cur_pos p < s' + clen c')"
proof (induction c arbitrary: p s)
  case (Conc d ll n l r)
  obtain c t where "path p ! path_len p = Some (c, t)" "node_at x (path_len p) (c, t)" using path_okD [OF Conc.prems(1) le_refl] .
  then have na: "node_at x (path_len p) (Conc d ll n l r, s)" using Conc.prems(2) by simp
  then have ok: "cord_ok (Conc d ll n l r)" and len: "s + (clen l + clen r) \<le> clen x" by (auto simp: node_at_def)
  have "clen x < 4294967296" using Conc.prems(1) cord_len(3) by (simp add: path_ok_def)
  then have z: "sz (s + clen l) = s + clen l" "szsub (clen l + clen r) (clen l) = clen r" using len by (simp_all add: szsub_small)
  let ?p = "\<lambda>e. p\<lparr>path := (path p)[Suc (path_len p) := Some e], path_len := Suc (path_len p)\<rparr>"
  have e: "extend_loop (Conc d ll n l r) s (clen l + clen r) p =
      (if s + clen l \<le> cur_pos p then bindE (path_put p (Suc (path_len p)) (r, s + clen l)) (\<lambda>p'. extend_loop r (s + clen l) (clen r) (p'\<lparr>path_len := Suc (path_len p)\<rparr>))
       else bindE (path_put p (Suc (path_len p)) (l, s)) (\<lambda>p'. extend_loop l s (clen l) (p'\<lparr>path_len := Suc (path_len p)\<rparr>)))"
    by (simp only: extend_loop.simps left_len [OF ok] Let_def z Suc_eq_plus1)
  have push: "child (Conc d ll n l r, s) e \<Longrightarrow> node_at x (Suc (path_len p)) e \<Longrightarrow>
      path_put p (Suc (path_len p)) e = Inr (p\<lparr>path := (path p)[Suc (path_len p) := Some e]\<rparr>) \<and> path_ok x (?p e) (Suc (path_len p)) \<and>
      Suc (path_len p) < length (path p)" for e
    using path_ok_push [OF Conc.prems(1,2)] by (simp del: child.simps)
  show ?case
  proof (cases "s + clen l \<le> cur_pos p")
    case True
    then show ?thesis using e push [of "(r, s + clen l)"] node_children(2) [OF na] Conc.IH(2) [of "?p (r, s + clen l)" "s + clen l"]
      by (simp add: add.assoc)
  next
    case False
    then show ?thesis using e push [of "(l, s)"] node_children(1) [OF na] Conc.IH(1) [of "?p (l, s)" s] Conc.prems(3)
      by simp
  qed
qed (auto simp: leaf_of_def)

section \<open>Positions\<close>

text \<open>
  A position at index \<open>i\<close>: its leaf holds \<open>i\<close>, and the cache, if there is one, holds characters of that leaf and does not
  end before \<open>i\<close>.
\<close>

definition cache_ok :: "cord \<Rightarrow> CORD_pos \<Rightarrow> cord \<Rightarrow> nat \<Rightarrow> bool" where
  "cache_ok x p c s \<longleftrightarrow> cur_pos p < cur_end p \<and> s \<le> cur_start p \<and> cur_end p \<le> s + clen c \<and>
     (\<forall>j. cur_start p \<le> j \<and> j < cur_end p \<longrightarrow> leaf_get p (j - cur_start p) = Inr (chars x ! j))"

definition pos_at :: "cord \<Rightarrow> nat \<Rightarrow> CORD_pos \<Rightarrow> bool" where
  "pos_at x i p \<longleftrightarrow> cur_pos p = i \<and> length (function_buf p) = FUNCTION_BUF_SZ \<and>
     (\<exists>c s. leaf_of x p c s \<and> s \<le> i \<and> i < s + clen c \<and>
       (CORD_IS_STRING c \<longrightarrow> cur_start p = s \<and> cur_end p = s + clen c) \<and> (cur_end p \<noteq> 0 \<longrightarrow> cache_ok x p c s))"

text \<open>The cache does not begin after the position: what the fetching macro relies on.\<close>

definition in_cache :: "CORD_pos \<Rightarrow> bool" where
  "in_cache p \<longleftrightarrow> cur_end p \<noteq> 0 \<longrightarrow> cur_start p \<le> cur_pos p"

lemma leaf_ofD:
  assumes "leaf_of x p c s"
  shows "path_get p (path_len p) = Inr (c, s)" and "cord_ok c" and "s + clen c \<le> clen x" and "CORD_pos_valid p"
    and "clen x < 4294967296" and "j < clen c \<Longrightarrow> chars c ! j = chars x ! (s + j)" and "path_ok x p (path_len p)"
proof -
  have p: "path_ok x p (path_len p)" "path p ! path_len p = Some (c, s)" using assms by (simp_all add: leaf_of_def)
  obtain c' s' where "path p ! path_len p = Some (c', s')" "node_at x (path_len p) (c', s')"
    and g: "path_get p (path_len p) = Inr (c', s')" and k: "path_len p \<le> 48"
    using path_okD [OF p(1) le_refl] .
  then have n: "node_at x (path_len p) (c, s)" and e: "(c', s') = (c, s)" using p(2) by simp_all
  show "path_get p (path_len p) = Inr (c, s)" using g e by simp
  show "cord_ok c" and l: "s + clen c \<le> clen x" using n by (auto simp: node_at_def)
  show "CORD_pos_valid p" using k by (simp add: CORD_pos_valid_def CORD_POS_INVALID_def)
  show "clen x < 4294967296" using p(1) cord_len(3) by (simp add: path_ok_def)
  show "chars c ! j = chars x ! (s + j)" if "j < clen c"
  proof -
    have "chars c ! j = part x s (clen c) ! j" using n by (simp add: node_at_def)
    then show ?thesis using that l by simp
  qed
  show "path_ok x p (path_len p)" by (rule p(1))
qed

lemma leaf_of_cong [simp]:
  "leaf_of x (p\<lparr>cur_pos := b\<rparr>) c s = leaf_of x p c s" "leaf_of x (p\<lparr>cur_end := e\<rparr>) c s = leaf_of x p c s"
  "leaf_of x (p\<lparr>cur_start := e\<rparr>) c s = leaf_of x p c s" "leaf_of x (p\<lparr>cur_leaf := l\<rparr>) c s = leaf_of x p c s"
  "leaf_of x (p\<lparr>function_buf := f\<rparr>) c s = leaf_of x p c s"
  by (simp_all add: leaf_of_def)

lemma leaf_get_cong [simp]:
  "leaf_get (p\<lparr>cur_pos := i\<rparr>) = leaf_get p" "leaf_get (p\<lparr>path_len := i\<rparr>) = leaf_get p"
  "leaf_get (p\<lparr>cur_start := i\<rparr>) = leaf_get p" "leaf_get (p\<lparr>cur_end := i\<rparr>) = leaf_get p"
  by (simp_all add: leaf_get_def fun_eq_iff split: leaf_ptr.splits)

lemma string_leaf_cache:
  assumes "leaf_of x p (Str s) t" and "t \<le> cur_pos p" and "cur_pos p < t + length s"
  shows "cache_ok x (p\<lparr>cur_leaf := LeafStr s, cur_start := t, cur_end := t + length s\<rparr>) (Str s) t"
  using leaf_ofD(6) [OF assms(1)] assms(2,3) by (auto simp: cache_ok_def leaf_get_def string_read_def)

lemma extend_path_spec:
  assumes "path_ok x p (path_len p)" and "path p ! path_len p = Some (c, s)" and "s \<le> cur_pos p"
    and "length (function_buf p) = FUNCTION_BUF_SZ"
  shows "\<exists>q. CORD__extend_path p = Inr q \<and> cur_pos q = cur_pos p \<and> length (function_buf q) = FUNCTION_BUF_SZ \<and>
    (if cur_pos p < s + clen c then pos_at x (cur_pos p) q \<and> in_cache q else \<not> CORD_pos_valid q)"
proof -
  obtain c1 s1 where "path p ! path_len p = Some (c1, s1)" "node_at x (path_len p) (c1, s1)" and g: "path_get p (path_len p) = Inr (c1, s1)"
    using path_okD [OF assms(1) le_refl] .
  then have cs: "c1 = c" "s1 = s" "cord_ok c" using assms(2) by (auto simp: node_at_def)
  obtain c' s' p' where x: "extend_loop c s (clen c) p = Inr (c', s', clen c', p')" "leaf_of x p' c' s'" "s' \<le> cur_pos p"
    "cur_pos p' = cur_pos p" "function_buf p' = function_buf p" "cur_pos p < s + clen c \<longleftrightarrow> cur_pos p < s' + clen c'"
    using extend_loop_spec [OF assms(1-3)] by blast
  let ?q = "case c' of Str t \<Rightarrow> p'\<lparr>cur_leaf := LeafStr t, cur_start := s', cur_end := s' + clen c'\<rparr> | _ \<Rightarrow> p'\<lparr>cur_end := 0\<rparr>"
  note l = leaf_ofD [OF x(2)]
  have z: "sz (s' + clen c') = s' + clen c'" using l(3,5) by simp
  have q: "cur_pos ?q = cur_pos p" "function_buf ?q = function_buf p" "leaf_of x ?q c' s'"
    using x(2,4,5) by (auto split: cord.splits)
  have e: "CORD__extend_path p = Inr (if s' + clen c' \<le> cur_pos ?q then ?q\<lparr>path_len := CORD_POS_INVALID\<rparr> else ?q)"
    using g cs cord_len(1) [OF cs(3)] x(1) z by (cases c') (auto simp: CORD__extend_path_def Let_def)
  have "pos_at x (cur_pos p) ?q \<and> in_cache ?q" if "cur_pos p < s' + clen c'"
  proof (cases "CORD_IS_STRING c'")
    case True
    then obtain t where t: "c' = Str t" by (cases c') auto
    show ?thesis using string_leaf_cache [of x p' t s'] x q that assms(4)
      unfolding pos_at_def in_cache_def by (auto simp: t intro!: exI [of _ "Str t"] exI [of _ s'])
  next
    case False
    then have "cur_end ?q = 0" by (cases c') auto
    then show ?thesis using x(3) q that assms(4) False unfolding pos_at_def in_cache_def by auto
  qed
  then show ?thesis using e q x(6) assms(4) by (cases "cur_pos p < s + clen c") (auto simp: CORD_pos_valid_def)
qed

lemma child_cases:
  assumes "child (c, s) (c', t)" and "cord_ok c"
  obtains "t = s" and "t + clen c' < s + clen c" | "s < t" and "t + clen c' = s + clen c"
proof -
  obtain d ll n l r where c: "c = Conc d ll n l r" using assms(1) by (cases c) auto
  then have "0 < clen l" "0 < clen r" using assms(2) cord_len(2) [of l] cord_len(2) [of r] by auto
  then show thesis using assms(1) that unfolding c by auto
qed

lemma path_step:
  assumes "path_ok x p (Suc k)"
  obtains c s c' s' where "path_get p k = Inr (c, s)" and "path_get p (Suc k) = Inr (c', s')" and "cord_ok c"
    and "path p ! k = Some (c, s)" and "path p ! Suc k = Some (c', s')" and "child (c, s) (c', s')"
proof -
  obtain c s where 1: "path p ! k = Some (c, s)" "node_at x k (c, s)" "path_get p k = Inr (c, s)"
    using path_okD [OF assms le_SucI [OF le_refl]] by blast
  obtain c' s' where 2: "path p ! Suc k = Some (c', s')" "path_get p (Suc k) = Inr (c', s')"
    using path_okD [OF assms le_refl] by blast
  have "child (c, s) (c', s')" using assms 1(1) 2(1) by (auto simp: path_ok_def)
  then show thesis using that 1 2 by (simp add: node_at_def)
qed

lemma pop_right_spec:
  "path_ok x p k \<Longrightarrow> path p ! k = Some (c, s) \<Longrightarrow>
   \<exists>k'\<le>k. pop_right p k = Inr k' \<and> (if k' = 0 then s + clen c = clen x
     else \<exists>c0 s0. path p ! (k' - 1) = Some (c0, s0) \<and> s0 \<le> s + clen c \<and> s + clen c < s0 + clen c0)"
proof (induction k arbitrary: c s)
  case 0
  then show ?case by (simp add: path_ok_def)
next
  case (Suc k)
  obtain c0 s0 c1 s1 where g: "path_get p k = Inr (c0, s0)" "path_get p (Suc k) = Inr (c1, s1)" "cord_ok c0"
    "path p ! k = Some (c0, s0)" "path p ! Suc k = Some (c1, s1)" "child (c0, s0) (c1, s1)"
    using path_step [OF Suc.prems(1)] .
  then have cs: "c1 = c" "s1 = s" using Suc.prems(2) by simp_all
  show ?case
  proof (cases rule: child_cases [OF g(6,3)])
    case 1
    then show ?thesis using g cs by (intro exI [of _ "Suc k"]) auto
  next
    case 2
    have "\<exists>k'\<le>k. pop_right p k = Inr k' \<and> (if k' = 0 then s0 + clen c0 = clen x
        else \<exists>c2 s2. path p ! (k' - 1) = Some (c2, s2) \<and> s2 \<le> s0 + clen c0 \<and> s0 + clen c0 < s2 + clen c2)"
      by (rule Suc.IH) (use path_ok_mono [OF Suc.prems(1)] g(4) in auto)
    then obtain k' where k': "k' \<le> k" "pop_right p k = Inr k'" "if k' = 0 then s0 + clen c0 = clen x
        else \<exists>c2 s2. path p ! (k' - 1) = Some (c2, s2) \<and> s2 \<le> s0 + clen c0 \<and> s0 + clen c0 < s2 + clen c2"
      by blast
    have "pop_right p (Suc k) = Inr k'" using g(1,2) 2(1) k'(2) by simp
    moreover have "k' \<le> Suc k" "s + clen c = s0 + clen c0" using k'(1) 2(2) cs by simp_all
    ultimately show ?thesis using k'(3) by metis
  qed
qed

lemma pop_left_spec:
  "path_ok x p k \<Longrightarrow> path p ! k = Some (c, s) \<Longrightarrow> 0 < s \<Longrightarrow>
   \<exists>k'\<le>k. pop_left p k = Inr k' \<and> 0 < k' \<and> (\<exists>c0 s0. path p ! (k' - 1) = Some (c0, s0) \<and> s0 < s \<and> s \<le> s0 + clen c0)"
proof (induction k arbitrary: c s)
  case 0
  then show ?case by (simp add: path_ok_def)
next
  case (Suc k)
  obtain c0 s0 c1 s1 where g: "path_get p k = Inr (c0, s0)" "path_get p (Suc k) = Inr (c1, s1)" "cord_ok c0"
    "path p ! k = Some (c0, s0)" "path p ! Suc k = Some (c1, s1)" "child (c0, s0) (c1, s1)"
    using path_step [OF Suc.prems(1)] .
  then have cs: "c1 = c" "s1 = s" using Suc.prems(2) by simp_all
  show ?case
  proof (cases rule: child_cases [OF g(6,3)])
    case 1
    then have "s0 = s" using cs by simp
    then have "\<exists>k'\<le>k. pop_left p k = Inr k' \<and> 0 < k' \<and> (\<exists>c0 s0. path p ! (k' - 1) = Some (c0, s0) \<and> s0 < s \<and> s \<le> s0 + clen c0)"
      using Suc.IH [of c0 s] path_ok_mono [OF Suc.prems(1), of k] g(4) Suc.prems(3) by simp
    then obtain k' where "k' \<le> k" "pop_left p k = Inr k'" "0 < k'"
      "\<exists>c0 s0. path p ! (k' - 1) = Some (c0, s0) \<and> s0 < s \<and> s \<le> s0 + clen c0" by blast
    moreover have "pop_left p (Suc k) = pop_left p k" using g(1,2) 1(1) by simp
    ultimately show ?thesis by (intro exI [of _ k']) simp
  next
    case 2
    then show ?thesis using g cs by (intro exI [of _ "Suc k"]) auto
  qed
qed

lemma path_get_cong [simp]: "path_get (p\<lparr>cur_pos := i\<rparr>) k = path_get p k" "path_get (p\<lparr>path_len := i\<rparr>) k = path_get p k"
  by (simp_all add: path_get_def)

lemma next_leaf_spec:
  assumes "leaf_of x p c s" and "cur_pos p = s + clen c" and "length (function_buf p) = FUNCTION_BUF_SZ"
  shows "\<exists>q. next_leaf p = Inr q \<and> length (function_buf q) = FUNCTION_BUF_SZ \<and>
    (if cur_pos p < clen x then pos_at x (cur_pos p) q \<and> in_cache q else \<not> CORD_pos_valid q)"
proof -
  have p: "path_ok x p (path_len p)" "path p ! path_len p = Some (c, s)" using assms(1) by (simp_all add: leaf_of_def)
  obtain k where k: "k \<le> path_len p" "pop_right p (path_len p) = Inr k" "if k = 0 then s + clen c = clen x
     else \<exists>c0 s0. path p ! (k - 1) = Some (c0, s0) \<and> s0 \<le> s + clen c \<and> s + clen c < s0 + clen c0"
    using pop_right_spec [OF p] by blast
  show ?thesis
  proof (cases "k = 0")
    case True
    then show ?thesis using k assms by (simp add: next_leaf_def CORD_pos_valid_def)
  next
    case False
    let ?p = "p\<lparr>path_len := k - 1\<rparr>"
    obtain c0 s0 where e: "path p ! (k - 1) = Some (c0, s0)" "s0 \<le> s + clen c" "s + clen c < s0 + clen c0" using k(3) False by auto
    have ok: "path_ok x ?p (path_len ?p)" using path_ok_mono [OF p(1)] k(1) by simp
    have "node_at x (k - 1) (c0, s0)" using path_okD [OF ok le_refl] e(1) by auto
    then have "cur_pos p < clen x" using e(3) assms(2) by (simp add: node_at_def)
    moreover have "next_leaf p = CORD__extend_path ?p" using k(2) False by (simp add: next_leaf_def)
    ultimately show ?thesis using extend_path_spec [OF ok, of c0 s0] e assms(2,3) by auto
  qed
qed

lemma fill_cache_spec:
  assumes "\<And>t. t < k \<Longrightarrow> fn (i + t) = Inr (g (i + t))" and "b + k \<le> length buf"
  shows "\<exists>buf'. fill_cache fn k i b buf = Inr buf' \<and> length buf' = length buf \<and> (\<forall>t<k. buf' ! (b + t) = g (i + t)) \<and> (\<forall>t<b. buf' ! t = buf ! t)"
  using assms
proof (induction k arbitrary: i b buf)
  case (Suc k)
  have s: "fn (i + 1 + t) = Inr (g (i + 1 + t))" if "t < k" for t using Suc.prems(1) [of "Suc t"] that by simp
  obtain buf' where b: "fill_cache fn k (i + 1) (b + 1) (buf[b := g i]) = Inr buf'" "length buf' = length buf"
    "\<forall>t<k. buf' ! (b + 1 + t) = g (i + 1 + t)" "\<forall>t<b + 1. buf' ! t = buf[b := g i] ! t"
    using Suc.IH [of "i + 1" "b + 1" "buf[b := g i]"] s Suc.prems(2) by auto
  have "fill_cache fn (Suc k) i b buf = Inr buf'"
    using Suc.prems(1) [of 0] Suc.prems(2) b(1) by (simp add: buf_put_def)
  moreover have "buf' ! (b + t) = g (i + t)" if "t < Suc k" for t
    using that b(3,4) Suc.prems(2) by (cases t) auto
  ultimately show ?case using b(2,4) by auto
qed simp

lemma refill_spec:
  assumes l: "leaf_of x p c s" and f: "IS_FUNCTION c" and pos: "s \<le> cur_pos p" "cur_pos p < s + clen c"
    and lim: "cur_pos p < lim" "lim \<le> s + clen c" "lim \<le> cur_pos p + FUNCTION_BUF_SZ" and b: "length (function_buf p) = FUNCTION_BUF_SZ"
  shows "\<exists>buf. fill_cache (cord_fn c) (lim - cur_pos p) (cur_pos p - s) 0 (function_buf p) = Inr buf \<and>
    (let q = p\<lparr>function_buf := buf, cur_start := cur_pos p, cur_leaf := LeafBuf, cur_end := lim\<rparr> in pos_at x (cur_pos p) q \<and> in_cache q)"
proof -
  note d = leaf_ofD [OF l]
  have "\<exists>buf. fill_cache (cord_fn c) (lim - cur_pos p) (cur_pos p - s) 0 (function_buf p) = Inr buf \<and> length buf = length (function_buf p) \<and>
      (\<forall>t<lim - cur_pos p. buf ! (0 + t) = chars c ! (cur_pos p - s + t)) \<and> (\<forall>t<0. buf ! t = function_buf p ! t)"
    by (rule fill_cache_spec) (use cord_fn_chars [OF d(2) f] pos lim b in \<open>auto\<close>)
  then obtain buf where buf: "fill_cache (cord_fn c) (lim - cur_pos p) (cur_pos p - s) 0 (function_buf p) = Inr buf"
    "length buf = FUNCTION_BUF_SZ" "\<And>t. t < lim - cur_pos p \<Longrightarrow> buf ! t = chars c ! (cur_pos p - s + t)"
    using b by auto
  have "buf ! (j - cur_pos p) = chars x ! j" if "cur_pos p \<le> j" "j < lim" for j
    using buf(3) [of "j - cur_pos p"] d(6) [of "j - s"] that pos lim by simp
  moreover have "\<not> CORD_IS_STRING c" using f by (cases c) auto
  ultimately show ?thesis using l f pos lim buf unfolding pos_at_def in_cache_def cache_ok_def leaf_get_def Let_def
    by (intro exI [of _ buf]) (auto intro!: exI [of _ c] exI [of _ s])
qed

lemma next_hard_spec:
  assumes p: "pos_at x i p" and e: "cur_end p \<le> Suc i" and len: "clen x < 4294967288"
  shows "\<exists>q. CORD__next p = Inr q \<and> length (function_buf q) = FUNCTION_BUF_SZ \<and>
    (if Suc i < clen x then pos_at x (Suc i) q \<and> in_cache q else \<not> CORD_pos_valid q)"
proof -
  obtain c s where l: "leaf_of x p c s" "s \<le> i" "i < s + clen c" "CORD_IS_STRING c \<longrightarrow> cur_end p = s + clen c"
    and b: "cur_pos p = i" "length (function_buf p) = FUNCTION_BUF_SZ" using p by (auto simp: pos_at_def)
  note d = leaf_ofD [OF l(1)]
  let ?p = "p\<lparr>cur_pos := Suc i\<rparr>" and ?e = "s + clen c"
  let ?lim = "if sz (Suc i + FUNCTION_BUF_SZ) > ?e then ?e else sz (Suc i + FUNCTION_BUF_SZ)"
  have z: "sz (Suc i) = Suc i" "sz ?e = ?e" using l(3) d(3,5) by simp_all
  have ne: "c \<noteq> Empty" using d(2) by auto
  have E: "CORD__next p = (if \<not> CORD_IS_STRING c \<and> Suc i < ?e
      then bindE (fill_cache (cord_fn c) (?lim - Suc i) (szsub (Suc i) s) 0 (function_buf p)) (\<lambda>buf.
        Inr (?p\<lparr>function_buf := buf, cur_start := Suc i, cur_leaf := LeafBuf, cur_end := ?lim\<rparr>))
      else next_leaf ?p)"
    using d(1) ne cord_len(1) [OF d(2)] z b by (simp add: CORD__next_def Let_def)
  show ?thesis
  proof (cases "\<not> CORD_IS_STRING c \<and> Suc i < ?e")
    case True
    have f: "IS_FUNCTION c" using True l(1) ne by (cases c) (auto simp: leaf_of_def)
    have w: "szsub (Suc i) s = Suc i - s" using l(2,3) d(3,5) by (simp add: szsub_small)
    have "sz (Suc i + FUNCTION_BUF_SZ) = Suc i + FUNCTION_BUF_SZ" using True d(3) len by (simp add: FUNCTION_BUF_SZ_def)
    then have lim: "Suc i < ?lim" "?lim \<le> ?e" "?lim \<le> Suc i + FUNCTION_BUF_SZ"
      using True by (auto simp: FUNCTION_BUF_SZ_def)
    obtain buf where buf: "fill_cache (cord_fn c) (?lim - Suc i) (Suc i - s) 0 (function_buf p) = Inr buf"
      "pos_at x (Suc i) (?p\<lparr>function_buf := buf, cur_start := Suc i, cur_leaf := LeafBuf, cur_end := ?lim\<rparr>) \<and>
       in_cache (?p\<lparr>function_buf := buf, cur_start := Suc i, cur_leaf := LeafBuf, cur_end := ?lim\<rparr>)"
      using refill_spec [of x ?p c s ?lim] l(1,2) f True lim b(2) unfolding Let_def by auto
    have "CORD__next p = Inr (?p\<lparr>function_buf := buf, cur_start := Suc i, cur_leaf := LeafBuf, cur_end := ?lim\<rparr>)"
      unfolding E w buf(1) using True by simp
    moreover have "Suc i < clen x" using True d(3) by simp
    ultimately show ?thesis using buf(2) by (auto simp: pos_at_def)
  next
    case False
    then have "Suc i = ?e" using l(3,4) e by auto
    then have "\<exists>q. next_leaf ?p = Inr q \<and> length (function_buf q) = FUNCTION_BUF_SZ \<and>
        (if Suc i < clen x then pos_at x (Suc i) q \<and> in_cache q else \<not> CORD_pos_valid q)"
      using next_leaf_spec [of x ?p c s] l(1) b by auto
    then show ?thesis using E False by metis
  qed
qed

lemma pos_at_bound: "pos_at x i p \<Longrightarrow> i < clen x \<and> clen x < 4294967296 \<and> CORD_pos_valid p"
  using leaf_ofD(3-5) by (fastforce simp: pos_at_def)

lemma move_in_cache:
  assumes "pos_at x i p" and "cur_end p \<noteq> 0" and "j < cur_end p" and "cur_start p \<le> j"
  shows "pos_at x j (p\<lparr>cur_pos := j\<rparr>)" and "in_cache (p\<lparr>cur_pos := j\<rparr>)"
proof -
  obtain c s where "leaf_of x p c s" "CORD_IS_STRING c \<longrightarrow> cur_start p = s \<and> cur_end p = s + clen c" "cache_ok x p c s"
    and "length (function_buf p) = FUNCTION_BUF_SZ" using assms by (auto simp: pos_at_def)
  then show "pos_at x j (p\<lparr>cur_pos := j\<rparr>)" "in_cache (p\<lparr>cur_pos := j\<rparr>)"
    using assms(2-) by (auto simp: pos_at_def cache_ok_def in_cache_def intro!: exI [of _ c] exI [of _ s])
qed

lemma next_spec:
  assumes p: "pos_at x i p" and len: "clen x < 4294967288"
  shows "\<exists>q. CORD_next_m p = Inr q \<and> length (function_buf q) = FUNCTION_BUF_SZ \<and>
    (if Suc i < clen x then pos_at x (Suc i) q \<and> (in_cache p \<longrightarrow> in_cache q) else \<not> CORD_pos_valid q)"
proof -
  have i: "cur_pos p = i" "i < clen x" "length (function_buf p) = FUNCTION_BUF_SZ" "sz (Suc i) = Suc i"
    using p pos_at_bound [OF p] by (auto simp: pos_at_def)
  show ?thesis
  proof (cases "Suc i < cur_end p")
    case True
    obtain c s where l: "leaf_of x p c s" "cache_ok x p c s" "CORD_IS_STRING c \<longrightarrow> cur_start p = s \<and> cur_end p = s + clen c" "s \<le> i"
      using p True by (auto simp: pos_at_def)
    have q: "CORD_next_m p = Inr (p\<lparr>cur_pos := Suc i\<rparr>)" using True i by (simp add: CORD_next_m_def)
    moreover have "Suc i < clen x" using True l leaf_ofD(3) [OF l(1)] by (simp add: cache_ok_def)
    moreover have "pos_at x (Suc i) (p\<lparr>cur_pos := Suc i\<rparr>)" using l True i
      by (auto simp: pos_at_def cache_ok_def intro!: exI [of _ c] exI [of _ s])
    moreover have "in_cache p \<longrightarrow> in_cache (p\<lparr>cur_pos := Suc i\<rparr>)" using i by (auto simp: in_cache_def)
    ultimately show ?thesis using i(3) by simp
  next
    case False
    then have "CORD_next_m p = CORD__next p" using i by (simp add: CORD_next_m_def)
    then show ?thesis using next_hard_spec [OF p _ len] False by auto
  qed
qed

text \<open>With a cache, or on a string, the function does what the macro does.\<close>

lemma next_function_spec:
  assumes "pos_at x i p" and "cur_end p \<noteq> 0"
  shows "CORD_next p = CORD_next_m p"
proof -
  have "cur_end p < 4294967296" "cur_pos p = i" "sz (Suc i) = Suc i"
    using assms pos_at_bound [OF assms(1)] leaf_ofD(3) by (fastforce simp: pos_at_def cache_ok_def)+
  then show ?thesis using assms(2) by (auto simp: CORD_next_def CORD_next_m_def szsub_small)
qed

lemma prev_spec:
  assumes p: "pos_at x i p"
  shows "\<exists>q. CORD_prev p = Inr q \<and> length (function_buf q) = FUNCTION_BUF_SZ \<and>
    (if 0 < i then pos_at x (i - 1) q else \<not> CORD_pos_valid q)"
proof -
  obtain c s where l: "leaf_of x p c s" "s \<le> i" "i < s + clen c" "CORD_IS_STRING c \<longrightarrow> cur_start p = s \<and> cur_end p = s + clen c"
    "cur_end p \<noteq> 0 \<longrightarrow> cache_ok x p c s" and b: "cur_pos p = i" "length (function_buf p) = FUNCTION_BUF_SZ"
    using p by (auto simp: pos_at_def)
  note d = leaf_ofD [OF l(1)]
  let ?p = "p\<lparr>cur_pos := i - 1\<rparr>"
  have pp: "path_ok x p (path_len p)" "path p ! path_len p = Some (c, s)" using l(1) by (simp_all add: leaf_of_def)
  have same: "pos_at x (i - 1) ?p" if "0 < i" "s \<le> i - 1"
    using l b that by (auto simp: pos_at_def cache_ok_def intro!: exI [of _ c] exI [of _ s])
  show ?thesis
  proof (cases "cur_end p \<noteq> 0 \<and> i > cur_start p")
    case True
    then have "s \<le> i - 1" using l(5) by (auto simp: cache_ok_def)
    then show ?thesis using True same b by (simp add: CORD_prev_def)
  next
    case nc: False
    then have h: "CORD_prev p = CORD__prev p" using b by (auto simp: CORD_prev_def)
    consider "i = 0" | "0 < i" "s \<le> i - 1" | "0 < i" "s = i" using l(2) by linarith
    then show ?thesis
    proof cases
      case 1
      then show ?thesis using h d(1) b by (simp add: CORD__prev_def CORD_pos_valid_def)
    next
      case 2
      then show ?thesis using h d(1) b same by (simp add: CORD__prev_def Let_def)
    next
      case 3
      obtain k c0 s0 where k: "k \<le> path_len p" "pop_left p (path_len p) = Inr k" "0 < k"
        "path p ! (k - 1) = Some (c0, s0)" "s0 < s" "s \<le> s0 + clen c0"
        using pop_left_spec [OF pp] 3 by auto
      have pl: "pop_left ?p m = pop_left p m" for m by (induction m) (simp_all cong: if_cong)
      let ?q = "?p\<lparr>path_len := k - 1\<rparr>"
      have "path_ok x ?q (path_len ?q)" using path_ok_mono [OF pp(1)] k(1) by simp
      then have "\<exists>q. CORD__extend_path ?q = Inr q \<and> cur_pos q = cur_pos ?q \<and> length (function_buf q) = FUNCTION_BUF_SZ \<and>
          (if cur_pos ?q < s0 + clen c0 then pos_at x (cur_pos ?q) q \<and> in_cache q else \<not> CORD_pos_valid q)"
        by (rule extend_path_spec) (use k b 3 in simp_all)
      moreover have "cur_pos ?q < s0 + clen c0" using k(6) 3 by simp
      ultimately obtain q where "CORD__extend_path ?q = Inr q" "length (function_buf q) = FUNCTION_BUF_SZ" "pos_at x (i - 1) q"
        by auto
      moreover have "\<not> i \<le> i - 1" using 3 by simp
      ultimately show ?thesis using h d(1) b 3 k(2,3) pl by (simp add: CORD__prev_def Let_def)
    qed
  qed
qed

lemma fetch_spec:
  assumes p: "pos_at x i p"
  shows "CORD_pos_fetch p = Inr (chars x ! i)" and "in_cache p \<Longrightarrow> CORD_pos_fetch_m p = Inr (chars x ! i)"
proof -
  obtain c s where l: "leaf_of x p c s" "s \<le> i" "i < s + clen c" "CORD_IS_STRING c \<longrightarrow> cur_start p = s \<and> cur_end p = s + clen c"
    "cur_end p \<noteq> 0 \<longrightarrow> cache_ok x p c s" and b: "cur_pos p = i" using p by (auto simp: pos_at_def)
  note d = leaf_ofD [OF l(1)]
  have hit: "leaf_get p (i - cur_start p) = Inr (chars x ! i)" if "cur_start p \<le> i" "i < cur_end p"
    using l(5) that by (simp add: cache_ok_def)
  have miss: "CORD__pos_fetch p = Inr (chars x ! i)" if "\<not> CORD_IS_STRING c"
  proof -
    have f: "IS_FUNCTION c" using that l(1) d(2) by (cases c) (auto simp: leaf_of_def)
    have "szsub i s = i - s" using l(2,3) d(3,5) by (simp add: szsub_small)
    then have "CORD__pos_fetch p = cord_fn c (i - s)" using d(1) b f by (cases c) (simp_all add: CORD__pos_fetch_def)
    then show ?thesis using cord_fn_chars [OF d(2) f, of "i - s"] d(6) [of "i - s"] l(2,3) by simp
  qed
  show "CORD_pos_fetch p = Inr (chars x ! i)"
    using hit miss l b by (cases "cur_start p \<le> i \<and> i < cur_end p") (auto simp: CORD_pos_fetch_def)
  show "CORD_pos_fetch_m p = Inr (chars x ! i)" if "in_cache p"
  proof (cases "cur_end p = 0")
    case True
    then have "\<not> CORD_IS_STRING c" using l(3,4) by auto
    then show ?thesis using miss True by (simp add: CORD_pos_fetch_m_def)
  next
    case False
    then have "cur_start p \<le> i" "i < cur_end p" using that l(5) b by (auto simp: in_cache_def cache_ok_def)
    moreover have "szsub i (cur_start p) = i - cur_start p" using calculation(1) l(3) d(3,5) by (simp add: szsub_small)
    ultimately show ?thesis using hit False b by (simp add: CORD_pos_fetch_m_def)
  qed
qed

lemma set_pos_spec:
  assumes "is_cord x" and "length (path p) = 49" and "length (function_buf p) = FUNCTION_BUF_SZ"
  shows "\<exists>q. CORD_set_pos p x i = Inr q \<and> length (function_buf q) = FUNCTION_BUF_SZ \<and>
    (if i < clen x then pos_at x i q \<and> in_cache q else \<not> CORD_pos_valid q)"
proof (cases "x = Empty")
  case True
  then show ?thesis using assms by (simp add: CORD_set_pos_def CORD_pos_valid_def)
next
  case False
  then have x: "cord_ok x" "DEPTH x \<le> 48" using assms(1) by (auto simp: is_cord_def)
  let ?p = "p\<lparr>path := (path p)[0 := Some (x, 0)], path_len := 0, cur_pos := i\<rparr>"
  have "path_ok x ?p (path_len ?p)" using x assms(2) node_root by (simp add: path_ok_def)
  then have "\<exists>q. CORD__extend_path ?p = Inr q \<and> cur_pos q = cur_pos ?p \<and> length (function_buf q) = FUNCTION_BUF_SZ \<and>
    (if cur_pos ?p < 0 + clen x then pos_at x (cur_pos ?p) q \<and> in_cache q else \<not> CORD_pos_valid q)"
    by (rule extend_path_spec) (use assms(2,3) in simp_all)
  moreover have "CORD_set_pos p x i = CORD__extend_path ?p" using False assms(2) by (simp add: CORD_set_pos_def path_put_def)
  ultimately show ?thesis by auto
qed

section \<open>Results\<close>

lemma for_loop_invalid: "\<not> CORD_pos_valid p \<Longrightarrow> 0 < k \<Longrightarrow> CORD_FOR_loop k p = Inr []"
  by (cases k) simp_all

lemma for_loop_spec:
  "pos_at x i p \<Longrightarrow> in_cache p \<Longrightarrow> clen x < 4294967288 \<Longrightarrow> clen x < i + k \<Longrightarrow> CORD_FOR_loop k p = Inr (drop i (chars x))"
proof (induction k arbitrary: i p)
  case (Suc k)
  note b = pos_at_bound [OF Suc.prems(1)]
  obtain q where q: "CORD_next_m p = Inr q"
    "if Suc i < clen x then pos_at x (Suc i) q \<and> (in_cache p \<longrightarrow> in_cache q) else \<not> CORD_pos_valid q"
    using next_spec [OF Suc.prems(1,3)] by blast
  have "CORD_FOR_loop k q = Inr (drop (Suc i) (chars x))"
  proof (cases "Suc i < clen x")
    case True
    then show ?thesis using Suc.IH [of "Suc i" q] q(2) Suc.prems by simp
  next
    case False
    then show ?thesis using for_loop_invalid [of q k] q(2) b Suc.prems(4) by simp
  qed
  then show ?case using q(1) b fetch_spec(2) [OF Suc.prems(1,2)] by (simp add: Cons_nth_drop_Suc)
qed (use pos_at_bound in fastforce)

text \<open>
  C18. The loop over a cord visits its characters in order and ends after the last one; \<^verbatim>\<open>CORD_fetch\<close> reads any of them, and
  aborts outside the cord.  Neither leaves the path array of \<^verbatim>\<open>MAX_DEPTH + 1\<close> entries or the buffer.
\<close>

theorem cord_for_visits_all:
  assumes "is_cord x" and "length (chars x) < 4294967288" and "length (path p) = 49" and "length (function_buf p) = FUNCTION_BUF_SZ"
    and "length (chars x) < k"
  shows "CORD_FOR k p x = Inr (chars x) \<and>
    CORD_fetch p x i = (if i < length (chars x) then Inr (chars x ! i) else Inl (RuntimeError ''bad index?''))"
proof
  obtain q where q: "CORD_set_pos p x 0 = Inr q" "if 0 < clen x then pos_at x 0 q \<and> in_cache q else \<not> CORD_pos_valid q"
    using set_pos_spec [OF assms(1,3,4)] by blast
  show "CORD_FOR k p x = Inr (chars x)"
  proof (cases "0 < clen x")
    case True
    then show ?thesis using q for_loop_spec [of x 0 q k] assms(2,5) by (simp add: CORD_FOR_def)
  next
    case False
    then show ?thesis using q for_loop_invalid [of q k] assms(5) by (simp add: CORD_FOR_def)
  qed
  obtain r where r: "CORD_set_pos p x i = Inr r" "if i < clen x then pos_at x i r \<and> in_cache r else \<not> CORD_pos_valid r"
    using set_pos_spec [OF assms(1,3,4)] by blast
  then show "CORD_fetch p x i = (if i < clen x then Inr (chars x ! i) else Inl (RuntimeError ''bad index?''))"
    using pos_at_bound [of x i r] fetch_spec(2) [of x i r] by (simp add: CORD_fetch_def split: if_splits)
qed

definition pos0 :: CORD_pos where
  "pos0 = \<lparr>cur_pos = 0, path_len = 0, cur_leaf = NoLeaf, cur_start = 0, cur_end = 0, path = replicate 49 None, function_buf = replicate 8 NUL\<rparr>"

lemma pos0_size: "length (path pos0) = 49" "length (function_buf pos0) = FUNCTION_BUF_SZ"
  by (simp_all add: pos0_def FUNCTION_BUF_SZ_def)

theorem cord_for_visits_all_witness:
  "CORD_FOR 20 pos0 (Conc 1 5 16 (Str ''brown'') (Func 11 (\<lambda>i. char_of (100 + i)))) = Inr ''browndefghijklmn'' \<and>
   CORD_fetch pos0 (Conc 1 5 16 (Str ''brown'') (Func 11 (\<lambda>i. char_of (100 + i)))) 6 = Inr CHR ''e''"
proof -
  let ?x = "Conc 1 5 16 (Str ''brown'') (Func 11 (\<lambda>i. char_of (100 + i)))"
  have "chars (Func 11 (\<lambda>i. char_of (100 + i))) = ''defghijklmn''" by code_simp
  then have c: "chars ?x = ''browndefghijklmn''" by simp
  have "is_cord ?x" by (simp add: is_cord_def MAX_LEFT_LEN_def)
  then show ?thesis using cord_for_visits_all [of ?x pos0 20 6] pos0_size unfolding c by simp
qed

text \<open>
  C19. From a position at index \<open>i\<close>, the macro \<^verbatim>\<open>CORD_next\<close> moves to \<open>i + 1\<close> and \<^verbatim>\<open>CORD_prev\<close> to \<open>i - 1\<close>, both keep the position well
  formed or make it invalid past the ends, and the function \<^verbatim>\<open>CORD_pos_fetch\<close> returns the character there, after any sequence
  of moves.  The macro \<^verbatim>\<open>CORD_pos_fetch\<close>, which users of \<^verbatim>\<open>cord.h\<close> get, returns it while the cache does not begin after
  the position; \<^verbatim>\<open>CORD_next\<close> keeps that condition, and on a string leaf it always holds (\<^verbatim>\<open>CORD_prev\<close> in a function node can break it,
  \<open>fetch_macro_before_cache\<close>).
\<close>

theorem cord_pos_moves:
  assumes "pos_at x i p" and "length (chars x) < 4294967288"
  shows "CORD_pos_valid p \<and> CORD_pos_to_index p = i \<and> CORD_pos_fetch p = Inr (chars x ! i) \<and>
    (\<exists>q. CORD_next_m p = Inr q \<and>
      (if Suc i < length (chars x) then pos_at x (Suc i) q \<and> (in_cache p \<longrightarrow> in_cache q) else \<not> CORD_pos_valid q)) \<and>
    (\<exists>q. CORD_prev p = Inr q \<and> (if 0 < i then pos_at x (i - 1) q else \<not> CORD_pos_valid q)) \<and>
    (in_cache p \<longrightarrow> CORD_pos_fetch_m p = Inr (chars x ! i)) \<and>
    (\<forall>c s. path_get p (path_len p) = Inr (c, s) \<and> CORD_IS_STRING c \<longrightarrow> in_cache p)"
proof -
  have "CORD_pos_to_index p = i" using assms(1) by (simp add: pos_at_def CORD_pos_to_index_def)
  moreover have "\<exists>q. CORD_next_m p = Inr q \<and> (if Suc i < clen x then pos_at x (Suc i) q \<and> (in_cache p \<longrightarrow> in_cache q) else \<not> CORD_pos_valid q)"
    using next_spec [OF assms] by blast
  moreover have "in_cache p" if "path_get p (path_len p) = Inr (c, s)" "CORD_IS_STRING c" for c s
    using assms(1) that leaf_ofD(1) by (fastforce simp: pos_at_def in_cache_def)
  ultimately show ?thesis using pos_at_bound [OF assms(1)] fetch_spec [OF assms(1)] prev_spec [OF assms(1)] by blast
qed

theorem cord_pos_moves_witness:
  "\<exists>p. CORD_set_pos pos0 (Str ''cord'') 2 = Inr p \<and> CORD_pos_fetch p = Inr CHR ''r'' \<and> CORD_pos_fetch_m p = Inr CHR ''r'' \<and>
     (\<exists>q. CORD_next_m p = Inr q \<and> pos_at (Str ''cord'') 3 q) \<and> (\<exists>q. CORD_prev p = Inr q \<and> pos_at (Str ''cord'') 1 q)"
proof -
  have "\<exists>p. CORD_set_pos pos0 (Str ''cord'') 2 = Inr p \<and> pos_at (Str ''cord'') 2 p \<and> in_cache p"
    using set_pos_spec [of "Str ''cord''" pos0 2] pos0_size by auto
  then obtain p where p: "CORD_set_pos pos0 (Str ''cord'') 2 = Inr p" "pos_at (Str ''cord'') 2 p" "in_cache p" by blast
  show ?thesis using p(1,3) cord_pos_moves [OF p(2)] by auto
qed

text \<open>
  The fetching macro reads in front of the buffer: at the start of a function node, one step forward and one back leave
  a cache that begins after the position.  The function of the same name reads the character.
\<close>

theorem fetch_macro_before_cache:
  assumes "2 \<le> n" and "n < 4294967288"
  shows "\<exists>p. bindE (CORD_set_pos pos0 (Func n f) 0) (\<lambda>p. bindE (CORD_next_m p) CORD_prev) = Inr p \<and>
    CORD_pos_fetch p = Inr (f 0) \<and> CORD_pos_fetch_m p = Inl OutOfRange"
proof -
  let ?lim = "if 9 > n then n else 9"
  let ?P = "pos0\<lparr>path := (path pos0)[0 := Some (Func n f, 0)]\<rparr>"
  have g: "path_get ?P 0 = Inr (Func n f, 0)" by (simp add: path_get_def pos0_def)
  have s: "CORD_set_pos pos0 (Func n f) 0 = Inr ?P"
    using assms by (simp add: CORD_set_pos_def CORD__extend_path_def path_put_def path_get_def pos0_def)
  have "\<exists>buf. fill_cache (cord_fn (Func n f)) (?lim - 1) 1 0 (function_buf ?P) = Inr buf \<and> length buf = length (function_buf ?P) \<and>
      (\<forall>t<?lim - 1. buf ! (0 + t) = f (1 + t)) \<and> (\<forall>t<0. buf ! t = function_buf ?P ! t)"
    by (rule fill_cache_spec) (auto simp: pos0_def)
  then obtain buf where "fill_cache (cord_fn (Func n f)) (?lim - 1) 1 0 (function_buf ?P) = Inr buf" and b: "length buf = 8"
    by (auto simp: pos0_def)
  then have n: "CORD_next_m ?P = Inr (?P\<lparr>cur_pos := 1, function_buf := buf, cur_start := 1, cur_leaf := LeafBuf, cur_end := ?lim\<rparr>)"
    (is "_ = Inr ?Q")
    using assms g by (simp add: CORD_next_m_def CORD__next_def FUNCTION_BUF_SZ_def szsub_small pos0_def path_get_def)
  have r: "CORD_prev ?Q = Inr (?Q\<lparr>cur_pos := 0\<rparr>)" (is "_ = Inr ?R")
    by (simp add: CORD_prev_def CORD__prev_def path_get_def pos0_def)
  have "CORD_pos_fetch ?R = Inr (f 0)"
    by (simp add: CORD_pos_fetch_def CORD__pos_fetch_def path_get_def pos0_def szsub_def sz_def)
  moreover have "CORD_pos_fetch_m ?R = Inl OutOfRange"
    using assms b by (simp add: CORD_pos_fetch_m_def leaf_get_def szsub_def sz_def nthE_def)
  ultimately show ?thesis using s n r by simp
qed

theorem fetch_macro_before_cache_witness:
  "\<exists>p. bindE (CORD_set_pos pos0 (Func 3 (\<lambda>i. CHR ''a'')) 0) (\<lambda>p. bindE (CORD_next_m p) CORD_prev) = Inr p \<and>
    CORD_pos_fetch p = Inr CHR ''a'' \<and> CORD_pos_fetch_m p = Inl OutOfRange"
  using fetch_macro_before_cache [of 3 "\<lambda>i. CHR ''a''"] by simp

text \<open>
  The function \<^verbatim>\<open>CORD_next\<close> compares with \<^verbatim>\<open>cur_end - 1\<close>, which wraps without a cache: on a function node it only counts, and
  stays valid after the last character.
\<close>

lemma next_function_overruns:
  assumes "0 < n" and "n < 4294967295"
  shows "\<exists>p q. CORD_set_pos pos0 (Func n f) (n - 1) = Inr p \<and> CORD_next p = Inr q \<and> CORD_pos_valid q \<and> cur_pos q = n"
proof -
  let ?P = "pos0\<lparr>path := (path pos0)[0 := Some (Func n f, 0)], cur_pos := n - 1\<rparr>"
  have "CORD_set_pos pos0 (Func n f) (n - 1) = Inr ?P"
    using assms by (auto simp: Let_def CORD_set_pos_def CORD__extend_path_def path_put_def path_get_def pos0_def)
  moreover have "CORD_next ?P = Inr (?P\<lparr>cur_pos := n\<rparr>)"
    using assms by (auto simp: CORD_next_def pos0_def szsub_def)
  ultimately show ?thesis by (simp add: CORD_pos_valid_def CORD_POS_INVALID_def pos0_def)
qed

end
