(* ===== verification/Cord_Xtra.thy ===== *)
theory Cord_Xtra
  imports Cord_Pos
begin

text \<open>
  Building cords (\<^verbatim>\<open>gc/cord/cordxtra.c\<close>, \<^verbatim>\<open>gc/include/ec.h\<close>): appending characters and many cords, extensible cords with a
  character buffer, reading a file at once, and the line cache of a file that is read on demand.
\<close>

section \<open>Appending\<close>

definition CORD_nul_func :: "char \<Rightarrow> nat \<Rightarrow> char" where
  "CORD_nul_func c i = c"

definition CORD_chars :: "char \<Rightarrow> nat \<Rightarrow> cord res" where
  "CORD_chars c i = CORD_from_fn (CORD_nul_func c) i"

definition CORD_nul :: "nat \<Rightarrow> cord res" where
  "CORD_nul i = CORD_chars NUL i"

definition CORD_cat_char :: "cord \<Rightarrow> char \<Rightarrow> cord res" where
  "CORD_cat_char x c =
     (if c = NUL then bindE (CORD_nul 1) (CORD_cat x) else CORD_cat_char_star x [c] 1)"

text \<open>The arguments of the variadic function are a list.\<close>

fun catn_loop :: "cord \<Rightarrow> cord list \<Rightarrow> cord res" where
  "catn_loop result [] = Inr result"
| "catn_loop result (y # args) = bindE (CORD_cat result y) (\<lambda>result. catn_loop result args)"

definition CORD_catn :: "cord list \<Rightarrow> cord res" where
  "CORD_catn args = catn_loop Empty args"

section \<open>Extensible cords\<close>

text \<open>\<open>ec_buf\<close> is the part of the buffer in front of \<^verbatim>\<open>ec_bufptr\<close>; the array has \<^verbatim>\<open>CORD_BUFSZ + 1\<close> bytes.\<close>

record CORD_ec =
  ec_cord :: cord
  ec_buf :: string

definition CORD_BUFSZ :: nat where "CORD_BUFSZ = 128"

definition CORD_ec_init :: CORD_ec where
  "CORD_ec_init = \<lparr>ec_cord = Empty, ec_buf = []\<rparr>"

definition CORD_ec_flush_buf :: "CORD_ec \<Rightarrow> CORD_ec res" where
  "CORD_ec_flush_buf x =
     (let len = length (ec_buf x) in
      if len = 0 then Inr x
      else bindE (CORD_cat_char_star (ec_cord x) (ec_buf x) len) (\<lambda>c. Inr (x\<lparr>ec_cord := c, ec_buf := []\<rparr>)))"

definition CORD_ec_append :: "CORD_ec \<Rightarrow> char \<Rightarrow> CORD_ec res" where
  "CORD_ec_append x c =
     bindE (if length (ec_buf x) = CORD_BUFSZ then CORD_ec_flush_buf x else Inr x) (\<lambda>x.
     if length (ec_buf x) < CORD_BUFSZ + 1 then Inr (x\<lparr>ec_buf := ec_buf x @ [c]\<rparr>) else Inl OutOfRange)"

definition CORD_ec_append_cord :: "CORD_ec \<Rightarrow> cord \<Rightarrow> CORD_ec res" where
  "CORD_ec_append_cord x s =
     bindE (CORD_ec_flush_buf x) (\<lambda>x. bindE (CORD_cat (ec_cord x) s) (\<lambda>c. Inr (x\<lparr>ec_cord := c\<rparr>)))"

definition CORD_ec_to_cord :: "CORD_ec \<Rightarrow> cord res" where
  "CORD_ec_to_cord x = bindE (CORD_ec_flush_buf x) (\<lambda>x. Inr (ec_cord x))"

text \<open>The file is the list of characters \<^verbatim>\<open>getc\<close> returns before \<^verbatim>\<open>EOF\<close>.\<close>

function eager_loop :: "string \<Rightarrow> CORD_ec \<Rightarrow> CORD_ec res" where
  "eager_loop [] ecord = Inr ecord"
| "eager_loop (c # f) ecord =
     (if c = NUL
      then bindE (CORD_ec_flush_buf ecord) (\<lambda>ecord.
           bindE (CORD_nul (sz (1 + length (takeWhile (\<lambda>c. c = NUL) f)))) (\<lambda>z.
           bindE (CORD_cat (ec_cord ecord) z) (\<lambda>x.
           case dropWhile (\<lambda>c. c = NUL) f of
             [] \<Rightarrow> Inr (ecord\<lparr>ec_cord := x\<rparr>)
           | c # f \<Rightarrow> bindE (CORD_ec_append (ecord\<lparr>ec_cord := x\<rparr>) c) (eager_loop f))))
      else bindE (CORD_ec_append ecord c) (eager_loop f))"
  by pat_completeness auto
termination
proof (relation "measure (\<lambda>(f, _). length f)", goal_cases)
  case (2 c f ecord x1 x2 x3 c' f' x4)
  then have "length (c' # f') \<le> length f" by (metis length_dropWhile_le)
  then show ?case by simp
qed auto

definition CORD_from_file_eager :: "string \<Rightarrow> cord res" where
  "CORD_from_file_eager f = bindE (eager_loop f CORD_ec_init) (\<lambda>ecord. bindE (CORD_ec_to_cord ecord) CORD_balance)"

section \<open>Files read on demand\<close>

text \<open>
  An open file has its contents and its position.  \<open>mem\<close> is what the memory of a new cache line holds, \<open>seek\<close> whether \<^verbatim>\<open>fseek\<close>
  to a position succeeds.
\<close>

definition CACHE_SZ :: nat where "CACHE_SZ = 16384"
definition LINE_SZ :: nat where "LINE_SZ = 512"

type_synonym cache_line = "nat \<times> string"

record lf_state =
  lf_file :: string
  lf_fpos :: nat
  lf_current :: nat
  lf_cache :: "cache_line option list"

definition refill_cache :: "(nat \<Rightarrow> bool) \<Rightarrow> string \<Rightarrow> nat \<Rightarrow> lf_state \<Rightarrow> (char \<times> lf_state) res" where
  "refill_cache seek mem file_pos st =
     (let line_start = file_pos - file_pos mod LINE_SZ; line_no = file_pos mod CACHE_SZ div LINE_SZ in
      if line_start \<noteq> lf_current st \<and> \<not> seek line_start then Inl (RuntimeError ''fseek failed'')
      else let from = (if line_start \<noteq> lf_current st then line_start else lf_fpos st);
               bytes = take LINE_SZ (drop from (lf_file st)); data = bytes @ drop (length bytes) mem in
           if length bytes \<le> file_pos - line_start then Inl (RuntimeError ''fread failed'')
           else if line_no < length (lf_cache st)
           then bindE (nthE data (file_pos mod LINE_SZ)) (\<lambda>c.
                Inr (c, st\<lparr>lf_fpos := from + length bytes, lf_current := sz (line_start + LINE_SZ),
                           lf_cache := (lf_cache st)[line_no := Some (file_pos div LINE_SZ, data)]\<rparr>))
           else Inl OutOfRange)"

definition CORD_lf_func :: "(nat \<Rightarrow> bool) \<Rightarrow> string \<Rightarrow> nat \<Rightarrow> lf_state \<Rightarrow> (char \<times> lf_state) res" where
  "CORD_lf_func seek mem i st =
     bindE (nthE (lf_cache st) (i mod CACHE_SZ div LINE_SZ)) (\<lambda>cl. case cl of
       None \<Rightarrow> refill_cache seek mem i st
     | Some (tag, data) \<Rightarrow>
         if tag \<noteq> i div LINE_SZ then refill_cache seek mem i st
         else bindE (nthE data (i mod LINE_SZ)) (\<lambda>c. Inr (c, st)))"

text \<open>The state made by \<^verbatim>\<open>CORD_from_file_lazy_inner\<close>, after \<^verbatim>\<open>rewind\<close>.\<close>

definition lf_open :: "string \<Rightarrow> lf_state" where
  "lf_open f = \<lparr>lf_file = f, lf_fpos = 0, lf_current = 0, lf_cache = replicate (CACHE_SZ div LINE_SZ) None\<rparr>"

section \<open>Results of appending\<close>

lemma chars_gives:
  assumes "0 < n" and "n < 4294967296"
  shows "\<exists>z. CORD_chars c n = Inr z \<and> is_cord z \<and> chars z = replicate n c"
proof -
  have "map (CORD_nul_func c) [0..<n] = replicate n c" by (intro nth_equalityI) (simp_all add: CORD_nul_func_def)
  then show ?thesis using from_fn_gives [OF assms, of "CORD_nul_func c"] by (auto simp: CORD_chars_def)
qed

lemma cat_char_gives:
  assumes "is_cord x" and "clen x < 4294967295"
  shows "gives (chars x @ [c]) (CORD_cat_char x c)"
proof (cases "c = NUL")
  case True
  obtain z where "CORD_nul 1 = Inr z" "is_cord z" "chars z = [NUL]" using chars_gives [of 1 NUL] by (auto simp: CORD_nul_def)
  then show ?thesis using True cat_gives [OF assms(1), of z] assms(2) by (simp add: CORD_cat_char_def)
next
  case False
  then show ?thesis using cat_char_star_gives [OF assms(1), of "[c]"] assms(2) by (simp add: CORD_cat_char_def)
qed

lemma catn_gives:
  assumes "is_cord x" and "\<forall>y\<in>set ys. is_cord y" and "clen x + length (concat (map chars ys)) < 2971215073"
  shows "\<exists>z. catn_loop x ys = Inr z \<and> is_cord z \<and> chars z = chars x @ concat (map chars ys)"
  using assms
proof (induction ys arbitrary: x)
  case (Cons y ys)
  obtain z where "CORD_cat x y = Inr z" "is_cord z" "chars z = chars x @ chars y"
    using givesD [OF cat_gives [of x y]] Cons.prems by auto
  then show ?case using Cons.IH [of z] Cons.prems by auto
qed simp

text \<open>The text of an extensible cord, and its invariant.\<close>

abbreviation ec_text :: "CORD_ec \<Rightarrow> string" where
  "ec_text x \<equiv> chars (ec_cord x) @ ec_buf x"

definition ec_ok :: "CORD_ec \<Rightarrow> bool" where
  "ec_ok x \<longleftrightarrow> is_cord (ec_cord x) \<and> NUL \<notin> set (ec_buf x) \<and> length (ec_buf x) \<le> CORD_BUFSZ"

definition ec_gives :: "string \<Rightarrow> CORD_ec res \<Rightarrow> bool" where
  "ec_gives s r \<longleftrightarrow> (\<exists>y. r = Inr y \<and> ec_ok y \<and> ec_text y = s)"

lemma ec_flush:
  assumes "ec_ok x" and "length (ec_text x) < 2971215073"
  shows "\<exists>y. CORD_ec_flush_buf x = Inr y \<and> ec_ok y \<and> ec_text y = ec_text x \<and> ec_buf y = []"
proof (cases "ec_buf x = []")
  case True
  then show ?thesis using assms by (simp add: CORD_ec_flush_buf_def)
next
  case False
  have "length (ec_buf x) < 4294967296" using assms(2) by simp
  then obtain c where "CORD_cat_char_star (ec_cord x) (ec_buf x) (length (ec_buf x)) = Inr c" "is_cord c" "chars c = ec_text x"
    using givesD [OF cat_char_star_gives [of "ec_cord x" "ec_buf x"]] assms False by (auto simp: ec_ok_def)
  then show ?thesis using False by (simp add: CORD_ec_flush_buf_def ec_ok_def)
qed

lemma ec_append:
  assumes "ec_ok x" and "length (ec_text x) < 2971215073" and "c \<noteq> NUL"
  shows "ec_gives (ec_text x @ [c]) (CORD_ec_append x c)"
proof (cases "length (ec_buf x) = CORD_BUFSZ")
  case True
  obtain y where "CORD_ec_flush_buf x = Inr y" "ec_ok y" "ec_text y = ec_text x" "ec_buf y = []" using ec_flush [OF assms(1,2)] by blast
  then show ?thesis using True assms(3) by (simp add: CORD_ec_append_def ec_gives_def ec_ok_def CORD_BUFSZ_def)
next
  case False
  then show ?thesis using assms by (simp add: CORD_ec_append_def ec_gives_def ec_ok_def CORD_BUFSZ_def)
qed

lemma ec_append_cord:
  assumes "ec_ok x" and "is_cord s" and "length (ec_text x) + clen s < 2971215073"
  shows "ec_gives (ec_text x @ chars s) (CORD_ec_append_cord x s)"
proof -
  obtain y where y: "CORD_ec_flush_buf x = Inr y" "ec_ok y" "ec_text y = ec_text x" "ec_buf y = []"
    using ec_flush [OF assms(1)] assms(3) by auto
  then obtain c where "CORD_cat (ec_cord y) s = Inr c" "is_cord c" "chars c = ec_text x @ chars s"
    using givesD [OF cat_gives [of "ec_cord y" s]] assms(2,3) by (auto simp: ec_ok_def)
  then show ?thesis using y by (simp add: CORD_ec_append_cord_def ec_gives_def ec_ok_def)
qed

lemma eager_loop_gives:
  "ec_ok x \<Longrightarrow> length (ec_text x) + length f < 2971215073 \<Longrightarrow> ec_gives (ec_text x @ f) (eager_loop f x)"
proof (induction f x rule: eager_loop.induct)
  case (1 x)
  then show ?case by (simp add: ec_gives_def)
next
  case (2 c f x)
  show ?case
  proof (cases "c = NUL")
    case False
    obtain y where "CORD_ec_append x c = Inr y" "ec_ok y" "ec_text y = ec_text x @ [c]"
      using ec_append [OF "2.prems"(1) _ False] "2.prems"(2) by (auto simp: ec_gives_def)
    then show ?thesis using "2.IH"(2) [OF False, of y] "2.prems"(2) False
      by (metis (no_types, lifting) append.assoc append_Cons append_Nil bindE.simps(2) eager_loop.simps(2) add.commute add_Suc_right length_Cons length_append_singleton)
  next
    case True
    let ?n = "Suc (length (takeWhile (\<lambda>c. c = NUL) f))" and ?g = "dropWhile (\<lambda>c. c = NUL) f"
    have tw: "takeWhile (\<lambda>c. c = NUL) f = replicate (length (takeWhile (\<lambda>c. c = NUL) f)) NUL"
      by (rule replicate_length_same [symmetric]) (auto dest: set_takeWhileD)
    then have f: "c # f = replicate ?n NUL @ ?g"
      using True takeWhile_dropWhile_id [of "\<lambda>c. c = NUL" f] by (metis append_Cons replicate_Suc)
    then have len: "length (c # f) = ?n + length ?g" by (metis length_append length_replicate)
    obtain y where y: "CORD_ec_flush_buf x = Inr y" "ec_ok y" "ec_text y = ec_text x" "ec_buf y = []"
      using ec_flush [OF "2.prems"(1)] "2.prems"(2) by auto
    have n: "?n < 4294967296" using "2.prems"(2) len by simp
    obtain z where z: "CORD_nul (sz (1 + length (takeWhile (\<lambda>c. c = NUL) f))) = Inr z" "is_cord z" "chars z = replicate ?n NUL"
      using chars_gives [OF _ n, of NUL] n by (auto simp: CORD_nul_def)
    have "length (chars (ec_cord y) @ chars z) < 2971215073" using y(3,4) z(3) "2.prems"(2) len by simp
    then obtain e where e: "CORD_cat (ec_cord y) z = Inr e" "is_cord e" "chars e = chars (ec_cord y) @ chars z"
      using givesD [OF cat_gives [of "ec_cord y" z]] y(2) z(2) by (auto simp: ec_ok_def)
    let ?e = "y\<lparr>ec_cord := e\<rparr>"
    have ok: "ec_ok ?e" and t: "ec_text ?e = ec_text x @ replicate ?n NUL" using y e z(3) by (auto simp: ec_ok_def)
    show ?thesis
    proof (cases ?g)
      case Nil
      then have "eager_loop (c # f) x = Inr ?e" using True y z e by (simp del: dropWhile_eq_Nil_conv)
      moreover have "ec_text ?e = ec_text x @ c # f" using t f Nil by simp
      ultimately show ?thesis using ok unfolding ec_gives_def by metis
    next
      case (Cons c2 f2)
      then have c2: "c2 \<noteq> NUL" by (simp add: dropWhile_eq_Cons_conv)
      have l: "length (ec_text ?e) + length (c2 # f2) < 2971215073" using t "2.prems"(2) len Cons by simp
      then obtain w where w: "CORD_ec_append ?e c2 = Inr w" "ec_ok w" "ec_text w = ec_text ?e @ [c2]"
        using ec_append [OF ok _ c2] by (auto simp: ec_gives_def)
      have "ec_gives (ec_text w @ f2) (eager_loop f2 w)"
        by (rule "2.IH"(1) [OF True y(1) z(1) e(1) Cons]) (use w l in auto)
      moreover have "eager_loop (c # f) x = eager_loop f2 w" using True y z e Cons w(1) by simp
      moreover have "ec_text w @ f2 = ec_text ?e @ ?g" using w(3) Cons by simp
      then have "ec_text w @ f2 = ec_text x @ c # f" unfolding t f by simp
      ultimately show ?thesis by metis
    qed
  qed
qed

section \<open>Results\<close>

text \<open>
  C23. Concatenating many cords, extending a cord by characters, and reading a whole file, runs of NUL characters
  included, give the whole text in order, for any text of less than 2971215073 characters; the character buffer of an extensible
  cord does not overflow.
\<close>

theorem cord_building:
  assumes "\<forall>y\<in>set ys. is_cord y" and "length (concat (map chars ys)) < 2971215073" and "length f < 2971215073"
    and "is_cord x" and "length (chars x) < 2971215072"
  shows "(\<exists>z. CORD_catn ys = Inr z \<and> is_cord z \<and> chars z = concat (map chars ys)) \<and>
    (\<exists>z. CORD_from_file_eager f = Inr z \<and> is_cord z \<and> chars z = f) \<and>
    (\<exists>z. CORD_cat_char x c = Inr z \<and> is_cord z \<and> chars z = chars x @ [c])"
proof (intro conjI)
  show "\<exists>z. CORD_catn ys = Inr z \<and> is_cord z \<and> chars z = concat (map chars ys)"
    using catn_gives [of Empty ys] assms(1,2) by (simp add: CORD_catn_def)
  have "ec_ok CORD_ec_init" by (simp add: ec_ok_def CORD_ec_init_def)
  then obtain y where y: "eager_loop f CORD_ec_init = Inr y" "ec_ok y" "ec_text y = f"
    using eager_loop_gives [of CORD_ec_init f] assms(3) by (auto simp: ec_gives_def CORD_ec_init_def)
  then obtain e where "CORD_ec_flush_buf y = Inr e" "ec_ok e" "ec_text e = f" "ec_buf e = []"
    using ec_flush [OF y(2)] assms(3) by auto
  moreover from this have "gives (chars (ec_cord e)) (CORD_balance (ec_cord e))"
    using balance_gives [of "ec_cord e" 0] by (auto simp: ec_ok_def is_cord_def CORD_balance_def cord_balance_def)
  ultimately show "\<exists>z. CORD_from_file_eager f = Inr z \<and> is_cord z \<and> chars z = f"
    using y(1) givesD assms(3) by (auto simp: CORD_from_file_eager_def CORD_ec_to_cord_def)
  show "\<exists>z. CORD_cat_char x c = Inr z \<and> is_cord z \<and> chars z = chars x @ [c]"
    using givesD [OF cat_char_gives [OF assms(4)]] assms(5) by simp
qed

theorem cord_building_witness:
  "(\<exists>z. CORD_catn [Str ''ab'', Empty, Str ''cd''] = Inr z \<and> is_cord z \<and> chars z = ''abcd'') \<and>
   (\<exists>z. CORD_from_file_eager (''ab'' @ [NUL, NUL] @ ''c'') = Inr z \<and> is_cord z \<and> chars z = ''ab'' @ [NUL, NUL] @ ''c'')"
  using cord_building [of "[Str ''ab'', Empty, Str ''cd'']" "''ab'' @ [NUL, NUL] @ ''c''" Empty NUL] by simp


text \<open>
  The invariant of the line cache: the lines hold the file, and the file is where \<^verbatim>\<open>lf_current\<close> says or nothing is left
  to be read there.
\<close>

definition line_ok :: "string \<Rightarrow> nat \<Rightarrow> cache_line \<Rightarrow> bool" where
  "line_ok f n = (\<lambda>(tag, data). length data = LINE_SZ \<and>
     (\<forall>k<LINE_SZ. tag * LINE_SZ + k < length f \<longrightarrow> data ! k = f ! (tag * LINE_SZ + k)))"

definition lf_ok :: "string \<Rightarrow> lf_state \<Rightarrow> bool" where
  "lf_ok f st \<longleftrightarrow> lf_file st = f \<and> length f < 4294966784 \<and> length (lf_cache st) = 32 \<and>
     (lf_fpos st = lf_current st \<or> length f \<le> lf_current st) \<and>
     (\<forall>n<32. \<forall>l. lf_cache st ! n = Some l \<longrightarrow> line_ok f n l)"

lemma lf_open_ok: "length f < 4294966784 \<Longrightarrow> lf_ok f (lf_open f)"
  by (simp add: lf_ok_def lf_open_def CACHE_SZ_def LINE_SZ_def)

lemma line_bytes:
  assumes "i < length f" and "length mem = LINE_SZ" and "ls = i - i mod LINE_SZ"
  defines "bytes \<equiv> take LINE_SZ (drop ls f)"
  shows "i - ls = i mod LINE_SZ" and "i mod LINE_SZ < length bytes" and "ls = i div LINE_SZ * LINE_SZ"
    and "line_ok f n (i div LINE_SZ, bytes @ drop (length bytes) mem)" and "(bytes @ drop (length bytes) mem) ! (i mod LINE_SZ) = f ! i"
proof -
  have m: "i mod LINE_SZ < LINE_SZ" "i mod LINE_SZ \<le> i" by (simp_all add: LINE_SZ_def)
  show 1: "i - ls = i mod LINE_SZ" using assms(3) m by simp
  show 2: "i mod LINE_SZ < length bytes" using assms(1,3) m by (simp add: bytes_def)
  show 3: "ls = i div LINE_SZ * LINE_SZ" using assms(3) by (simp add: minus_mod_eq_div_mult)
  show "(bytes @ drop (length bytes) mem) ! (i mod LINE_SZ) = f ! i"
    using 2 m assms(1,3) by (simp add: nth_append bytes_def)
  show "line_ok f n (i div LINE_SZ, bytes @ drop (length bytes) mem)"
    using assms(1,2) 3 by (auto simp: line_ok_def bytes_def nth_append)
qed

lemma refill_cache_reads:
  assumes ok: "lf_ok f st" and i: "i < length f" and mem: "length mem = LINE_SZ" and seek: "\<forall>n. seek n"
  shows "\<exists>st'. refill_cache seek mem i st = Inr (f ! i, st') \<and> lf_ok f st'"
proof -
  let ?ls = "i - i mod LINE_SZ" and ?n = "i mod CACHE_SZ div LINE_SZ"
  let ?from = "if ?ls \<noteq> lf_current st then ?ls else lf_fpos st" and ?b = "take LINE_SZ (drop ?ls f)"
  have from': "?from = ?ls" using ok i by (auto simp: lf_ok_def)
  have n: "?n < 32" by (simp add: CACHE_SZ_def LINE_SZ_def div_less_iff_less_mult)
  note l = line_bytes [OF i mem refl]
  have "?ls \<le> i" "length f < 4294966784" using ok by (simp_all add: lf_ok_def)
  then have "?ls + LINE_SZ < 4294967296" using i unfolding LINE_SZ_def by linarith
  then have z: "sz (?ls + LINE_SZ) = ?ls + LINE_SZ" by (rule sz_small)
  have len: "length (?b @ drop (length ?b) mem) = LINE_SZ" using mem by simp
  have fl: "lf_file st = f" and n': "?n < length (lf_cache st)" using ok n by (simp_all add: lf_ok_def)
  have nth: "nthE (?b @ drop (length ?b) mem) (i mod LINE_SZ) = Inr (f ! i)"
    using l(5) len by (simp add: nthE_def LINE_SZ_def)
  have no: "(?ls \<noteq> lf_current st \<and> \<not> seek ?ls) = False" "(length ?b \<le> i - ?ls) = False" "(?n < length (lf_cache st)) = True"
    using seek n' l(2) unfolding l(1) not_less [symmetric] by simp_all
  have "refill_cache seek mem i st = Inr (f ! i, st\<lparr>lf_fpos := ?ls + length ?b, lf_current := ?ls + LINE_SZ,
      lf_cache := (lf_cache st)[?n := Some (i div LINE_SZ, ?b @ drop (length ?b) mem)]\<rparr>)"
    unfolding refill_cache_def Let_def fl from' no if_True if_False nth bindE.simps z ..
  moreover have "?ls + length ?b = ?ls + LINE_SZ \<or> length f \<le> ?ls + LINE_SZ" by auto
  ultimately show ?thesis using ok l(4) n by (auto simp: lf_ok_def nth_list_update)
qed


lemma lf_func_reads:
  assumes ok: "lf_ok f st" and i: "i < length f" and mem: "length mem = LINE_SZ" and seek: "\<forall>n. seek n"
  shows "\<exists>st'. CORD_lf_func seek mem i st = Inr (f ! i, st') \<and> lf_ok f st'"
proof -
  let ?n = "i mod CACHE_SZ div LINE_SZ"
  have n: "?n < 32" by (simp add: CACHE_SZ_def LINE_SZ_def div_less_iff_less_mult)
  then have g: "nthE (lf_cache st) ?n = Inr (lf_cache st ! ?n)" using ok by (simp add: lf_ok_def)
  note r = refill_cache_reads [OF assms]
  show ?thesis
  proof (cases "\<exists>data. lf_cache st ! ?n = Some (i div LINE_SZ, data)")
    case True
    then obtain data where d: "lf_cache st ! ?n = Some (i div LINE_SZ, data)" by blast
    then have l: "line_ok f ?n (i div LINE_SZ, data)" using ok n by (simp add: lf_ok_def)
    have m: "i mod LINE_SZ < LINE_SZ" "i div LINE_SZ * LINE_SZ + i mod LINE_SZ = i" by (simp_all add: LINE_SZ_def)
    then have "i mod LINE_SZ < length data" "data ! (i mod LINE_SZ) = f ! i" using l i unfolding line_ok_def by auto
    then show ?thesis using g d ok by (simp add: CORD_lf_func_def)
  next
    case False
    then show ?thesis using g r by (auto simp: CORD_lf_func_def split: option.splits)
  qed
qed

text \<open>A sequence of reads at any positions.\<close>

fun lf_reads :: "(nat \<Rightarrow> bool) \<Rightarrow> string \<Rightarrow> nat list \<Rightarrow> lf_state \<Rightarrow> string res" where
  "lf_reads seek mem [] st = Inr []"
| "lf_reads seek mem (i # is) st =
     bindE (CORD_lf_func seek mem i st) (\<lambda>(c, st). bindE (lf_reads seek mem is st) (\<lambda>s. Inr (c # s)))"

text \<open>
  C24. A lazily read file of less than \<^verbatim>\<open>2^32 - 512\<close> characters behaves as the pure function the cord is built from: reads at any
  positions within the file, in any order, return the characters of the file, whatever the cache has replaced in between
  and whatever new memory holds, as long as \<^verbatim>\<open>fseek\<close> succeeds.
\<close>

theorem lazy_file_reads:
  assumes "length f < 4294966784" and "\<forall>i\<in>set is. i < length f" and "length mem = LINE_SZ" and "\<forall>n. seek n"
  shows "lf_reads seek mem is (lf_open f) = Inr (map ((!) f) is)"
proof -
  have "lf_ok f st \<Longrightarrow> \<forall>i\<in>set is. i < length f \<Longrightarrow> lf_reads seek mem is st = Inr (map ((!) f) is)" for st
  proof (induction "is" arbitrary: st)
    case (Cons i "is")
    obtain st' where "CORD_lf_func seek mem i st = Inr (f ! i, st')" "lf_ok f st'"
      using lf_func_reads [OF Cons.prems(1) _ assms(3,4)] Cons.prems(2) by auto
    then show ?case using Cons.IH [of st'] Cons.prems(2) by simp
  qed simp
  then show ?thesis using lf_open_ok [OF assms(1)] assms(2) by blast
qed

theorem lazy_file_reads_witness:
  "lf_reads (\<lambda>_. True) (replicate LINE_SZ NUL) [599, 3, 598, 4] (lf_open (replicate 599 CHR ''a'' @ ''z'')) = Inr ''zaaa''"
proof -
  let ?f = "replicate 599 CHR ''a'' @ ''z''"
  have "lf_reads (\<lambda>_. True) (replicate LINE_SZ NUL) [599, 3, 598, 4] (lf_open ?f) = Inr (map ((!) ?f) [599, 3, 598, 4])"
    by (rule lazy_file_reads) (simp_all add: LINE_SZ_def)
  then show ?thesis by (simp add: nth_append)
qed

end
