(* ===== verification/Cord_Cmp.thy ===== *)
theory Cord_Cmp
  imports Cord_Xtra
begin

text \<open>
  Comparison of cords: \<^verbatim>\<open>CORD_cmp\<close> and \<^verbatim>\<open>CORD_ncmp\<close> of \<^verbatim>\<open>gc/cord/cordxtra.c\<close>.  Both walk two positions and compare the
  cached characters with \<^verbatim>\<open>strncmp\<close>, of whose result only the sign is specified.
\<close>

section \<open>Operations\<close>

text \<open>The arguments are the characters in memory from the two addresses on.\<close>

fun strncmp :: "string \<Rightarrow> string \<Rightarrow> nat \<Rightarrow> int res" where
  "strncmp s t 0 = Inr 0"
| "strncmp (a # s) (b # t) (Suc n) =
     (if a \<noteq> b then Inr (sgn (ucode a - ucode b)) else if a = NUL then Inr 0 else strncmp s t n)"
| "strncmp s t (Suc n) = Inl OutOfRange"

definition CORD_pos_chars_left :: "CORD_pos \<Rightarrow> int" where
  "CORD_pos_chars_left p = as_int (cur_end p) - as_int (cur_pos p)"

definition CORD_pos_cur_char_addr :: "CORD_pos \<Rightarrow> string" where
  "CORD_pos_cur_char_addr p = drop (szsub (cur_pos p) (cur_start p))
     (case cur_leaf p of NoLeaf \<Rightarrow> [] | LeafStr s \<Rightarrow> s @ [NUL] | LeafBuf \<Rightarrow> function_buf p)"

definition CORD_pos_advance :: "CORD_pos \<Rightarrow> nat \<Rightarrow> CORD_pos res" where
  "CORD_pos_advance p n = CORD_next_m (p\<lparr>cur_pos := sz (cur_pos p + szsub n 1)\<rparr>)"

text \<open>In \<^verbatim>\<open>CORD_cmp\<close> the number of characters left is stored in a \<^verbatim>\<open>size_t\<close>.\<close>

definition to_size :: "int \<Rightarrow> nat" where
  "to_size i = nat (i mod 4294967296)"

fun cmp_loop :: "nat \<Rightarrow> CORD_pos \<Rightarrow> CORD_pos \<Rightarrow> int res" where
  "cmp_loop 0 xpos ypos = Inl Diverge"
| "cmp_loop (Suc k) xpos ypos =
     (if \<not> CORD_pos_valid xpos then Inr (if CORD_pos_valid ypos then -1 else 0)
      else if \<not> CORD_pos_valid ypos then Inr 1
      else let avail = to_size (CORD_pos_chars_left xpos); yavail = to_size (CORD_pos_chars_left ypos) in
        if avail = 0 \<or> yavail = 0
        then bindE (CORD_pos_fetch_m xpos) (\<lambda>xcurrent. bindE (CORD_pos_fetch_m ypos) (\<lambda>ycurrent.
             if xcurrent \<noteq> ycurrent then Inr (scode xcurrent - scode ycurrent)
             else bindE (CORD_next_m xpos) (\<lambda>xpos. bindE (CORD_next_m ypos) (\<lambda>ypos. cmp_loop k xpos ypos))))
        else let avail = (if avail > yavail then yavail else avail) in
             bindE (strncmp (CORD_pos_cur_char_addr xpos) (CORD_pos_cur_char_addr ypos) avail) (\<lambda>result.
             if result \<noteq> 0 then Inr result
             else bindE (CORD_pos_advance xpos avail) (\<lambda>xpos. bindE (CORD_pos_advance ypos avail) (\<lambda>ypos. cmp_loop k xpos ypos))))"

text \<open>\<open>xp\<close> and \<open>yp\<close> are the two positions on the stack; \<open>k\<close> bounds the turns of the loop.\<close>

definition CORD_cmp :: "nat \<Rightarrow> CORD_pos \<Rightarrow> CORD_pos \<Rightarrow> cord \<Rightarrow> cord \<Rightarrow> int res" where
  "CORD_cmp k xp yp x y =
     (if y = Empty then Inr (if x \<noteq> Empty then 1 else 0)
      else if x = Empty then Inr (-1)
      else case (x, y) of
        (Str s, Str t) \<Rightarrow> strncmp (s @ [NUL]) (t @ [NUL]) (Suc (length s))
      | _ \<Rightarrow> bindE (CORD_set_pos xp x 0) (\<lambda>xpos. bindE (CORD_set_pos yp y 0) (\<lambda>ypos. cmp_loop k xpos ypos)))"

fun ncmp_loop :: "nat \<Rightarrow> nat \<Rightarrow> nat \<Rightarrow> CORD_pos \<Rightarrow> CORD_pos \<Rightarrow> int res" where
  "ncmp_loop 0 count len xpos ypos = Inl Diverge"
| "ncmp_loop (Suc k) count len xpos ypos =
     (if \<not> count < len then Inr 0
      else if \<not> CORD_pos_valid xpos then Inr (if CORD_pos_valid ypos then -1 else 0)
      else if \<not> CORD_pos_valid ypos then Inr 1
      else let avail = CORD_pos_chars_left xpos; yavail = CORD_pos_chars_left ypos in
        if avail \<le> 0 \<or> yavail \<le> 0
        then bindE (CORD_pos_fetch_m xpos) (\<lambda>xcurrent. bindE (CORD_pos_fetch_m ypos) (\<lambda>ycurrent.
             if xcurrent \<noteq> ycurrent then Inr (scode xcurrent - scode ycurrent)
             else bindE (CORD_next_m xpos) (\<lambda>xpos. bindE (CORD_next_m ypos) (\<lambda>ypos.
                  ncmp_loop k (sz (count + 1)) len xpos ypos))))
        else let avail = nat (if avail > yavail then yavail else avail); count = sz (count + avail);
                 avail = (if count > len then szsub avail (count - len) else avail) in
             bindE (strncmp (CORD_pos_cur_char_addr xpos) (CORD_pos_cur_char_addr ypos) avail) (\<lambda>result.
             if result \<noteq> 0 then Inr result
             else bindE (CORD_pos_advance xpos avail) (\<lambda>xpos. bindE (CORD_pos_advance ypos avail) (\<lambda>ypos.
                  ncmp_loop k count len xpos ypos))))"

definition CORD_ncmp :: "nat \<Rightarrow> CORD_pos \<Rightarrow> CORD_pos \<Rightarrow> cord \<Rightarrow> nat \<Rightarrow> cord \<Rightarrow> nat \<Rightarrow> nat \<Rightarrow> int res" where
  "CORD_ncmp k xp yp x x_start y y_start len =
     bindE (CORD_set_pos xp x x_start) (\<lambda>xpos. bindE (CORD_set_pos yp y y_start) (\<lambda>ypos. ncmp_loop k 0 len xpos ypos))"

section \<open>Comparison of texts\<close>

fun cmp_text :: "string \<Rightarrow> string \<Rightarrow> int" where
  "cmp_text [] [] = 0"
| "cmp_text [] (b # t) = -1"
| "cmp_text (a # s) [] = 1"
| "cmp_text (a # s) (b # t) = (if a \<noteq> b then sgn (ucode a - ucode b) else cmp_text s t)"

lemma sgn_ucode: "sgn (ucode a - ucode b) = 0 \<longleftrightarrow> a = b"
  by (simp add: sgn_eq_0_iff)

lemma cmp_text_eq: "cmp_text s t = 0 \<longleftrightarrow> s = t"
  by (induction s t rule: cmp_text.induct) (auto simp: sgn_eq_0_iff)

lemma sgn_cmp_text [simp]: "sgn (cmp_text s t) = cmp_text s t"
  by (induction s t rule: cmp_text.induct) auto

lemma cmp_text_append: "length s = length t \<Longrightarrow> cmp_text (s @ u) (t @ v) = (if s = t then cmp_text u v else cmp_text s t)"
  by (induction s t rule: list_induct2) auto

lemma cmp_text_split:
  assumes "n \<le> length s" and "n \<le> length t"
  shows "cmp_text s t = (if take n s = take n t then cmp_text (drop n s) (drop n t) else cmp_text (take n s) (take n t))"
  using cmp_text_append [of "take n s" "take n t" "drop n s" "drop n t"] assms by simp

lemma strncmp_spec:
  "NUL \<notin> set (take n s) \<Longrightarrow> n \<le> length s \<Longrightarrow> n \<le> length t \<Longrightarrow> strncmp s t n = Inr (cmp_text (take n s) (take n t))"
  by (induction s t n rule: strncmp.induct) auto

lemma ucode_NUL [simp]: "ucode NUL = 0"
  by (simp add: ucode_def)

lemma ucode_pos: "c \<noteq> NUL \<Longrightarrow> 0 < ucode c"
proof -
  assume "c \<noteq> NUL"
  then have "ucode c \<noteq> ucode NUL" using ucode_inj by blast
  moreover have "ucode c = int (of_char c)" using of_nat_of_char [of c, where 'a = int] by (simp add: ucode_def)
  ultimately show ?thesis using ucode_NUL by linarith
qed

text \<open>\<^verbatim>\<open>strcmp\<close> of two C strings.\<close>

lemma strcmp_spec:
  "NUL \<notin> set s \<Longrightarrow> NUL \<notin> set t \<Longrightarrow> strncmp (s @ [NUL]) (t @ [NUL]) (Suc (length s)) = Inr (cmp_text s t)"
proof (induction s t rule: cmp_text.induct)
  case (2 b t)
  then have "0 < ucode b" using ucode_pos [of b] by auto
  then show ?case using 2 by (simp add: sgn_if)
next
  case (3 a s)
  then have "0 < ucode a" using ucode_pos [of a] by auto
  then show ?case using 3 by (auto simp: sgn_if)
qed auto

section \<open>Steps of two positions\<close>

text \<open>A position at an index of the cord, or past its end.\<close>

definition at_pos :: "cord \<Rightarrow> nat \<Rightarrow> CORD_pos \<Rightarrow> bool" where
  "at_pos x i p \<longleftrightarrow> i \<le> clen x \<and> (if i < clen x then pos_at x i p \<and> in_cache p else \<not> CORD_pos_valid p)"

lemma at_pos_valid: "at_pos x i p \<Longrightarrow> CORD_pos_valid p \<longleftrightarrow> i < clen x"
  using pos_at_bound by (auto simp: at_pos_def split: if_splits)

lemma at_pos_next:
  assumes "at_pos x i p" and "i < clen x" and "clen x < 4294967288"
  shows "\<exists>q. CORD_next_m p = Inr q \<and> at_pos x (Suc i) q"
  using next_spec [of x i p] assms by (auto simp: at_pos_def split: if_splits)

lemma at_pos_start:
  assumes "is_cord x" and "length (path p) = 49" and "length (function_buf p) = FUNCTION_BUF_SZ" and "i \<le> clen x"
  shows "\<exists>q. CORD_set_pos p x i = Inr q \<and> at_pos x i q"
  using set_pos_spec [OF assms(1-3), of i] assms(4) by (auto simp: at_pos_def split: if_splits)

text \<open>The cache from the position on.\<close>

lemma cache_text:
  assumes "pos_at x i p" and "in_cache p" and "cur_end p \<noteq> 0"
  shows "i < cur_end p" and "cur_end p \<le> clen x" and "cur_end p - i \<le> length (CORD_pos_cur_char_addr p)"
    and "n \<le> cur_end p - i \<Longrightarrow> take n (CORD_pos_cur_char_addr p) = take n (drop i (chars x))"
proof -
  obtain c s where l: "leaf_of x p c s" "cache_ok x p c s" and i: "cur_pos p = i" using assms by (auto simp: pos_at_def)
  let ?m = "case cur_leaf p of NoLeaf \<Rightarrow> [] | LeafStr s \<Rightarrow> s @ [NUL] | LeafBuf \<Rightarrow> function_buf p"
  have b: "cur_start p \<le> i" "i < cur_end p" "clen x < 4294967296" using assms i l pos_at_bound by (auto simp: in_cache_def cache_ok_def)
  show "i < cur_end p" by (rule b(2))
  show e: "cur_end p \<le> clen x" using l leaf_ofD(3) [OF l(1)] by (simp add: cache_ok_def)
  have rd: "j - cur_start p < length ?m \<and> ?m ! (j - cur_start p) = chars x ! j" if "cur_start p \<le> j" "j < cur_end p" for j
  proof -
    have "leaf_get p (j - cur_start p) = Inr (chars x ! j)" using l(2) that by (simp add: cache_ok_def)
    then show ?thesis by (auto simp: leaf_get_def string_read_def nth_append split: leaf_ptr.splits if_splits)
  qed
  have z: "szsub (cur_pos p) (cur_start p) = i - cur_start p" using b e i by (simp add: szsub_small)
  show len: "cur_end p - i \<le> length (CORD_pos_cur_char_addr p)"
  proof -
    have "cur_end p - 1 - cur_start p < length ?m" using rd [of "cur_end p - 1"] b by simp
    then show ?thesis using b unfolding CORD_pos_cur_char_addr_def z length_drop by linarith
  qed
  show "take n (CORD_pos_cur_char_addr p) = take n (drop i (chars x))" if n: "n \<le> cur_end p - i"
  proof (rule nth_equalityI)
    show "length (take n (CORD_pos_cur_char_addr p)) = length (take n (drop i (chars x)))" using len n e by simp
    fix t assume "t < length (take n (CORD_pos_cur_char_addr p))"
    then have t: "t < n" by simp
    have "CORD_pos_cur_char_addr p ! t = ?m ! (i + t - cur_start p)"
      using len n t b(1) unfolding CORD_pos_cur_char_addr_def z by simp
    also have "\<dots> = chars x ! (i + t)" using rd [of "i + t"] b(1) t n by simp
    finally show "take n (CORD_pos_cur_char_addr p) ! t = take n (drop i (chars x)) ! t" using t n e by simp
  qed
qed

lemma at_pos_advance:
  assumes p: "pos_at x i p" "in_cache p" and e: "cur_end p \<noteq> 0" and n: "0 < n" "n \<le> cur_end p - i" and len: "clen x < 4294967288"
  shows "\<exists>q. CORD_pos_advance p n = Inr q \<and> at_pos x (i + n) q"
proof -
  note c = cache_text [OF p e]
  have i: "cur_pos p = i" "cur_start p \<le> i" using p e by (auto simp: pos_at_def in_cache_def)
  let ?p = "p\<lparr>cur_pos := i + n - 1\<rparr>"
  have "pos_at x (i + n - 1) ?p" "in_cache ?p" by (rule move_in_cache [OF p(1) e]; use n i in simp)+
  moreover have "i + n - 1 < clen x" using n c(2) by linarith
  ultimately have "at_pos x (i + n - 1) ?p" by (simp add: at_pos_def)
  moreover have "szsub n 1 = n - 1" "sz (i + (n - 1)) = i + n - 1" using n c(2) len by (simp_all add: szsub_small)
  ultimately show ?thesis using at_pos_next [of x "i + n - 1" ?p] n c(2) len i by (simp add: CORD_pos_advance_def)
qed

lemma batch_step:
  assumes x: "pos_at x i p" "in_cache p" "cur_end p \<noteq> 0" and y: "pos_at y j q" "in_cache q" "cur_end q \<noteq> 0"
    and n: "0 < n" "n \<le> cur_end p - i" "n \<le> cur_end q - j" and nul: "NUL \<notin> set (chars x)"
    and len: "clen x < 4294967288" "clen y < 4294967288"
  shows "strncmp (CORD_pos_cur_char_addr p) (CORD_pos_cur_char_addr q) n = Inr (cmp_text (part x i n) (part y j n))"
    and "\<exists>p'. CORD_pos_advance p n = Inr p' \<and> at_pos x (i + n) p'" and "\<exists>q'. CORD_pos_advance q n = Inr q' \<and> at_pos y (j + n) q'"
proof -
  note cx = cache_text [OF x] and cy = cache_text [OF y]
  have "NUL \<notin> set (take n (CORD_pos_cur_char_addr p))"
    using nul unfolding cx(4) [OF n(2)] by (auto dest: in_set_takeD in_set_dropD)
  then have "strncmp (CORD_pos_cur_char_addr p) (CORD_pos_cur_char_addr q) n =
      Inr (cmp_text (take n (CORD_pos_cur_char_addr p)) (take n (CORD_pos_cur_char_addr q)))"
    using cx(3) cy(3) n by (intro strncmp_spec) simp_all
  then show "strncmp (CORD_pos_cur_char_addr p) (CORD_pos_cur_char_addr q) n = Inr (cmp_text (part x i n) (part y j n))"
    unfolding cx(4) [OF n(2)] cy(4) [OF n(3)] .
  show "\<exists>p'. CORD_pos_advance p n = Inr p' \<and> at_pos x (i + n) p'" by (rule at_pos_advance [OF x n(1,2) len(1)])
  show "\<exists>q'. CORD_pos_advance q n = Inr q' \<and> at_pos y (j + n) q'" by (rule at_pos_advance [OF y n(1,3) len(2)])
qed

section \<open>Comparing flat cords\<close>

text \<open>Cords without function nodes.\<close>

fun flat :: "cord \<Rightarrow> bool" where
  "flat (Str s) = True"
| "flat (Conc d ll n l r) = (flat l \<and> flat r)"
| "flat _ = False"

lemma flat_no_nul: "cord_ok x \<Longrightarrow> flat x \<Longrightarrow> NUL \<notin> set (chars x)"
  by (induction x) auto

lemma path_flat:
  assumes "path_ok x p k" and "flat x" and "j \<le> k" and "path p ! j = Some (c, s)"
  shows "flat c"
  using assms(3,4)
proof (induction j arbitrary: c s)
  case 0
  then show ?case using assms(1,2) by (simp add: path_ok_def)
next
  case (Suc j)
  obtain c0 s0 where "path p ! j = Some (c0, s0)" using path_okD [OF assms(1) Suc_leD [OF Suc.prems(1)]] by blast
  moreover have "child (the (path p ! j)) (the (path p ! Suc j))" using assms(1) Suc.prems(1) by (simp add: path_ok_def)
  ultimately show ?case using Suc by (cases c0) auto
qed

lemma flat_cached:
  assumes "pos_at x i p" and "flat x"
  shows "cur_end p \<noteq> 0"
proof -
  obtain c s where l: "leaf_of x p c s" "i < s + clen c" "CORD_IS_STRING c \<longrightarrow> cur_end p = s + clen c" using assms(1) by (auto simp: pos_at_def)
  then have "flat c" using path_flat [of x p "path_len p" "path_len p"] assms(2) by (simp add: leaf_of_def)
  then have "CORD_IS_STRING c" using l(1) by (cases c) (auto simp: leaf_of_def)
  then show ?thesis using l(2,3) by linarith
qed

lemma to_size_diff:
  assumes "i < e" and "e < 4294967296"
  shows "to_size (as_int e - as_int i) = e - i"
proof -
  have "(as_int e - as_int i) mod 4294967296 = int (e - i) mod 4294967296"
    unfolding mod_eq_dvd_iff using assms by (auto simp: as_int_def of_nat_diff)
  also have "\<dots> = int (e - i)" using assms by (intro mod_pos_pos_trivial) simp_all
  finally show ?thesis by (simp add: to_size_def)
qed

lemma cmp_loop_spec:
  assumes x: "cord_ok x" "flat x" "clen x < 4294967288" and y: "cord_ok y" "flat y" "clen y < 4294967288"
  shows "at_pos x i p \<Longrightarrow> at_pos y j q \<Longrightarrow> clen x < i + k \<Longrightarrow>
    cmp_loop k p q = Inr (cmp_text (drop i (chars x)) (drop j (chars y)))"
proof (induction k arbitrary: i j p q)
  case 0
  then show ?case by (simp add: at_pos_def)
next
  case (Suc k)
  note v = at_pos_valid [OF Suc.prems(1)] at_pos_valid [OF Suc.prems(2)]
  show ?case
  proof (cases "i < clen x \<and> j < clen y")
    case False
    then consider "drop i (chars x) = []" "drop j (chars y) = []" | "drop i (chars x) = []" "j < clen y" | "i < clen x" "drop j (chars y) = []"
      by fastforce
    then show ?thesis
    proof cases
      case 1
      then show ?thesis using v by simp
    next
      case 2
      then obtain b t where "drop j (chars y) = b # t" by (metis Cons_nth_drop_Suc)
      then show ?thesis using 2 v by simp
    next
      case 3
      then obtain b t where "drop i (chars x) = b # t" by (metis Cons_nth_drop_Suc)
      then show ?thesis using 3 v by simp
    qed
  next
    case True
    have px: "pos_at x i p" "in_cache p" and py: "pos_at y j q" "in_cache q" using Suc.prems True by (auto simp: at_pos_def)
    note ex = flat_cached [OF px(1) x(2)] and ey = flat_cached [OF py(1) y(2)]
    note cx = cache_text [OF px ex] and cy = cache_text [OF py ey]
    define n where "n = min (cur_end p - i) (cur_end q - j)"
    have n: "0 < n" "n \<le> cur_end p - i" "n \<le> cur_end q - j" using cx(1) cy(1) by (auto simp: n_def)
    have ij: "cur_pos p = i" "cur_pos q = j" using px py by (auto simp: pos_at_def)
    have av: "to_size (CORD_pos_chars_left p) = cur_end p - i" "to_size (CORD_pos_chars_left q) = cur_end q - j"
      unfolding CORD_pos_chars_left_def ij by (rule to_size_diff; use cx(1,2) cy(1,2) x(3) y(3) in linarith)+
    note b = batch_step [OF px ex py ey n flat_no_nul [OF x(1,2)] x(3) y(3)]
    obtain p' q' where a: "CORD_pos_advance p n = Inr p'" "at_pos x (i + n) p'" "CORD_pos_advance q n = Inr q'" "at_pos y (j + n) q'"
      using b(2,3) by blast
    have e: "cmp_loop (Suc k) p q = (if cmp_text (part x i n) (part y j n) \<noteq> 0 then Inr (cmp_text (part x i n) (part y j n)) else cmp_loop k p' q')"
    proof -
      have "(if cur_end p - i > cur_end q - j then cur_end q - j else cur_end p - i) = n" by (auto simp: n_def)
      moreover have "cur_end p - i \<noteq> 0" "cur_end q - j \<noteq> 0" using cx(1) cy(1) by auto
      ultimately show ?thesis using v True a b(1) by (simp add: av Let_def)
    qed
    have "cmp_loop k p' q' = Inr (cmp_text (drop (i + n) (chars x)) (drop (j + n) (chars y)))"
      by (rule Suc.IH [OF a(2,4)]) (use Suc.prems(3) n(1) in simp)
    moreover have "n \<le> length (drop i (chars x))" "n \<le> length (drop j (chars y))" using n cx(2) cy(2) by auto
    ultimately show ?thesis using e cmp_text_split [of n "drop i (chars x)" "drop j (chars y)"]
      by (auto simp: cmp_text_eq add.commute)
  qed
qed

text \<open>
  C20. \<^verbatim>\<open>CORD_cmp\<close> orders cords made of strings like their texts, by unsigned character codes: it returns a negative number, 0 or a
  positive number as the first text is less than, equal to or greater than the second one, after at most as many turns as the first
  cord has characters.
\<close>

theorem cord_cmp_orders:
  assumes "is_cord x" and "x = Empty \<or> flat x" and "length (chars x) < 4294967288"
    and "is_cord y" and "y = Empty \<or> flat y" and "length (chars y) < 4294967288"
    and "length (path xp) = 49" and "length (function_buf xp) = FUNCTION_BUF_SZ"
    and "length (path yp) = 49" and "length (function_buf yp) = FUNCTION_BUF_SZ" and "length (chars x) < k"
  shows "CORD_cmp k xp yp x y = Inr (cmp_text (chars x) (chars y)) \<and> (CORD_cmp k xp yp x y = Inr 0 \<longleftrightarrow> chars x = chars y)"
proof -
  have "CORD_cmp k xp yp x y = Inr (cmp_text (chars x) (chars y))"
  proof (cases "x = Empty \<or> y = Empty")
    case True
    then show ?thesis using assms(1,4) cord_len(2) [of x] cord_len(2) [of y]
      by (cases "chars x"; cases "chars y") (auto simp: CORD_cmp_def is_cord_def)
  next
    case False
    then have ok: "cord_ok x" "flat x" "cord_ok y" "flat y" using assms(1,2,4,5) by (auto simp: is_cord_def)
    obtain p where p: "CORD_set_pos xp x 0 = Inr p" "at_pos x 0 p" using at_pos_start [OF assms(1,7,8), of 0] by auto
    obtain q where q: "CORD_set_pos yp y 0 = Inr q" "at_pos y 0 q" using at_pos_start [OF assms(4,9,10), of 0] by auto
    have l: "cmp_loop k p q = Inr (cmp_text (chars x) (chars y))"
      using cmp_loop_spec [OF ok(1,2) assms(3) ok(3,4) assms(6) p(2) q(2)] assms(11) by simp
    show ?thesis
    proof (cases "CORD_IS_STRING x \<and> CORD_IS_STRING y")
      case True
      then obtain s t where "x = Str s" "y = Str t" by (cases x; cases y) auto
      then show ?thesis using strcmp_spec ok by (simp add: CORD_cmp_def)
    next
      case s: False
      then have "CORD_cmp k xp yp x y = cmp_loop k p q" using False p(1) q(1) by (cases x; cases y) (simp_all add: CORD_cmp_def)
      then show ?thesis using l by simp
    qed
  qed
  then show ?thesis by (simp add: cmp_text_eq)
qed

theorem cord_cmp_orders_witness:
  "CORD_cmp 17 pos0 pos0 (Conc 1 5 16 (Str ''brown'') (Str '' fox jumped'')) (Str ''brown fox jumped'') = Inr 0"
proof -
  have "is_cord (Conc 1 5 16 (Str ''brown'') (Str '' fox jumped''))" by (simp add: is_cord_def MAX_LEFT_LEN_def)
  then show ?thesis
    using cord_cmp_orders [of "Conc 1 5 16 (Str ''brown'') (Str '' fox jumped'')" "Str ''brown fox jumped''" pos0 pos0 17] pos0_size
    by (simp add: cmp_text_eq)
qed

text \<open>
  With a function node behind a string the number of characters left is negative, which a \<^verbatim>\<open>size_t\<close> makes large: \<^verbatim>\<open>CORD_cmp\<close>
  compares the terminator of the string and finds two equal texts different.
\<close>

lemma cmp_function_node:
  "CORD_cmp (Suc (Suc k)) pos0 pos0 (Conc 1 2 4 (Str ''ab'') (Func 2 (\<lambda>i. CHR ''c''))) (Str ''abcc'') = Inr (-1)"
proof -
  have "strncmp [CHR ''a'', CHR ''b'', NUL] [CHR ''a'', CHR ''b'', CHR ''c'', CHR ''c'', NUL] 2 = Inr 0"
    "strncmp [NUL] [CHR ''c'', CHR ''c'', NUL] 2 = Inr (-1)"
    by (simp_all add: numeral_2_eq_2 sgn_if ucode_def)
  then show ?thesis
  by (simp add: CORD_cmp_def CORD_set_pos_def CORD__extend_path_def path_put_def path_get_def pos0_def LEFT_LEN_def CORD_pos_valid_def
      CORD_POS_INVALID_def CORD_pos_chars_left_def to_size_def as_int_def szsub_def CORD_pos_cur_char_addr_def sz_def
      CORD_pos_advance_def CORD_next_m_def CORD__next_def next_leaf_def Let_def)
qed

section \<open>Comparing parts\<close>

text \<open>Texts of 7-bit characters other than NUL.\<close>

definition ascii :: "string \<Rightarrow> bool" where
  "ascii s \<longleftrightarrow> (\<forall>c\<in>set s. c \<noteq> NUL \<and> ucode c < 128)"

lemma ascii_scode: "ascii s \<Longrightarrow> i < length s \<Longrightarrow> scode (s ! i) = ucode (s ! i)"
  by (simp add: ascii_def scode_def)

lemma chars_left_small:
  assumes "pos_at x i p" and "clen x < 2147483648"
  shows "CORD_pos_chars_left p = int (cur_end p) - int i"
proof -
  have "cur_pos p = i" "i < 2147483648" "cur_end p < 2147483648"
    using assms pos_at_bound [OF assms(1)] leaf_ofD(3) by (fastforce simp: pos_at_def cache_ok_def)+
  then show ?thesis by (simp add: CORD_pos_chars_left_def as_int_def)
qed

lemma ends_spec:
  assumes "\<not> (i < length s \<and> j < length t)" and "0 < n"
  shows "cmp_text (take n (drop i s)) (take n (drop j t)) = (if i < length s then 1 else if j < length t then -1 else 0)"
proof -
  have "\<exists>c r. take n (drop i s) = c # r" if "i < length s" for i and s :: string
    using that assms(2) by (cases n) (auto simp flip: Cons_nth_drop_Suc)
  moreover have "take n (drop i s) = []" if "\<not> i < length s" for i and s :: string using that by simp
  ultimately show ?thesis using assms(1) by (metis cmp_text.simps(1-3))
qed

lemma batch_split:
  assumes "n \<le> length (drop i s)" and "n \<le> length (drop j t)" and "n \<le> m"
  shows "cmp_text (take m (drop i s)) (take m (drop j t)) =
    (if take n (drop i s) = take n (drop j t) then cmp_text (take (m - n) (drop (i + n) s)) (take (m - n) (drop (j + n) t))
     else cmp_text (take n (drop i s)) (take n (drop j t)))"
proof -
  have "drop n (take m (drop i s)) = take (m - n) (drop (i + n) s)" for i and s :: string by (simp add: drop_take add.commute)
  moreover have "take n (take m (drop i s)) = take n (drop i s)" for i and s :: string using assms(3) by (simp add: min_def)
  ultimately show ?thesis using cmp_text_split [of n "take m (drop i s)" "take m (drop j t)"] assms by simp
qed

text \<open>
  The result is 0 for equal parts only; its sign orders them when the characters are those of ASCII, since single characters
  are compared as \<^verbatim>\<open>char\<close>.
\<close>

definition tells :: "cord \<Rightarrow> cord \<Rightarrow> int \<Rightarrow> int \<Rightarrow> bool" where
  "tells x y r t \<longleftrightarrow> (r = 0 \<longleftrightarrow> t = 0) \<and> (ascii (chars x) \<and> ascii (chars y) \<longrightarrow> sgn r = t)"

lemma tells_single:
  assumes "i < clen x" and "j < clen y"
  shows "tells x y (scode (chars x ! i) - scode (chars y ! j)) (sgn (ucode (chars x ! i) - ucode (chars y ! j)))"
  using assms by (auto simp: tells_def sgn_ucode ascii_scode)

lemma ncmp_loop_spec:
  assumes x: "NUL \<notin> set (chars x)" "clen x < 2147483648" and y: "clen y < 2147483648" and len: "len < 4294967296"
  shows "at_pos x i p \<Longrightarrow> at_pos y j q \<Longrightarrow> clen x < i + k \<Longrightarrow> count \<le> i \<Longrightarrow>
    \<exists>r. ncmp_loop k count len p q = Inr r \<and> tells x y r (cmp_text (take (len - count) (drop i (chars x))) (take (len - count) (drop j (chars y))))"
proof (induction k arbitrary: i j p q count)
  case 0
  then show ?case by (simp add: at_pos_def)
next
  case (Suc k)
  note v = at_pos_valid [OF Suc.prems(1)] at_pos_valid [OF Suc.prems(2)]
  let ?m = "len - count" and ?X = "chars x" and ?Y = "chars y"
  show ?case
  proof (cases "count < len \<and> i < clen x \<and> j < clen y")
    case False
    then show ?thesis using v ends_spec [of i ?X j ?Y ?m] by (auto simp: tells_def)
  next
    case True
    have px: "pos_at x i p" "in_cache p" and py: "pos_at y j q" "in_cache q" using Suc.prems True by (auto simp: at_pos_def)
    note lx = chars_left_small [OF px(1) x(2)] and ly = chars_left_small [OF py(1) y]
    have lens: "clen x < 4294967288" "clen y < 4294967288" using x(2) y by simp_all
    show ?thesis
    proof (cases "CORD_pos_chars_left p \<le> 0 \<or> CORD_pos_chars_left q \<le> 0")
      case single: True
      obtain p' q' where n: "CORD_next_m p = Inr p'" "at_pos x (Suc i) p'" "CORD_next_m q = Inr q'" "at_pos y (Suc j) q'"
        using at_pos_next [OF Suc.prems(1) _ lens(1)] at_pos_next [OF Suc.prems(2) _ lens(2)] True by blast
      have z: "sz (count + 1) = count + 1" using Suc.prems(4) True x(2) by simp
      have e: "ncmp_loop (Suc k) count len p q = (if ?X ! i \<noteq> ?Y ! j then Inr (scode (?X ! i) - scode (?Y ! j)) else ncmp_loop k (count + 1) len p' q')"
        using True single v n fetch_spec(2) [OF px] fetch_spec(2) [OF py] z by (simp add: Let_def)
      have s: "cmp_text (take ?m (drop i ?X)) (take ?m (drop j ?Y)) =
          (if ?X ! i \<noteq> ?Y ! j then sgn (ucode (?X ! i) - ucode (?Y ! j)) else cmp_text (take (?m - 1) (drop (Suc i) ?X)) (take (?m - 1) (drop (Suc j) ?Y)))"
        using True by (cases ?m) (simp_all flip: Cons_nth_drop_Suc)
      show ?thesis
      proof (cases "?X ! i = ?Y ! j")
        case eq: True
        then show ?thesis using e s Suc.IH [OF n(2,4), of "count + 1"] Suc.prems(3,4) by simp
      next
        case ne: False
        then show ?thesis using e s tells_single [of i x j y] True by simp
      qed
    next
      case batch: False
      then have ee: "cur_end p \<noteq> 0" "cur_end q \<noteq> 0" using lx ly by auto
      note cx = cache_text [OF px ee(1)] and cy = cache_text [OF py ee(2)]
      define a where "a = min (cur_end p - i) (cur_end q - j)"
      define n where "n = min a ?m"
      have n: "0 < n" "n \<le> cur_end p - i" "n \<le> cur_end q - j" "n \<le> ?m" using cx(1) cy(1) True by (auto simp: n_def a_def)
      have a: "nat (if CORD_pos_chars_left p > CORD_pos_chars_left q then CORD_pos_chars_left q else CORD_pos_chars_left p) = a"
        unfolding lx ly a_def using cx(1) cy(1) by auto
      have z: "sz (count + a) = count + a" using Suc.prems(4) cx(1,2) x(2) by (simp add: a_def)
      have na: "(if count + a > len then szsub a (count + a - len) else a) = n"
      proof (cases "count + a > len")
        case more: True
        have "a < 4294967296" using cx(2) x(2) by (simp add: a_def)
        then have "szsub a (count + a - len) = a - (count + a - len)" using True by (intro szsub_small) linarith+
        then show ?thesis using more True by (simp add: n_def)
      qed (simp add: n_def)
      note b = batch_step [OF px ee(1) py ee(2) n(1-3) x(1) lens]
      obtain p' q' where ad: "CORD_pos_advance p n = Inr p'" "at_pos x (i + n) p'" "CORD_pos_advance q n = Inr q'" "at_pos y (j + n) q'"
        using b(2,3) by blast
      have c: "(\<not> count < len) = False" "(\<not> CORD_pos_valid p) = False" "(\<not> CORD_pos_valid q) = False"
        "(CORD_pos_chars_left p \<le> 0 \<or> CORD_pos_chars_left q \<le> 0) = False" using True v batch by simp_all
      have e: "ncmp_loop (Suc k) count len p q = (if cmp_text (part x i n) (part y j n) \<noteq> 0 then Inr (cmp_text (part x i n) (part y j n))
          else ncmp_loop k (count + a) len p' q')"
        unfolding ncmp_loop.simps Let_def c if_False a z na b(1) bindE.simps ad(1,3) ..
      have "cmp_text (take ?m (drop i ?X)) (take ?m (drop j ?Y)) =
          (if part x i n = part y j n then cmp_text (take (?m - n) (drop (i + n) ?X)) (take (?m - n) (drop (j + n) ?Y)) else cmp_text (part x i n) (part y j n))"
        by (rule batch_split) (use n cx(2) cy(2) in auto)
      moreover have "?m - n = len - (count + a)" by (auto simp: n_def)
      moreover have "\<exists>r. ncmp_loop k (count + a) len p' q' = Inr r \<and>
          tells x y r (cmp_text (take (len - (count + a)) (drop (i + n) ?X)) (take (len - (count + a)) (drop (j + n) ?Y)))"
      proof (cases "count + a < len")
        case True
        then have "n = a" by (simp add: n_def)
        then show ?thesis using Suc.IH [OF ad(2,4), of "count + a"] Suc.prems(3,4) n(1) by simp
      next
        case False
        have "i + n \<le> clen x" using n(2) cx(1,2) by simp
        then have "0 < k" using Suc.prems(3) n(1) by simp
        then show ?thesis using False by (cases k) (simp_all add: tells_def)
      qed
      ultimately show ?thesis using e by (auto simp: cmp_text_eq tells_def simp del: ncmp_loop.simps)
    qed
  qed
qed

text \<open>
  \<^verbatim>\<open>CORD_ncmp\<close> compares two parts of at most \<open>len\<close> characters, also across function nodes, when both cords hold
  7-bit characters other than NUL and are shorter than \<^verbatim>\<open>2^31\<close>: its result is negative, zero or positive as the first part is less than,
  equal to or greater than the second one.
\<close>

theorem cord_ncmp_orders:
  assumes "is_cord x" and "ascii (chars x)" and "length (chars x) < 2147483648" and "x_start \<le> length (chars x)"
    and "is_cord y" and "ascii (chars y)" and "length (chars y) < 2147483648" and "y_start \<le> length (chars y)"
    and "length (path xp) = 49" and "length (function_buf xp) = FUNCTION_BUF_SZ"
    and "length (path yp) = 49" and "length (function_buf yp) = FUNCTION_BUF_SZ" and "length (chars x) < k" and "len < 4294967296"
  shows "\<exists>r. CORD_ncmp k xp yp x x_start y y_start len = Inr r \<and>
    sgn r = cmp_text (take len (drop x_start (chars x))) (take len (drop y_start (chars y)))"
proof -
  obtain p where p: "CORD_set_pos xp x x_start = Inr p" "at_pos x x_start p" using at_pos_start [OF assms(1,9,10,4)] by auto
  obtain q where q: "CORD_set_pos yp y y_start = Inr q" "at_pos y y_start q" using at_pos_start [OF assms(5,11,12,8)] by auto
  have "NUL \<notin> set (chars x)" using assms(2) by (auto simp: ascii_def)
  then show ?thesis using ncmp_loop_spec [OF _ assms(3,7,14) p(2) q(2), of k 0] assms(2,6,13) p(1) q(1)
    by (auto simp: CORD_ncmp_def tells_def)
qed

theorem cord_ncmp_orders_witness:
  "\<exists>r. CORD_ncmp 5 pos0 pos0 (Conc 1 2 4 (Str ''ab'') (Func 2 (\<lambda>i. CHR ''c''))) 1 (Str ''xbcd'') 1 3 = Inr r \<and> sgn r = -1"
proof -
  let ?x = "Conc 1 2 4 (Str ''ab'') (Func 2 (\<lambda>i. CHR ''c''))"
  have c: "chars ?x = ''abcc''" by (simp add: upt_rec)
  have "is_cord ?x" by (simp add: is_cord_def MAX_LEFT_LEN_def)
  then show ?thesis
    using cord_ncmp_orders [of ?x 1 "Str ''xbcd''" 1 pos0 pos0 5 3] pos0_size unfolding c
    by (simp add: ascii_def ucode_def sgn_if)
qed

end
