(* ===== verification/Cord_Str.thy ===== *)
theory Cord_Str
  imports Cord_Cmp
begin

text \<open>
  Searching for a cord in a cord: \<^verbatim>\<open>CORD_str\<close> of \<^verbatim>\<open>gc/cord/cordxtra.c\<close>.  The first few characters of the text sought are
  packed into an \<^verbatim>\<open>unsigned long\<close> (4 bytes) and compared with a window that slides over the other cord; only where they
  agree the rest is compared by \<^verbatim>\<open>CORD_ncmp\<close>.
\<close>

unbundle bit_operations_syntax

section \<open>Operations\<close>

type_synonym ulong = "32 word"

text \<open>One turn shifts a character into a word.\<close>

definition shift_in :: "char \<Rightarrow> ulong \<Rightarrow> ulong" where
  "shift_in c w = push_bit 8 w OR word_of_int (ucode c)"

text \<open>The loop over the first \<open>k\<close> characters, from the \<open>i\<close>-th on.\<close>

fun str_start :: "nat \<Rightarrow> nat \<Rightarrow> string \<Rightarrow> ulong \<Rightarrow> ulong \<Rightarrow> ulong \<Rightarrow> CORD_pos \<Rightarrow> (ulong \<times> ulong \<times> ulong \<times> CORD_pos) res" where
  "str_start 0 i s_start msk s_buf x_buf xpos = Inr (msk, s_buf, x_buf, xpos)"
| "str_start (Suc k) i s_start msk s_buf x_buf xpos =
     bindE (nthE s_start i) (\<lambda>c. bindE (CORD_pos_fetch_m xpos) (\<lambda>d. bindE (CORD_next_m xpos) (\<lambda>xpos.
     str_start k (i + 1) s_start (push_bit 8 msk OR 0xff) (shift_in c s_buf) (shift_in d x_buf) xpos)))"

text \<open>
  The search loop; \<open>k\<close> bounds its turns and \<open>n\<close> those of each comparison, whose two positions are \<open>xp\<close> and \<open>yp\<close>.
\<close>

fun str_loop :: "nat \<Rightarrow> nat \<Rightarrow> CORD_pos \<Rightarrow> CORD_pos \<Rightarrow> cord \<Rightarrow> cord \<Rightarrow> nat \<Rightarrow> nat \<Rightarrow> nat \<Rightarrow> ulong \<Rightarrow> ulong \<Rightarrow> ulong \<Rightarrow> CORD_pos \<Rightarrow> nat \<Rightarrow> nat res" where
  "str_loop 0 n xp yp x s xlen slen start_len msk s_buf x_buf xpos match_pos = Inl Diverge"
| "str_loop (Suc k) n xp yp x s xlen slen start_len msk s_buf x_buf xpos match_pos =
     bindE (if x_buf AND msk = s_buf
            then if slen = start_len then Inr True
                 else bindE (CORD_ncmp n xp yp x (sz (match_pos + start_len)) s start_len (szsub slen start_len)) (\<lambda>r. Inr (r = 0))
            else Inr False) (\<lambda>found.
     if found then Inr match_pos
     else if match_pos = szsub xlen slen then Inr CORD_NOT_FOUND
     else bindE (CORD_pos_fetch_m xpos) (\<lambda>d. bindE (CORD_next_m xpos) (\<lambda>xpos.
          str_loop k n xp yp x s xlen slen start_len msk s_buf (shift_in d x_buf) xpos (sz (match_pos + 1)))))"

text \<open>
  \<open>mem\<close> is the memory of a new C string, \<open>p\<close> the position of the search on the stack.
\<close>

definition CORD_str :: "nat \<Rightarrow> (nat \<Rightarrow> string) \<Rightarrow> CORD_pos \<Rightarrow> CORD_pos \<Rightarrow> CORD_pos \<Rightarrow> cord \<Rightarrow> nat \<Rightarrow> cord \<Rightarrow> nat res" where
  "CORD_str k mem p xp yp x start s =
     (let xlen = CORD_len x in
      if s = Empty then Inr start
      else bindE (case s of
            Str t \<Rightarrow> Inr (t @ [NUL], length t)
          | _ \<Rightarrow> bindE (CORD_substr s 0 4) (\<lambda>z. bindE (CORD_to_char_star mem z) (\<lambda>t. Inr (t, CORD_len s)))) (\<lambda>(s_start, slen).
      if xlen < start \<or> szsub xlen start < slen then Inr CORD_NOT_FOUND
      else let start_len = (if slen > 4 then 4 else slen) in
           bindE (CORD_set_pos p x start) (\<lambda>xpos.
           bindE (str_start start_len 0 s_start 0 0 0 xpos) (\<lambda>(msk, s_buf, x_buf, xpos).
           str_loop k k xp yp x s xlen slen start_len msk s_buf x_buf xpos start))))"

section \<open>Characters in a word\<close>

text \<open>The low bytes of a word are the last characters of a text.\<close>

definition holds :: "ulong \<Rightarrow> string \<Rightarrow> bool" where
  "holds w cs \<longleftrightarrow> (\<forall>i<8 * length cs. i < 32 \<longrightarrow> bit w i = bit (ucode (rev cs ! (i div 8))) (i mod 8))"

lemma ucode_bits: "8 \<le> n \<Longrightarrow> \<not> bit (ucode c) n"
proof -
  assume n: "8 \<le> n"
  have "take_bit 8 (ucode c) = ucode c" using ucode_range [of c] by (simp add: take_bit_eq_mod)
  then show ?thesis using n bit_take_bit_iff [of 8 "ucode c" n] by simp
qed

lemma bit_shift_in: "bit (shift_in c w) i \<longleftrightarrow> i < 32 \<and> (if i < 8 then bit (ucode c) i else bit w (i - 8))"
  using ucode_bits [of i c] by (auto simp: shift_in_def bit_or_iff bit_push_bit_iff bit_word_of_int_iff)

lemma holds_Nil [simp]: "holds w []"
  by (simp add: holds_def)

lemma holds_shift_in: "holds w cs \<Longrightarrow> holds (shift_in c w) (cs @ [c])"
  unfolding holds_def
proof (intro allI impI)
  fix i assume h: "\<forall>i<8 * length cs. i < 32 \<longrightarrow> bit w i = bit (ucode (rev cs ! (i div 8))) (i mod 8)"
    and i: "i < 8 * length (cs @ [c])" "i < 32"
  show "bit (shift_in c w) i = bit (ucode (rev (cs @ [c]) ! (i div 8))) (i mod 8)"
  proof (cases "i < 8")
    case True
    then show ?thesis by (simp add: bit_shift_in)
  next
    case False
    then obtain j where j: "i = j + 8" by (metis add.commute le_add_diff_inverse not_less)
    moreover have "(j + 8) div 8 = Suc (j div 8)" by simp
    ultimately show ?thesis using h i by (simp add: bit_shift_in)
  qed
qed

lemma holds_tl: "holds w (c # cs) \<Longrightarrow> holds w cs"
  unfolding holds_def
proof (intro allI impI)
  fix i assume h: "\<forall>i<8 * length (c # cs). i < 32 \<longrightarrow> bit w i = bit (ucode (rev (c # cs) ! (i div 8))) (i mod 8)"
    and i: "i < 8 * length cs" "i < 32"
  have "i div 8 < length cs" using i by (simp add: less_mult_imp_div_less mult.commute)
  then show "bit w i = bit (ucode (rev cs ! (i div 8))) (i mod 8)" using h i by (simp add: nth_append)
qed

lemma char_bits_eq:
  assumes "\<And>j. j < 8 \<Longrightarrow> bit (ucode c) j = bit (ucode d) j"
  shows "c = d"
proof -
  have "bit (ucode c) j = bit (ucode d) j" for j using assms [of j] ucode_bits [of j c] ucode_bits [of j d] by (cases "j < 8") auto
  then have "ucode c = ucode d" by (simp add: bit_eq_iff)
  then show ?thesis by simp
qed

text \<open>Words compared under the mask compare the characters.\<close>

lemma holds_eq:
  assumes w: "holds w cs" and v: "holds v ds" and len: "length cs = n" "length ds = n" "n \<le> 4"
    and high: "\<And>i. 8 * n \<le> i \<Longrightarrow> \<not> bit v i" and m: "\<And>i. bit m i \<longleftrightarrow> i < 8 * n"
  shows "w AND m = v \<longleftrightarrow> cs = ds"
proof -
  have low: "i < 8 * n" if "bit v i" for i using high that not_less by blast
  have n32: "i < 32" if "i < 8 * n" for i using that len(3) by simp
  have "w AND m = v \<longleftrightarrow> (\<forall>i<8 * n. bit w i = bit v i)"
    using low n32 by (auto simp: bit_eq_iff bit_and_iff m)
  also have "\<dots> \<longleftrightarrow> (\<forall>i<8 * n. bit (ucode (rev cs ! (i div 8))) (i mod 8) = bit (ucode (rev ds ! (i div 8))) (i mod 8))"
    using w v len n32 by (simp add: holds_def)
  also have "\<dots> \<longleftrightarrow> rev cs = rev ds"
  proof (intro iffI nth_equalityI)
    assume h: "\<forall>i<8 * n. bit (ucode (rev cs ! (i div 8))) (i mod 8) = bit (ucode (rev ds ! (i div 8))) (i mod 8)"
    fix t assume "t < length (rev cs)"
    then have t: "t < n" using len by simp
    show "rev cs ! t = rev ds ! t"
    proof (rule char_bits_eq)
      fix j :: nat assume "j < 8"
      then show "bit (ucode (rev cs ! t)) j = bit (ucode (rev ds ! t)) j" using h [rule_format, of "8 * t + j"] t by simp
    qed
  qed (use len in auto)
  finally show ?thesis by simp
qed

section \<open>The window\<close>

text \<open>After \<open>n\<close> characters at position \<open>m\<close>: the mask, the start \<open>b\<close> of the text sought, the window \<open>w\<close> and the position.\<close>

definition sought :: "string \<Rightarrow> nat \<Rightarrow> ulong \<Rightarrow> ulong \<Rightarrow> bool" where
  "sought t n msk b \<longleftrightarrow> (\<forall>j. bit msk j \<longleftrightarrow> j < 8 * n) \<and> holds b (take n t) \<and> (\<forall>j\<ge>8 * n. \<not> bit b j)"

definition window :: "cord \<Rightarrow> nat \<Rightarrow> nat \<Rightarrow> ulong \<Rightarrow> CORD_pos \<Rightarrow> bool" where
  "window x m n w p \<longleftrightarrow> holds w (part x m n) \<and> at_pos x (m + n) p"

lemma sought_Nil: "sought t 0 0 0"
  by (simp add: sought_def)

lemma sought_Suc:
  assumes "sought t n msk b" and "n < 4" and "n < length t"
  shows "sought t (Suc n) (push_bit 8 msk OR 0xff) (shift_in (t ! n) b)"
proof -
  have ff: "bit (0xff :: ulong) j \<longleftrightarrow> j < 8" for j
  proof -
    have m: "(0xff :: ulong) = mask 8" by (simp add: mask_eq_exp_minus_1)
    show ?thesis unfolding m bit_mask_iff by auto
  qed
  have "bit (push_bit 8 msk OR 0xff) j \<longleftrightarrow> j < 8 * Suc n" for j
    unfolding bit_or_iff ff using assms(1,2) by (auto simp: sought_def bit_push_bit_iff)
  then show ?thesis using assms by (auto simp: sought_def bit_shift_in take_Suc_conv_app_nth intro: holds_shift_in)
qed

lemma part_snoc: "m + n < clen x \<Longrightarrow> part x m n @ [chars x ! (m + n)] = part x m (Suc n)"
  by (simp add: take_Suc_conv_app_nth)

lemma part_slide: "m + n < clen x \<Longrightarrow> part x m (Suc n) = chars x ! m # part x (Suc m) n"
  by (simp flip: Cons_nth_drop_Suc)

lemma window_next:
  assumes w: "window x m n w p" and i: "m + n < clen x" and len: "clen x < 4294967288"
  obtains d q where "CORD_pos_fetch_m p = Inr d" and "CORD_next_m p = Inr q"
    and "window x m (Suc n) (shift_in d w) q" and "window x (Suc m) n (shift_in d w) q"
proof -
  have p: "at_pos x (m + n) p" using w by (simp add: window_def)
  have d: "CORD_pos_fetch_m p = Inr (chars x ! (m + n))" using fetch_spec(2) [of x "m + n" p] p i by (simp add: at_pos_def)
  obtain q where q: "CORD_next_m p = Inr q" "at_pos x (Suc (m + n)) q" using at_pos_next [OF p i len] by blast
  have h: "holds (shift_in (chars x ! (m + n)) w) (part x m (Suc n))"
    unfolding part_snoc [OF i, symmetric] by (rule holds_shift_in) (use w in \<open>simp add: window_def\<close>)
  then have "holds (shift_in (chars x ! (m + n)) w) (part x (Suc m) n)" unfolding part_slide [OF i] by (rule holds_tl)
  then show thesis using that [OF d q(1)] h q(2) by (simp add: window_def)
qed

lemma str_start_spec:
  assumes len: "clen x < 4294967288"
  shows "sought t i msk b \<Longrightarrow> window x m i w p \<Longrightarrow> i + k \<le> 4 \<Longrightarrow> i + k \<le> length t \<Longrightarrow> m + i + k \<le> clen x \<Longrightarrow>
    \<exists>msk' b' w' p'. str_start k i t msk b w p = Inr (msk', b', w', p') \<and> sought t (i + k) msk' b' \<and> window x m (i + k) w' p'"
proof (induction k arbitrary: i msk b w p)
  case (Suc k)
  obtain d q where d: "CORD_pos_fetch_m p = Inr d" "CORD_next_m p = Inr q" "window x m (Suc i) (shift_in d w) q"
    using window_next [OF Suc.prems(2) _ len] Suc.prems(5) by (metis add_Suc_right le_add1 le_trans less_eq_Suc_le add_Suc)
  have "sought t (Suc i) (push_bit 8 msk OR 0xff) (shift_in (t ! i) b)" using sought_Suc Suc.prems by simp
  from Suc.IH [OF this d(3)] show ?case using Suc.prems d by simp
qed simp

text \<open>A text occurs at a position; the first position from \<open>m\<close> on, if there is one.\<close>

definition occurs :: "string \<Rightarrow> string \<Rightarrow> nat \<Rightarrow> bool" where
  "occurs u t j \<longleftrightarrow> j + length t \<le> length u \<and> take (length t) (drop j u) = t"

definition is_first :: "string \<Rightarrow> string \<Rightarrow> nat \<Rightarrow> nat \<Rightarrow> bool" where
  "is_first u t m r \<longleftrightarrow>
     (if r = CORD_NOT_FOUND then \<forall>j\<ge>m. \<not> occurs u t j else m \<le> r \<and> occurs u t r \<and> (\<forall>j. m \<le> j \<and> j < r \<longrightarrow> \<not> occurs u t j))"

lemma first_earlier:
  assumes "is_first u t (Suc m) r" and "\<not> occurs u t m"
  shows "is_first u t m r"
proof -
  have "\<not> occurs u t j" if "m \<le> j" "Suc m \<le> j \<longrightarrow> \<not> occurs u t j" for j using that assms(2) by (cases "j = m") auto
  then show ?thesis using assms(1) unfolding is_first_def by (cases "r = CORD_NOT_FOUND") auto
qed

lemma occurs_split:
  assumes "n \<le> length t" and "m + length t \<le> length u"
  shows "occurs u t m \<longleftrightarrow> take n (drop m u) = take n t \<and> take (length t - n) (drop (m + n) u) = drop n t"
proof -
  have "take (length t) (drop m u) = take n (drop m u) @ take (length t - n) (drop (m + n) u)"
    using take_add [of n "length t - n" "drop m u"] assms(1) by (simp add: add.commute)
  moreover have "length (take n (drop m u)) = length (take n t)" using assms by simp
  ultimately show ?thesis using assms(2) append_take_drop_id [of n t] unfolding occurs_def by (metis append_eq_append_conv)
qed

section \<open>The search\<close>

lemma ncmp_equal:
  assumes "is_cord x" and "NUL \<notin> set (chars x)" and "clen x < 2147483648" and "i \<le> clen x"
    and "is_cord y" and "clen y < 2147483648" and "j \<le> clen y"
    and "length (path xp) = 49" and "length (function_buf xp) = FUNCTION_BUF_SZ"
    and "length (path yp) = 49" and "length (function_buf yp) = FUNCTION_BUF_SZ" and "clen x < k" and "len < 4294967296"
  shows "\<exists>r. CORD_ncmp k xp yp x i y j len = Inr r \<and> (r = 0 \<longleftrightarrow> part x i len = part y j len)"
proof -
  obtain p where p: "CORD_set_pos xp x i = Inr p" "at_pos x i p" using at_pos_start [OF assms(1,8,9,4)] by auto
  obtain q where q: "CORD_set_pos yp y j = Inr q" "at_pos y j q" using at_pos_start [OF assms(5,10,11,7)] by auto
  show ?thesis using ncmp_loop_spec [OF assms(2,3,6,13) p(2) q(2), of k 0] assms(12) p(1) q(1)
    by (auto simp: CORD_ncmp_def tells_def cmp_text_eq)
qed

text \<open>What the search needs of its cords and of the two positions of a comparison.\<close>

definition searchable :: "cord \<Rightarrow> cord \<Rightarrow> CORD_pos \<Rightarrow> CORD_pos \<Rightarrow> bool" where
  "searchable x s xp yp \<longleftrightarrow> is_cord x \<and> clen x < 2147483648 \<and> is_cord s \<and> clen s < 2147483648 \<and>
     (clen s \<le> 4 \<or> NUL \<notin> set (chars x)) \<and> length (path xp) = 49 \<and> length (function_buf xp) = FUNCTION_BUF_SZ \<and>
     length (path yp) = 49 \<and> length (function_buf yp) = FUNCTION_BUF_SZ"

text \<open>The test of one turn.\<close>

lemma str_test:
  assumes ok: "searchable x s xp yp" and b: "sought t a msk b" "take a t = take a (chars s)" and w: "window x m a w p"
    and a: "a = min 4 (clen s)" and m: "m + clen s \<le> clen x" and n: "clen x < n"
  shows "(if w AND msk = b
          then if clen s = a then Inr True
               else bindE (CORD_ncmp n xp yp x (sz (m + a)) s a (szsub (clen s) a)) (\<lambda>r. Inr (r = 0))
          else Inr False) = Inr (occurs (chars x) (chars s) m)"
proof -
  have eq: "w AND msk = b \<longleftrightarrow> part x m a = take a (chars s)"
    by (rule holds_eq [of _ _ _ _ a]) (use b w a m in \<open>auto simp: sought_def window_def\<close>)
  have occ: "occurs (chars x) (chars s) m \<longleftrightarrow> part x m a = take a (chars s) \<and> part x (m + a) (clen s - a) = drop a (chars s)"
    by (rule occurs_split) (use a m in auto)
  show ?thesis
  proof (cases "clen s = a")
    case True
    then show ?thesis using occ eq by auto
  next
    case False
    have long: "a = 4" "4 < clen s" using False a by auto
    have z: "sz (m + a) = m + a" "szsub (clen s) a = clen s - a"
      using ok m a by (auto simp: searchable_def intro!: sz_small szsub_small)
    have less_len: "clen s - 4 < 4294967296" using ok by (auto simp: searchable_def)
    obtain r where r: "CORD_ncmp n xp yp x (m + a) s a (clen s - a) = Inr r"
      "r = 0 \<longleftrightarrow> part x (m + a) (clen s - a) = part s a (clen s - a)"
      using ncmp_equal [of x "m + a" s a xp yp n "clen s - a"] ok long m n less_len by (auto simp: searchable_def)
    then show ?thesis using False occ eq unfolding z by auto
  qed
qed

lemma str_loop_spec:
  assumes ok: "searchable x s xp yp" and b: "sought t a msk b" "take a t = take a (chars s)"
    and a: "a = min 4 (clen s)" "0 < clen s" and n: "clen x < n"
  shows "window x m a w p \<Longrightarrow> m + clen s \<le> clen x \<Longrightarrow> clen x < m + clen s + k \<Longrightarrow>
    \<exists>r. str_loop k n xp yp x s (clen x) (clen s) a msk b w p m = Inr r \<and> is_first (chars x) (chars s) m r"
proof (induction k arbitrary: m w p)
  case (Suc k)
  note test = str_test [OF ok b Suc.prems(1) a(1) Suc.prems(2) n]
  let ?X = "chars x" and ?S = "chars s"
  have l: "clen x < 2147483648" using ok by (simp add: searchable_def)
  have z: "szsub (clen x) (clen s) = clen x - clen s" "sz (m + 1) = Suc m" using Suc.prems(2) l by (simp_all add: szsub_small)
  have mn: "m \<noteq> CORD_NOT_FOUND" using Suc.prems(2) l by (simp add: CORD_NOT_FOUND_def)
  have step: "str_loop (Suc k) n xp yp x s (clen x) (clen s) a msk b w p m =
      (if occurs ?X ?S m then Inr m else if m = clen x - clen s then Inr CORD_NOT_FOUND
       else bindE (CORD_pos_fetch_m p) (\<lambda>d. bindE (CORD_next_m p) (\<lambda>q.
            str_loop k n xp yp x s (clen x) (clen s) a msk b (shift_in d w) q (Suc m))))"
    unfolding str_loop.simps test bindE.simps z ..
  consider "occurs ?X ?S m" | "\<not> occurs ?X ?S m" "m = clen x - clen s" | "\<not> occurs ?X ?S m" "m + clen s < clen x" "m \<noteq> clen x - clen s"
    using Suc.prems(2) by linarith
  then show ?case
  proof cases
    case 1
    then show ?thesis unfolding step using mn by (auto simp: is_first_def)
  next
    case 2
    have "\<not> occurs ?X ?S j" if "j \<ge> m" for j using 2 that Suc.prems(2) by (cases "j = m") (auto simp: occurs_def)
    then show ?thesis unfolding step using 2 by (simp add: is_first_def)
  next
    case 3
    have i: "m + a < clen x" using 3(2) a by auto
    obtain d q where d: "CORD_pos_fetch_m p = Inr d" "CORD_next_m p = Inr q" "window x (Suc m) a (shift_in d w) q"
      by (rule window_next [OF Suc.prems(1) i]) (use l in simp)
    obtain r where r: "str_loop k n xp yp x s (clen x) (clen s) a msk b (shift_in d w) q (Suc m) = Inr r" "is_first ?X ?S (Suc m) r"
      using Suc.IH [OF d(3)] 3(2) Suc.prems(3) by auto
    moreover have "is_first ?X ?S m r" by (rule first_earlier [OF r(2) 3(1)])
    ultimately show ?thesis unfolding step using d(1,2) 3(1,3) by simp
  qed
qed simp

text \<open>The characters of the text sought, as a C string.\<close>

lemma sought_text:
  assumes "is_cord s" and "s \<noteq> Empty" and "clen s < 2147483648" and "\<And>n. length (mem n) = n"
  shows "\<exists>t. (case s of
      Str t \<Rightarrow> Inr (t @ [NUL], length t)
    | _ \<Rightarrow> bindE (CORD_substr s 0 4) (\<lambda>z. bindE (CORD_to_char_star mem z) (\<lambda>t. Inr (t, CORD_len s)))) = Inr (t @ [NUL], clen s) \<and>
      take (min 4 (clen s)) t = take (min 4 (clen s)) (chars s) \<and> min 4 (clen s) \<le> length t"
proof (cases "CORD_IS_STRING s")
  case True
  then show ?thesis by (cases s) auto
next
  case False
  obtain z where z: "CORD_substr s 0 4 = Inr z" "is_cord z" "chars z = take 4 (chars s)"
    using substr_part [OF assms(1,3), of 0 4] by auto
  moreover have "CORD_to_char_star mem z = Inr (take 4 (chars s) @ [NUL])" using to_char_star_text [OF z(2)] z(3) assms(4) by simp
  moreover have "CORD_len s = clen s" using assms(1,2) cord_len(1) by (auto simp: is_cord_def CORD_len_def)
  ultimately have "(case s of
      Str t \<Rightarrow> Inr (t @ [NUL], length t)
    | _ \<Rightarrow> bindE (CORD_substr s 0 4) (\<lambda>z. bindE (CORD_to_char_star mem z) (\<lambda>t. Inr (t, CORD_len s)))) = Inr (take 4 (chars s) @ [NUL], clen s)"
    using False by (cases s) (simp_all del: chars.simps)
  then show ?thesis by (intro exI [of _ "take 4 (chars s)"]) simp
qed

lemma str_finds:
  assumes ok: "searchable x s xp yp" and p: "length (path p) = 49" "length (function_buf p) = FUNCTION_BUF_SZ"
    and mem: "\<And>n. length (mem n) = n" and k: "clen x < k" and start: "s = Empty \<longrightarrow> start \<le> clen x" "start < 4294967296"
  shows "\<exists>r. CORD_str k mem p xp yp x start s = Inr r \<and> is_first (chars x) (chars s) start r"
proof (cases "s = Empty")
  case True
  then show ?thesis using start ok by (auto simp: CORD_str_def is_first_def occurs_def searchable_def CORD_NOT_FOUND_def)
next
  case False
  let ?S = "chars s" and ?X = "chars x" and ?a = "min 4 (clen s)"
  have x: "is_cord x" "clen x < 2147483648" and s: "is_cord s" "clen s < 2147483648" using ok by (auto simp: searchable_def)
  have s0: "0 < clen s" using s(1) False cord_len(2) by (auto simp: is_cord_def)
  have xl: "CORD_len x = clen x" using x(1) cord_len(1) by (auto simp: is_cord_def CORD_len_def)
  obtain t where t: "(case s of
      Str t \<Rightarrow> Inr (t @ [NUL], length t)
    | _ \<Rightarrow> bindE (CORD_substr s 0 4) (\<lambda>z. bindE (CORD_to_char_star mem z) (\<lambda>t. Inr (t, CORD_len s)))) = Inr (t @ [NUL], clen s)"
    "take ?a t = take ?a ?S" "?a \<le> length t" using sought_text [OF s(1) False s(2) mem] by blast
  show ?thesis
  proof (cases "clen x < start \<or> clen x - start < clen s")
    case none: True
    then have "CORD_str k mem p xp yp x start s = Inr CORD_NOT_FOUND"
      using False x(2) by (auto simp: CORD_str_def Let_def t(1) xl szsub_small)
    moreover have "is_first ?X ?S start CORD_NOT_FOUND" using none s0 by (auto simp: is_first_def occurs_def)
    ultimately show ?thesis by blast
  next
    case fits: False
    then have m: "start \<le> clen x" "start + clen s \<le> clen x" by auto
    have min_m: "start + ?a \<le> clen x" using m(2) by linarith
    obtain q where q: "CORD_set_pos p x start = Inr q" "at_pos x start q" using at_pos_start [OF x(1) p m(1)] by blast
    obtain msk b w q' where st: "str_start ?a 0 (t @ [NUL]) 0 0 0 q = Inr (msk, b, w, q')" "sought (t @ [NUL]) ?a msk b" "window x start ?a w q'"
      using str_start_spec [of x "t @ [NUL]" 0 0 0 start 0 q ?a] sought_Nil q(2) x(2) t(3) min_m by (auto simp: window_def)
    have "take ?a (t @ [NUL]) = take ?a ?S" using t(2,3) by simp
    then obtain r where r: "str_loop k k xp yp x s (clen x) (clen s) ?a msk b w q' start = Inr r" "is_first ?X ?S start r"
      using str_loop_spec [OF ok st(2) _ refl s0 k st(3) m(2), of k] k by (auto simp del: take_append)
    have "szsub (clen x) start = clen x - start" using m(1) x(2) by (simp add: szsub_small)
    moreover have "(if clen s > 4 then 4 else clen s) = ?a" by simp
    ultimately have "CORD_str k mem p xp yp x start s = Inr r"
      using False fits r(1) st(1) q(1) unfolding CORD_str_def Let_def t(1) xl by simp
    then show ?thesis using r(2) by blast
  qed
qed

section \<open>Results\<close>

text \<open>
  C21. For cords of less than \<^verbatim>\<open>2^31\<close> characters of any structure, where the first cord has no NUL character if the second one has more
  than four characters, and \<open>start\<close> is not behind the first cord if the second one is empty: \<^verbatim>\<open>CORD_str\<close> returns the first
  position from \<open>start\<close> on at which the text of the second cord occurs in the first one, or \<^verbatim>\<open>CORD_NOT_FOUND\<close> if there is none.
  The search takes no more turns than the first cord has characters, plus one.
\<close>

theorem cord_str_finds:
  assumes "searchable x s xp yp" and "length (path p) = 49" and "length (function_buf p) = FUNCTION_BUF_SZ"
    and "\<forall>n. length (mem n) = n" and "length (chars x) < k" and "s = Empty \<longrightarrow> start \<le> length (chars x)" and "start < 4294967296"
  shows "\<exists>r. CORD_str k mem p xp yp x start s = Inr r \<and>
    (if \<exists>j\<ge>start. occurs (chars x) (chars s) j then r = (LEAST j. start \<le> j \<and> occurs (chars x) (chars s) j) else r = CORD_NOT_FOUND)"
proof -
  obtain r where r: "CORD_str k mem p xp yp x start s = Inr r" "is_first (chars x) (chars s) start r"
    using str_finds [OF assms(1-3) _ assms(5-7)] assms(4) by blast
  have "r = (LEAST j. start \<le> j \<and> occurs (chars x) (chars s) j)" if "r \<noteq> CORD_NOT_FOUND"
    using r(2) that unfolding is_first_def by (intro Least_equality [symmetric]) (auto simp: not_less [symmetric])
  then show ?thesis using r unfolding is_first_def by (metis (no_types, lifting))
qed

theorem cord_str_finds_witness:
  "CORD_str 17 (\<lambda>n. replicate n CHR ''?'') pos0 pos0 pos0 (Conc 1 5 16 (Str ''brown'') (Str '' fox jumped'')) 1 (Str ''wn fox'') = Inr 3"
proof -
  let ?x = "Conc 1 5 16 (Str ''brown'') (Str '' fox jumped'')" and ?s = "Str ''wn fox''"
  have "is_cord ?x" by (simp add: is_cord_def MAX_LEFT_LEN_def)
  then have "searchable ?x ?s pos0 pos0" using pos0_size by (simp add: searchable_def)
  then obtain r where r: "CORD_str 17 (\<lambda>n. replicate n CHR ''?'') pos0 pos0 pos0 ?x 1 ?s = Inr r"
    "if \<exists>j\<ge>1. occurs (chars ?x) (chars ?s) j then r = (LEAST j. 1 \<le> j \<and> occurs (chars ?x) (chars ?s) j) else r = CORD_NOT_FOUND"
    using cord_str_finds [of ?x ?s pos0 pos0 pos0 "\<lambda>n. replicate n CHR ''?''" 17 1] pos0_size by auto
  have ex: "\<exists>j\<ge>1. occurs (chars ?x) (chars ?s) j" by (intro exI [of _ 3]) (simp add: occurs_def)
  have least: "(LEAST j. 1 \<le> j \<and> occurs (chars ?x) (chars ?s) j) = 3"
  proof (rule Least_equality)
    fix j assume j: "1 \<le> j \<and> occurs (chars ?x) (chars ?s) j"
    then have "j \<noteq> 1" "j \<noteq> 2" by (auto simp: occurs_def)
    then show "3 \<le> j" using j by simp
  qed (simp add: occurs_def)
  have "r = 3" using r(2) unfolding if_P [OF ex] least .
  then show ?thesis using r(1) by simp
qed

text \<open>
  The comparison of cached characters stops at a NUL: two cords of functions that differ after a NUL compare as equal.
\<close>

lemma cmp_stops_at_nul:
  "CORD_cmp (Suc (Suc (Suc k))) pos0 pos0 (Func 3 (\<lambda>i. if i = 2 then CHR ''a'' else NUL)) (Func 3 (\<lambda>i. if i = 2 then CHR ''b'' else NUL)) = Inr 0"
proof -
  have "strncmp ((replicate 8 NUL)[0 := NUL, Suc 0 := CHR ''a'']) ((replicate 8 NUL)[0 := NUL, Suc 0 := CHR ''b'']) (Suc (Suc 0)) = Inr 0"
    by code_simp
  then show ?thesis
    by (simp add: CORD_cmp_def CORD_set_pos_def CORD__extend_path_def path_put_def path_get_def pos0_def CORD_pos_valid_def
      CORD_POS_INVALID_def CORD_pos_chars_left_def to_size_def as_int_def szsub_def CORD_pos_cur_char_addr_def sz_def CORD_pos_fetch_m_def
      CORD__pos_fetch_def CORD_pos_advance_def CORD_next_m_def CORD__next_def next_leaf_def Let_def FUNCTION_BUF_SZ_def buf_put_def numeral_2_eq_2)
qed

end
