(* ===== verification/Hash_Table.thy ===== *)
theory Hash_Table
  imports C_Types
begin

text \<open>
  The hash table of the source translator (\<^verbatim>\<open>opencxx/parser/HashTable.cc\<close>), which holds its symbol tables and
  the user-defined keywords of its lexer: open addressing with double hashing, deleted entries, duplicate keys,
  and growth to the next larger prime sizes.  A key is its text without the terminator; the overloads that take a
  length are those of its first characters.
\<close>

unbundle bit_operations_syntax

section \<open>Operations\<close>

text \<open>An entry: its key is the null pointer, -1, or a text.  The value is not initialised in a new table.\<close>

datatype 'v Entry = Unused "'v option" | Deleted 'v | Used string 'v

record 'v HashTable =
  entries :: "'v Entry list"
  Size :: nat
  Prime2 :: nat

definition MakeTable :: "nat \<Rightarrow> nat \<Rightarrow> 'v HashTable" where
  "MakeTable n prime2 = \<lparr>entries = replicate n (Unused None), Size = n, Prime2 = prime2\<rparr>"

definition new_HashTable :: "'v HashTable" where
  "new_HashTable = MakeTable 251 127"

definition new_BigHashTable :: "'v HashTable" where
  "new_BigHashTable = MakeTable 2053 1021"

fun in_use :: "'v Entry \<Rightarrow> bool" where
  "in_use (Used s v) = True"
| "in_use _ = False"

definition IsEmpty :: "'v HashTable \<Rightarrow> bool" where
  "IsEmpty t \<longleftrightarrow> (\<forall>e\<in>set (entries t). \<not> in_use e)"

text \<open>Characters are shifted by 0 to 24 bits and added up; \<^verbatim>\<open>char\<close> is signed.\<close>

fun string_to_int :: "string \<Rightarrow> nat \<Rightarrow> u32 \<Rightarrow> u32" where
  "string_to_int [] j p = p"
| "string_to_int (c # s) j p =
     (let j = (if j \<ge> 25 then 0 else j) in string_to_int s (j + 1) (p + push_bit j (word_of_int (scode c))))"

definition StringToInt :: "string \<Rightarrow> u32" where
  "StringToInt key = string_to_int key 0 0"

definition HashFunc :: "'v HashTable \<Rightarrow> u32 \<Rightarrow> nat \<Rightarrow> nat" where
  "HashFunc t p n = unat ((p + of_nat n * (p mod of_nat (Prime2 t) + 1)) mod of_nat (Size t))"

text \<open>The loops over \<open>i\<close> up to \<open>Size\<close>; the first argument is the number of turns left.\<close>

fun lookup_loop :: "nat \<Rightarrow> nat \<Rightarrow> 'v HashTable \<Rightarrow> u32 \<Rightarrow> string \<Rightarrow> ('v \<times> nat \<times> nat) option res" where
  "lookup_loop 0 i t p key = Inr None"
| "lookup_loop (Suc k) i t p key =
     (let j = HashFunc t p i in
      bindE (nthE (entries t) j) (\<lambda>e. case e of
        Unused _ \<Rightarrow> Inr None
      | Deleted _ \<Rightarrow> lookup_loop k (i + 1) t p key
      | Used s v \<Rightarrow> if s = key then Inr (Some (v, j, i)) else lookup_loop k (i + 1) t p key))"

definition Lookup2 :: "'v HashTable \<Rightarrow> string \<Rightarrow> ('v \<times> nat) option res" where
  "Lookup2 t key = bindE (lookup_loop (Size t) 0 t (StringToInt key) key) (\<lambda>r. Inr (map_option (\<lambda>(v, j, i). (v, j)) r))"

definition Lookup :: "'v HashTable \<Rightarrow> string \<Rightarrow> 'v option res" where
  "Lookup t key = bindE (Lookup2 t key) (\<lambda>r. Inr (map_option fst r))"

definition LookupEntries :: "'v HashTable \<Rightarrow> string \<Rightarrow> nat \<Rightarrow> ('v \<times> nat) option res" where
  "LookupEntries t key m =
     bindE (lookup_loop (Size t - m) m t (StringToInt key) key) (\<lambda>r. Inr (map_option (\<lambda>(v, j, i). (v, i + 1)) r))"

text \<open>Trial division; \<^verbatim>\<open>++number\<close> wraps to 0, which has no divisor to try.\<close>

definition trial :: "nat \<Rightarrow> bool" where
  "trial number \<longleftrightarrow> list_all (\<lambda>i. number mod i \<noteq> 0) [2..<number div 2 + 1]"

function next_prime :: "nat \<Rightarrow> nat" where
  "next_prime number =
     (if trial number then number else if 4294967296 \<le> number + 1 then 0 else next_prime (number + 1))"
  by pat_completeness auto
termination
  by (relation "measure (\<lambda>n. 4294967296 - n)") auto

declare next_prime.simps [simp del]

definition NextPrimeNumber :: "nat \<Rightarrow> nat" where
  "NextPrimeNumber number = (if number < 2 then 2 else next_prime number)"

text \<open>The result of a search for a place.\<close>

datatype place = Free nat | Present nat | Full

fun add_loop :: "nat \<Rightarrow> nat \<Rightarrow> bool \<Rightarrow> 'v HashTable \<Rightarrow> u32 \<Rightarrow> string \<Rightarrow> place res" where
  "add_loop 0 i check t p key = Inr Full"
| "add_loop (Suc k) i check t p key =
     (let j = HashFunc t p i in
      bindE (nthE (entries t) j) (\<lambda>e. case e of
        Used s v \<Rightarrow> if check \<and> s = key then Inr (Present j) else add_loop k (i + 1) check t p key
      | _ \<Rightarrow> Inr (Free j)))"

text \<open>Copy the entries in use into the bigger table; \<open>add\<close> is \<^verbatim>\<open>AddDupEntry\<close>.\<close>

fun grow_loop :: "('v HashTable \<Rightarrow> string \<Rightarrow> 'v \<Rightarrow> (int \<times> nat \<times> 'v HashTable) res) \<Rightarrow> 'v Entry list \<Rightarrow> 'v HashTable \<Rightarrow> (bool \<times> 'v HashTable) res" where
  "grow_loop add [] bigger = Inr (True, bigger)"
| "grow_loop add (e # es) bigger = (case e of
       Used key v \<Rightarrow> bindE (add bigger key v) (\<lambda>(r, _, bigger). if r \<ge> 0 then grow_loop add es bigger else Inr (False, bigger))
     | _ \<Rightarrow> grow_loop add es bigger)"

definition grow_table :: "('v HashTable \<Rightarrow> string \<Rightarrow> 'v \<Rightarrow> (int \<times> nat \<times> 'v HashTable) res) \<Rightarrow> 'v HashTable \<Rightarrow> nat \<Rightarrow> (bool \<times> 'v HashTable) res" where
  "grow_table add t increment =
     (let prime2 = NextPrimeNumber (Prime2 t + increment); n = NextPrimeNumber (2 * prime2) in
      bindE (grow_loop add (entries t) (MakeTable n prime2)) (\<lambda>(ok, bigger). Inr (ok, if ok then bigger else t)))"

text \<open>
  \<^verbatim>\<open>AddEntry\<close> and \<^verbatim>\<open>GrowTable\<close> call each other; the first argument bounds the nested calls.  The result is the return
  value, \<open>index\<close> and the table.
\<close>

primrec add_n :: "nat \<Rightarrow> bool \<Rightarrow> 'v HashTable \<Rightarrow> string \<Rightarrow> 'v \<Rightarrow> (int \<times> nat \<times> 'v HashTable) res" where
  "add_n 0 = (\<lambda>check t key v. Inl Diverge)"
| "add_n (Suc n) = (\<lambda>check t key v.
     bindE (add_loop (Size t) 0 check t (StringToInt key) key) (\<lambda>r. case r of
       Free j \<Rightarrow> Inr (int j, j, t\<lparr>entries := (entries t)[j := Used key v]\<rparr>)
     | Present j \<Rightarrow> Inr (-1, j, t)
     | Full \<Rightarrow> bindE (grow_table (add_n n False) t 1000) (\<lambda>(ok, t).
                 if ok then add_n n check t key v else Inr (-1, 0, t))))"

definition AddEntry :: "nat \<Rightarrow> 'v HashTable \<Rightarrow> string \<Rightarrow> 'v \<Rightarrow> (int \<times> nat \<times> 'v HashTable) res" where
  "AddEntry n t key v = add_n n True t key v"

definition AddDupEntry :: "nat \<Rightarrow> 'v HashTable \<Rightarrow> string \<Rightarrow> 'v \<Rightarrow> (int \<times> nat \<times> 'v HashTable) res" where
  "AddDupEntry n t key v = add_n n False t key v"

definition GrowTable :: "nat \<Rightarrow> 'v HashTable \<Rightarrow> nat \<Rightarrow> (bool \<times> 'v HashTable) res" where
  "GrowTable n t increment = grow_table (AddDupEntry n) t increment"

definition Peek :: "'v HashTable \<Rightarrow> nat \<Rightarrow> 'v res" where
  "Peek t index = bindE (nthE (entries t) index) (\<lambda>e. case e of Used s v \<Rightarrow> Inr v | Deleted v \<Rightarrow> Inr v | Unused v \<Rightarrow> (case v of None \<Rightarrow> Inl OutOfRange | Some v \<Rightarrow> Inr v))"

text \<open>An index outside the table is reported and ignored.\<close>

definition ReplaceValue :: "'v HashTable \<Rightarrow> int \<Rightarrow> 'v \<Rightarrow> 'v HashTable" where
  "ReplaceValue t index v =
     (if 0 \<le> index \<and> index < int (Size t)
      then t\<lparr>entries := (entries t)[nat index := (case entries t ! nat index of Used s _ \<Rightarrow> Used s v | Deleted _ \<Rightarrow> Deleted v | Unused _ \<Rightarrow> Unused (Some v))]\<rparr>
      else t)"

definition RemoveEntry :: "'v HashTable \<Rightarrow> string \<Rightarrow> (bool \<times> 'v HashTable) res" where
  "RemoveEntry t key = bindE (Lookup2 t key) (\<lambda>r. case r of
       None \<Rightarrow> Inr (False, t)
     | Some (u, index) \<Rightarrow> Inr (True, t\<lparr>entries := (entries t)[index := Deleted u]\<rparr>))"

section \<open>Searching\<close>

fun is_unused :: "'v Entry \<Rightarrow> bool" where
  "is_unused (Unused v) = True"
| "is_unused _ = False"

abbreviation slot :: "'v HashTable \<Rightarrow> u32 \<Rightarrow> nat \<Rightarrow> 'v Entry" where
  "slot t p i \<equiv> entries t ! HashFunc t p i"

definition wf_table :: "'v HashTable \<Rightarrow> bool" where
  "wf_table t \<longleftrightarrow> length (entries t) = Size t \<and> 0 < Size t \<and> Size t < 4294967296"

lemma hash_less: "wf_table t \<Longrightarrow> HashFunc t p i < Size t"
  by (simp add: HashFunc_def wf_table_def unat_mod take_bit_nat_eq_self unat_of_nat)

text \<open>A stretch of probes that meets neither an unused entry nor the key.\<close>

definition passes :: "'v HashTable \<Rightarrow> u32 \<Rightarrow> string \<Rightarrow> nat \<Rightarrow> nat \<Rightarrow> bool" where
  "passes t p key i n \<longleftrightarrow> (\<forall>m. i \<le> m \<and> m < n \<longrightarrow> \<not> is_unused (slot t p m) \<and> (\<forall>v. slot t p m \<noteq> Used key v))"

lemma passes_refl [simp]: "passes t p key i i"
  by (auto simp: passes_def)

lemma passes_step:
  "\<not> is_unused (slot t p i) \<Longrightarrow> \<forall>v. slot t p i \<noteq> Used key v \<Longrightarrow> passes t p key (Suc i) n \<Longrightarrow> passes t p key i n"
  unfolding passes_def by (metis Suc_le_eq nless_le)

text \<open>The result of a search with probes from \<open>i\<close> up to \<open>e\<close>.\<close>

fun search_result :: "'v HashTable \<Rightarrow> u32 \<Rightarrow> string \<Rightarrow> nat \<Rightarrow> nat \<Rightarrow> ('v \<times> nat \<times> nat) option \<Rightarrow> bool" where
  "search_result t p key i e None \<longleftrightarrow> (\<exists>n. i \<le> n \<and> n \<le> e \<and> passes t p key i n \<and> (n = e \<or> is_unused (slot t p n)))"
| "search_result t p key i e (Some (v, j, n)) \<longleftrightarrow>
     i \<le> n \<and> n < e \<and> passes t p key i n \<and> j = HashFunc t p n \<and> slot t p n = Used key v"

lemma search_result_step:
  assumes "\<not> is_unused (slot t p i)" and "\<forall>v. slot t p i \<noteq> Used key v" and "search_result t p key (Suc i) e r"
  shows "search_result t p key i e r"
proof (cases r)
  case None
  then obtain n where "Suc i \<le> n" "n \<le> e" "passes t p key (Suc i) n" "n = e \<or> is_unused (slot t p n)" using assms(3) by auto
  then show ?thesis using None passes_step [OF assms(1,2), of n] by (auto intro: exI [of _ n])
next
  case (Some x)
  then show ?thesis using assms(3) passes_step [OF assms(1,2)] by (cases x) auto
qed

lemma lookup_loop_spec:
  assumes "wf_table t"
  shows "\<exists>r. lookup_loop k i t p key = Inr r \<and> search_result t p key i (i + k) r"
proof (induction k arbitrary: i)
  case 0
  show ?case by (auto intro: exI [of _ i])
next
  case (Suc k)
  have j: "nthE (entries t) (HashFunc t p i) = Inr (slot t p i)"
    using hash_less [OF assms, of p i] assms by (simp add: wf_table_def)
  show ?case
  proof (cases "is_unused (slot t p i) \<or> (\<exists>v. slot t p i = Used key v)")
    case True
    then show ?thesis using j by (cases "slot t p i") (auto intro: exI [of _ i])
  next
    case False
    then have "lookup_loop (Suc k) i t p key = lookup_loop k (Suc i) t p key" using j by (cases "slot t p i") auto
    then show ?thesis using Suc.IH [of "Suc i"] False search_result_step [of t p i key "i + Suc k"] by auto
  qed
qed

text \<open>
  The invariant: every key in use is at one of its own probes, and the ones before are not unused.  With distinct keys the table
  stands for a map.
\<close>

definition reachable_keys :: "'v HashTable \<Rightarrow> bool" where
  "reachable_keys t \<longleftrightarrow> (\<forall>j<Size t. \<forall>s v. entries t ! j = Used s v \<longrightarrow>
     (\<exists>i<Size t. HashFunc t (StringToInt s) i = j \<and> (\<forall>k<i. \<not> is_unused (slot t (StringToInt s) k))))"

definition distinct_keys :: "'v HashTable \<Rightarrow> bool" where
  "distinct_keys t \<longleftrightarrow> (\<forall>j<Size t. \<forall>j'<Size t. \<forall>s v v'. entries t ! j = Used s v \<and> entries t ! j' = Used s v' \<longrightarrow> j = j')"

definition table_inv :: "'v HashTable \<Rightarrow> bool" where
  "table_inv t \<longleftrightarrow> wf_table t \<and> reachable_keys t"

definition represents :: "'v HashTable \<Rightarrow> (string \<rightharpoonup> 'v) \<Rightarrow> bool" where
  "represents t m \<longleftrightarrow> table_inv t \<and> distinct_keys t \<and> (\<forall>s v. m s = Some v \<longleftrightarrow> Used s v \<in> set (entries t))"

lemma in_entries: "wf_table t \<Longrightarrow> e \<in> set (entries t) \<longleftrightarrow> (\<exists>j<Size t. entries t ! j = e)"
  by (auto simp: in_set_conv_nth wf_table_def)

lemma search_misses:
  assumes "table_inv t" and "search_result t (StringToInt key) key 0 (Size t) None"
  shows "Used key v \<notin> set (entries t)"
proof
  let ?p = "StringToInt key"
  assume "Used key v \<in> set (entries t)"
  then obtain j where "j < Size t" "entries t ! j = Used key v" using assms(1) in_entries by (auto simp: table_inv_def)
  then obtain i where i: "i < Size t" "slot t ?p i = Used key v" "\<forall>k<i. \<not> is_unused (slot t ?p k)"
    using assms(1) unfolding table_inv_def reachable_keys_def by metis
  obtain n where n: "n \<le> Size t" "passes t ?p key 0 n" "n = Size t \<or> is_unused (slot t ?p n)" using assms(2) by auto
  show False
  proof (cases "i < n")
    case True
    then show ?thesis using n(2) i(2) by (auto simp: passes_def)
  next
    case False
    then have "is_unused (slot t ?p n)" "n \<le> i" using n i(1) by auto
    then show ?thesis using i(2,3) by (cases "n = i") auto
  qed
qed

lemma lookup2_spec:
  assumes "table_inv t"
  shows "(\<exists>v j. Lookup2 t key = Inr (Some (v, j)) \<and> j < Size t \<and> entries t ! j = Used key v) \<or>
    (Lookup2 t key = Inr None \<and> (\<forall>v. Used key v \<notin> set (entries t)))"
proof -
  have wf: "wf_table t" using assms by (simp add: table_inv_def)
  obtain r where r: "lookup_loop (Size t) 0 t (StringToInt key) key = Inr r" "search_result t (StringToInt key) key 0 (Size t) r"
    using lookup_loop_spec [OF wf, of "Size t" 0 "StringToInt key" key] by auto
  show ?thesis
  proof (cases r)
    case None
    then show ?thesis using r search_misses [OF assms] by (simp add: Lookup2_def)
  next
    case (Some x)
    then show ?thesis using r hash_less [OF wf] by (cases x) (auto simp: Lookup2_def)
  qed
qed

lemma represents_iff: "represents t m \<Longrightarrow> m s = Some v \<longleftrightarrow> (\<exists>j<Size t. entries t ! j = Used s v)"
  using in_entries [of t "Used s v"] by (simp add: represents_def table_inv_def)

lemma represents_none: "represents t m \<Longrightarrow> m s = None \<longleftrightarrow> (\<forall>j<Size t. \<forall>v. entries t ! j \<noteq> Used s v)"
  using represents_iff [of t m s] by (metis not_None_eq)

lemma lookup_represents:
  assumes "represents t m"
  shows "Lookup t key = Inr (m key)"
proof -
  have inv: "table_inv t" using assms by (simp add: represents_def)
  consider v j where "Lookup2 t key = Inr (Some (v, j))" "j < Size t" "entries t ! j = Used key v"
    | "Lookup2 t key = Inr None" "\<forall>v. Used key v \<notin> set (entries t)" using lookup2_spec [OF inv] by blast
  then show ?thesis
  proof cases
    case 1
    then have "m key = Some v" using represents_iff [OF assms] by blast
    then show ?thesis using 1 by (simp add: Lookup_def)
  next
    case 2
    then have "m key = None" using assms by (cases "m key") (auto simp: represents_def)
    then show ?thesis using 2 by (simp add: Lookup_def)
  qed
qed

section \<open>Adding and removing\<close>

lemma hash_cong [simp]: "HashFunc (t\<lparr>entries := es\<rparr>) = HashFunc t"
  by (simp add: HashFunc_def fun_eq_iff)

lemma used_not_unused: "in_use e \<Longrightarrow> \<not> is_unused e"
  by (cases e) auto

lemma used_count_update:
  assumes "j < length es"
  shows "length (filter in_use (es[j := e])) + (if in_use (es ! j) then 1 else 0) = length (filter in_use es) + (if in_use e then 1 else 0)"
proof -
  have "filter in_use es = filter in_use (take j es) @ filter in_use [es ! j] @ filter in_use (drop (Suc j) es)"
    using id_take_nth_drop [OF assms] by (metis append_Cons append_Nil filter_append)
  moreover have "filter in_use (es[j := e]) = filter in_use (take j es) @ filter in_use [e] @ filter in_use (drop (Suc j) es)"
    using upd_conv_take_nth_drop [OF assms, of e] by (metis append_Cons append_Nil filter_append)
  ultimately show ?thesis by simp
qed

text \<open>Writing an entry that does not become unused keeps the other keys reachable.\<close>

lemma reachable_update:
  assumes "table_inv t" and "j < Size t" and "\<not> is_unused e"
    and "\<And>s v. e = Used s v \<Longrightarrow> \<exists>i<Size t. HashFunc t (StringToInt s) i = j \<and> (\<forall>k<i. \<not> is_unused (slot t (StringToInt s) k))"
  shows "table_inv (t\<lparr>entries := (entries t)[j := e]\<rparr>)"
proof -
  let ?t = "t\<lparr>entries := (entries t)[j := e]\<rparr>"
  have wf: "wf_table t" "wf_table ?t" using assms(1) by (simp_all add: table_inv_def wf_table_def)
  have len: "length (entries t) = Size t" using wf by (simp add: wf_table_def)
  have keep: "\<not> is_unused (slot ?t p k)" if "\<not> is_unused (slot t p k)" for p k
    using that assms(2,3) len by (cases "HashFunc t p k = j") simp_all
  have "\<exists>i<Size t. HashFunc t (StringToInt s) i = j' \<and> (\<forall>k<i. \<not> is_unused (slot t (StringToInt s) k))"
    if "j' < Size t" "entries ?t ! j' = Used s v" for j' s v
  proof (cases "j' = j")
    case True
    then show ?thesis using that assms(2,4) len by simp
  next
    case False
    then have "entries t ! j' = Used s v" using that by simp
    then show ?thesis using that(1) assms(1) unfolding table_inv_def reachable_keys_def by blast
  qed
  then show ?thesis using wf(2) keep unfolding table_inv_def reachable_keys_def
    by (metis (no_types, lifting) HashTable.select_convs(2) HashTable.surjective HashTable.update_convs(1) hash_cong)
qed

lemma represents_add:
  assumes r: "represents t m" and new: "m key = None" and n: "n < Size t" "\<not> in_use (slot t (StringToInt key) n)"
    and before: "\<forall>k<n. in_use (slot t (StringToInt key) k)"
  shows "represents (t\<lparr>entries := (entries t)[HashFunc t (StringToInt key) n := Used key v]\<rparr>) (m(key \<mapsto> v))" (is "represents ?t ?m")
proof -
  let ?j = "HashFunc t (StringToInt key) n"
  have inv: "table_inv t" and wf: "wf_table t" using r by (auto simp: represents_def table_inv_def)
  have j: "?j < Size t" and len: "length (entries t) = Size t" using hash_less [OF wf] wf by (auto simp: wf_table_def)
  have inv': "table_inv ?t"
    by (rule reachable_update [OF inv j]) (use n(1) before used_not_unused in auto)
  have other: "entries t ! j' = Used s v' \<Longrightarrow> j' \<noteq> ?j" for j' s v' using n(2) by auto
  have no: "entries t ! j' \<noteq> Used key v'" if "j' < Size t" for j' v' using represents_none [OF r] new that by blast
  have nth: "entries ?t ! j' = (if j' = ?j then Used key v else entries t ! j')" if "j' < Size t" for j' using that len by simp
  have "distinct_keys ?t"
    using r no nth unfolding represents_def distinct_keys_def by (auto split: if_splits)
  moreover have "?m s = Some v' \<longleftrightarrow> (\<exists>j'<Size t. entries ?t ! j' = Used s v')" for s v'
  proof (cases "s = key")
    case True
    then show ?thesis using no nth j by (auto split: if_splits)
  next
    case False
    then show ?thesis using represents_iff [OF r, of s v'] nth other by (auto split: if_splits)
  qed
  ultimately show ?thesis using inv' in_entries [of ?t] by (auto simp: represents_def table_inv_def)
qed

lemma represents_remove:
  assumes r: "represents t m"
  shows "\<exists>t'. RemoveEntry t key = Inr (m key \<noteq> None, t') \<and> represents t' (m(key := None)) \<and> Size t' = Size t \<and> Prime2 t' = Prime2 t \<and>
    length (filter in_use (entries t')) \<le> length (filter in_use (entries t))"
proof -
  have inv: "table_inv t" and wf: "wf_table t" using r by (auto simp: represents_def table_inv_def)
  consider v j where "Lookup2 t key = Inr (Some (v, j))" "j < Size t" "entries t ! j = Used key v"
    | "Lookup2 t key = Inr None" "\<forall>v. Used key v \<notin> set (entries t)" using lookup2_spec [OF inv] by blast
  then show ?thesis
  proof cases
    case 1
    let ?t = "t\<lparr>entries := (entries t)[j := Deleted v]\<rparr>"
    have len: "length (entries t) = Size t" using wf by (simp add: wf_table_def)
    have mk: "m key = Some v" using 1 represents_iff [OF r] by blast
    have inv': "table_inv ?t" by (rule reachable_update [OF inv 1(2)]) auto
    have nth: "entries ?t ! j' = (if j' = j then Deleted v else entries t ! j')" if "j' < Size t" for j' using that len by simp
    have only: "j' = j" if "j' < Size t" "entries t ! j' = Used key v'" for j' v'
      using r that 1 unfolding represents_def distinct_keys_def by blast
    have "distinct_keys ?t" using r nth unfolding represents_def distinct_keys_def by (auto split: if_splits)
    moreover have "(m(key := None)) s = Some v' \<longleftrightarrow> (\<exists>j'<Size t. entries ?t ! j' = Used s v')" for s v'
    proof (cases "s = key")
      case True
      then show ?thesis using only nth by (auto split: if_splits)
    next
      case False
      have "j' \<noteq> j" if "entries t ! j' = Used s v'" for j' using 1(3) that False by auto
      then show ?thesis using represents_iff [OF r, of s v'] nth False by (auto split: if_splits)
    qed
    ultimately have "represents ?t (m(key := None))" using inv' in_entries [of ?t] by (auto simp: represents_def table_inv_def)
    moreover have "length (filter in_use (entries ?t)) \<le> length (filter in_use (entries t))"
      using used_count_update [of j "entries t" "Deleted v"] 1(2,3) len by simp
    ultimately show ?thesis using 1 mk by (auto simp: RemoveEntry_def)
  next
    case 2
    then have "m key = None" using r by (cases "m key") (auto simp: represents_def)
    moreover from this have "m(key := None) = m" by auto
    ultimately show ?thesis using 2 r by (auto simp: RemoveEntry_def)
  qed
qed

fun place_result :: "bool \<Rightarrow> 'v HashTable \<Rightarrow> u32 \<Rightarrow> string \<Rightarrow> nat \<Rightarrow> nat \<Rightarrow> place \<Rightarrow> bool" where
  "place_result check t p key i e (Free j) \<longleftrightarrow>
     (\<exists>n. i \<le> n \<and> n < e \<and> j = HashFunc t p n \<and> \<not> in_use (slot t p n) \<and>
       (\<forall>m. i \<le> m \<and> m < n \<longrightarrow> in_use (slot t p m) \<and> (\<forall>v. check \<longrightarrow> slot t p m \<noteq> Used key v)))"
| "place_result check t p key i e (Present j) \<longleftrightarrow> check \<and> (\<exists>n v. i \<le> n \<and> n < e \<and> j = HashFunc t p n \<and> slot t p n = Used key v)"
| "place_result check t p key i e Full \<longleftrightarrow> (\<forall>m. i \<le> m \<and> m < e \<longrightarrow> in_use (slot t p m) \<and> (\<forall>v. check \<longrightarrow> slot t p m \<noteq> Used key v))"

lemma place_result_step:
  assumes "in_use (slot t p i)" and "\<forall>v. check \<longrightarrow> slot t p i \<noteq> Used key v" and "place_result check t p key (Suc i) e r"
  shows "place_result check t p key i e r"
proof -
  have "\<forall>m. i \<le> m \<and> m < n \<longrightarrow> in_use (slot t p m) \<and> (\<forall>v. check \<longrightarrow> slot t p m \<noteq> Used key v)"
    if "\<forall>m. Suc i \<le> m \<and> m < n \<longrightarrow> in_use (slot t p m) \<and> (\<forall>v. check \<longrightarrow> slot t p m \<noteq> Used key v)" for n
    using that assms(1,2) by (metis Suc_le_eq nless_le)
  note all = this
  show ?thesis
  proof (cases r)
    case (Free j)
    then obtain n where n: "Suc i \<le> n" "n < e" "j = HashFunc t p n" "\<not> in_use (slot t p n)"
      "\<forall>m. Suc i \<le> m \<and> m < n \<longrightarrow> in_use (slot t p m) \<and> (\<forall>v. check \<longrightarrow> slot t p m \<noteq> Used key v)" using assms(3) by auto
    show ?thesis unfolding Free place_result.simps by (rule exI [of _ n]) (use n all [OF n(5)] in auto)
  next
    case (Present j)
    then obtain n v where "check" "Suc i \<le> n" "n < e" "j = HashFunc t p n" "slot t p n = Used key v" using assms(3) by auto
    then show ?thesis using Present by (auto intro!: exI [of _ n])
  next
    case Full
    show ?thesis using assms(3) all [of e] unfolding Full place_result.simps by blast
  qed
qed

lemma add_loop_spec:
  assumes "wf_table t"
  shows "\<exists>r. add_loop k i check t p key = Inr r \<and> place_result check t p key i (i + k) r"
proof (induction k arbitrary: i)
  case 0
  show ?case by auto
next
  case (Suc k)
  have j: "nthE (entries t) (HashFunc t p i) = Inr (slot t p i)"
    using hash_less [OF assms, of p i] assms by (simp add: wf_table_def)
  show ?case
  proof (cases "in_use (slot t p i) \<and> (\<forall>v. check \<longrightarrow> slot t p i \<noteq> Used key v)")
    case True
    then have "add_loop (Suc k) i check t p key = add_loop k (Suc i) check t p key" using j by (cases "slot t p i") auto
    then show ?thesis using Suc.IH [of "Suc i"] True place_result_step [of t p i check key "i + Suc k"] by auto
  next
    case False
    then show ?thesis using j by (cases "slot t p i") (auto intro: exI [of _ i])
  qed
qed

section \<open>Probes\<close>

text \<open>
  A prime size makes the probes distinct, except that the 32-bit sum may wrap once: at least half of the entries are probed.
\<close>

lemma trial_iff: "trial n \<longleftrightarrow> (\<forall>i. 2 \<le> i \<and> i \<le> n div 2 \<longrightarrow> \<not> i dvd n)"
  by (auto simp: trial_def list_all_iff dvd_eq_mod_eq_0 less_Suc_eq_le)

lemma trial_coprime:
  assumes "trial n" and "0 < s" and "s < n"
  shows "coprime n s"
proof -
  let ?g = "gcd n s"
  have g: "?g dvd n" "?g \<le> s" "0 < ?g" using assms(2) by (auto intro: dvd_imp_le)
  then obtain c where c: "n = ?g * c" by blast
  have "2 \<le> c" using c g(2) assms(3) by (cases c; cases "c - 1") auto
  then have "?g \<le> n div 2" using c by (metis g(3) less_eq_div_iff_mult_less_eq mult_le_mono2 zero_less_numeral)
  then have "\<not> 2 \<le> ?g" using assms(1) g(1) by (auto simp: trial_iff)
  then have "?g = 1" using g(3) by linarith
  then show ?thesis by (simp add: coprime_iff_gcd_eq_1)
qed

definition good_size :: "'v HashTable \<Rightarrow> bool" where
  "good_size t \<longleftrightarrow> trial (Size t) \<and> 0 < Prime2 t \<and> Prime2 t < Size t \<and> Size t * Prime2 t < 4294967296"

text \<open>The step between two probes.\<close>

definition stride :: "'v HashTable \<Rightarrow> u32 \<Rightarrow> nat" where
  "stride t p = unat p mod Prime2 t + 1"

lemma unat_small: "n < 4294967296 \<Longrightarrow> unat (of_nat n :: u32) = n"
  by (simp add: unat_of_nat take_bit_nat_eq_self)

lemma unat_wrap: "unat (of_nat n :: u32) = n mod 4294967296"
  by (simp add: unat_of_nat take_bit_eq_mod)

lemma good_size_bounds:
  assumes "good_size t"
  shows "Size t < 4294967296" and "Prime2 t < 4294967296" and "stride t p \<le> Prime2 t" and "0 < stride t p"
proof -
  have "Size t * 1 \<le> Size t * Prime2 t" using assms by (intro mult_le_mono2) (simp add: good_size_def)
  moreover have "Size t * Prime2 t < 4294967296" "Prime2 t < Size t" using assms by (simp_all add: good_size_def)
  ultimately show "Size t < 4294967296" "Prime2 t < 4294967296" by linarith+
  show "stride t p \<le> Prime2 t" "0 < stride t p" using assms by (auto simp: stride_def good_size_def Suc_le_eq)
qed

lemma hash_nat:
  assumes "good_size t" and "i < Size t"
  shows "HashFunc t p i = (unat p + i * stride t p) mod 4294967296 mod Size t"
proof -
  note b = good_size_bounds [OF assms(1)]
  have "unat (p mod of_nat (Prime2 t)) = unat p mod Prime2 t" using b(2) by (simp add: unat_mod unat_small)
  then have "p mod of_nat (Prime2 t) = of_nat (unat p mod Prime2 t)" by (metis of_nat_unat ucast_id)
  then have "p + of_nat i * (p mod of_nat (Prime2 t) + 1) = of_nat (unat p + i * stride t p)"
    by (simp add: stride_def algebra_simps)
  then have "unat (p + of_nat i * (p mod of_nat (Prime2 t) + 1)) = (unat p + i * stride t p) mod 4294967296"
    by (simp only: unat_wrap)
  then show ?thesis using b(1) by (simp add: HashFunc_def unat_mod unat_small)
qed

lemma mod_once_diff:
  assumes "(a :: nat) \<le> b" and "b < 2 * n" and "a < n \<longleftrightarrow> b < n"
  shows "b mod n - a mod n = b - a \<and> a mod n \<le> b mod n"
  using assms mod_once [of a n] mod_once [of b n] by (cases "a < n") auto

lemma probes_distinct:
  assumes g: "good_size t" and i: "i < i'" "i' < Size t"
    and same: "unat p + i * stride t p < 4294967296 \<longleftrightarrow> unat p + i' * stride t p < 4294967296"
  shows "HashFunc t p i \<noteq> HashFunc t p i'"
proof
  let ?s = "stride t p" and ?x = "\<lambda>i. unat p + i * stride t p"
  assume h: "HashFunc t p i = HashFunc t p i'"
  note b = good_size_bounds [OF g]
  have "i' * ?s \<le> Size t * Prime2 t" using i(2) b(3) by (intro mult_le_mono) auto
  then have x: "?x i' < 2 * 4294967296" "?x i \<le> ?x i'" using g unat_lt_u32 [of p] i(1) by (auto simp: good_size_def)
  have d: "?x i' - ?x i = (i' - i) * ?s" by (simp add: diff_mult_distrib)
  note wrap = mod_once_diff [OF x(2,1) same]
  have "?x i' mod 4294967296 mod Size t = ?x i mod 4294967296 mod Size t"
    using h hash_nat [OF g, of i p] hash_nat [OF g, of i' p] i by simp
  then have "Size t dvd ?x i' mod 4294967296 - ?x i mod 4294967296" by (rule iffD1 [OF mod_eq_dvd_iff_nat [OF conjunct2 [OF wrap]]])
  then have "Size t dvd (i' - i) * ?s" unfolding conjunct1 [OF wrap] d .
  moreover have "coprime (Size t) ?s"
    by (rule trial_coprime) (use g b(3,4) [of p] in \<open>auto simp: good_size_def\<close>)
  ultimately have "Size t dvd i' - i" by (simp add: coprime_dvd_mult_left_iff)
  then show False using i by (auto dest: dvd_imp_le)
qed

lemma probes_half:
  assumes "good_size t"
  shows "Size t \<le> 2 * card (HashFunc t p ` {..<Size t})"
proof -
  let ?low = "\<lambda>i. unat p + i * stride t p < 4294967296"
  let ?A = "{i. i < Size t \<and> ?low i}" and ?B = "{i. i < Size t \<and> \<not> ?low i}"
  have inj: "inj_on (HashFunc t p) C" if "C = ?A \<or> C = ?B" for C
    using that probes_distinct [OF assms, of _ _ p] by (intro linorder_inj_onI) auto
  have le: "card C \<le> card (HashFunc t p ` {..<Size t})" if "C = ?A \<or> C = ?B" for C
  proof -
    have "card C = card (HashFunc t p ` C)" using inj [OF that] by (simp add: card_image)
    also have "\<dots> \<le> card (HashFunc t p ` {..<Size t})" using that by (intro card_mono) auto
    finally show ?thesis .
  qed
  have "{..<Size t} = ?A \<union> ?B" by auto
  then have "Size t \<le> card ?A + card ?B" by (metis (no_types, lifting) card_Un_le card_lessThan)
  then show ?thesis using le [OF disjI1 [OF refl]] le [OF disjI2 [OF refl]] by linarith
qed

text \<open>A table that is less than half full has a place on every path.\<close>

definition used_count :: "'v HashTable \<Rightarrow> nat" where
  "used_count t = length (filter in_use (entries t))"

lemma not_full:
  assumes "good_size t" and "wf_table t" and "2 * used_count t < Size t"
  shows "\<exists>i<Size t. \<not> in_use (slot t p i)"
proof (rule ccontr)
  assume "\<not> ?thesis"
  then have "HashFunc t p ` {..<Size t} \<subseteq> {j. j < Size t \<and> in_use (entries t ! j)}" using hash_less [OF assms(2)] by auto
  then have "card (HashFunc t p ` {..<Size t}) \<le> used_count t"
    using assms(2) by (auto simp: used_count_def length_filter_conv_card wf_table_def intro: card_mono)
  then show False using probes_half [OF assms(1), of p] assms(3) by linarith
qed

section \<open>Growth\<close>

fun is_deleted :: "'v Entry \<Rightarrow> bool" where
  "is_deleted (Deleted v) = True"
| "is_deleted _ = False"

definition no_deleted :: "'v HashTable \<Rightarrow> bool" where
  "no_deleted t \<longleftrightarrow> (\<forall>e\<in>set (entries t). \<not> is_deleted e)"

lemma no_deleted_add: "no_deleted t \<Longrightarrow> no_deleted (t\<lparr>entries := (entries t)[j := Used s v]\<rparr>)"
  using set_update_subset_insert [of "entries t" j "Used s v"] by (auto simp: no_deleted_def)

text \<open>What an addition keeps.\<close>

definition grown :: "'v HashTable \<Rightarrow> 'v HashTable \<Rightarrow> nat \<Rightarrow> bool" where
  "grown t t' n \<longleftrightarrow> Size t' = Size t \<and> Prime2 t' = Prime2 t \<and> used_count t' = used_count t + n \<and> (no_deleted t \<longrightarrow> no_deleted t')"

lemma add_absent:
  assumes r: "represents t m" and new: "m key = None"
  shows "(\<exists>j. \<forall>n. \<exists>t'. add_n (Suc n) check t key v = Inr (int j, j, t') \<and> represents t' (m(key \<mapsto> v)) \<and> grown t t' 1) \<or>
    (add_loop (Size t) 0 check t (StringToInt key) key = Inr Full \<and> (\<forall>i<Size t. in_use (slot t (StringToInt key) i)))"
proof -
  let ?p = "StringToInt key"
  have wf: "wf_table t" using r by (simp add: represents_def table_inv_def)
  obtain a where a: "add_loop (Size t) 0 check t ?p key = Inr a" "place_result check t ?p key 0 (Size t) a"
    using add_loop_spec [OF wf, of "Size t" 0 check ?p key] by auto
  show ?thesis
  proof (cases a)
    case (Free j)
    then obtain n where n: "n < Size t" "j = HashFunc t ?p n" "\<not> in_use (slot t ?p n)" "\<forall>k<n. in_use (slot t ?p k)" using a(2) by auto
    let ?t = "t\<lparr>entries := (entries t)[j := Used key v]\<rparr>"
    have "represents ?t (m(key \<mapsto> v))" using represents_add [OF r new n(1,3,4)] n(2) by simp
    moreover have "used_count ?t = Suc (used_count t)"
      using used_count_update [of j "entries t" "Used key v"] hash_less [OF wf, of ?p n] n wf by (simp add: used_count_def wf_table_def)
    ultimately show ?thesis using a(1) Free no_deleted_add [of t j key v] by (auto simp: grown_def)
  next
    case (Present j)
    then obtain n v' where "n < Size t" "slot t ?p n = Used key v'" using a(2) by auto
    then show ?thesis using represents_none [OF r] new hash_less [OF wf] by blast
  next
    case Full
    then show ?thesis using a by auto
  qed
qed

lemma add_room:
  assumes "represents t m" and "m key = None" and "good_size t" and "2 * used_count t < Size t"
  shows "\<exists>j t'. add_n (Suc n) check t key v = Inr (int j, j, t') \<and> represents t' (m(key \<mapsto> v)) \<and> grown t t' 1"
proof -
  have "wf_table t" using assms(1) by (simp add: represents_def table_inv_def)
  then have "\<not> (\<forall>i<Size t. in_use (slot t (StringToInt key) i))" using not_full [OF assms(3) _ assms(4)] by blast
  then show ?thesis using add_absent [OF assms(1,2), of check v] by blast
qed

lemma good_size_cong: "Size t' = Size t \<Longrightarrow> Prime2 t' = Prime2 t \<Longrightarrow> good_size t' = good_size t"
  by (simp add: good_size_def)

fun key_of :: "'v Entry \<Rightarrow> string" where
  "key_of (Used s v) = s"
| "key_of _ = []"

lemma keys_distinct:
  assumes "\<forall>j<length es. \<forall>j'<length es. \<forall>s v v'. es ! j = Used s v \<and> es ! j' = Used s v' \<longrightarrow> j = j'"
  shows "distinct (map key_of (filter in_use es))"
  using assms
proof (induction es)
  case (Cons e es)
  have tl: "\<forall>j<length es. \<forall>j'<length es. \<forall>s v v'. es ! j = Used s v \<and> es ! j' = Used s v' \<longrightarrow> j = j'"
    using Cons.prems by (metis Suc_inject Suc_mono length_Cons nth_Cons_Suc)
  have "key_of e' \<noteq> key_of e" if u: "in_use e" "in_use e'" and e': "e' \<in> set es" for e'
  proof
    assume k: "key_of e' = key_of e"
    obtain j where j: "j < length es" "es ! j = e'" using e' by (metis in_set_conv_nth)
    obtain s v v' where "e = Used s v" "e' = Used s v'" using u k by (cases e; cases e') auto
    then show False using Cons.prems [rule_format, of 0 "Suc j" s v v'] j by simp
  qed
  then have "in_use e \<Longrightarrow> key_of e \<notin> key_of ` {e' \<in> set es. in_use e'}" by force
  then show ?case using Cons.IH [OF tl] by simp
qed simp

lemma grow_loop_spec:
  assumes "represents b m" and "good_size b" and "2 * (used_count b + length (filter in_use es)) \<le> Size b"
    and "distinct (map key_of (filter in_use es))" and "\<forall>s v. Used s v \<in> set es \<longrightarrow> m s = None"
  shows "\<exists>b' m'. grow_loop (add_n (Suc n) False) es b = Inr (True, b') \<and> represents b' m' \<and>
    grown b b' (length (filter in_use es)) \<and> (\<forall>s v. m' s = Some v \<longleftrightarrow> m s = Some v \<or> Used s v \<in> set es)"
  using assms
proof (induction es arbitrary: b m)
  case (Cons e es)
  show ?case
  proof (cases e)
    case (Used s v)
    have "m s = None" using Cons.prems(5) Used by simp
    then obtain j b1 where b1: "add_n (Suc n) False b s v = Inr (int j, j, b1)" "represents b1 (m(s \<mapsto> v))" "grown b b1 1"
      using add_room [OF Cons.prems(1) _ Cons.prems(2), of s n False v] Cons.prems(3) Used by (auto simp del: add_n.simps)
    have "\<forall>s' v'. Used s' v' \<in> set es \<longrightarrow> (m(s \<mapsto> v)) s' = None"
      using Cons.prems(4,5) Used by (force simp: image_iff)
    then obtain b' m' where "grow_loop (add_n (Suc n) False) es b1 = Inr (True, b')" "represents b' m'"
      "grown b1 b' (length (filter in_use es))" "\<forall>s' v'. m' s' = Some v' \<longleftrightarrow> (m(s \<mapsto> v)) s' = Some v' \<or> Used s' v' \<in> set es"
      using Cons.IH [OF b1(2)] b1(3) good_size_cong [of b1 b] Cons.prems(2,3,4) Used by (auto simp: grown_def simp del: add_n.simps)
    moreover from this(4) have "m' s' = Some v' \<longleftrightarrow> m s' = Some v' \<or> Used s' v' \<in> set (e # es)" for s' v'
      using Used \<open>m s = None\<close> by (cases "s' = s") auto
    ultimately show ?thesis using b1(1,3) Used by (intro exI [of _ b'] exI [of _ m']) (simp add: grown_def del: add_n.simps)
  qed (use Cons in \<open>auto simp del: add_n.simps\<close>)
qed (auto simp: grown_def)

end
