(* ===== verification/Hash_Map.thy ===== *)
theory Hash_Map
  imports Hash_Table
begin

text \<open>
  Hash tables as maps: growth keeps the contents, and any sequence of additions and removals on a new table, up to the
  number of additions that one growth is enough for, behaves as a map.
\<close>

section \<open>Growth keeps the contents\<close>

lemma new_table_represents:
  assumes "0 < n" and "n < 4294967296"
  shows "represents (MakeTable n q :: 'v HashTable) Map.empty" and "used_count (MakeTable n q :: 'v HashTable) = 0"
    and "no_deleted (MakeTable n q :: 'v HashTable)"
  using assms by (auto simp: represents_def table_inv_def wf_table_def reachable_keys_def distinct_keys_def MakeTable_def used_count_def no_deleted_def)

lemma grow_table_spec:
  fixes t :: "'v HashTable"
  assumes r: "represents t m" and dims: "NextPrimeNumber (Prime2 t + inc) = q" "NextPrimeNumber (2 * q) = n"
    and good: "good_size (MakeTable n q :: 'v HashTable)" and room: "2 * used_count t \<le> n"
  shows "\<exists>t'. grow_table (add_n (Suc k) False) t inc = Inr (True, t') \<and> represents t' m \<and> Size t' = n \<and> Prime2 t' = q \<and>
    used_count t' = used_count t \<and> no_deleted t'"
proof -
  let ?b = "MakeTable n q :: 'v HashTable"
  have n: "0 < n" "n < 4294967296" using good_size_bounds(1) [OF good] good by (auto simp: good_size_def MakeTable_def)
  have "length (entries t) = Size t" "distinct_keys t" using r by (auto simp: represents_def table_inv_def wf_table_def)
  then have "distinct (map key_of (filter in_use (entries t)))" by (intro keys_distinct) (simp add: distinct_keys_def)
  moreover have "2 * (used_count ?b + length (filter in_use (entries t))) \<le> Size ?b"
    using room new_table_represents(2) [OF n] by (simp add: used_count_def MakeTable_def)
  ultimately obtain b' m' where b: "grow_loop (add_n (Suc k) False) (entries t) ?b = Inr (True, b')" "represents b' m'"
    "grown ?b b' (length (filter in_use (entries t)))" "\<forall>s v. m' s = Some v \<longleftrightarrow> Map.empty s = Some v \<or> Used s v \<in> set (entries t)"
    using grow_loop_spec [OF new_table_represents(1) [OF n, where q = q] good] by blast
  have "m' = m"
  proof
    fix s
    have "m' s = Some v \<longleftrightarrow> m s = Some v" for v using b(4) r by (simp add: represents_def)
    then show "m' s = m s" by (metis not_None_eq)
  qed
  moreover have "grow_table (add_n (Suc k) False) t inc = Inr (True, b')"
    using b(1) dims by (simp add: grow_table_def Let_def del: add_n.simps)
  moreover have "Size b' = n" "Prime2 b' = q" "used_count b' = used_count t" "no_deleted b'"
    using b(3) new_table_represents(2,3) [OF n, where q = q] unfolding grown_def by (auto simp: used_count_def MakeTable_def)
  ultimately show ?thesis using b(2) by blast
qed

lemma add_grows:
  fixes t :: "'v HashTable"
  assumes r: "represents t m" and new: "m key = None" and dims: "NextPrimeNumber (Prime2 t + 1000) = q" "NextPrimeNumber (2 * q) = n"
    and good: "good_size (MakeTable n q :: 'v HashTable)" and room: "2 * used_count t < n"
  shows "\<exists>j t'. add_n (Suc (Suc k)) check t key v = Inr (int j, j, t') \<and> represents t' (m(key \<mapsto> v)) \<and> used_count t' = used_count t + 1 \<and>
    (no_deleted t \<longrightarrow> no_deleted t') \<and> (Size t' = Size t \<and> Prime2 t' = Prime2 t \<or> Size t' = n \<and> Prime2 t' = q)"
proof (cases "add_loop (Size t) 0 check t (StringToInt key) key = Inr Full")
  case False
  then show ?thesis using add_absent [OF r new, of check v] by (fastforce simp: grown_def simp del: add_n.simps)
next
  case full: True
  obtain t1 where t1: "grow_table (add_n (Suc k) False) t 1000 = Inr (True, t1)" "represents t1 m" "Size t1 = n" "Prime2 t1 = q"
    "used_count t1 = used_count t" "no_deleted t1"
    using grow_table_spec [OF r dims good, of k] room by auto
  have "good_size t1" using good t1(3,4) by (simp add: good_size_def MakeTable_def)
  then obtain j t' where "add_n (Suc k) check t1 key v = Inr (int j, j, t')" "represents t' (m(key \<mapsto> v))" "grown t1 t' 1"
    using add_room [OF t1(2) new, of k check v] t1(3,5) room by auto
  then show ?thesis using full t1 by (auto simp: grown_def add_n.simps(2) [of "Suc k"] simp del: add_n.simps)
qed

text \<open>Without deleted entries, a key that is there is found again.\<close>

lemma add_present:
  assumes r: "represents t m" and key: "m key = Some v'" and nd: "no_deleted t"
  shows "\<exists>j. add_n (Suc k) True t key v = Inr (-1, j, t) \<and> j < Size t \<and> entries t ! j = Used key v'"
proof -
  let ?p = "StringToInt key"
  have inv: "table_inv t" and wf: "wf_table t" using r by (auto simp: represents_def table_inv_def)
  obtain j where "j < Size t" "entries t ! j = Used key v'" using represents_iff [OF r] key by blast
  then obtain i where i: "i < Size t" "slot t ?p i = Used key v'" "\<forall>k<i. \<not> is_unused (slot t ?p k)"
    using inv unfolding table_inv_def reachable_keys_def by metis
  have used: "in_use (slot t ?p k)" if "k \<le> i" for k
  proof (cases "k = i")
    case False
    have "slot t ?p k \<in> set (entries t)" using hash_less [OF wf] wf by (auto simp: wf_table_def)
    then have "\<not> is_deleted (slot t ?p k)" using nd by (simp add: no_deleted_def)
    moreover have "\<not> is_unused (slot t ?p k)" using i(3) that False by simp
    ultimately show ?thesis by (cases "slot t ?p k") simp_all
  qed (use i in simp)
  obtain a where a: "add_loop (Size t) 0 True t ?p key = Inr a" "place_result True t ?p key 0 (Size t) a"
    using add_loop_spec [OF wf, of "Size t" 0 True ?p key] by auto
  show ?thesis
  proof (cases a)
    case (Free j')
    then obtain n where n: "n < Size t" "\<not> in_use (slot t ?p n)" "\<forall>m<n. \<forall>v. slot t ?p m \<noteq> Used key v" using a(2) by auto
    then show ?thesis using used [of n] i(2) by (cases "n \<le> i") auto
  next
    case (Present j')
    then obtain n w where n: "j' = HashFunc t ?p n" "slot t ?p n = Used key w" using a(2) by auto
    then have "m key = Some w" using represents_iff [OF r] hash_less [OF wf] by blast
    then show ?thesis using n a(1) Present key hash_less [OF wf] by simp
  next
    case Full
    then show ?thesis using a(2) i by auto
  qed
qed

section \<open>Sequences of operations\<close>

datatype 'v op = Add string 'v | Remove string

text \<open>The result of an operation: whether the entry was added, or found and removed.\<close>

fun run_ops :: "'v HashTable \<Rightarrow> 'v op list \<Rightarrow> (bool list \<times> 'v HashTable) res" where
  "run_ops t [] = Inr ([], t)"
| "run_ops t (Add k v # ops) =
     bindE (AddEntry 2 t k v) (\<lambda>(r, _, t). bindE (run_ops t ops) (\<lambda>(rs, t). Inr ((r \<ge> 0) # rs, t)))"
| "run_ops t (Remove k # ops) =
     bindE (RemoveEntry t k) (\<lambda>(r, t). bindE (run_ops t ops) (\<lambda>(rs, t). Inr (r # rs, t)))"

fun map_ops :: "(string \<rightharpoonup> 'v) \<Rightarrow> 'v op list \<Rightarrow> bool list \<times> (string \<rightharpoonup> 'v)" where
  "map_ops m [] = ([], m)"
| "map_ops m (Add k v # ops) = (let (rs, m') = map_ops (if m k = None then m(k \<mapsto> v) else m) ops in ((m k = None) # rs, m'))"
| "map_ops m (Remove k # ops) = (let (rs, m') = map_ops (m(k := None)) ops in ((m k \<noteq> None) # rs, m'))"

text \<open>After a removal, only keys that are not there are added.\<close>

fun legal :: "bool \<Rightarrow> (string \<rightharpoonup> 'v) \<Rightarrow> 'v op list \<Rightarrow> bool" where
  "legal removed m [] = True"
| "legal removed m (Add k v # ops) = ((removed \<longrightarrow> m k = None) \<and> legal removed (if m k = None then m(k \<mapsto> v) else m) ops)"
| "legal removed m (Remove k # ops) = legal True (m(k := None)) ops"

fun adds :: "'v op list \<Rightarrow> nat" where
  "adds [] = 0"
| "adds (Add k v # ops) = Suc (adds ops)"
| "adds (Remove k # ops) = adds ops"

text \<open>A table of the first or the second size.\<close>

definition sized :: "nat \<Rightarrow> nat \<Rightarrow> nat \<Rightarrow> nat \<Rightarrow> 'v HashTable \<Rightarrow> bool" where
  "sized n0 q0 n1 q1 t \<longleftrightarrow> (Size t = n0 \<and> Prime2 t = q0) \<or> (Size t = n1 \<and> Prime2 t = q1)"

lemma add_sized:
  fixes t :: "'v HashTable"
  assumes "represents t m" and "m key = None" and "sized n0 q0 n1 q1 t" and "2 * used_count t < n1"
    and dims: "NextPrimeNumber (q0 + 1000) = q1" "NextPrimeNumber (2 * q1) = n1" and good: "good_size (MakeTable n1 q1 :: 'v HashTable)"
  shows "\<exists>j t'. AddEntry 2 t key v = Inr (int j, j, t') \<and> represents t' (m(key \<mapsto> v)) \<and> used_count t' = used_count t + 1 \<and>
    (no_deleted t \<longrightarrow> no_deleted t') \<and> sized n0 q0 n1 q1 t'"
proof (cases "Size t = n1 \<and> Prime2 t = q1")
  case True
  then have "good_size t" using good by (simp add: good_size_def MakeTable_def)
  then show ?thesis using add_room [OF assms(1,2) _ _, of "Suc 0" True v] assms(4) True
    by (auto simp: AddEntry_def numeral_2_eq_2 grown_def sized_def simp del: add_n.simps)
next
  case False
  then have "Prime2 t = q0" "Size t = n0" using assms(3) by (auto simp: sized_def)
  then show ?thesis using add_grows [OF assms(1,2) _ dims(2) good assms(4), of 0 True v] dims(1)
    by (auto simp: AddEntry_def numeral_2_eq_2 sized_def simp del: add_n.simps)
qed

lemma run_ops_spec:
  fixes t :: "'v HashTable"
  assumes dims: "NextPrimeNumber (q0 + 1000) = q1" "NextPrimeNumber (2 * q1) = n1" and good: "good_size (MakeTable n1 q1 :: 'v HashTable)"
  shows "represents t m \<Longrightarrow> sized n0 q0 n1 q1 t \<Longrightarrow> 2 * (used_count t + adds ops) < n1 + 2 \<Longrightarrow> legal removed m ops \<Longrightarrow>
    (\<not> removed \<longrightarrow> no_deleted t) \<Longrightarrow>
    \<exists>t'. run_ops t ops = Inr (fst (map_ops m ops), t') \<and> represents t' (snd (map_ops m ops))"
proof (induction ops arbitrary: t m removed)
  case (Cons op ops)
  show ?case
  proof (cases op)
    case (Add k v)
    show ?thesis
    proof (cases "m k")
      case None
      obtain j t1 where t1: "AddEntry 2 t k v = Inr (int j, j, t1)" "represents t1 (m(k \<mapsto> v))" "used_count t1 = used_count t + 1"
        "no_deleted t \<longrightarrow> no_deleted t1" "sized n0 q0 n1 q1 t1"
        using add_sized [OF Cons.prems(1) None Cons.prems(2) _ dims good, where v = v] Cons.prems(3) Add by auto
      have room: "2 * (used_count t1 + adds ops) < n1 + 2" and legal: "legal removed (m(k \<mapsto> v)) ops"
        using Cons.prems(3,4) t1(3) Add None by simp_all
      obtain t' where "run_ops t1 ops = Inr (fst (map_ops (m(k \<mapsto> v)) ops), t')" "represents t' (snd (map_ops (m(k \<mapsto> v)) ops))"
        using Cons.IH [OF t1(2,5) room legal] Cons.prems(5) t1(4) by blast
      then show ?thesis using t1(1) Add None by (auto simp: split_beta)
    next
      case (Some w)
      then have nd: "no_deleted t" using Cons.prems(4,5) Add by auto
      obtain j where "AddEntry 2 t k v = Inr (-1, j, t)"
        using add_present [OF Cons.prems(1) Some nd, of "Suc 0" v] by (auto simp: AddEntry_def numeral_2_eq_2 simp del: add_n.simps)
      moreover obtain t' where "run_ops t ops = Inr (fst (map_ops m ops), t')" "represents t' (snd (map_ops m ops))"
        using Cons.IH [OF Cons.prems(1,2), of removed] Cons.prems(3,4,5) Add Some by auto
      ultimately show ?thesis using Add Some by (auto simp: split_beta)
    qed
  next
    case (Remove k)
    obtain t1 where t1: "RemoveEntry t k = Inr (m k \<noteq> None, t1)" "represents t1 (m(k := None))" "Size t1 = Size t" "Prime2 t1 = Prime2 t"
      "used_count t1 \<le> used_count t" using represents_remove [OF Cons.prems(1)] by (auto simp: used_count_def)
    have "sized n0 q0 n1 q1 t1" using Cons.prems(2) t1(3,4) by (simp add: sized_def)
    moreover have "2 * (used_count t1 + adds ops) < n1 + 2" "legal True (m(k := None)) ops" using Cons.prems(3,4) t1(5) Remove by simp_all
    ultimately obtain t' where "run_ops t1 ops = Inr (fst (map_ops (m(k := None)) ops), t')" "represents t' (snd (map_ops (m(k := None)) ops))"
      using Cons.IH [OF t1(2), of True] by blast
    then show ?thesis using t1(1) Remove by (auto simp: split_beta)
  qed
qed simp

section \<open>Sizes\<close>

lemma trial_sqrt:
  assumes "\<forall>i\<in>set [2..<r]. \<not> i dvd n" and "n < r * r"
  shows "trial n"
proof -
  have "\<not> i dvd n" if i: "2 \<le> i" "i \<le> n div 2" for i
  proof
    assume "i dvd n"
    then obtain c where c: "n = i * c" by blast
    have "2 \<le> c"
    proof (rule ccontr)
      assume "\<not> 2 \<le> c"
      then have "c = 0 \<or> c = 1" by linarith
      then show False using c i by auto
    qed
    have "i < r \<or> c < r"
    proof (rule ccontr)
      assume "\<not> ?thesis"
      then have "r * r \<le> i * c" by (intro mult_le_mono) auto
      then show False using c assms(2) by simp
    qed
    then show False using assms(1) c i(1) \<open>2 \<le> c\<close> by (metis atLeastLessThan_iff dvd_triv_left dvd_triv_right set_upt)
  qed
  then show ?thesis by (simp add: trial_iff)
qed

lemma primes_251: "trial 1129" "trial 2267" "trial 2027" "trial 4057"
proof -
  have d: "\<forall>i\<in>set [2..<64]. \<not> i dvd (1129::nat)" "\<forall>i\<in>set [2..<64]. \<not> i dvd (2267::nat)"
    "\<forall>i\<in>set [2..<64]. \<not> i dvd (2027::nat)" "\<forall>i\<in>set [2..<64]. \<not> i dvd (4057::nat)"
    by (simp_all add: upt_rec dvd_eq_mod_eq_0 del: set_upt)
  show "trial 1129" "trial 2267" "trial 2027" "trial 4057" by (rule trial_sqrt, rule d, simp)+
qed

lemma not_trial:
  assumes "2 \<le> i" and "2 \<le> c"
  shows "\<not> trial (i * c)"
proof -
  have "i * 2 \<le> i * c" using assms(2) by (rule mult_le_mono2)
  then have "i \<le> i * c div 2" by (simp add: less_eq_div_iff_mult_less_eq)
  then show ?thesis using assms(1) by (auto simp: trial_iff)
qed

lemma next_prime_step: "\<not> trial n \<Longrightarrow> n < 4294967295 \<Longrightarrow> next_prime n = next_prime (n + 1)"
  by (subst next_prime.simps) simp

lemma next_prime_done: "trial n \<Longrightarrow> next_prime n = n"
  by (subst next_prime.simps) simp

lemma next_primes:
  "NextPrimeNumber 1127 = 1129" "NextPrimeNumber 2258 = 2267" "NextPrimeNumber 2021 = 2027" "NextPrimeNumber 4054 = 4057"
proof -
  have c: "\<not> trial (7 * 161)" "\<not> trial (2 * 564)" "\<not> trial (2 * 1129)" "\<not> trial (3 * 753)" "\<not> trial (2 * 1130)" "\<not> trial (7 * 323)"
    "\<not> trial (2 * 1131)" "\<not> trial (31 * 73)" "\<not> trial (2 * 1132)" "\<not> trial (3 * 755)" "\<not> trial (2 * 1133)"
    "\<not> trial (43 * 47)" "\<not> trial (2 * 1011)" "\<not> trial (7 * 289)" "\<not> trial (2 * 1012)" "\<not> trial (3 * 675)" "\<not> trial (2 * 1013)"
    "\<not> trial (2 * 2027)" "\<not> trial (5 * 811)" "\<not> trial (2 * 2028)"
    by (rule not_trial; simp)+
  note s = c [simplified, THEN next_prime_step, simplified] and d = primes_251 [THEN next_prime_done]
  show "NextPrimeNumber 1127 = 1129" "NextPrimeNumber 2258 = 2267" "NextPrimeNumber 2021 = 2027" "NextPrimeNumber 4054 = 4057"
    by (simp_all add: NextPrimeNumber_def s d)
qed

lemma second_sizes:
  "good_size (MakeTable 2267 1129)" "good_size (MakeTable 4057 2027)"
  using primes_251 by (simp_all add: good_size_def MakeTable_def)

section \<open>Results\<close>

text \<open>
  C25. A new hash table behaves as a map under any sequence of at most 1134 additions (2029 for the big table) and any
  removals, where no key that is present is added again after a removal: every operation returns what it returns on the
  map, and afterwards each key is looked up as in the map.  This includes one growth of the table; the calls return.
\<close>

theorem hash_table_is_map:
  fixes ops :: "'v op list"
  assumes "legal False Map.empty ops"
  shows "(adds ops \<le> 1134 \<longrightarrow> (\<exists>t. run_ops new_HashTable ops = Inr (fst (map_ops Map.empty ops), t) \<and>
      (\<forall>key. Lookup t key = Inr (snd (map_ops Map.empty ops) key)))) \<and>
    (adds ops \<le> 2029 \<longrightarrow> (\<exists>t. run_ops new_BigHashTable ops = Inr (fst (map_ops Map.empty ops), t) \<and>
      (\<forall>key. Lookup t key = Inr (snd (map_ops Map.empty ops) key))))"
proof (intro conjI impI)
  assume "adds ops \<le> 1134"
  then have "\<exists>t'. run_ops new_HashTable ops = Inr (fst (map_ops Map.empty ops), t') \<and> represents t' (snd (map_ops Map.empty ops))"
    using new_table_represents [where ?'v = 'v and n = 251 and q = 127] next_primes(1,2) second_sizes(1) assms
    by (intro run_ops_spec [of 127 1129 2267 _ _ 251]) (auto simp: new_HashTable_def sized_def MakeTable_def)
  then show "\<exists>t. run_ops new_HashTable ops = Inr (fst (map_ops Map.empty ops), t) \<and> (\<forall>key. Lookup t key = Inr (snd (map_ops Map.empty ops) key))"
    using lookup_represents by blast
next
  assume "adds ops \<le> 2029"
  then have "\<exists>t'. run_ops new_BigHashTable ops = Inr (fst (map_ops Map.empty ops), t') \<and> represents t' (snd (map_ops Map.empty ops))"
    using new_table_represents [where ?'v = 'v and n = 2053 and q = 1021] next_primes(3,4) second_sizes(2) assms
    by (intro run_ops_spec [of 1021 2027 4057 _ _ 2053]) (auto simp: new_BigHashTable_def sized_def MakeTable_def)
  then show "\<exists>t. run_ops new_BigHashTable ops = Inr (fst (map_ops Map.empty ops), t) \<and> (\<forall>key. Lookup t key = Inr (snd (map_ops Map.empty ops) key))"
    using lookup_represents by blast
qed

theorem hash_table_is_map_witness:
  "\<exists>t. run_ops new_HashTable [Add ''int'' (1 :: nat), Add ''x'' 2, Add ''x'' 3, Remove ''int'', Add ''f'' 4] = Inr ([True, True, False, True, True], t) \<and>
    Lookup t ''x'' = Inr (Some 2) \<and> Lookup t ''int'' = Inr None"
proof -
  let ?ops = "[Add ''int'' (1 :: nat), Add ''x'' 2, Add ''x'' 3, Remove ''int'', Add ''f'' 4]"
  obtain t where "run_ops new_HashTable ?ops = Inr (fst (map_ops Map.empty ?ops), t)"
    "\<forall>key. Lookup t key = Inr (snd (map_ops Map.empty ?ops) key)"
    using hash_table_is_map [of ?ops] by (auto simp del: run_ops.simps)
  then show ?thesis by (auto simp del: run_ops.simps)
qed

section \<open>Adding after a removal\<close>

lemma hash_keys: "StringToInt ''b'' = 98" "StringToInt ''mx'' = 349"
  by (simp_all add: StringToInt_def scode_def ucode_def)

lemma probes_251:
  assumes "Size t = 251" and "Prime2 t = 127"
  shows "HashFunc t 98 0 = 98" and "HashFunc t 349 0 = 98" and "HashFunc t 349 1 = 194" 
proof -
  have "trial 251" by (rule trial_sqrt [of 16]) (simp_all add: upt_rec dvd_eq_mod_eq_0 del: set_upt)
  then have g: "good_size t" using assms by (simp add: good_size_def)
  show "HashFunc t 98 0 = 98" "HashFunc t 349 0 = 98" "HashFunc t 349 1 = 194" 
    using assms by (simp_all add: hash_nat [OF g] stride_def)
qed

lemma lookup_loop_step:
  assumes "0 < k" and "HashFunc t p i = j" and "j < length (entries t)"
  shows "lookup_loop k i t p key = (case entries t ! j of
        Unused _ \<Rightarrow> Inr None
      | Deleted _ \<Rightarrow> lookup_loop (k - 1) (i + 1) t p key
      | Used s v \<Rightarrow> if s = key then Inr (Some (v, j, i)) else lookup_loop (k - 1) (i + 1) t p key)"
  using assms by (cases k) (simp_all split: Entry.splits)

lemma add_loop_step:
  assumes "0 < k" and "HashFunc t p i = j" and "j < length (entries t)"
  shows "add_loop k i check t p key = (case entries t ! j of
        Used s v \<Rightarrow> if check \<and> s = key then Inr (Present j) else add_loop (k - 1) (i + 1) check t p key
      | _ \<Rightarrow> Inr (Free j))"
  using assms by (cases k) (simp_all split: Entry.splits)

text \<open>
  An addition takes the first deleted entry on its path without looking further: a key that is present behind it is
  added a second time, and after it is removed the older entry is found.
\<close>

theorem readded_key_survives:
  "\<exists>t. run_ops new_HashTable [Add ''b'' (1 :: nat), Add ''mx'' 2, Remove ''b'', Add ''mx'' 3, Remove ''mx''] = Inr ([True, True, True, True, True], t) \<and>
    Lookup t ''mx'' = Inr (Some 2)"
  by (simp add: numeral_2_eq_2 AddEntry_def RemoveEntry_def Lookup_def Lookup2_def new_HashTable_def MakeTable_def hash_keys
      add_loop_step [where j = 98 and i = 0] add_loop_step [where j = 194 and i = "Suc 0"]
      lookup_loop_step [where j = 98 and i = 0] lookup_loop_step [where j = 194 and i = "Suc 0"] probes_251 [simplified]
      del: add_loop.simps lookup_loop.simps)

end
