(* ===== verification/Lex_Ops.thy ===== *)
theory Lex_Ops
  imports Hash_Map
begin

text \<open>
  The lexical analyser of the source translator (\<^verbatim>\<open>opencxx/parser/Lex.cc\<close>) over a program text
  (\<^verbatim>\<open>opencxx/parser/Program.cc\<close>, \<^verbatim>\<open>Program.h\<close>), compiled with GNU extensions.  A pointer into the text is its index.
\<close>

section \<open>The program text\<close>

text \<open>
  The array holds the text and a terminating NUL; \<^verbatim>\<open>index\<close> is that of the next character.  \<^verbatim>\<open>index++\<close> does not wrap, since it is
  done in front of the terminator only and \<^verbatim>\<open>size\<close> is \<^verbatim>\<open>unsigned\<close>.
\<close>

record Program =
  buf :: string
  index :: nat

definition Ref :: "Program \<Rightarrow> nat \<Rightarrow> char res" where
  "Ref p i = (if i < length (buf p) then Inr (buf p ! i) else if i = length (buf p) then Inr NUL else Inl OutOfRange)"

definition Get :: "Program \<Rightarrow> (char \<times> Program) res" where
  "Get p = bindE (Ref p (index p)) (\<lambda>c. Inr (c, if c = NUL then p else p\<lparr>index := index p + 1\<rparr>))"

text \<open>\<^verbatim>\<open>index - 1\<close> wraps at 0.\<close>

definition dec :: "nat \<Rightarrow> nat" where
  "dec i = (if i = 0 then 4294967295 else i - 1)"

definition Unget :: "Program \<Rightarrow> Program" where
  "Unget p = p\<lparr>index := dec (index p)\<rparr>"

definition GetCurPos :: "Program \<Rightarrow> nat" where
  "GetCurPos p = dec (index p)"

definition Rewind :: "nat \<Rightarrow> Program \<Rightarrow> Program" where
  "Rewind i p = p\<lparr>index := i\<rparr>"

section \<open>Characters and tokens\<close>

definition is_blank :: "char \<Rightarrow> bool" where
  "is_blank c \<longleftrightarrow> c \<in> {CHR '' '', CHR 0x09, CHR 0x0C, CHR 0x0D}"

definition in_range :: "char \<Rightarrow> char \<Rightarrow> char \<Rightarrow> bool" where
  "in_range a b c \<longleftrightarrow> scode a \<le> scode c \<and> scode c \<le> scode b"

definition is_letter :: "char \<Rightarrow> bool" where
  "is_letter c \<longleftrightarrow> in_range CHR ''A'' CHR ''Z'' c \<or> in_range CHR ''a'' CHR ''z'' c \<or> c = CHR ''_'' \<or> c = CHR ''$''"

definition is_digit :: "char \<Rightarrow> bool" where
  "is_digit c \<longleftrightarrow> in_range CHR ''0'' CHR ''9'' c"

definition is_xletter :: "char \<Rightarrow> bool" where "is_xletter c \<longleftrightarrow> c = CHR ''X'' \<or> c = CHR ''x''"
definition is_eletter :: "char \<Rightarrow> bool" where "is_eletter c \<longleftrightarrow> c = CHR ''E'' \<or> c = CHR ''e''"

definition is_hexdigit :: "char \<Rightarrow> bool" where
  "is_hexdigit c \<longleftrightarrow> is_digit c \<or> in_range CHR ''A'' CHR ''F'' c \<or> in_range CHR ''a'' CHR ''f'' c"

definition is_int_suffix :: "char \<Rightarrow> bool" where "is_int_suffix c \<longleftrightarrow> c \<in> set ''UuLl''"
definition is_float_suffix :: "char \<Rightarrow> bool" where "is_float_suffix c \<longleftrightarrow> c \<in> set ''FfLl''"

text \<open>A token is a character, one of the named classes, or the enumerator of a reserved word, given by its name.\<close>

datatype token = Ch char
  | Identifier | Constant | CharConst | StringL | WideStringL | WideCharConst
  | AssignOp | EqualOp | RelOp | ShiftOp | LogOrOp | LogAndOp | IncOp | Scope | Ellipsis | PmOp | ArrowOp | BadToken
  | WCHAR | ATTRIBUTE | EXTENSION | METACLASS | Ignore | Keyword string

abbreviation LF :: char where "LF \<equiv> CHR 0x0A"
abbreviation BACKSLASH :: char where "BACKSLASH \<equiv> CHR 0x5C"
abbreviation QUOTE :: char where "QUOTE \<equiv> CHR 0x27"
abbreviation DQUOTE :: char where "DQUOTE \<equiv> CHR 0x22"

definition table :: "(string \<times> token) list" where
  "table = [
     (''__alignof'', Keyword ''SIZEOF''), (''__alignof__'', Keyword ''SIZEOF''), (''__asm'', ATTRIBUTE),
     (''__asm__'', ATTRIBUTE), (''__attribute'', ATTRIBUTE), (''__attribute__'', ATTRIBUTE),
     (''__const'', Keyword ''CONST''), (''__extension__'', EXTENSION), (''__inline'', Keyword ''INLINE''),
     (''__inline__'', Keyword ''INLINE''), (''__noreturn'', Ignore), (''__noreturn__'', Ignore),
     (''__restrict'', Ignore), (''__restrict__'', Ignore), (''__signed'', Keyword ''SIGNED''),
     (''__signed__'', Keyword ''SIGNED''), (''__typeof'', Keyword ''TYPEOF''), (''__typeof__'', Keyword ''TYPEOF''),
     (''__unused__'', Ignore), (''__vector'', Ignore), (''asm'', ATTRIBUTE), (''auto'', Keyword ''AUTO''),
     (''bool'', Keyword ''BOOLEAN''), (''break'', Keyword ''BREAK''), (''case'', Keyword ''CASE''),
     (''catch'', Keyword ''CATCH''), (''char'', Keyword ''CHAR''), (''class'', Keyword ''CLASS''),
     (''const'', Keyword ''CONST''), (''continue'', Keyword ''CONTINUE''), (''default'', Keyword ''DEFAULT''),
     (''delete'', Keyword ''DELETE''), (''do'', Keyword ''DO''), (''double'', Keyword ''DOUBLE''),
     (''else'', Keyword ''ELSE''), (''enum'', Keyword ''ENUM''), (''extern'', Keyword ''EXTERN''),
     (''float'', Keyword ''FLOAT''), (''for'', Keyword ''FOR''), (''friend'', Keyword ''FRIEND''),
     (''goto'', Keyword ''GOTO''), (''if'', Keyword ''IF''), (''inline'', Keyword ''INLINE''),
     (''int'', Keyword ''INT''), (''long'', Keyword ''LONG''), (''metaclass'', METACLASS),
     (''mutable'', Keyword ''MUTABLE''), (''namespace'', Keyword ''NAMESPACE''), (''new'', Keyword ''NEW''),
     (''noreturn'', Ignore), (''operator'', Keyword ''OPERATOR''), (''private'', Keyword ''PRIVATE''),
     (''protected'', Keyword ''PROTECTED''), (''public'', Keyword ''PUBLIC''), (''register'', Keyword ''REGISTER''),
     (''return'', Keyword ''RETURN''), (''short'', Keyword ''SHORT''), (''signed'', Keyword ''SIGNED''),
     (''sizeof'', Keyword ''SIZEOF''), (''static'', Keyword ''STATIC''), (''struct'', Keyword ''STRUCT''),
     (''switch'', Keyword ''SWITCH''), (''template'', Keyword ''TEMPLATE''), (''this'', Keyword ''THIS''),
     (''throw'', Keyword ''THROW''), (''try'', Keyword ''TRY''), (''typedef'', Keyword ''TYPEDEF''),
     (''typeid'', Keyword ''TYPEID''), (''typename'', Keyword ''CLASS''), (''typeof'', Keyword ''TYPEOF''),
     (''union'', Keyword ''UNION''), (''unsigned'', Keyword ''UNSIGNED''), (''using'', Keyword ''USING''),
     (''virtual'', Keyword ''VIRTUAL''), (''void'', Keyword ''VOID''), (''volatile'', Keyword ''VOLATILE''),
     (''while'', Keyword ''WHILE'')]"

text \<open>
  \<^verbatim>\<open>InitializeOtherKeywords\<close>: without the extensions, \<^verbatim>\<open>metaclass\<close> (the only such entry) is an identifier.  The
  function works once; the model is the table as the first lexer of the process sets it up for all.
\<close>

definition InitializeOtherKeywords :: "bool \<Rightarrow> (string \<times> token) list" where
  "InitializeOtherKeywords recognizeOccExtensions =
     (if recognizeOccExtensions then table else map (\<lambda>(n, v). (n, if v = METACLASS then Identifier else v)) table)"

section \<open>Reading\<close>

text \<open>\<^verbatim>\<open>do c = file->Get(); while (P(c))\<close>; the terminator is read again and again.\<close>

lemma Get_step: "Get p = Inr (c, p') \<Longrightarrow> c \<noteq> NUL \<Longrightarrow> index p < length (buf p) \<and> c = buf p ! index p \<and> p' = p\<lparr>index := index p + 1\<rparr>"
  by (auto simp: Get_def Ref_def split: if_splits)

lemma Get_keeps: "Get p = Inr (c, p') \<Longrightarrow> buf p' = buf p \<and> index p \<le> index p'"
  by (auto simp: Get_def split: if_splits)

function get_while :: "(char \<Rightarrow> bool) \<Rightarrow> Program \<Rightarrow> (char \<times> Program) res" where
  "get_while P p =
     bindE (Get p) (\<lambda>(c, p). if P c then if c = NUL then Inl Diverge else get_while P p else Inr (c, p))"
  by pat_completeness auto
termination
  by (relation "measure (\<lambda>(P, p). length (buf p) - index p)") (auto dest: Get_step)

declare get_while.simps [simp del]

lemma get_while_keeps: "get_while P p = Inr (c, p') \<Longrightarrow> buf p' = buf p \<and> index p \<le> index p'"
proof (induction P p rule: get_while.induct)
  case (1 P p)
  obtain d q where d: "Get p = Inr (d, q)" and r: "(if P d then if d = NUL then Inl Diverge else get_while P q else Inr (d, q)) = Inr (c, p')"
    using "1.prems" by (subst (asm) get_while.simps) auto
  show ?case
  proof (cases "P d \<and> d \<noteq> NUL")
    case True
    then show ?thesis using "1.IH" [OF d refl] r Get_keeps [OF d] by fastforce
  next
    case False
    then show ?thesis using r Get_keeps [OF d] by (auto split: if_splits)
  qed
qed

text \<open>Skip blanks and escaped line ends.\<close>

function GetNextNonWhiteChar :: "Program \<Rightarrow> (char \<times> Program) res" where
  "GetNextNonWhiteChar p =
     bindE (get_while is_blank p) (\<lambda>(c, p).
     if c \<noteq> BACKSLASH then Inr (c, p)
     else bindE (Get p) (\<lambda>(c, p). if c \<noteq> LF \<and> c \<noteq> CHR 0x0D then Inr (c, Unget p) else GetNextNonWhiteChar p))"
  by pat_completeness auto
termination
proof (relation "measure (\<lambda>p. length (buf p) - index p)", goal_cases)
  case (2 p x c q y d r)
  then have "d \<noteq> NUL" by auto
  then show ?case using 2 get_while_keeps [of is_blank p c q] Get_step [of q d r] by auto
qed auto

text \<open>Character constants: the text up to the closing quote.\<close>

function ReadCharConst :: "Program \<Rightarrow> (bool \<times> Program) res" where
  "ReadCharConst p =
     bindE (Get p) (\<lambda>(c, p).
     if c = BACKSLASH then bindE (Get p) (\<lambda>(c, p). if c = NUL then Inr (False, p) else ReadCharConst p)
     else if c = QUOTE then Inr (True, p)
     else if c = LF \<or> c = NUL then Inr (False, p)
     else ReadCharConst p)"
  by pat_completeness auto
termination
  by (relation "measure (\<lambda>p. length (buf p) - index p)") (auto dest!: Get_step)

text \<open>A sequence of string constants; the result is the position behind the last one.\<close>

function ReadShortStrConst :: "Program \<Rightarrow> (nat option \<times> Program) res" where
  "ReadShortStrConst p =
     bindE (Get p) (\<lambda>(c, p).
     if c = BACKSLASH then bindE (Get p) (\<lambda>(c, p). if c = NUL then Inr (None, p) else ReadShortStrConst p)
     else if c = DQUOTE
     then let pos = sz (GetCurPos p + 1) in
          bindE (get_while (\<lambda>c. is_blank c \<or> c = LF) p) (\<lambda>(c, p).
          if c = DQUOTE then ReadShortStrConst p else Inr (Some pos, Rewind pos p))
     else if c = LF \<or> c = NUL then Inr (None, p)
     else ReadShortStrConst p)"
  by pat_completeness auto
termination
proof (relation "measure (\<lambda>p. length (buf p) - index p)", goal_cases)
  case (3 p x c q pos y d r)
  then have "get_while (\<lambda>c. is_blank c \<or> c = LF) q = Inr (d, r)" "Get p = Inr (c, q)" "c \<noteq> NUL" by auto
  then show ?case using get_while_keeps Get_step by fastforce
qed (auto dest!: Get_step)

text \<open>
  A string in triple quotes; the result is the position of its last character.  When the text ends after one or two quotes, the loop
  comes back to the same quote forever.
\<close>

function ReadLongStrConst :: "Program \<Rightarrow> (nat option \<times> Program) res" where
  "ReadLongStrConst p =
     bindE (Get p) (\<lambda>(c, p1).
     if c = BACKSLASH then bindE (Get p1) (\<lambda>(c, p). if c = NUL then Inr (None, p) else ReadLongStrConst p)
     else if c = DQUOTE
     then bindE (Get p1) (\<lambda>(c, p2).
          if c = DQUOTE
          then bindE (Get p2) (\<lambda>(c, p3).
               if c = DQUOTE then Inr (Some (GetCurPos p3), p3)
               else let q = Unget (Unget p3) in if index q \<le> index p then Inl Diverge else ReadLongStrConst q)
          else let q = Unget p2 in if index q \<le> index p then Inl Diverge else ReadLongStrConst q)
     else if c = NUL then Inr (None, p1)
     else ReadLongStrConst p1)"
  by pat_completeness auto
termination
proof (relation "measure (\<lambda>p. length (buf p) - index p)", goal_cases)
  case (3 p x c p1 y d p2 z e p3 q)
  then have "Get p = Inr (c, p1)" "c \<noteq> NUL" "Get p1 = Inr (d, p2)" "Get p2 = Inr (e, p3)" by auto
  note g = this
  have "buf q = buf p" using 3 g(1,3,4) [THEN Get_keeps] by (auto simp: Unget_def)
  moreover have "index p < length (buf p)" using Get_step [OF g(1,2)] by simp
  ultimately show ?case using 3 by auto
next
  case (4 p x c p1 y d p2 q)
  then have "Get p = Inr (c, p1)" "c \<noteq> NUL" "Get p1 = Inr (d, p2)" by auto
  note g = this
  have "buf q = buf p" using 4 g(1,3) [THEN Get_keeps] by (auto simp: Unget_def)
  moreover have "index p < length (buf p)" using Get_step [OF g(1,2)] by simp
  ultimately show ?case using 4 by auto
qed (auto dest!: Get_step)

text \<open>
  The readers return a token, its length and the text; \<open>tp\<close> is where the token begins.  The length of a string or character
  constant is counted from \<open>tp\<close>.
\<close>

definition len_from :: "nat \<Rightarrow> nat \<Rightarrow> int" where
  "len_from tp e = as_int (szsub e tp)"

definition ReadStrConst :: "nat \<Rightarrow> Program \<Rightarrow> (int option \<times> Program) res" where
  "ReadStrConst tp p =
     bindE (Get p) (\<lambda>(c, p).
     if c = DQUOTE
     then bindE (Get p) (\<lambda>(c, p).
          if c = DQUOTE
          then bindE (ReadLongStrConst p) (\<lambda>(e, p). case e of
                 Some e \<Rightarrow> Inr (Some (len_from tp (sz (e + 1))), p)
               | None \<Rightarrow> bindE (ReadShortStrConst p) (\<lambda>(e, p). Inr (map_option (len_from tp) e, p)))
          else bindE (ReadShortStrConst (Unget (Unget p))) (\<lambda>(e, p). Inr (map_option (len_from tp) e, p)))
     else bindE (ReadShortStrConst (Unget p)) (\<lambda>(e, p). Inr (map_option (len_from tp) e, p)))"

text \<open>\<^verbatim>\<open>file->Unget(); token_len = file->GetCurPos() - tp + 1\<close>\<close>

definition unget_token :: "token \<Rightarrow> nat \<Rightarrow> Program \<Rightarrow> token \<times> int \<times> Program" where
  "unget_token t tp p = (let p = Unget p in (t, len_from tp (sz (GetCurPos p + 1)), p))"

definition ReadFloat :: "nat \<Rightarrow> Program \<Rightarrow> (token \<times> int \<times> Program) res" where
  "ReadFloat tp p =
     bindE (get_while is_digit p) (\<lambda>(c, p).
     if is_float_suffix c
     then bindE (get_while is_float_suffix p) (\<lambda>(c, p). Inr (unget_token Constant tp p))
     else if is_eletter c
     then let e = GetCurPos p in
          bindE (Get p) (\<lambda>(c, p).
          bindE (if c = CHR ''+'' \<or> c = CHR ''-'' then Get p else Inr (c, p)) (\<lambda>(c, p).
          if \<not> is_digit c then Inr (Constant, len_from tp e, Rewind e p)
          else bindE (get_while is_digit p) (\<lambda>(c, p).
               bindE (if is_float_suffix c then get_while is_float_suffix p else Inr (c, p)) (\<lambda>(c, p).
               Inr (unget_token Constant tp p)))))
     else Inr (unget_token Constant tp p))"

definition ReadNumber :: "char \<Rightarrow> nat \<Rightarrow> Program \<Rightarrow> (token \<times> int \<times> Program) res" where
  "ReadNumber c tp p =
     bindE (Get p) (\<lambda>(c2, p).
     if c = CHR ''0'' \<and> is_xletter c2
     then bindE (get_while is_hexdigit p) (\<lambda>(c, p).
          bindE (if is_int_suffix c then get_while is_int_suffix p else Inr (c, p)) (\<lambda>(c, p).
          Inr (unget_token Constant tp p)))
     else bindE (if is_digit c2 then get_while is_digit p else Inr (c2, p)) (\<lambda>(c2, p).
          if is_int_suffix c2 then bindE (get_while is_int_suffix p) (\<lambda>(c, p). Inr (unget_token Constant tp p))
          else if c2 = CHR ''.'' then ReadFloat tp p
          else if is_eletter c2 then ReadFloat tp (Unget p)
          else Inr (unget_token Constant tp p)))"

definition ReadLineDirective :: "Program \<Rightarrow> Program res" where
  "ReadLineDirective p = bindE (get_while (\<lambda>c. c \<noteq> LF \<and> c \<noteq> NUL) p) (\<lambda>(c, p). Inr p)"

definition SingleCharOp :: "char \<Rightarrow> token" where
  "SingleCharOp c =
     (let valid = ''x   xx xxxxxxxx          xxxxxxx'' in
      if ucode CHR ''!'' \<le> ucode c \<and> ucode c \<le> ucode CHR ''@'' \<and> valid ! nat (ucode c - ucode CHR ''!'') = CHR ''x'' then Ch c
      else if c = CHR ''['' \<or> c = CHR '']'' \<or> c = CHR ''^'' then Ch c
      else if ucode CHR ''{'' \<le> ucode c \<and> ucode c \<le> ucode CHR ''~'' then Ch c
      else BadToken)"

text \<open>The rest of a C comment; the result is the 1 added to its length.\<close>

function block_comment :: "Program \<Rightarrow> (nat \<times> Program) res" where
  "block_comment p =
     bindE (Get p) (\<lambda>(c, p1).
     if c = CHR ''*''
     then bindE (Get p1) (\<lambda>(c, p2). if c = CHR ''/'' then Inr (1, p2)
          else if c = NUL then Inr (0, Unget p2) else block_comment (Unget p2))
     else if c = NUL then Inr (0, p1) else block_comment p1)"
  by pat_completeness auto
termination
proof (relation "measure (\<lambda>p. length (buf p) - index p)", goal_cases)
  case (2 p x c p1 y d p2)
  then have "Get p = Inr (c, p1)" "c \<noteq> NUL" "Get p1 = Inr (d, p2)" "d \<noteq> NUL" by auto
  from Get_step [OF this(1,2)] Get_step [OF this(3,4)]
  have "index p < length (buf p)" "p2 = p\<lparr>index := index p + 2\<rparr>" "index p + 1 < length (buf p)" by auto
  then show ?case by (simp add: Unget_def dec_def)
qed (auto dest!: Get_step)

text \<open>The result of a separator may be a comment with its position and length.\<close>

definition ReadComment :: "char \<Rightarrow> nat \<Rightarrow> Program \<Rightarrow> (token \<times> int \<times> Program \<times> (nat \<times> int) option) res" where
  "ReadComment c tp p =
     bindE (if c = CHR ''*'' then block_comment p
            else if c = CHR ''/'' then bindE (get_while (\<lambda>c. c \<noteq> LF \<and> c \<noteq> NUL) p) (\<lambda>(c, p). Inr (0, p))
            else Inl AssertFail) (\<lambda>(n, p).
     let len = len_from tp (sz (n + GetCurPos p)) in Inr (Ignore, len, p, Some (tp, len)))"

definition single :: "char \<Rightarrow> Program \<Rightarrow> (token \<times> int \<times> Program \<times> (nat \<times> int) option) res" where
  "single c p = Inr (SingleCharOp c, 1, Unget p, None)"

definition ReadSeparator :: "char \<Rightarrow> nat \<Rightarrow> Program \<Rightarrow> (token \<times> int \<times> Program \<times> (nat \<times> int) option) res" where
  "ReadSeparator c tp p =
     bindE (Get p) (\<lambda>(c1, p).
     if c1 = CHR ''=''
     then if c \<in> set ''*/%+-&^|'' then Inr (AssignOp, 2, p, None)
          else if c \<in> set ''=!'' then Inr (EqualOp, 2, p, None)
          else if c \<in> set ''<>'' then Inr (RelOp, 2, p, None)
          else single c p
     else if c = c1
     then if c \<in> set ''<>''
          then bindE (Get p) (\<lambda>(d, p). if d \<noteq> CHR ''='' then Inr (ShiftOp, 2, Unget p, None) else Inr (AssignOp, 3, p, None))
          else if c = CHR ''|'' then Inr (LogOrOp, 2, p, None)
          else if c = CHR ''&'' then Inr (LogAndOp, 2, p, None)
          else if c \<in> set ''+-'' then Inr (IncOp, 2, p, None)
          else if c = CHR '':'' then Inr (Scope, 2, p, None)
          else if c = CHR ''.''
          then bindE (Get p) (\<lambda>(d, p). if d = CHR ''.'' then Inr (Ellipsis, 3, p, None) else ReadComment c1 tp (Unget p))
          else if c = CHR ''/'' then ReadComment c1 tp p
          else single c p
     else if c = CHR ''.'' \<and> c1 = CHR ''*'' then Inr (PmOp, 2, p, None)
     else if c = CHR ''-'' \<and> c1 = CHR ''>''
     then bindE (Get p) (\<lambda>(d, p). if d = CHR ''*'' then Inr (PmOp, 3, p, None) else Inr (ArrowOp, 2, Unget p, None))
     else if c = CHR ''/'' \<and> c1 = CHR ''*'' then ReadComment c1 tp p
     else single c p)"

section \<open>Reserved words\<close>

text \<open>The sign of \<^verbatim>\<open>strncmp(name, identifier, len)\<close>, where the identifier has at least \<open>len\<close> characters, none of them NUL.\<close>

fun strncmp_word :: "string \<Rightarrow> string \<Rightarrow> int" where
  "strncmp_word name [] = 0"
| "strncmp_word [] (b # s) = -1"
| "strncmp_word (a # name) (b # s) = (if a = b then strncmp_word name s else sgn (ucode a - ucode b))"

function bin_search :: "(string \<times> token) list \<Rightarrow> string \<Rightarrow> int \<Rightarrow> int \<Rightarrow> token option res" where
  "bin_search tab s low high =
     (if low \<le> high
      then let mid = low + (high - low) div 2 in
           bindE (nthE tab (nat mid)) (\<lambda>(name, value).
           let c = strncmp_word name s in
           if c = 0 then if length name = length s then Inr (Some value) else bin_search tab s low (mid - 1)
           else if c < 0 then bin_search tab s (mid + 1) high
           else bin_search tab s low (mid - 1))
      else Inr None)"
  by pat_completeness auto
termination
  by (relation "measure (\<lambda>(tab, s, low, high). nat (high - low + 1))") auto

text \<open>
  The state of the lexer.  \<^verbatim>\<open>user_keywords\<close> is empty until it is created; \<^verbatim>\<open>comments\<close> holds the position and length of each comment.
\<close>

record Lex =
  lx_file :: Program
  tokenp :: nat
  token_len :: int
  last_token :: token
  rw_table :: "(string \<times> token) list"
  user_keywords :: "token HashTable"
  comments :: "(nat \<times> int) list"
  wcharSupport :: bool

definition new_Lex :: "string \<Rightarrow> bool \<Rightarrow> bool \<Rightarrow> token HashTable \<Rightarrow> Lex" where
  "new_Lex s wchars recognizeOccExtensions user =
     \<lparr>lx_file = \<lparr>buf = s, index = 0\<rparr>, tokenp = 0, token_len = 0, last_token = Ch LF, rw_table = InitializeOtherKeywords recognizeOccExtensions,
      user_keywords = user, comments = [], wcharSupport = wchars\<rparr>"

definition RecordKeyword :: "nat \<Rightarrow> string \<Rightarrow> token \<Rightarrow> token HashTable \<Rightarrow> (bool \<times> token HashTable) res" where
  "RecordKeyword n keyword t user =
     bindE (AddEntry n user keyword t) (\<lambda>(r, index, user).
     if r \<ge> 0 then Inr (True, user) else bindE (Peek user index) (\<lambda>v. Inr (v = t, user)))"

definition Screening :: "Lex \<Rightarrow> string \<Rightarrow> token res" where
  "Screening lx s =
     (if wcharSupport lx \<and> strncmp_word ''wchar_t'' s = 0 then Inr WCHAR
      else bindE (bin_search (rw_table lx) s 0 (int (length (rw_table lx)) - 1)) (\<lambda>r. case r of
        Some v \<Rightarrow> Inr v
      | None \<Rightarrow> bindE (Lookup (user_keywords lx) s) (\<lambda>r. Inr (case r of Some t \<Rightarrow> t | None \<Rightarrow> Identifier))))"

definition ReadIdentifier :: "nat \<Rightarrow> Lex \<Rightarrow> Program \<Rightarrow> (token \<times> int \<times> Program) res" where
  "ReadIdentifier tp lx p =
     bindE (get_while (\<lambda>c. is_letter c \<or> is_digit c) p) (\<lambda>(c, p).
     let len = szsub (GetCurPos p) tp; p = Unget p in
     bindE (Screening lx (take len (drop tp (buf p)))) (\<lambda>t. Inr (t, as_int len, p)))"

section \<open>Tokens\<close>

definition set_token :: "Lex \<Rightarrow> nat \<Rightarrow> token \<times> int \<times> Program \<Rightarrow> token \<times> Lex" where
  "set_token lx tp = (\<lambda>(t, len, p). (t, lx\<lparr>lx_file := p, tokenp := tp, token_len := len\<rparr>))"

definition set_separator :: "Lex \<Rightarrow> nat \<Rightarrow> token \<times> int \<times> Program \<times> (nat \<times> int) option \<Rightarrow> token \<times> Lex" where
  "set_separator lx tp = (\<lambda>(t, len, p, com). (t, lx\<lparr>lx_file := p, tokenp := tp, token_len := len,
     comments := comments lx @ (case com of None \<Rightarrow> [] | Some x \<Rightarrow> [x])\<rparr>))"

definition ReadLine :: "Lex \<Rightarrow> (token \<times> Lex) res" where
  "ReadLine lx =
     bindE (GetNextNonWhiteChar (lx_file lx)) (\<lambda>(c, p).
     let tp = GetCurPos p; bad = set_token lx tp (SingleCharOp c, 1, Rewind (tp + 1) p) in
     if c = NUL then Inr (Ch NUL, lx\<lparr>lx_file := Unget p, tokenp := tp\<rparr>)
     else if c = LF then Inr (Ch LF, lx\<lparr>lx_file := p, tokenp := tp\<rparr>)
     else if c = CHR ''#'' \<and> last_token lx = Ch LF
     then bindE (ReadLineDirective p) (\<lambda>p. Inr (Ch LF, lx\<lparr>lx_file := p, tokenp := tp\<rparr>))
     else if c = QUOTE
     then bindE (ReadCharConst p) (\<lambda>(ok, p). Inr (if ok then set_token lx tp (CharConst, len_from tp (sz (GetCurPos p + 1)), p) else bad))
     else if c = DQUOTE
     then bindE (ReadStrConst tp p) (\<lambda>(len, p). Inr (case len of Some len \<Rightarrow> set_token lx tp (StringL, len, p) | None \<Rightarrow> bad))
     else if is_digit c then bindE (ReadNumber c tp p) (\<lambda>r. Inr (set_token lx tp r))
     else if c = CHR ''.''
     then bindE (Get p) (\<lambda>(c, p). if is_digit c then bindE (ReadFloat tp p) (\<lambda>r. Inr (set_token lx tp r))
          else bindE (ReadSeparator CHR ''.'' tp (Unget p)) (\<lambda>r. Inr (set_separator lx tp r)))
     else if is_letter c
     then bindE (if c = CHR ''L''
                 then bindE (Get p) (\<lambda>(c, p).
                      if c = QUOTE
                      then bindE (ReadCharConst p) (\<lambda>(ok, p).
                           Inr (if ok then Inr (WideCharConst, len_from (tp + 1) (sz (GetCurPos p + 1)), p) else Inl (Rewind tp p)))
                      else if c = DQUOTE
                      then bindE (ReadStrConst (tp + 1) p) (\<lambda>(len, p).
                           Inr (case len of Some len \<Rightarrow> Inr (WideStringL, len, p) | None \<Rightarrow> Inl (Rewind tp p)))
                      else Inr (Inl (Rewind tp p)))
                 else Inr (Inl p)) (\<lambda>r. case r of
            Inr r \<Rightarrow> Inr (set_token lx tp r)
          | Inl p \<Rightarrow> bindE (ReadIdentifier tp lx p) (\<lambda>r. Inr (set_token lx tp r)))
     else bindE (ReadSeparator c tp p) (\<lambda>r. Inr (set_separator lx tp r)))"

text \<open>Skip to the closing parenthesis; \<open>i\<close> parentheses are open.\<close>

function skip_parens :: "nat \<Rightarrow> Program \<Rightarrow> Program res" where
  "skip_parens i p =
     bindE (Get p) (\<lambda>(c, p).
     if c = CHR ''('' then skip_parens (i + 1) p
     else if c = CHR '')'' then if i \<le> 1 then Inr p else skip_parens (i - 1) p
     else if c = NUL then Inr p
     else skip_parens i p)"
  by pat_completeness auto
termination
  by (relation "measure (\<lambda>(i, p). length (buf p) - index p)") (auto dest!: Get_step)

definition SkipAttributeToken :: "Program \<Rightarrow> Program res" where
  "SkipAttributeToken p =
     bindE (get_while (\<lambda>c. c \<noteq> CHR ''('' \<and> c \<noteq> NUL) p) (\<lambda>(c, p). skip_parens 1 p)"

definition SkipExtensionToken :: "Program \<Rightarrow> (token \<times> Program) res" where
  "SkipExtensionToken p =
     bindE (get_while (\<lambda>c. is_blank c \<or> c = LF) p) (\<lambda>(c, p).
     if c \<noteq> CHR ''('' then Inr (Ignore, Unget p)
     else bindE (skip_parens 1 p) (\<lambda>p. Inr (Identifier, p)))"

text \<open>The loop of \<^verbatim>\<open>ReadToken\<close>; the first argument bounds its turns.  The result has the position and the length of the token.\<close>

fun ReadToken :: "nat \<Rightarrow> Lex \<Rightarrow> (token \<times> nat \<times> int \<times> Lex) res" where
  "ReadToken 0 lx = Inl Diverge"
| "ReadToken (Suc k) lx =
     bindE (ReadLine lx) (\<lambda>(t, lx).
     if t = Ignore then ReadToken k lx
     else let lx = lx\<lparr>last_token := t\<rparr> in
          if t = ATTRIBUTE then bindE (SkipAttributeToken (lx_file lx)) (\<lambda>p. ReadToken k (lx\<lparr>lx_file := p\<rparr>))
          else if t = EXTENSION
          then bindE (SkipExtensionToken (lx_file lx)) (\<lambda>(t, p).
               if t = Ignore then ReadToken k (lx\<lparr>lx_file := p\<rparr>) else Inr (t, tokenp lx, token_len lx, lx\<lparr>lx_file := p\<rparr>))
          else if t = Ch LF then ReadToken k lx
          else Inr (t, tokenp lx, token_len lx, lx))"

text \<open>The loops are unfolded where a proof needs it.\<close>

lemmas reader_simps = GetNextNonWhiteChar.simps ReadCharConst.simps ReadShortStrConst.simps ReadLongStrConst.simps
  block_comment.simps skip_parens.simps bin_search.simps

declare reader_simps [simp del]

end
