(* ===== verification/Lex_Text.thy ===== *)
theory Lex_Text
  imports Lex_Ops
begin

text \<open>
  How the readers of the lexer move over a text that ends with a line end: each returns, and stays within the text.
\<close>

section \<open>Positions\<close>

definition good :: "string \<Rightarrow> bool" where
  "good s \<longleftrightarrow> s \<noteq> [] \<and> last s = LF \<and> NUL \<notin> set s \<and> length s < 2147483648"

abbreviation at :: "string \<Rightarrow> nat \<Rightarrow> Program" where
  "at s i \<equiv> \<lparr>buf = s, index = i\<rparr>"

definition read_at :: "string \<Rightarrow> nat \<Rightarrow> char \<times> Program" where
  "read_at s j = (if j < length s then (s ! j, at s (Suc j)) else (NUL, at s j))"

lemma read_at_simps [simp]:
  "j < length s \<Longrightarrow> read_at s j = (s ! j, at s (Suc j))"
  "read_at s (length s) = (NUL, at s (length s))"
  by (auto simp: read_at_def)

lemma not_NUL [simp]: "good s \<Longrightarrow> i < length s \<Longrightarrow> s ! i \<noteq> NUL" "good s \<Longrightarrow> i < length s \<Longrightarrow> NUL \<noteq> s ! i"
  by (metis good_def nth_mem)+

lemma Get_at [simp]: "good s \<Longrightarrow> i \<le> length s \<Longrightarrow> Get (at s i) = Inr (read_at s i)"
  by (auto simp: Get_def Ref_def read_at_def)

lemma Unget_at [simp]: "Unget (at s (Suc j)) = at s j" "GetCurPos (at s (Suc j)) = j" "Rewind i (at s j) = at s i"
  by (simp_all add: Unget_def dec_def GetCurPos_def Rewind_def)

lemma Unget_end: "good s \<Longrightarrow> Unget (at s (length s)) = at s (length s - 1)"
  by (simp add: Unget_def dec_def good_def)

lemma last_LF: "good s \<Longrightarrow> Suc j = length s \<Longrightarrow> s ! j = LF"
  by (metis good_def last_conv_nth diff_Suc_1)

lemma inside: "good s \<Longrightarrow> j < length s \<Longrightarrow> s ! j \<noteq> LF \<Longrightarrow> Suc j < length s"
  by (metis Suc_lessI last_LF)

lemma good_length: "good s \<Longrightarrow> length s < 2147483648 \<and> 0 < length s"
  by (simp add: good_def)

lemma len_from_small [simp]: "tp \<le> e \<Longrightarrow> e < 2147483648 \<Longrightarrow> len_from tp e = int (e - tp)"
  by (auto simp: len_from_def szsub_small as_int_def)

section \<open>Loops\<close>

lemma get_while_at:
  assumes "good s" "i \<le> length s" "\<not> P NUL"
  shows "\<exists>j. i \<le> j \<and> j \<le> length s \<and> get_while P (at s i) = Inr (read_at s j) \<and> (\<forall>k. i \<le> k \<and> k < j \<longrightarrow> P (s ! k)) \<and>
    (j < length s \<longrightarrow> \<not> P (s ! j))"
  using assms(2)
proof (induction "length s - i" arbitrary: i)
  case 0
  then show ?case using assms by (intro exI [of _ "length s"]) (auto simp: get_while.simps)
next
  case (Suc n)
  show ?case
  proof (cases "P (s ! i)")
    case True
    have i: "n = length s - Suc i" "Suc i \<le> length s" "i < length s" using Suc by auto
    obtain j where j: "Suc i \<le> j" "j \<le> length s" "get_while P (at s (Suc i)) = Inr (read_at s j)" "\<forall>k. Suc i \<le> k \<and> k < j \<longrightarrow> P (s ! k)"
      "j < length s \<longrightarrow> \<not> P (s ! j)" using Suc.hyps(1) [OF i(1,2)] by blast
    have "get_while P (at s i) = get_while P (at s (Suc i))" using True assms(1) i(3) by (subst get_while.simps) simp
    moreover have "\<forall>k. i \<le> k \<and> k < j \<longrightarrow> P (s ! k)" using j(4) True by (metis Suc_leI le_neq_implies_less)
    ultimately show ?thesis using j by (intro exI [of _ j]) auto
  next
    case False
    then show ?thesis using Suc assms(1) by (intro exI [of _ i]) (auto simp: get_while.simps)
  qed
qed

lemma get_while_inside:
  assumes "good s" "i < length s" "\<not> P NUL" "\<not> P LF"
  obtains j where "i \<le> j" "j < length s" "get_while P (at s i) = Inr (s ! j, at s (Suc j))" "\<forall>k. i \<le> k \<and> k < j \<longrightarrow> P (s ! k)"
    "\<not> P (s ! j)"
proof -
  obtain j where j: "i \<le> j" "j \<le> length s" "get_while P (at s i) = Inr (read_at s j)" "\<forall>k. i \<le> k \<and> k < j \<longrightarrow> P (s ! k)"
    "j < length s \<longrightarrow> \<not> P (s ! j)" using get_while_at [of s i P] assms by auto
  have "j \<noteq> length s"
  proof
    assume "j = length s"
    moreover have "i \<le> length s - 1" "length s - 1 < length s" using assms(2) by auto
    ultimately have "P (s ! (length s - 1))" using j(4) by blast
    then show False using last_LF [OF assms(1), of "length s - 1"] assms(2,4) by simp
  qed
  then show thesis using that j by auto
qed

lemma classes_end [simp]:
  "\<not> is_digit LF" "\<not> is_digit NUL" "\<not> is_hexdigit LF" "\<not> is_hexdigit NUL" "\<not> is_int_suffix LF" "\<not> is_int_suffix NUL"
  "\<not> is_float_suffix LF" "\<not> is_float_suffix NUL" "\<not> is_letter LF" "\<not> is_letter NUL" "\<not> is_blank NUL" "\<not> is_xletter LF" "\<not> is_eletter LF"
  by code_simp+

text \<open>The character \<open>c\<close> that starts a token is at \<open>j\<close>, or behind a backslash at \<open>j\<close>.\<close>

definition starts :: "string \<Rightarrow> char \<Rightarrow> nat \<Rightarrow> bool" where
  "starts s c j \<longleftrightarrow> j < length s \<and>
     (c = s ! j \<and> c \<noteq> BACKSLASH \<and> \<not> is_blank c \<or> s ! j = BACKSLASH \<and> Suc j < length s \<and> c = s ! Suc j \<and> c \<noteq> LF \<and> c \<noteq> CHR 0x0D)"

lemma starts_not_NUL: "good s \<Longrightarrow> starts s c j \<Longrightarrow> c \<noteq> NUL"
  by (auto simp: starts_def)

lemma starts_inside: "good s \<Longrightarrow> starts s c j \<Longrightarrow> c \<noteq> LF \<Longrightarrow> Suc j < length s"
  by (auto simp: starts_def inside)

lemma GetNextNonWhiteChar_at:
  assumes "good s" "i \<le> length s"
  shows "GetNextNonWhiteChar (at s i) = Inr (NUL, at s (length s)) \<or>
    (\<exists>c j. i \<le> j \<and> starts s c j \<and> GetNextNonWhiteChar (at s i) = Inr (c, at s (Suc j)))"
  using assms(2)
proof (induction "length s - i" arbitrary: i rule: less_induct)
  case less
  obtain j where j: "i \<le> j" "j \<le> length s" "get_while is_blank (at s i) = Inr (read_at s j)" "j < length s \<longrightarrow> \<not> is_blank (s ! j)"
    using get_while_at [OF assms(1) less.prems, of is_blank] by auto
  show ?case
  proof (cases "j < length s \<and> s ! j = BACKSLASH")
    case False
    then have "GetNextNonWhiteChar (at s i) = Inr (read_at s j)" using j by (subst GetNextNonWhiteChar.simps) (auto simp: read_at_def)
    then show ?thesis using False j by (auto simp: starts_def read_at_def)
  next
    case True
    then have k: "Suc j < length s" using inside [OF assms(1)] by simp
    show ?thesis
    proof (cases "s ! Suc j = LF \<or> s ! Suc j = CHR 0x0D")
      case True': True
      have "GetNextNonWhiteChar (at s i) = GetNextNonWhiteChar (at s (Suc (Suc j)))"
        using j True True' k assms(1) by (subst GetNextNonWhiteChar.simps) auto
      then show ?thesis using less.hyps [of "Suc (Suc j)"] j(1) k by fastforce
    next
      case False
      then have "GetNextNonWhiteChar (at s i) = Inr (s ! Suc j, at s (Suc j))"
        using j True k assms(1) by (subst GetNextNonWhiteChar.simps) auto
      then show ?thesis using False True k j(1) by (auto simp: starts_def)
    qed
  qed
qed

lemma ReadCharConst_at:
  assumes "good s" "i \<le> length s"
  shows "\<exists>b j. ReadCharConst (at s i) = Inr (b, at s j) \<and> i \<le> j \<and> j \<le> length s \<and> (b \<longrightarrow> i < j \<and> j < length s)"
  using assms(2)
proof (induction "length s - i" arbitrary: i rule: less_induct)
  case less
  have step: ?case if "ReadCharConst (at s i) = ReadCharConst (at s k)" "i < k" "k \<le> length s" for k
    using less.hyps [of k] that by fastforce
  have g: "ReadCharConst (at s i) = bindE (Inr (read_at s i)) (\<lambda>(c, p).
     if c = BACKSLASH then bindE (Get p) (\<lambda>(c, p). if c = NUL then Inr (False, p) else ReadCharConst p)
     else if c = QUOTE then Inr (True, p) else if c = LF \<or> c = NUL then Inr (False, p) else ReadCharConst p)"
    using less.prems assms(1) by (subst ReadCharConst.simps) simp
  show ?case
  proof (cases "i < length s \<and> s ! i \<noteq> LF")
    case False
    then show ?thesis using less.prems g by (auto simp: read_at_def)
  next
    case True
    then have i: "i < length s" "Suc i < length s" using inside [OF assms(1)] by auto
    consider "s ! i = BACKSLASH" | "s ! i = QUOTE" | "s ! i \<noteq> BACKSLASH" "s ! i \<noteq> QUOTE" by blast
    then show ?thesis
    proof cases
      case 1
      show ?thesis by (rule step [of "Suc (Suc i)"]) (use 1 g i assms(1) in auto)
    next
      case 2
      then show ?thesis using g i by auto
    next
      case 3
      show ?thesis by (rule step [of "Suc i"]) (use 3 g i assms(1) True in auto)
    qed
  qed
qed

lemma ReadShortStrConst_at:
  assumes "good s" "i \<le> length s"
  shows "\<exists>e j. ReadShortStrConst (at s i) = Inr (e, at s j) \<and> j \<le> length s \<and> (\<forall>x. e = Some x \<longrightarrow> x = j \<and> i < j \<and> j < length s)"
  using assms(2)
proof (induction "length s - i" arbitrary: i rule: less_induct)
  case less
  have step: ?case if "ReadShortStrConst (at s i) = ReadShortStrConst (at s k)" "i < k" "k \<le> length s" for k
    using less.hyps [of k] that by fastforce
  have g: "ReadShortStrConst (at s i) = (\<lambda>(c, p).
     if c = BACKSLASH then bindE (Get p) (\<lambda>(c, p). if c = NUL then Inr (None, p) else ReadShortStrConst p)
     else if c = DQUOTE
     then let pos = sz (GetCurPos p + 1) in
          bindE (get_while (\<lambda>c. is_blank c \<or> c = LF) p) (\<lambda>(c, p).
          if c = DQUOTE then ReadShortStrConst p else Inr (Some pos, Rewind pos p))
     else if c = LF \<or> c = NUL then Inr (None, p) else ReadShortStrConst p) (read_at s i)"
    using less.prems assms(1) by (subst ReadShortStrConst.simps) simp
  show ?case
  proof (cases "i < length s \<and> s ! i \<noteq> LF")
    case False
    then show ?thesis using less.prems g by (auto simp: read_at_def)
  next
    case True
    then have i: "i < length s" "Suc i < length s" "Suc i \<le> length s" using inside [OF assms(1)] by auto
    consider "s ! i = BACKSLASH" | (quote) "s ! i = DQUOTE" | "s ! i \<noteq> BACKSLASH" "s ! i \<noteq> DQUOTE" by blast
    then show ?thesis
    proof cases
      case 1
      show ?thesis by (rule step [of "Suc (Suc i)"]) (use 1 g i assms(1) in auto)
    next
      case quote
      obtain j where j: "Suc i \<le> j" "j \<le> length s" "get_while (\<lambda>c. is_blank c \<or> c = LF) (at s (Suc i)) = Inr (read_at s j)"
        using get_while_at [OF assms(1) i(3), of "\<lambda>c. is_blank c \<or> c = LF"] by auto
      have pos: "sz (Suc i) = Suc i" using good_length [OF assms(1)] i by simp
      show ?thesis
      proof (cases "j < length s \<and> s ! j = DQUOTE")
        case True
        show ?thesis by (rule step [of "Suc j"]) (use True g quote j i pos in auto)
      next
        case False
        then have "ReadShortStrConst (at s i) = Inr (Some (Suc i), at s (Suc i))" using g quote j i pos by (auto simp: read_at_def)
        then show ?thesis using i by auto
      qed
    next
      case 3
      show ?thesis by (rule step [of "Suc i"]) (use 3 g i assms(1) True in auto)
    qed
  qed
qed

lemma ReadLongStrConst_at:
  assumes "good s" "i \<le> length s"
  shows "\<exists>e j. ReadLongStrConst (at s i) = Inr (e, at s j) \<and> i \<le> j \<and> j \<le> length s \<and> (\<forall>x. e = Some x \<longrightarrow> Suc x = j \<and> i < j \<and> j < length s)"
  using assms(2)
proof (induction "length s - i" arbitrary: i rule: less_induct)
  case less
  have step: ?case if "ReadLongStrConst (at s i) = ReadLongStrConst (at s k)" "i < k" "k \<le> length s" for k
    using less.hyps [of k] that by fastforce
  note g = ReadLongStrConst.simps [of "at s i"]
  consider (last) "i = length s" | (escape) "i < length s" "s ! i = BACKSLASH" | (quote) "i < length s" "s ! i = DQUOTE"
    | (other) "i < length s" "s ! i \<noteq> BACKSLASH" "s ! i \<noteq> DQUOTE" using less.prems by linarith
  then show ?case
  proof cases
    case last
    then show ?thesis using g assms by simp
  next
    case escape
    then have "Suc i < length s" using inside [OF assms(1)] by simp
    then show ?thesis by (intro step [of "Suc (Suc i)"]) (use escape g assms(1) in auto)
  next
    case quote
    then have i: "Suc i < length s" using inside [OF assms(1)] by simp
    show ?thesis
    proof (cases "s ! Suc i = DQUOTE")
      case False
      show ?thesis by (rule step [of "Suc i"]) (use False quote i g assms(1) in auto)
    next
      case two: True
      then have k: "Suc (Suc i) < length s" using inside [OF assms(1) i] by simp
      show ?thesis
      proof (cases "s ! Suc (Suc i) = DQUOTE")
        case True
        then have "Suc (Suc (Suc i)) < length s" using inside [OF assms(1) k] by simp
        then show ?thesis using g quote two True i k assms(1) by auto
      next
        case False
        show ?thesis by (rule step [of "Suc i"]) (use False quote two i k g assms(1) in auto)
      qed
    qed
  next
    case other
    show ?thesis by (rule step [of "Suc i"]) (use other g assms(1) in auto)
  qed
qed

lemma ReadStrConst_at:
  assumes "good s" "i < length s" "tp < i"
  shows "\<exists>l j. ReadStrConst tp (at s i) = Inr (l, at s j) \<and> j \<le> length s \<and> (\<forall>x. l = Some x \<longrightarrow> x = int (j - tp) \<and> i < j \<and> j < length s)"
proof -
  have small: "\<And>j. j \<le> length s \<Longrightarrow> j < 2147483648" using good_length [OF assms(1)] by simp
  obtain e j where short: "ReadShortStrConst (at s i) = Inr (e, at s j)" "j \<le> length s" "\<forall>x. e = Some x \<longrightarrow> x = j \<and> i < j \<and> j < length s"
    using ReadShortStrConst_at [of s i] assms by auto
  have short_case: ?thesis if "ReadStrConst tp (at s i) = bindE (ReadShortStrConst (at s i)) (\<lambda>(e, p). Inr (map_option (len_from tp) e, p))"
    using short small assms that by auto
  show ?thesis
  proof (cases "s ! i = DQUOTE")
    case False
    then show ?thesis by (intro short_case) (simp add: ReadStrConst_def assms less_imp_le)
  next
    case one: True
    then have i: "Suc i < length s" using inside assms by simp
    show ?thesis
    proof (cases "s ! Suc i = DQUOTE")
      case False
      then show ?thesis by (intro short_case) (simp add: ReadStrConst_def assms one i less_imp_le)
    next
      case True
      then have k: "Suc (Suc i) < length s" using inside [OF assms(1) i] by simp
      obtain e j where e: "ReadLongStrConst (at s (Suc (Suc i))) = Inr (e, at s j)" "j \<le> length s" "Suc (Suc i) \<le> j"
        "\<forall>x. e = Some x \<longrightarrow> Suc x = j \<and> Suc (Suc i) < j \<and> j < length s"
        using ReadLongStrConst_at [of s "Suc (Suc i)"] assms(1) k by auto
      obtain e' j' where e': "ReadShortStrConst (at s j) = Inr (e', at s j')" "j' \<le> length s" "\<forall>x. e' = Some x \<longrightarrow> x = j' \<and> j < j' \<and> j' < length s"
        using ReadShortStrConst_at [of s j] assms(1) e(2) by auto
      have u: "ReadStrConst tp (at s i) = bindE (ReadLongStrConst (at s (Suc (Suc i)))) (\<lambda>(e, p). case e of
                 Some e \<Rightarrow> Inr (Some (len_from tp (sz (e + 1))), p)
               | None \<Rightarrow> bindE (ReadShortStrConst p) (\<lambda>(e, p). Inr (map_option (len_from tp) e, p)))"
        using one True i assms by (simp add: ReadStrConst_def)
      show ?thesis
      proof (cases e)
        case None
        then show ?thesis using u e e' small assms(3) by auto
      next
        case (Some x)
        then show ?thesis using u e good_length [OF assms(1)] assms(3) by auto
      qed
    qed
  qed
qed

section \<open>Numbers\<close>

text \<open>The number, word or separator from \<open>tp\<close> to \<open>j\<close>.\<close>

lemma unget_token_at [simp]: "tp \<le> j \<Longrightarrow> j < 2147483648 \<Longrightarrow> 0 < j \<Longrightarrow> unget_token t tp (at s (Suc j)) = (t, int (j - tp), at s j)"
  by (cases j) (simp_all add: unget_token_def)

lemma classes_not_LF [simp]:
  "is_digit c \<Longrightarrow> c \<noteq> LF" "is_hexdigit c \<Longrightarrow> c \<noteq> LF" "is_int_suffix c \<Longrightarrow> c \<noteq> LF" "is_float_suffix c \<Longrightarrow> c \<noteq> LF"
  "is_xletter c \<Longrightarrow> c \<noteq> LF" "is_eletter c \<Longrightarrow> c \<noteq> LF"
  using classes_end by metis+

text \<open>\<^verbatim>\<open>do c = file->Get(); while (P(c))\<close>, if the last character is in the class \<open>P\<close>.\<close>

lemma get_more:
  assumes "good s" "i < length s" "\<not> P NUL" "\<not> P LF"
  obtains j where "i \<le> j" "j < length s" "(if P (s ! i) then get_while P (at s (Suc i)) else Inr (s ! i, at s (Suc i))) = Inr (s ! j, at s (Suc j))"
    "\<not> P (s ! j)" "P (s ! i) \<longrightarrow> i < j"
proof (cases "P (s ! i)")
  case True
  then have "Suc i < length s" using inside [OF assms(1,2)] assms(4) by metis
  then show thesis using get_while_inside [of s "Suc i" P] assms that True by (metis Suc_le_lessD less_imp_le)
next
  case False
  then show thesis using that [of i] assms(2) by simp
qed

lemma ReadFloat_at:
  assumes "good s" "i < length s" "tp < i"
  shows "\<exists>j. ReadFloat tp (at s i) = Inr (Constant, int (j - tp), at s j) \<and> i \<le> j \<and> j < length s"
proof -
  note small = good_length [OF assms(1)]
  obtain j where j: "i \<le> j" "j < length s" "get_while is_digit (at s i) = Inr (s ! j, at s (Suc j))"
    using get_while_inside [OF assms(1,2), of is_digit] by auto
  consider (suffix) "is_float_suffix (s ! j)" | (exponent) "\<not> is_float_suffix (s ! j)" "is_eletter (s ! j)"
    | (other) "\<not> is_float_suffix (s ! j)" "\<not> is_eletter (s ! j)" by blast
  then show ?thesis
  proof cases
    case suffix
    then obtain k where "j < k" "k < length s" "get_while is_float_suffix (at s (Suc j)) = Inr (s ! k, at s (Suc k))"
      using get_more [OF assms(1) j(2), of is_float_suffix] by auto
    then show ?thesis using j suffix assms small by (intro exI [of _ k]) (auto simp: ReadFloat_def)
  next
    case exponent
    then have k: "Suc j < length s" using inside [OF assms(1) j(2)] by simp
    let ?sign = "\<lambda>c. c = CHR ''+'' \<or> c = CHR ''-''"
    define k where "k = (if ?sign (s ! Suc j) then Suc (Suc j) else Suc j)"
    have kl: "k < length s" "Suc j \<le> k" using k inside [OF assms(1) k] by (auto simp: k_def)
    have sign: "(if ?sign (s ! Suc j) then Get (at s (Suc (Suc j))) else Inr (s ! Suc j, at s (Suc (Suc j)))) = Inr (s ! k, at s (Suc k))"
      using kl assms(1) by (auto simp: k_def)
    have g1: "Get (at s (Suc j)) = Inr (s ! Suc j, at s (Suc (Suc j)))" using k assms(1) by simp
    have e: "ReadFloat tp (at s i) = (if \<not> is_digit (s ! k) then Inr (Constant, len_from tp j, at s j)
      else bindE (get_while is_digit (at s (Suc k))) (\<lambda>(c, p). bindE (if is_float_suffix c then get_while is_float_suffix p else Inr (c, p)) (\<lambda>(c, p).
           Inr (unget_token Constant tp p))))"
      using j(3) exponent sign g1 by (cases "is_digit (s ! k)") (simp_all add: ReadFloat_def del: Get_at bindE_Inr split del: if_split)
    show ?thesis
    proof (cases "is_digit (s ! k)")
      case False
      then show ?thesis using e j assms small by (intro exI [of _ j]) auto
    next
      case True
      then obtain l where l: "k < l" "l < length s" "get_while is_digit (at s (Suc k)) = Inr (s ! l, at s (Suc l))"
        using get_more [OF assms(1) kl(1), of is_digit] by auto
      obtain m where "l \<le> m" "m < length s"
        "(if is_float_suffix (s ! l) then get_while is_float_suffix (at s (Suc l)) else Inr (s ! l, at s (Suc l))) = Inr (s ! m, at s (Suc m))"
        using get_more [OF assms(1) l(2), of is_float_suffix] by auto
      then show ?thesis using e True l kl j assms small by (intro exI [of _ m]) auto
    qed
  next
    case other
    then show ?thesis using j assms small by (intro exI [of _ j]) (auto simp: ReadFloat_def)
  qed
qed

lemma ReadNumber_at:
  assumes "good s" "i < length s" "tp < i"
  shows "\<exists>j. ReadNumber c tp (at s i) = Inr (Constant, int (j - tp), at s j) \<and> i \<le> j \<and> j < length s"
proof (cases "c = CHR ''0'' \<and> is_xletter (s ! i)")
  case True
  then have i: "Suc i < length s" using inside [OF assms(1,2)] by simp
  obtain j where j: "Suc i \<le> j" "j < length s" "get_while is_hexdigit (at s (Suc i)) = Inr (s ! j, at s (Suc j))"
    using get_while_inside [OF assms(1) i, of is_hexdigit] by auto
  obtain k where "j \<le> k" "k < length s"
    "(if is_int_suffix (s ! j) then get_while is_int_suffix (at s (Suc j)) else Inr (s ! j, at s (Suc j))) = Inr (s ! k, at s (Suc k))"
    using get_more [OF assms(1) j(2), of is_int_suffix] by auto
  then show ?thesis using True j assms good_length [OF assms(1)] by (intro exI [of _ k]) (auto simp: ReadNumber_def)
next
  case False
  obtain j where j: "i \<le> j" "j < length s"
    "(if is_digit (s ! i) then get_while is_digit (at s (Suc i)) else Inr (s ! i, at s (Suc i))) = Inr (s ! j, at s (Suc j))"
    using get_more [OF assms(1,2), of is_digit] by auto
  have e: "ReadNumber c tp (at s i) =
      (if is_int_suffix (s ! j) then bindE (get_while is_int_suffix (at s (Suc j))) (\<lambda>(c, p). Inr (unget_token Constant tp p))
       else if s ! j = CHR ''.'' then ReadFloat tp (at s (Suc j))
       else if is_eletter (s ! j) then ReadFloat tp (at s j)
       else Inr (unget_token Constant tp (at s (Suc j))))"
    using False j(3) assms(1,2) by (cases "c = CHR ''0''") (simp_all add: ReadNumber_def)
  consider (suffix) "is_int_suffix (s ! j)" | (dot) "\<not> is_int_suffix (s ! j)" "s ! j = CHR ''.''"
    | (exponent) "\<not> is_int_suffix (s ! j)" "s ! j \<noteq> CHR ''.''" "is_eletter (s ! j)"
    | (other) "\<not> is_int_suffix (s ! j)" "s ! j \<noteq> CHR ''.''" "\<not> is_eletter (s ! j)" by blast
  then show ?thesis
  proof cases
    case suffix
    then obtain k where "j < k" "k < length s" "get_while is_int_suffix (at s (Suc j)) = Inr (s ! k, at s (Suc k))"
      using get_more [OF assms(1) j(2), of is_int_suffix] by auto
    then show ?thesis using e suffix j assms good_length [OF assms(1)] by (intro exI [of _ k]) auto
  next
    case dot
    then have "Suc j < length s" using inside [OF assms(1) j(2)] by simp
    then show ?thesis using e dot j assms ReadFloat_at [of s "Suc j" tp] by auto
  next
    case exponent
    then show ?thesis using e j assms ReadFloat_at [of s j tp] by auto
  next
    case other
    then show ?thesis using e j assms good_length [OF assms(1)] by (intro exI [of _ j]) auto
  qed
qed

end
