(* ===== verification/Lex_Words.thy ===== *)
theory Lex_Words
  imports Lex_Ops "HOL-Library.List_Lexorder" "HOL-Library.Char_ord"
begin

text \<open>
  Reserved words.  The table is ordered as the library orders strings, by the codes of their characters, so that the binary search
  finds exactly its entries; what is not found there is looked for among the keywords of the user.
\<close>

section \<open>Binary search\<close>

lemma ucode_less: "ucode a < ucode b \<longleftrightarrow> a < b"
  using of_nat_of_char [of a, where 'a = int] of_nat_of_char [of b, where 'a = int]
  by (metis ucode_def less_char_def of_nat_less_iff)

lemma strncmp_order:
  "strncmp_word name s = 0 \<Longrightarrow> s \<le> name \<and> (length name = length s \<longleftrightarrow> name = s)"
  "strncmp_word name s < 0 \<Longrightarrow> name < s"
  "strncmp_word name s > 0 \<Longrightarrow> s < name"
  by (induction name s rule: strncmp_word.induct) (auto simp: sgn_if ucode_less split: if_splits)

definition ordered :: "(string \<times> token) list \<Rightarrow> bool" where
  "ordered tab \<longleftrightarrow> sorted_wrt (\<lambda>x y. fst x < fst y) tab"

lemma ordered_nth:
  assumes "ordered tab" "i < length tab" "j < length tab"
  shows "fst (tab ! i) < fst (tab ! j) \<longleftrightarrow> i < j"
  using assms sorted_wrt_nth_less [of "\<lambda>x y. fst x < fst y" tab]
  by (metis ordered_def less_asym' linorder_less_linear less_irrefl)

lemma ordered_distinct: "ordered tab \<Longrightarrow> distinct (map fst tab)"
  using strict_sorted_iff [of "map fst tab"] by (simp add: ordered_def sorted_wrt_map)

lemma map_of_absent: "(\<And>i. i < length tab \<Longrightarrow> fst (tab ! i) \<noteq> s) \<Longrightarrow> map_of tab s = None"
  by (force simp: map_of_eq_None_iff in_set_conv_nth)

theorem bin_search_map_of:
  assumes "ordered tab" "0 \<le> low" "high < int (length tab)"
    and "\<And>i. i < length tab \<Longrightarrow> fst (tab ! i) = s \<Longrightarrow> low \<le> int i \<and> int i \<le> high"
  shows "bin_search tab s low high = Inr (map_of tab s)"
  using assms
proof (induction tab s low high rule: bin_search.induct)
  case (1 tab s low high)
  show ?case
  proof (cases "low \<le> high")
    case False
    then have "map_of tab s = None" using "1.prems"(4) by (intro map_of_absent) fastforce
    then show ?thesis using False by (simp add: bin_search.simps [of tab s low high])
  next
    case True
    define mid where "mid = low + (high - low) div 2"
    obtain name v where e: "tab ! nat mid = (name, v)" by fastforce
    have mid: "low \<le> mid" "mid \<le> high" "nat mid < length tab" using True "1.prems"(2,3) by (auto simp: mid_def)
    note IH = "1.IH" [OF True mid_def nthE_ok [OF mid(3)] e [symmetric] refl]
    have ord: "i < length tab \<Longrightarrow> fst (tab ! i) < name \<longleftrightarrow> i < nat mid"
              "i < length tab \<Longrightarrow> name < fst (tab ! i) \<longleftrightarrow> nat mid < i" for i
      using ordered_nth [OF "1.prems"(1) _ mid(3), of i] ordered_nth [OF "1.prems"(1) mid(3), of i] e by auto
    have left: "i < length tab \<Longrightarrow> fst (tab ! i) = s \<Longrightarrow> low \<le> int i \<and> int i \<le> mid - 1" if "s < name" for i
      using "1.prems"(4) [of i] ord(1) [of i] that by auto
    have right: "i < length tab \<Longrightarrow> fst (tab ! i) = s \<Longrightarrow> mid + 1 \<le> int i \<and> int i \<le> high" if "name < s" for i
      using "1.prems"(4) [of i] ord(2) [of i] that by auto
    consider (found) "strncmp_word name s = 0" "name = s" | (prefix) "strncmp_word name s = 0" "length name \<noteq> length s" "s < name"
      | (less) "strncmp_word name s < 0" "name < s" | (greater) "strncmp_word name s > 0" "s < name"
      using strncmp_order [of name s] by (metis antisym_conv1 linorder_less_linear)
    then show ?thesis
    proof cases
      case found
      then have "map_of tab s = Some v" using ordered_distinct [OF "1.prems"(1)] e mid(3) by (metis map_of_is_SomeI nth_mem)
      then show ?thesis using found True mid e by (simp add: mid_def [symmetric] bin_search.simps [of tab s low high])
    next
      case prefix
      then show ?thesis using IH(1) "1.prems" left mid True e by (simp add: mid_def [symmetric] bin_search.simps [of tab s low high])
    next
      case less
      then show ?thesis using IH(2) "1.prems" right mid True e by (simp add: mid_def [symmetric] bin_search.simps [of tab s low high])
    next
      case greater
      then show ?thesis using IH(3) "1.prems" left mid True e by (simp add: mid_def [symmetric] bin_search.simps [of tab s low high])
    qed
  qed
qed

lemma bin_search_table: "ordered tab \<Longrightarrow> bin_search tab s 0 (int (length tab) - 1) = Inr (map_of tab s)"
  by (intro bin_search_map_of) auto

section \<open>The table\<close>

lemma table_ordered: "ordered table"
proof -
  have "successively (<) (map fst table)" by (simp add: table_def less_char_def)
  then show ?thesis by (simp add: ordered_def sorted_wrt_map [symmetric] successively_conv_sorted_wrt)
qed

lemma keywords_ordered: "ordered (InitializeOtherKeywords b)"
  using table_ordered by (simp add: InitializeOtherKeywords_def ordered_def sorted_wrt_map case_prod_beta)

section \<open>Keywords\<close>

lemma strncmp_prefix: "strncmp_word name s = 0 \<longleftrightarrow> take (length s) name = s"
  by (induction name s rule: strncmp_word.induct) (auto simp: sgn_if split: if_splits)

definition word_kind :: "bool \<Rightarrow> (string \<times> token) list \<Rightarrow> (string \<rightharpoonup> token) \<Rightarrow> string \<Rightarrow> token" where
  "word_kind wchars tab m s =
     (if wchars \<and> take (length s) ''wchar_t'' = s then WCHAR
      else case map_of tab s of Some t \<Rightarrow> t | None \<Rightarrow> (case m s of Some t \<Rightarrow> t | None \<Rightarrow> Identifier))"

lemma Screening_word_kind:
  "ordered (rw_table lx) \<Longrightarrow> represents (user_keywords lx) m \<Longrightarrow> Screening lx s = Inr (word_kind (wcharSupport lx) (rw_table lx) m s)"
  by (simp add: Screening_def word_kind_def strncmp_prefix bin_search_table lookup_represents split: option.splits)

text \<open>A sequence of calls of \<^verbatim>\<open>RecordKeyword\<close>, and what they should answer.\<close>

fun record_all :: "token HashTable \<Rightarrow> (string \<times> token) list \<Rightarrow> (bool list \<times> token HashTable) res" where
  "record_all user [] = Inr ([], user)"
| "record_all user ((k, t) # ks) =
     bindE (RecordKeyword 2 k t user) (\<lambda>(r, user). bindE (record_all user ks) (\<lambda>(rs, user). Inr (r # rs, user)))"

fun keyword_answers :: "(string \<rightharpoonup> token) \<Rightarrow> (string \<times> token) list \<Rightarrow> bool list" where
  "keyword_answers m [] = []"
| "keyword_answers m ((k, t) # ks) = (case m k of None \<Rightarrow> True # keyword_answers (m(k \<mapsto> t)) ks | Some t' \<Rightarrow> (t' = t) # keyword_answers m ks)"

lemma record_all_spec:
  assumes "represents user m" "sized 251 127 2267 1129 user" "no_deleted user" "used_count user + length ks \<le> 1134"
  shows "\<exists>user'. record_all user ks = Inr (keyword_answers m ks, user') \<and> represents user' (map_of ks ++ m)"
  using assms
proof (induction ks arbitrary: user m)
  case (Cons kt ks)
  obtain k t where kt: "kt = (k, t)" by fastforce
  show ?case
  proof (cases "m k")
    case None
    obtain j u where u: "AddEntry 2 user k t = Inr (int j, j, u)" "represents u (m(k \<mapsto> t))" "used_count u = used_count user + 1"
      "no_deleted u" "sized 251 127 2267 1129 u"
      using add_sized [OF Cons.prems(1) None Cons.prems(2) _ _ _ second_sizes(1), where v = t] next_primes(1,2) Cons.prems(3,4) by auto
    then obtain user' where "record_all u ks = Inr (keyword_answers (m(k \<mapsto> t)) ks, user')" "represents user' (map_of ks ++ m(k \<mapsto> t))"
      using Cons.IH [OF u(2,5,4)] Cons.prems(4) u(3) by (auto simp del: fun_upd_apply)
    moreover have "map_of ks ++ m(k \<mapsto> t) = map_of ((k, t) # ks) ++ m" using None by (auto simp: map_add_def fun_eq_iff split: option.splits)
    ultimately show ?thesis using u(1) kt None by (simp add: RecordKeyword_def map_of.simps(2) del: fun_upd_apply)
  next
    case (Some t')
    obtain j where j: "AddEntry 2 user k t = Inr (-1, j, user)" "j < Size user" "entries user ! j = Used k t'"
      using add_present [OF Cons.prems(1) Some Cons.prems(3), of "Suc 0" t] by (auto simp: AddEntry_def numeral_2_eq_2 simp del: add_n.simps)
    moreover have "length (entries user) = Size user" using Cons.prems(1) by (simp add: represents_def table_inv_def wf_table_def)
    ultimately have "RecordKeyword 2 k t user = Inr (t' = t, user)" by (simp add: RecordKeyword_def Peek_def)
    moreover obtain user' where "record_all user ks = Inr (keyword_answers m ks, user')" "represents user' (map_of ks ++ m)"
      using Cons.IH [OF Cons.prems(1-3)] Cons.prems(4) by auto
    moreover have "map_of ks ++ m = map_of ((k, t) # ks) ++ m" using Some by (auto simp: map_add_def fun_eq_iff split: option.splits)
    ultimately show ?thesis using kt Some by (simp del: fun_upd_apply)
  qed
qed simp

text \<open>
  C30. Words are classified as the tables say.  After any sequence of at most 1134 calls of \<^verbatim>\<open>RecordKeyword\<close>, each of which
  answers whether its keyword was new or had that token already, the lexer takes a word for the reserved word found in the
  sorted table, otherwise for the token first recorded for it, otherwise for an identifier (and, with support of wide
  characters, every prefix of \<^verbatim>\<open>wchar_t\<close> for that type).
\<close>

theorem words_classified:
  assumes "length ks \<le> 1134"
  shows "\<exists>user. record_all new_HashTable ks = Inr (keyword_answers Map.empty ks, user) \<and>
    (\<forall>src wchars ext s. Screening (new_Lex src wchars ext user) s = Inr (word_kind wchars (InitializeOtherKeywords ext) (map_of ks) s))"
proof -
  have "represents (new_HashTable :: token HashTable) Map.empty" "used_count (new_HashTable :: token HashTable) = 0"
    "no_deleted (new_HashTable :: token HashTable)" "sized 251 127 2267 1129 (new_HashTable :: token HashTable)"
    using new_table_represents [where ?'v = token and n = 251 and q = 127] by (simp_all add: new_HashTable_def sized_def MakeTable_def)
  then obtain user where u: "record_all new_HashTable ks = Inr (keyword_answers Map.empty ks, user)" "represents user (map_of ks)"
    using record_all_spec [of new_HashTable Map.empty ks] assms by auto
  have "Screening (new_Lex src wchars ext user) s = Inr (word_kind wchars (InitializeOtherKeywords ext) (map_of ks) s)" for src wchars ext s
    using Screening_word_kind [of "new_Lex src wchars ext user"] u(2) keywords_ordered by (simp add: new_Lex_def)
  then show ?thesis using u(1) by blast
qed

theorem words_classified_witness:
  "\<exists>user. record_all new_HashTable [(''par'', Keyword ''PAR''), (''alt'', Keyword ''ALT''), (''par'', Keyword ''ALT'')] = Inr ([True, True, False], user) \<and>
    Screening (new_Lex [] False True user) ''par'' = Inr (Keyword ''PAR'') \<and> Screening (new_Lex [] False True user) ''while'' = Inr (Keyword ''WHILE'') \<and>
    Screening (new_Lex [] False True user) ''x'' = Inr Identifier \<and> Screening (new_Lex [] True True user) ''w'' = Inr WCHAR"
proof -
  let ?ks = "[(''par'', Keyword ''PAR''), (''alt'', Keyword ''ALT''), (''par'', Keyword ''ALT'')]"
  obtain user where "record_all new_HashTable ?ks = Inr (keyword_answers Map.empty ?ks, user)"
    and u: "\<And>wchars s. Screening (new_Lex [] wchars True user) s = Inr (word_kind wchars (InitializeOtherKeywords True) (map_of ?ks) s)"
    using words_classified [of ?ks] by (auto simp del: record_all.simps)
  then have "record_all new_HashTable ?ks = Inr ([True, True, False], user)" by (simp del: record_all.simps)
  moreover have "Screening (new_Lex [] False True user) ''par'' = Inr (Keyword ''PAR'')" "Screening (new_Lex [] False True user) ''while'' = Inr (Keyword ''WHILE'')"
    "Screening (new_Lex [] False True user) ''x'' = Inr Identifier" "Screening (new_Lex [] True True user) ''w'' = Inr WCHAR"
    by (simp_all add: u word_kind_def InitializeOtherKeywords_def table_def)
  ultimately show ?thesis by blast
qed

end
