(* ===== verification/Lex_Fifo.thy ===== *)
theory Lex_Fifo
  imports Lex_Ops
begin

text \<open>
  The look-ahead buffer of the lexer (\<^verbatim>\<open>Lex::TokenFifo\<close> in \<^verbatim>\<open>opencxx/parser/Lex.cc\<close>) and the calls of the parser that go through it.
  The buffer reads tokens through a function of its owner; the operations take that function as an argument.
\<close>

section \<open>The buffer\<close>

type_synonym slot = "token \<times> nat \<times> int"
type_synonym 's source = "'s \<Rightarrow> (slot \<times> 's) res"

record TokenFifo =
  head :: nat
  tail :: nat
  fsize :: nat
  ring :: "slot list"

text \<open>A new ring is cleared memory.\<close>

definition new_ring :: "nat \<Rightarrow> slot list" where
  "new_ring n = replicate n (Ch NUL, 0, 0)"

definition new_TokenFifo :: TokenFifo where
  "new_TokenFifo = \<lparr>head = 0, tail = 0, fsize = 16, ring = new_ring 16\<rparr>"

definition Clear :: "TokenFifo \<Rightarrow> TokenFifo" where
  "Clear f = f\<lparr>head := 0, tail := 0\<rparr>"

text \<open>The loop that copies the slots of a full ring of \<open>n\<close> slots; the first argument bounds its turns.\<close>

fun copy_ring :: "nat \<Rightarrow> nat \<Rightarrow> nat \<Rightarrow> nat \<Rightarrow> slot list \<Rightarrow> slot list res" where
  "copy_ring 0 n h t r = Inl Diverge"
| "copy_ring (Suc k) n h t r =
     bindE (nthE r t) (\<lambda>x.
     let t = (t + 1) mod n in
     if h = t then Inr [x] else bindE (copy_ring k n h t r) (\<lambda>xs. Inr (x # xs)))"

definition Push :: "slot \<Rightarrow> TokenFifo \<Rightarrow> TokenFifo res" where
  "Push x f =
     (if head f < length (ring f)
      then let f = f\<lparr>ring := (ring f)[head f := x], head := (head f + 1) mod fsize f\<rparr> in
           if head f = tail f
           then bindE (copy_ring (fsize f) (fsize f) (head f) (tail f) (ring f)) (\<lambda>xs.
                Inr \<lparr>head = length xs, tail = 0, fsize = fsize f + 16, ring = xs @ drop (length xs) (new_ring (fsize f + 16))\<rparr>)
           else Inr f
      else Inl OutOfRange)"

definition Pop :: "'s source \<Rightarrow> TokenFifo \<Rightarrow> 's \<Rightarrow> (slot \<times> TokenFifo \<times> 's) res" where
  "Pop rd f s =
     (if head f = tail f then bindE (rd s) (\<lambda>(x, s). Inr (x, f, s))
      else bindE (nthE (ring f) (tail f)) (\<lambda>x. Inr (x, f\<lparr>tail := (tail f + 1) mod fsize f\<rparr>, s)))"

fun read_push :: "'s source \<Rightarrow> nat \<Rightarrow> TokenFifo \<Rightarrow> 's \<Rightarrow> (TokenFifo \<times> 's) res" where
  "read_push rd 0 f s = Inr (f, s)"
| "read_push rd (Suc k) f s = bindE (rd s) (\<lambda>(x, s). bindE (Push x f) (\<lambda>f. read_push rd k f s))"

text \<open>The loop of \<^verbatim>\<open>Peek2\<close> with the number of turns that are left.\<close>

fun peek_loop :: "'s source \<Rightarrow> nat \<Rightarrow> nat \<Rightarrow> TokenFifo \<Rightarrow> 's \<Rightarrow> (TokenFifo \<times> 's) res" where
  "peek_loop rd 0 cur f s = Inr (f, s)"
| "peek_loop rd (Suc k) cur f s =
     (if head f = cur then read_push rd (Suc k) f s else peek_loop rd k ((cur + 1) mod fsize f) f s)"

definition Peek2 :: "'s source \<Rightarrow> nat \<Rightarrow> TokenFifo \<Rightarrow> 's \<Rightarrow> (nat \<times> TokenFifo \<times> 's) res" where
  "Peek2 rd offset f s = bindE (peek_loop rd (Suc offset) (tail f) f s) (\<lambda>(f, s). Inr ((tail f + offset) mod fsize f, f, s))"

definition Peek_slot :: "'s source \<Rightarrow> nat \<Rightarrow> TokenFifo \<Rightarrow> 's \<Rightarrow> (slot \<times> TokenFifo \<times> 's) res" where
  "Peek_slot rd offset f s = bindE (Peek2 rd offset f s) (\<lambda>(cur, f, s). bindE (nthE (ring f) cur) (\<lambda>x. Inr (x, f, s)))"

section \<open>The calls of the parser\<close>

definition read_token :: "nat \<Rightarrow> Lex source" where
  "read_token n lx = bindE (ReadToken n lx) (\<lambda>(t, pos, len, lx). Inr ((t, pos, len), lx))"

definition GetToken :: "nat \<Rightarrow> TokenFifo \<times> Lex \<Rightarrow> (slot \<times> TokenFifo \<times> Lex) res" where
  "GetToken n = (\<lambda>(f, lx). Pop (read_token n) f lx)"

definition LookAhead :: "nat \<Rightarrow> nat \<Rightarrow> TokenFifo \<times> Lex \<Rightarrow> (slot \<times> TokenFifo \<times> Lex) res" where
  "LookAhead n offset = (\<lambda>(f, lx). Peek_slot (read_token n) offset f lx)"

definition Save :: "nat \<Rightarrow> TokenFifo \<times> Lex \<Rightarrow> (nat \<times> TokenFifo \<times> Lex) res" where
  "Save n st = bindE (LookAhead n 0 st) (\<lambda>((t, pos, len), st). Inr (pos, st))"

definition Restore :: "nat \<Rightarrow> TokenFifo \<times> Lex \<Rightarrow> TokenFifo \<times> Lex" where
  "Restore pos = (\<lambda>(f, lx). (Clear f, lx\<lparr>last_token := Ch LF, tokenp := 0, token_len := 0, lx_file := Rewind pos (lx_file lx)\<rparr>))"

definition GetOnlyClosingBracket :: "slot \<Rightarrow> TokenFifo \<times> Lex \<Rightarrow> TokenFifo \<times> Lex" where
  "GetOnlyClosingBracket = (\<lambda>(t, pos, len). Restore (pos + 1))"

section \<open>The ring as a queue\<close>

definition fifo_ok :: "TokenFifo \<Rightarrow> bool" where
  "fifo_ok f \<longleftrightarrow> 0 < fsize f \<and> length (ring f) = fsize f \<and> head f < fsize f \<and> tail f < fsize f"

definition count :: "TokenFifo \<Rightarrow> nat" where
  "count f = (head f + fsize f - tail f) mod fsize f"

definition contents :: "TokenFifo \<Rightarrow> slot list" where
  "contents f = map (\<lambda>i. ring f ! ((tail f + i) mod fsize f)) [0..<count f]"

lemma ring_inj:
  fixes n :: nat
  assumes "(t + a) mod n = (t + b) mod n" "a < n" "b < n"
  shows "a = b"
proof -
  have "a = b" if "a \<le> b" "(t + b) mod n = (t + a) mod n" "b < n" for a b
    using mod_eq_dvd_iff_nat [of "t + a" "t + b" n] that by (auto dest: dvd_imp_le)
  then show ?thesis using assms by (metis nat_le_linear)
qed

lemma count_less: "fifo_ok f \<Longrightarrow> count f < fsize f"
  by (simp add: fifo_ok_def count_def)

lemma head_count: "fifo_ok f \<Longrightarrow> head f = (tail f + count f) mod fsize f"
  by (simp add: fifo_ok_def count_def mod_simps)

lemma count_unique: "fifo_ok f \<Longrightarrow> c < fsize f \<Longrightarrow> head f = (tail f + c) mod fsize f \<Longrightarrow> count f = c"
  using ring_inj [of "tail f" "count f" "fsize f" c] head_count [of f] count_less [of f] by simp

lemma contents_length [simp]: "length (contents f) = count f"
  by (simp add: contents_def)

lemma contents_nth: "i < count f \<Longrightarrow> contents f ! i = ring f ! ((tail f + i) mod fsize f)"
  by (simp add: contents_def)

lemma count_0: "fifo_ok f \<Longrightarrow> count f = 0 \<longleftrightarrow> head f = tail f"
  using count_unique [of f 0] head_count [of f] by (auto simp: fifo_ok_def)

lemma new_fifo: "fifo_ok new_TokenFifo" "contents new_TokenFifo = []"
  by (simp_all add: fifo_ok_def new_TokenFifo_def contents_def count_def new_ring_def)

lemma clear_fifo: "fifo_ok f \<Longrightarrow> fifo_ok (Clear f) \<and> contents (Clear f) = []"
  by (simp add: fifo_ok_def Clear_def contents_def count_def)

lemma copy_ring_spec:
  assumes "t < n" "length r = n" "h = (t + c) mod n" "0 < c" "c \<le> n" "c \<le> k"
  shows "copy_ring k n h t r = Inr (map (\<lambda>i. r ! ((t + i) mod n)) [0..<c])"
  using assms
proof (induction c arbitrary: t k)
  case (Suc c)
  obtain k' where k: "k = Suc k'" using Suc.prems(6) by (cases k) auto
  have same: "h = (t + 1) mod n \<longleftrightarrow> c = 0"
    using ring_inj [of "t + 1" c n 0] Suc.prems by auto
  have next_slot: "(Suc t mod n + i) mod n = (t + Suc i) mod n" for i by (simp add: mod_simps)
  show ?case
  proof (cases "c = 0")
    case True
    then show ?thesis using k same Suc.prems by simp
  next
    case False
    then have "copy_ring k' n h ((t + 1) mod n) r = Inr (map (\<lambda>i. r ! (((t + 1) mod n + i) mod n)) [0..<c])"
      using Suc.prems k next_slot by (intro Suc.IH) auto
    then show ?thesis using k same False Suc.prems next_slot by (simp add: map_upt_Suc del: upt_Suc)
  qed
qed simp

lemma Push_spec:
  assumes "fifo_ok f"
  shows "\<exists>f'. Push x f = Inr f' \<and> fifo_ok f' \<and> contents f' = contents f @ [x]"
proof -
  let ?n = "fsize f" and ?c = "count f"
  let ?f = "f\<lparr>ring := (ring f)[head f := x], head := (head f + 1) mod fsize f\<rparr>"
  have ok: "fifo_ok ?f" using assms by (simp add: fifo_ok_def)
  have slots: "map (\<lambda>i. ring ?f ! ((tail f + i) mod ?n)) [0..<Suc ?c] = contents f @ [x]"
  proof -
    have "head f \<noteq> (tail f + i) mod ?n" if "i < ?c" for i
      using ring_inj [of "tail f" i ?n ?c] head_count [OF assms] count_less [OF assms] that by auto
    then show ?thesis using assms head_count [OF assms, symmetric] by (auto simp: contents_def fifo_ok_def)
  qed
  have h: "head ?f = (tail f + Suc ?c) mod ?n" using head_count [OF assms] by (simp add: mod_simps)
  have le: "Suc ?c \<le> ?n" using count_less [OF assms] by simp
  show ?thesis
  proof (cases "head ?f = tail ?f")
    case True
    have "copy_ring ?n ?n (head ?f) (tail ?f) (ring ?f) = Inr (contents f @ [x])"
      using copy_ring_spec [of "tail f" ?n "ring ?f" "head ?f" "Suc ?c" ?n] assms h le slots by (simp add: fifo_ok_def)
    moreover have "fifo_ok \<lparr>head = Suc ?c, tail = 0, fsize = ?n + 16, ring = (contents f @ [x]) @ drop (Suc ?c) (new_ring (?n + 16))\<rparr> \<and>
      contents \<lparr>head = Suc ?c, tail = 0, fsize = ?n + 16, ring = (contents f @ [x]) @ drop (Suc ?c) (new_ring (?n + 16))\<rparr> = contents f @ [x]"
      (is "fifo_ok ?g \<and> _")
    proof
      show g: "fifo_ok ?g" using le by (simp add: fifo_ok_def new_ring_def)
      have "count ?g = Suc ?c" using le count_unique [OF g, of "Suc ?c"] by simp
      then show "contents ?g = contents f @ [x]"
        using le by (intro nth_equalityI) (auto simp: contents_nth nth_append)
    qed
    ultimately show ?thesis using True assms by (auto simp: Push_def fifo_ok_def)
  next
    case False
    then have "Suc ?c < ?n" using h le assms by (cases "Suc ?c = ?n") (auto simp: fifo_ok_def)
    then have "count ?f = Suc ?c" using count_unique [OF ok, of "Suc ?c"] h by simp
    then have "contents ?f = contents f @ [x]" using slots by (simp add: contents_def)
    then show ?thesis using ok False assms by (auto simp: Push_def fifo_ok_def)
  qed
qed

lemma Pop_buffered:
  assumes "fifo_ok f" "contents f = x # q"
  shows "\<exists>f'. Pop rd f s = Inr (x, f', s) \<and> fifo_ok f' \<and> contents f' = q"
proof -
  let ?f = "f\<lparr>tail := (tail f + 1) mod fsize f\<rparr>"
  have c: "count f = Suc (length q)" using assms(2) by (metis contents_length length_Cons)
  then have ne: "head f \<noteq> tail f" using count_0 [OF assms(1)] by simp
  have ok: "fifo_ok ?f" using assms(1) by (simp add: fifo_ok_def)
  have "count ?f = length q"
    using count_unique [OF ok, of "length q"] head_count [OF assms(1)] count_less [OF assms(1)] c by (simp add: mod_simps)
  moreover have "contents ?f ! i = q ! i" if "i < length q" for i
    using that c assms(2) contents_nth [of "Suc i" f] contents_nth [of i ?f] calculation by (simp add: mod_simps)
  ultimately have "contents ?f = q" by (intro nth_equalityI) auto
  moreover have "ring f ! tail f = x" using contents_nth [of 0 f] c assms by (simp add: fifo_ok_def)
  ultimately show ?thesis using ne ok assms(1) by (auto simp: Pop_def fifo_ok_def)
qed

lemma Pop_empty: "fifo_ok f \<Longrightarrow> contents f = [] \<Longrightarrow> Pop rd f s = bindE (rd s) (\<lambda>(x, s). Inr (x, f, s))"
  using count_0 [of f] contents_length [of f] by (simp add: Pop_def)

text \<open>Reading \<open>k\<close> tokens from a source.\<close>

fun read_n :: "'s source \<Rightarrow> nat \<Rightarrow> 's \<Rightarrow> (slot list \<times> 's) res" where
  "read_n rd 0 s = Inr ([], s)"
| "read_n rd (Suc k) s = bindE (rd s) (\<lambda>(x, s). bindE (read_n rd k s) (\<lambda>(xs, s). Inr (x # xs, s)))"

lemma read_n_length: "read_n rd k s = Inr (ts, s') \<Longrightarrow> length ts = k"
  by (induction k arbitrary: s ts) auto

lemma peek_loop_spec:
  assumes "fifo_ok f" "i \<le> count f"
  shows "peek_loop rd m ((tail f + i) mod fsize f) f s = (if i + m \<le> count f then Inr (f, s) else read_push rd (m - (count f - i)) f s)"
  using assms(2)
proof (induction m arbitrary: i)
  case (Suc m)
  have "head f = (tail f + i) mod fsize f \<longleftrightarrow> i = count f"
    using ring_inj [of "tail f" i "fsize f" "count f"] head_count [OF assms(1)] count_less [OF assms(1)] Suc.prems by (metis le_less_trans)
  moreover have "((tail f + i) mod fsize f + 1) mod fsize f = (tail f + Suc i) mod fsize f" by (simp add: mod_simps)
  moreover have "Suc m - (count f - i) = m - (count f - Suc i)" if "i < count f" using that by simp
  ultimately show ?case using Suc.IH [of "Suc i"] Suc.prems by (cases "i = count f") (simp_all del: read_push.simps)
qed simp

lemma read_push_spec:
  assumes "fifo_ok f" "read_n rd (length us) s = Inr (us, s')" "j \<le> length us"
  shows "\<exists>f' s1. read_push rd j f s = Inr (f', s1) \<and> fifo_ok f' \<and> contents f' = contents f @ take j us \<and>
    read_n rd (length (drop j us)) s1 = Inr (drop j us, s')"
  using assms
proof (induction j arbitrary: f s us)
  case (Suc j)
  then obtain x vs where us: "us = x # vs" by (cases us) auto
  then obtain s1 where s1: "rd s = Inr (x, s1)" "read_n rd (length vs) s1 = Inr (vs, s')" using Suc.prems(2) by auto
  obtain f1 where "Push x f = Inr f1" "fifo_ok f1" "contents f1 = contents f @ [x]" using Push_spec [OF Suc.prems(1)] by blast
  moreover from Suc.IH [OF this(2) s1(2)] Suc.prems(3) us obtain f' s2 where "read_push rd j f1 s1 = Inr (f', s2)" "fifo_ok f'"
    "contents f' = contents f1 @ take j vs" "read_n rd (length (drop j vs)) s2 = Inr (drop j vs, s')" by auto
  ultimately show ?case using s1(1) us by auto
qed auto

lemma Peek_spec:
  assumes "fifo_ok f" "read_n rd (length us) s = Inr (us, s')" "k < length (contents f @ us)"
  shows "\<exists>f' vs s1. Peek_slot rd k f s = Inr ((contents f @ us) ! k, f', s1) \<and> fifo_ok f' \<and> contents f' @ vs = contents f @ us \<and>
    read_n rd (length vs) s1 = Inr (vs, s')"
proof -
  let ?j = "Suc k - count f"
  have "tail f mod fsize f = tail f" using assms(1) by (simp add: fifo_ok_def)
  then have loop: "peek_loop rd (Suc k) (tail f) f s = read_push rd ?j f s"
    using peek_loop_spec [OF assms(1), of 0 rd "Suc k" s] by (auto simp del: peek_loop.simps)
  have j: "?j \<le> length us" using assms(3) by auto
  obtain f' s1 where f': "read_push rd ?j f s = Inr (f', s1)" "fifo_ok f'" "contents f' = contents f @ take ?j us"
    "read_n rd (length (drop ?j us)) s1 = Inr (drop ?j us, s')" using read_push_spec [OF assms(1,2) j] by blast
  have k: "k < count f'" using arg_cong [OF f'(3), of length] j by auto
  have "ring f' ! ((tail f' + k) mod fsize f') = (contents f @ us) ! k"
    using contents_nth [OF k] k f'(3) by (metis append_take_drop_id append.assoc contents_length nth_append)
  then have "Peek_slot rd k f s = Inr ((contents f @ us) ! k, f', s1)"
    using loop f'(1,2) by (simp add: Peek_slot_def Peek2_def fifo_ok_def del: peek_loop.simps)
  then show ?thesis using f'(2-4) by (metis append.assoc append_take_drop_id)
qed

section \<open>Looking ahead\<close>

text \<open>A sequence of calls, the number of tokens they need, and what they should answer over a sequence of tokens.\<close>

datatype call = GET | LOOK nat

fun run_calls :: "'s source \<Rightarrow> call list \<Rightarrow> TokenFifo \<Rightarrow> 's \<Rightarrow> (slot list \<times> TokenFifo \<times> 's) res" where
  "run_calls rd [] f s = Inr ([], f, s)"
| "run_calls rd (c # cs) f s =
     bindE (case c of GET \<Rightarrow> Pop rd f s | LOOK k \<Rightarrow> Peek_slot rd k f s) (\<lambda>(x, f, s). bindE (run_calls rd cs f s) (\<lambda>(xs, r). Inr (x # xs, r)))"

fun needs :: "call list \<Rightarrow> nat" where
  "needs [] = 0"
| "needs (GET # cs) = Suc (needs cs)"
| "needs (LOOK k # cs) = max (Suc k) (needs cs)"

fun answers :: "slot list \<Rightarrow> call list \<Rightarrow> slot list" where
  "answers ts [] = []"
| "answers ts (GET # cs) = hd ts # answers (tl ts) cs"
| "answers ts (LOOK k # cs) = ts ! k # answers ts cs"

lemma run_calls_spec:
  assumes "fifo_ok f" "read_n rd (length us) s = Inr (us, s')" "needs cs \<le> length (contents f @ us)"
  shows "\<exists>f' s''. run_calls rd cs f s = Inr (answers (contents f @ us) cs, f', s'') \<and> fifo_ok f'"
  using assms
proof (induction cs arbitrary: f s us)
  case (Cons c cs)
  show ?case
  proof (cases c)
    case GET
    show ?thesis
    proof (cases "contents f")
      case Nil
      then obtain x vs where us: "us = x # vs" using Cons.prems(3) GET by (cases us) auto
      then obtain s1 where s1: "rd s = Inr (x, s1)" "read_n rd (length vs) s1 = Inr (vs, s')" using Cons.prems(2) by auto
      then have "Pop rd f s = Inr (x, f, s1)" using Pop_empty [OF Cons.prems(1) Nil, of rd s] by simp
      then show ?thesis using Cons.IH [OF Cons.prems(1) s1(2)] Cons.prems(3) Nil us GET by auto
    next
      case buffered: (Cons x q)
      then obtain f1 where f1: "Pop rd f s = Inr (x, f1, s)" "fifo_ok f1" "contents f1 = q"
        using Pop_buffered [OF Cons.prems(1) buffered, of rd s] by blast
      then show ?thesis using Cons.IH [OF f1(2) Cons.prems(2)] Cons.prems(3) buffered GET by auto
    qed
  next
    case (LOOK k)
    then have k: "k < length (contents f @ us)" using Cons.prems(3) by simp
    obtain f1 vs s1 where p: "Peek_slot rd k f s = Inr ((contents f @ us) ! k, f1, s1)" "fifo_ok f1" "contents f1 @ vs = contents f @ us"
      "read_n rd (length vs) s1 = Inr (vs, s')" using Peek_spec [OF Cons.prems(1,2) k] by blast
    then show ?thesis using Cons.IH [OF p(2,4)] Cons.prems(3) LOOK by auto
  qed
qed auto

text \<open>The interface of the buffer: a source that always gives a token.\<close>

locale token_source =
  fixes rd :: "'s source" and inv :: "'s \<Rightarrow> bool"
  assumes rd_total: "inv s \<Longrightarrow> \<exists>x s'. rd s = Inr (x, s') \<and> inv s'"
begin

lemma read_n_total: "inv s \<Longrightarrow> \<exists>ts s'. read_n rd k s = Inr (ts, s') \<and> length ts = k \<and> inv s'"
proof (induction k arbitrary: s)
  case (Suc k)
  then obtain x s1 where "rd s = Inr (x, s1)" "inv s1" using rd_total by blast
  then show ?case using Suc.IH [of s1] by auto
qed simp

lemma calls_answered:
  assumes "inv s"
  shows "\<exists>ts s' f s''. read_n rd (needs cs) s = Inr (ts, s') \<and> run_calls rd cs new_TokenFifo s = Inr (answers ts cs, f, s'')"
proof -
  obtain ts s' where r: "read_n rd (needs cs) s = Inr (ts, s')" "length ts = needs cs" using read_n_total [OF assms] by blast
  then show ?thesis using run_calls_spec [of new_TokenFifo rd ts s s' cs] new_fifo by auto
qed

end

end
