(* ===== verification/Lex_Safe.thy ===== *)
theory Lex_Safe
  imports Lex_Text Lex_Words Lex_Fifo
begin

text \<open>
  The lexer reads a text that ends with a line end to its end: every call returns, stays within the text and moves on.
\<close>

section \<open>Comments, separators and words\<close>

lemma block_comment_at:
  assumes "good s" "i \<le> length s"
  shows "\<exists>n j. block_comment (at s i) = Inr (n, at s j) \<and> i \<le> j \<and> j \<le> length s"
  using assms(2)
proof (induction "length s - i" arbitrary: i rule: less_induct)
  case less
  note g = block_comment.simps [of "at s i"]
  consider (last) "i = length s" | (star) "i < length s" "s ! i = CHR ''*''" | (other) "i < length s" "s ! i \<noteq> CHR ''*''" using less.prems by linarith
  then show ?case
  proof cases
    case last
    then show ?thesis using g assms(1) by simp
  next
    case star
    then have i: "Suc i < length s" using inside [OF assms(1)] by simp
    then show ?thesis using g star assms(1) less.hyps [of "Suc i"] by (cases "s ! Suc i = CHR ''/''") fastforce+
  next
    case other
    then show ?thesis using g assms(1) less.hyps [of "Suc i"] by fastforce
  qed
qed

lemma ReadComment_at:
  assumes "good s" "i < length s" "c = CHR ''*'' \<or> c = CHR ''/''"
  shows "\<exists>len j. ReadComment c tp (at s i) = Inr (Ignore, len, at s j, Some (tp, len)) \<and> i \<le> j \<and> j \<le> length s"
proof (cases "c = CHR ''*''")
  case True
  then show ?thesis using block_comment_at [of s i] assms by (auto simp: ReadComment_def Let_def)
next
  case False
  obtain j where "i \<le> j" "j \<le> length s" "get_while (\<lambda>c. c \<noteq> LF \<and> c \<noteq> NUL) (at s i) = Inr (read_at s j)"
    using get_while_at [of s i "\<lambda>c. c \<noteq> LF \<and> c \<noteq> NUL"] assms by auto
  then show ?thesis using False assms(3) by (cases "j < length s") (auto simp: ReadComment_def Let_def)
qed

fun separator_ok :: "string \<Rightarrow> nat \<Rightarrow> (token \<times> int \<times> Program \<times> (nat \<times> int) option) res \<Rightarrow> bool" where
  "separator_ok s tp (Inl e) \<longleftrightarrow> e = AssertFail"
| "separator_ok s tp (Inr (t, len, p, None)) \<longleftrightarrow> (\<exists>j. p = at s j \<and> tp < j \<and> j < length s \<and> len = int (j - tp))"
| "separator_ok s tp (Inr (t, len, p, Some com)) \<longleftrightarrow> t = Ignore \<and> (\<exists>j. p = at s j \<and> tp < j \<and> j \<le> length s)"

lemma ReadSeparator_at:
  assumes "good s" "Suc tp < length s"
  shows "separator_ok s tp (ReadSeparator c tp (at s (Suc tp)))"
    and "ReadSeparator c tp (at s (Suc tp)) = Inl e \<Longrightarrow> c = CHR ''.'' \<and> s ! Suc tp = CHR ''.''"
proof -
  have next1: "s ! Suc tp \<noteq> LF \<Longrightarrow> Suc (Suc tp) < length s" using inside [OF assms] .
  have comment: "separator_ok s tp (ReadComment c' tp (at s (Suc (Suc tp))))" "ReadComment c' tp (at s (Suc (Suc tp))) \<noteq> Inl e'"
    if "s ! Suc tp \<noteq> LF" "c' = CHR ''*'' \<or> c' = CHR ''/''" for c' e'
    using ReadComment_at [of s "Suc (Suc tp)" c' tp] next1 assms(1) that by auto
  have get: "Get (at s (Suc tp)) = Inr (s ! Suc tp, at s (Suc (Suc tp)))"
    "Suc (Suc tp) < length s \<Longrightarrow> Get (at s (Suc (Suc tp))) = Inr (s ! Suc (Suc tp), at s (Suc (Suc (Suc tp))))" using assms by auto
  show "separator_ok s tp (ReadSeparator c tp (at s (Suc tp)))"
  proof (cases "s ! Suc tp = LF")
    case True
    then show ?thesis using get(1) assms(2) by (simp add: ReadSeparator_def single_def)
  next
    case False
    then have l: "Suc (Suc tp) < length s" using next1 by simp
    have d: "s ! Suc (Suc tp) = c' \<Longrightarrow> c' \<noteq> LF \<Longrightarrow> Suc (Suc (Suc tp)) < length s" for c' using inside [OF assms(1) l] by simp
    have dots: "separator_ok s tp (ReadComment CHR ''.'' tp p)" for p by (simp add: ReadComment_def)
    show ?thesis using get(1) get(2) [OF l] assms(2) l
      by (simp add: ReadSeparator_def single_def comment(1) [OF False] dots d del: Get_at list.set)
  qed
  show "ReadSeparator c tp (at s (Suc tp)) = Inl e \<Longrightarrow> c = CHR ''.'' \<and> s ! Suc tp = CHR ''.''"
    using next1 comment(2) by (auto simp: ReadSeparator_def get single_def bindE_Inl simp del: Get_at split: if_splits)
qed

definition lex_config :: "Lex \<Rightarrow> bool" where
  "lex_config lx \<longleftrightarrow> ordered (rw_table lx) \<and> (\<exists>m. represents (user_keywords lx) m \<and> m [] = None) \<and> map_of (rw_table lx) [] = None"

lemma Screening_total:
  assumes "lex_config lx"
  shows "\<exists>t. Screening lx s = Inr t \<and> (s = [] \<longrightarrow> t = Identifier \<or> t = WCHAR)"
  using assms Screening_word_kind [of lx] by (fastforce simp: lex_config_def word_kind_def)

lemma ReadIdentifier_at:
  assumes "good s" "i < length s" "tp \<le> i" "lex_config lx"
  shows "\<exists>t j. ReadIdentifier tp lx (at s i) = Inr (t, int (j - tp), at s j) \<and> i \<le> j \<and> j < length s \<and>
    (j = i \<longrightarrow> \<not> is_letter (s ! i)) \<and> Screening lx (take (j - tp) (drop tp s)) = Inr t"
proof -
  obtain j where j: "i \<le> j" "j < length s" "get_while (\<lambda>c. is_letter c \<or> is_digit c) (at s i) = Inr (s ! j, at s (Suc j))"
    "\<not> (is_letter (s ! j) \<or> is_digit (s ! j))"
    using get_while_inside [OF assms(1,2), of "\<lambda>c. is_letter c \<or> is_digit c"] by auto
  obtain t where "Screening lx (take (j - tp) (drop tp s)) = Inr t" using Screening_total [OF assms(4)] by blast
  then show ?thesis using j assms(3) good_length [OF assms(1)]
    by (intro exI [of _ t] exI [of _ j]) (auto simp: ReadIdentifier_def Let_def szsub_small as_int_def)
qed

section \<open>One token\<close>

text \<open>
  What a call leaves behind: the rest of the text begins at \<open>j\<close>, behind the token.  At the end of the text the lexer steps back to the last line end;
  a stray backslash in front of \<^verbatim>\<open>L\<close> is not passed.
\<close>

definition line_ok :: "string \<Rightarrow> nat \<Rightarrow> Lex \<Rightarrow> token \<Rightarrow> Lex \<Rightarrow> bool" where
  "line_ok s i lx t lx' \<longleftrightarrow> rw_table lx' = rw_table lx \<and> user_keywords lx' = user_keywords lx \<and> wcharSupport lx' = wcharSupport lx \<and>
     (\<exists>j. lx_file lx' = at s j \<and>
       (t = Ch NUL \<and> j = length s - 1 \<and> tokenp lx' = j \<or>
        i \<le> tokenp lx' \<and> tokenp lx' < j \<and> j \<le> length s \<and>
          (t = Ch LF \<or> t = Ignore \<or> j < length s \<and> 0 \<le> token_len lx' \<and> int (tokenp lx') + token_len lx' \<le> int j) \<or>
        i \<le> j \<and> j < length s \<and> tokenp lx' = j \<and> token_len lx' = 0 \<and> s ! j = BACKSLASH \<and> (t = Identifier \<or> t = WCHAR)))"

lemma set_token_ok:
  "i \<le> tp \<Longrightarrow> tp < j \<Longrightarrow> j < length s \<Longrightarrow> 0 \<le> len \<Longrightarrow> int tp + len \<le> int j \<Longrightarrow>
    \<exists>t' lx'. set_token lx tp (t, len, at s j) = (t', lx') \<and> line_ok s i lx t' lx'"
  by (auto simp: set_token_def line_ok_def)

lemma set_separator_ok:
  "separator_ok s tp (Inr r) \<Longrightarrow> i \<le> tp \<Longrightarrow> \<exists>t' lx'. set_separator lx tp r = (t', lx') \<and> line_ok s i lx t' lx'"
  by (cases "(s, tp, Inr r :: (token \<times> int \<times> Program \<times> (nat \<times> int) option) res)" rule: separator_ok.cases)
    (auto simp: set_separator_def line_ok_def)

text \<open>The assertion of \<^verbatim>\<open>ReadComment\<close> fails only where a dot follows a dot or a stray backslash.\<close>

definition dots :: "string \<Rightarrow> bool" where
  "dots s \<longleftrightarrow> (\<exists>j<length s. (s ! j = CHR ''.'' \<or> s ! j = BACKSLASH) \<and> Suc j < length s \<and> s ! Suc j = CHR ''.'')"

definition line_result :: "string \<Rightarrow> nat \<Rightarrow> Lex \<Rightarrow> (token \<times> Lex) res \<Rightarrow> bool" where
  "line_result s i lx r \<longleftrightarrow> r = Inl AssertFail \<and> dots s \<or> (\<exists>t lx'. r = Inr (t, lx') \<and> line_ok s i lx t lx')"

lemma line_result_token:
  "i \<le> tp \<Longrightarrow> tp < j \<Longrightarrow> j < length s \<Longrightarrow> 0 \<le> len \<Longrightarrow> int tp + len \<le> int j \<Longrightarrow> line_result s i lx (Inr (set_token lx tp (t, len, at s j)))"
  using set_token_ok [of i tp j s len lx t] by (auto simp: line_result_def)

lemma line_result_separator:
  assumes "good s" "Suc tp < length s" "i \<le> tp" "starts s c tp"
  shows "line_result s i lx (bindE (ReadSeparator c tp (at s (Suc tp))) (\<lambda>r. Inr (set_separator lx tp r)))"
proof (cases "ReadSeparator c tp (at s (Suc tp))")
  case (Inl e)
  then have "c = CHR ''.''" "s ! Suc tp = CHR ''.''" "e = AssertFail" using ReadSeparator_at [OF assms(1,2), of c] by auto
  moreover from this have "dots s" using assms(2,4) unfolding dots_def by (intro exI [of _ tp]) (auto simp: starts_def)
  ultimately show ?thesis using Inl by (simp add: line_result_def)
next
  case (Inr r)
  then have "separator_ok s tp (Inr r)" using ReadSeparator_at(1) [OF assms(1,2), of c] by simp
  then show ?thesis using set_separator_ok [OF _ assms(3), of s r lx] Inr by (auto simp: line_result_def)
qed

lemma line_result_identifier:
  assumes "good s" "Suc tp < length s" "i \<le> tp" "lex_config lx" "k = Suc tp \<or> k = tp \<and> (is_letter (s ! tp) \<or> s ! tp = BACKSLASH)"
  shows "line_result s i lx (bindE (ReadIdentifier tp lx (at s k)) (\<lambda>r. Inr (set_token lx tp r)))"
proof -
  have "k < length s" "tp \<le> k" using assms(2,5) by auto
  then obtain t j where j: "ReadIdentifier tp lx (at s k) = Inr (t, int (j - tp), at s j)" "k \<le> j" "j < length s" "j = k \<longrightarrow> \<not> is_letter (s ! k)"
    "Screening lx (take (j - tp) (drop tp s)) = Inr t" using ReadIdentifier_at [OF assms(1) _ _ assms(4)] by blast
  show ?thesis
  proof (cases "tp < j")
    case True
    then show ?thesis using j(1,3) line_result_token [OF assms(3) True j(3)] by simp
  next
    case False
    then have "j = tp" "s ! tp = BACKSLASH" "t = Identifier \<or> t = WCHAR"
      using j(2,4,5) assms(5) Screening_total [OF assms(4), of "[]"] by auto
    then show ?thesis using j(1,3) assms(3) by (auto simp: line_result_def line_ok_def set_token_def)
  qed
qed

lemma token_classes [simp]:
  "\<not> is_digit CHR ''#''" "\<not> is_digit QUOTE" "\<not> is_digit DQUOTE" "\<not> is_digit CHR ''.''" "\<not> is_digit CHR ''L''"
  "\<not> is_letter CHR ''#''" "\<not> is_letter QUOTE" "\<not> is_letter DQUOTE" "\<not> is_letter CHR ''.''" "is_letter CHR ''L''"
  by code_simp+

lemma letter_not_digit: "is_letter c \<Longrightarrow> \<not> is_digit c"
  by (auto simp: is_letter_def is_digit_def in_range_def scode_def ucode_def)

lemma line_result_bad:
  "i \<le> tp \<Longrightarrow> Suc tp < length s \<Longrightarrow> line_result s i lx (Inr (set_token lx tp (t, 1, at s (Suc tp))))"
  by (rule line_result_token) auto

lemma wide_start: "starts s CHR ''L'' tp \<Longrightarrow> is_letter (s ! tp) \<or> s ! tp = BACKSLASH"
  by (metis starts_def token_classes(10))

lemma line_result_wide:
  assumes "good s" "Suc tp < length s" "i \<le> tp" "lex_config lx" "starts s CHR ''L'' tp"
  shows "line_result s i lx (bindE (bindE (Get (at s (Suc tp))) (\<lambda>(c, p).
      if c = QUOTE
      then bindE (ReadCharConst p) (\<lambda>(ok, p).
           Inr (if ok then Inr (WideCharConst, len_from (tp + 1) (sz (GetCurPos p + 1)), p) else Inl (Rewind tp p)))
      else if c = DQUOTE
      then bindE (ReadStrConst (tp + 1) p) (\<lambda>(len, p).
           Inr (case len of Some len \<Rightarrow> Inr (WideStringL, len, p) | None \<Rightarrow> Inl (Rewind tp p)))
      else Inr (Inl (Rewind tp p))))
    (\<lambda>r. case r of Inr r \<Rightarrow> Inr (set_token lx tp r) | Inl p \<Rightarrow> bindE (ReadIdentifier tp lx p) (\<lambda>r. Inr (set_token lx tp r))))"
proof -
  note small = good_length [OF assms(1)]
  have ident: "line_result s i lx (bindE (ReadIdentifier tp lx (at s tp)) (\<lambda>r. Inr (set_token lx tp r)))"
    using line_result_identifier [OF assms(1-4)] wide_start [OF assms(5)] by blast
  have get: "Get (at s (Suc tp)) = Inr (s ! Suc tp, at s (Suc (Suc tp)))" using assms(1,2) by simp
  consider (char) "s ! Suc tp = QUOTE" | (str) "s ! Suc tp = DQUOTE" | (other) "s ! Suc tp \<noteq> QUOTE" "s ! Suc tp \<noteq> DQUOTE" by blast
  then show ?thesis
  proof cases
    case char
    then have l: "Suc (Suc tp) < length s" using inside [OF assms(1,2)] by simp
    obtain b j where j: "ReadCharConst (at s (Suc (Suc tp))) = Inr (b, at s j)" "j \<le> length s" "b \<longrightarrow> Suc (Suc tp) < j \<and> j < length s"
      using ReadCharConst_at [of s "Suc (Suc tp)"] assms(1) l by auto
    show ?thesis
    proof (cases b)
      case True
      moreover obtain k where "j = Suc k" using j(3) True by (cases j) auto
      ultimately show ?thesis using get char j small line_result_token [of i tp j s "int (j - Suc tp)" lx WideCharConst] assms(3) by auto
    next
      case False
      then show ?thesis using get char j ident by simp
    qed
  next
    case str
    then have l: "Suc (Suc tp) < length s" using inside [OF assms(1,2)] by simp
    obtain len j where j: "ReadStrConst (Suc tp) (at s (Suc (Suc tp))) = Inr (len, at s j)"
      "\<forall>x. len = Some x \<longrightarrow> x = int (j - Suc tp) \<and> Suc (Suc tp) < j \<and> j < length s"
      using ReadStrConst_at [of s "Suc (Suc tp)" "Suc tp"] assms(1) l by auto
    show ?thesis
    proof (cases len)
      case None
      then show ?thesis using get str j ident by simp
    next
      case (Some x)
      then show ?thesis using get str j line_result_token [of i tp j s x lx WideStringL] assms(3) by auto
    qed
  next
    case other
    then show ?thesis using get ident by simp
  qed
qed

lemma ReadLine_at:
  assumes "good s" "i \<le> length s" "lex_config lx" "lx_file lx = at s i"
  shows "line_result s i lx (ReadLine lx)"
proof -
  note small = good_length [OF assms(1)]
  consider (last) "GetNextNonWhiteChar (at s i) = Inr (NUL, at s (length s))"
    | (char) c tp where "i \<le> tp" "starts s c tp" "GetNextNonWhiteChar (at s i) = Inr (c, at s (Suc tp))"
    using GetNextNonWhiteChar_at [OF assms(1,2)] by blast
  then show ?thesis
  proof cases
    case last
    then show ?thesis using assms(4) Unget_end [OF assms(1)] small
      by (auto simp: ReadLine_def line_result_def line_ok_def GetCurPos_def dec_def)
  next
    case char
    note u = ReadLine_def [of lx, unfolded assms(4) char(3), simplified bindE.simps prod.case Let_def Unget_at]
    have nn: "c \<noteq> NUL" using starts_not_NUL [OF assms(1) char(2)] .
    show ?thesis
    proof (cases "c = LF")
      case True
      then show ?thesis using u char(1,2) by (auto simp: line_result_def line_ok_def starts_def)
    next
      case False
      then have l: "Suc tp < length s" using starts_inside [OF assms(1) char(2)] by simp
      consider (directive) "c = CHR ''#''" "last_token lx = Ch LF" | (quote) "c = QUOTE" | (dquote) "c = DQUOTE" | (digit) "is_digit c"
        | (dot) "c = CHR ''.''" | (wide) "c = CHR ''L''" | (letter) "is_letter c" "c \<noteq> CHR ''L''" 
        | (other) "\<not> (c = CHR ''#'' \<and> last_token lx = Ch LF)" "c \<noteq> QUOTE" "c \<noteq> DQUOTE" "\<not> is_digit c" "c \<noteq> CHR ''.''" "\<not> is_letter c" by blast
      then show ?thesis
      proof cases
        case directive
        obtain j where "Suc tp \<le> j" "j \<le> length s" "get_while (\<lambda>c. c \<noteq> LF \<and> c \<noteq> NUL) (at s (Suc tp)) = Inr (read_at s j)"
          using get_while_at [of s "Suc tp" "\<lambda>c. c \<noteq> LF \<and> c \<noteq> NUL"] assms(1) l by auto
        then show ?thesis using u directive char(1)
          by (cases "j < length s") (auto simp: ReadLineDirective_def line_result_def line_ok_def)
      next
        case quote
        obtain b j where j: "ReadCharConst (at s (Suc tp)) = Inr (b, at s j)" "b \<longrightarrow> Suc tp < j \<and> j < length s"
          using ReadCharConst_at [of s "Suc tp"] assms(1) l by auto
        then show ?thesis using u quote line_result_bad [OF char(1) l] line_result_token [of i tp j s "int (j - tp)" lx CharConst] char(1) small
          by (cases j) auto
      next
        case dquote
        obtain len j where j: "ReadStrConst tp (at s (Suc tp)) = Inr (len, at s j)" "\<forall>x. len = Some x \<longrightarrow> x = int (j - tp) \<and> Suc tp < j \<and> j < length s"
          using ReadStrConst_at [of s "Suc tp" tp] assms(1) l by auto
        then show ?thesis using u dquote line_result_bad [OF char(1) l] line_result_token [of i tp j s "int (j - tp)" lx StringL] char(1)
          by (cases len) auto
      next
        case digit
        obtain j where "ReadNumber c tp (at s (Suc tp)) = Inr (Constant, int (j - tp), at s j)" "Suc tp \<le> j" "j < length s"
          using ReadNumber_at [of s "Suc tp" tp c] assms(1) l by auto
        then show ?thesis using u digit nn False line_result_token [of i tp j s "int (j - tp)" lx Constant] char(1) by auto
      next
        case dot
        show ?thesis
        proof (cases "is_digit (s ! Suc tp)")
          case True
          then have "Suc (Suc tp) < length s" using inside [OF assms(1) l] by simp
          then obtain j where "ReadFloat tp (at s (Suc (Suc tp))) = Inr (Constant, int (j - tp), at s j)" "Suc (Suc tp) \<le> j" "j < length s"
            using ReadFloat_at [of s "Suc (Suc tp)" tp] assms(1) by auto
          then show ?thesis using u dot True l assms(1) line_result_token [of i tp j s "int (j - tp)" lx Constant] char(1) by auto
        next
          case False
          then show ?thesis using u dot l assms(1) line_result_separator [OF assms(1) l char(1,2)] by simp
        qed
      next
        case wide
        then show ?thesis using u line_result_wide [OF assms(1) l char(1) assms(3)] char(2) by simp
      next
        case letter
        then have "c \<noteq> CHR ''#''" "c \<noteq> QUOTE" "c \<noteq> DQUOTE" "c \<noteq> CHR ''.''" by auto
        then show ?thesis using u letter letter_not_digit [of c] nn False line_result_identifier [OF assms(1) l char(1) assms(3), of "Suc tp"] by simp
      next
        case other
        then show ?thesis using u nn False line_result_separator [OF assms(1) l char(1,2)] by auto
      qed
    qed
  qed
qed

section \<open>The token loop\<close>

lemma skip_parens_at:
  assumes "good s" "i \<le> length s"
  shows "\<exists>j. skip_parens k (at s i) = Inr (at s j) \<and> i \<le> j \<and> j \<le> length s"
  using assms(2)
proof (induction "length s - i" arbitrary: i k rule: less_induct)
  case less
  show ?case
  proof (cases "i < length s")
    case True
    have "\<exists>j. skip_parens k' (at s (Suc i)) = Inr (at s j) \<and> i \<le> j \<and> j \<le> length s" for k'
      using less.hyps [of "Suc i" k'] True by fastforce
    then show ?thesis using True assms(1) skip_parens.simps [of k "at s i"] by auto
  next
    case False
    then show ?thesis using less.prems assms(1) skip_parens.simps [of k "at s i"] by simp
  qed
qed

lemma SkipAttributeToken_at:
  assumes "good s" "i \<le> length s"
  shows "\<exists>j. SkipAttributeToken (at s i) = Inr (at s j) \<and> i \<le> j \<and> j \<le> length s"
proof -
  obtain j where j: "i \<le> j" "j \<le> length s" "get_while (\<lambda>c. c \<noteq> CHR ''('' \<and> c \<noteq> NUL) (at s i) = Inr (read_at s j)"
    using get_while_at [OF assms, of "\<lambda>c. c \<noteq> CHR ''('' \<and> c \<noteq> NUL"] by auto
  show ?thesis
  proof (cases "j < length s")
    case True
    then show ?thesis using j skip_parens_at [of s "Suc j" 1] assms(1) by (fastforce simp: SkipAttributeToken_def)
  next
    case False
    then show ?thesis using j skip_parens_at [of s j 1] assms(1) by (fastforce simp: SkipAttributeToken_def)
  qed
qed

lemma SkipExtensionToken_at:
  assumes "good s" "i < length s"
  shows "\<exists>t j. SkipExtensionToken (at s i) = Inr (t, at s j) \<and> (t = Ignore \<or> t = Identifier) \<and> i \<le> j \<and> j \<le> length s"
proof -
  obtain j where j: "i \<le> j" "j \<le> length s" "get_while (\<lambda>c. is_blank c \<or> c = LF) (at s i) = Inr (read_at s j)"
    using get_while_at [of s i "\<lambda>c. is_blank c \<or> c = LF"] assms by auto
  show ?thesis
  proof (cases "j < length s")
    case True
    then show ?thesis using j skip_parens_at [of s "Suc j" 1] assms(1) by (fastforce simp: SkipExtensionToken_def)
  next
    case False
    then show ?thesis using j assms Unget_end [OF assms(1)] by (auto simp: SkipExtensionToken_def)
  qed
qed

definition token_ok :: "string \<Rightarrow> nat \<Rightarrow> token \<times> nat \<times> int \<times> Lex \<Rightarrow> bool" where
  "token_ok s i = (\<lambda>(t, pos, len, lx). lex_config lx \<and> buf (lx_file lx) = s \<and> index (lx_file lx) \<le> length s \<and>
     (t = Ch NUL \<and> pos = length s - 1 \<and> index (lx_file lx) = pos \<or>
      i \<le> pos \<and> pos < index (lx_file lx) \<and> 0 \<le> len \<and> int pos + len \<le> int (index (lx_file lx)) \<or>
      i \<le> pos \<and> index (lx_file lx) = pos \<and> pos < length s \<and> s ! pos = BACKSLASH \<and> len = 0))"

lemma token_ok_mono: "token_ok s j r \<Longrightarrow> i \<le> j \<Longrightarrow> token_ok s i r"
  by (auto simp: token_ok_def)

lemma ReadToken_at:
  assumes "good s"
  shows "i \<le> length s \<Longrightarrow> lex_config lx \<Longrightarrow> lx_file lx = at s i \<Longrightarrow> length s - i < n \<Longrightarrow>
    ReadToken n lx = Inl AssertFail \<and> dots s \<or> (\<exists>r. ReadToken n lx = Inr r \<and> token_ok s i r)"
proof (induction n arbitrary: i lx)
  case (Suc n)
  have again: ?case if "ReadToken (Suc n) lx = ReadToken n lx1" "lex_config lx1" "lx_file lx1 = at s j" "i < j" "j \<le> length s" for lx1 j
    using Suc.IH [of j lx1] that Suc.prems(4) token_ok_mono [of s j _ i] by fastforce
  show ?case
  proof (cases "ReadLine lx")
    case (Inl e)
    then show ?thesis using ReadLine_at [OF assms Suc.prems(1-3)] by (simp add: line_result_def)
  next
    case (Inr r)
    then obtain t lx' where r: "ReadLine lx = Inr (t, lx')" "line_ok s i lx t lx'"
      using ReadLine_at [OF assms Suc.prems(1-3)] by (auto simp: line_result_def)
    then obtain j where j: "lx_file lx' = at s j" by (auto simp: line_ok_def)
    have c: "lex_config (lx'\<lparr>last_token := t, lx_file := p\<rparr>)" "lex_config (lx'\<lparr>last_token := t\<rparr>)" "lex_config lx'" for p
      using r(2) Suc.prems(2) by (simp_all add: line_ok_def lex_config_def)
    have progress: "i < j" "j \<le> length s" if "t = Ignore \<or> t = ATTRIBUTE \<or> t = EXTENSION \<or> t = Ch LF"
      using r(2) j that by (auto simp: line_ok_def)
    consider (ignore) "t = Ignore" | (attr) "t = ATTRIBUTE" | (ext) "t = EXTENSION" | (line) "t = Ch LF"
      | (token) "t \<noteq> Ignore" "t \<noteq> ATTRIBUTE" "t \<noteq> EXTENSION" "t \<noteq> Ch LF" by blast
    then show ?thesis
    proof cases
      case ignore
      then show ?thesis using again [of lx' j] r(1) c j progress by simp
    next
      case attr
      then obtain k where k: "SkipAttributeToken (at s j) = Inr (at s k)" "j \<le> k" "k \<le> length s"
        using SkipAttributeToken_at [OF assms, of j] progress by blast
      then show ?thesis using again [of "lx'\<lparr>last_token := t, lx_file := at s k\<rparr>" k] r(1) c j progress attr by simp
    next
      case ext
      have l: "j < length s" "i \<le> tokenp lx'" "tokenp lx' < j" "0 \<le> token_len lx'" "int (tokenp lx') + token_len lx' \<le> int j"
        using r(2) j ext by (auto simp: line_ok_def)
      then obtain t' k where k: "SkipExtensionToken (at s j) = Inr (t', at s k)" "t' = Ignore \<or> t' = Identifier" "j \<le> k" "k \<le> length s"
        using SkipExtensionToken_at [OF assms, of j] by blast
      from k(2) show ?thesis
      proof
        assume "t' = Ignore"
        then show ?thesis using again [of "lx'\<lparr>last_token := t, lx_file := at s k\<rparr>" k] r(1) c j progress ext k by simp
      next
        assume "t' = Identifier"
        then show ?thesis using r(1) c(1) [of "at s k"] j ext k l by (auto simp: token_ok_def)
      qed
    next
      case line
      then show ?thesis using again [of "lx'\<lparr>last_token := t\<rparr>" j] r(1) c j progress by simp
    next
      case token
      then show ?thesis using r c(2) j by (auto simp: token_ok_def line_ok_def)
    qed
  qed
qed simp

lemma new_Lex_config:
  assumes "represents user m" "m [] = None"
  shows "lex_config (new_Lex s wchars ext user)"
proof -
  have "map_of (InitializeOtherKeywords ext) [] = None" by (auto simp: map_of_eq_None_iff InitializeOtherKeywords_def table_def)
  then show ?thesis using assms keywords_ordered by (auto simp: lex_config_def new_Lex_def)
qed

lemma empty_user: "represents (new_HashTable :: token HashTable) Map.empty"
  using new_table_represents(1) [of 251 127] by (simp add: new_HashTable_def)

section \<open>Results\<close>

text \<open>
  C27. Reading a token from a text that ends with a line end always returns.  The token read, if it is not the end of the text, lies
  within the text, behind the place where the call began and in front of the place where it ended, and the call has moved on; the only
  exceptions are an empty word at a stray backslash, and the failing assertion of \<^verbatim>\<open>ReadComment\<close>, which needs a dot behind
  a dot or behind a backslash.  At the end of the text the lexer stays in front of the last line end.
\<close>

theorem token_in_bounds:
  assumes "good s" "lex_config lx" "lx_file lx = at s i" "i \<le> length s" "length s - i < n"
  shows "ReadToken n lx = Inl AssertFail \<and> dots s \<or>
    (\<exists>t pos len lx' j. ReadToken n lx = Inr (t, pos, len, lx') \<and> lex_config lx' \<and> lx_file lx' = at s j \<and> j \<le> length s \<and>
      (t = Ch NUL \<and> pos = length s - 1 \<and> j = pos \<or>
       i \<le> pos \<and> pos < j \<and> 0 \<le> len \<and> int pos + len \<le> int j \<or>
       i \<le> pos \<and> j = pos \<and> pos < length s \<and> s ! pos = BACKSLASH \<and> len = 0))"
proof -
  consider "ReadToken n lx = Inl AssertFail" "dots s" | t pos len lx' where "ReadToken n lx = Inr (t, pos, len, lx')" "token_ok s i (t, pos, len, lx')"
    using ReadToken_at [OF assms(1,4,2,3,5)] by (metis prod_cases4)
  then show ?thesis
  proof cases
    case 2
    moreover have "lx_file lx' = at (buf (lx_file lx')) (index (lx_file lx'))" by (cases "lx_file lx'") simp
    ultimately show ?thesis
      by (intro disjI2 exI [of _ t] exI [of _ pos] exI [of _ len] exI [of _ lx'] exI [of _ "index (lx_file lx')"]) (simp add: token_ok_def)
  qed simp
qed

theorem token_in_bounds_witness:
  "\<exists>t pos len lx' j. ReadToken 9 (new_Lex (''a = .5;'' @ [LF]) False True new_HashTable) = Inr (t, pos, len, lx') \<and>
    lx_file lx' = at (''a = .5;'' @ [LF]) j \<and> j \<le> length (''a = .5;'' @ [LF])"
proof -
  let ?s = "''a = .5;'' @ [LF]"
  have "good ?s" "\<not> dots ?s" by (simp add: good_def, simp add: dots_def less_Suc_eq numeral_nat nth_Cons')
  moreover have "lx_file (new_Lex ?s False True new_HashTable) = at ?s 0" by (simp add: new_Lex_def)
  moreover have "lex_config (new_Lex ?s False True new_HashTable)" by (rule new_Lex_config [OF empty_user]) simp
  moreover have "length ?s - 0 < 9" by simp
  ultimately show ?thesis using token_in_bounds [of ?s "new_Lex ?s False True new_HashTable" 0 9] by blast
qed

text \<open>The lexer is a source of tokens for its buffer.\<close>

definition lexer_ok :: "nat \<Rightarrow> Lex \<Rightarrow> bool" where
  "lexer_ok n lx \<longleftrightarrow> good (buf (lx_file lx)) \<and> \<not> dots (buf (lx_file lx)) \<and> index (lx_file lx) \<le> length (buf (lx_file lx)) \<and>
     length (buf (lx_file lx)) < n \<and> lex_config lx"

interpretation lexer: token_source "read_token n" "lexer_ok n" for n
proof unfold_locales
  fix lx
  assume a: "lexer_ok n lx"
  let ?s = "buf (lx_file lx)" and ?i = "index (lx_file lx)"
  have "lx_file lx = at ?s ?i" "length ?s - ?i < n" using a by (cases "lx_file lx", auto simp: lexer_ok_def)
  then obtain r where "ReadToken n lx = Inr r" "token_ok ?s ?i r"
    using ReadToken_at [of ?s ?i lx n] a by (auto simp: lexer_ok_def)
  then show "\<exists>x lx'. read_token n lx = Inr (x, lx') \<and> lexer_ok n lx'"
    using a by (cases r) (auto simp: read_token_def token_ok_def lexer_ok_def)
qed



end
