(* ===== verification/Lex_Print.thy ===== *)
theory Lex_Print
  imports Lex_Safe
begin

text \<open>
  Printing and reading: words, decimal numbers and operators written with a blank behind each are read back as they were.
\<close>

section \<open>What can be printed\<close>

definition single_chars :: string where
  "single_chars = ''!%&()*+,-./:;<=>?[]^{|}~''"

definition assign_chars :: string where
  "assign_chars = ''*/%+-&^|''"

definition long_operators :: "(string \<times> token) list" where
  "long_operators = [(''=='', EqualOp), (''!='', EqualOp), (''<='', RelOp), (''>='', RelOp), (''<<'', ShiftOp), (''>>'', ShiftOp), (''||'', LogOrOp),
      (''&&'', LogAndOp), (''++'', IncOp), (''--'', IncOp), (''::'', Scope), (''.*'', PmOp), (''->'', ArrowOp), (''<<='', AssignOp),
      (''>>='', AssignOp), (''...'', Ellipsis), (''->*'', PmOp)]"

definition operators :: "(string \<times> token) list" where
  "operators = map (\<lambda>c. ([c], Ch c)) single_chars @ map (\<lambda>c. ([c, CHR ''=''], AssignOp)) assign_chars @ long_operators"

definition is_number :: "string \<Rightarrow> bool" where
  "is_number w \<longleftrightarrow> w \<noteq> [] \<and> list_all is_digit w"

definition is_word :: "string \<Rightarrow> bool" where
  "is_word w \<longleftrightarrow> w \<noteq> [] \<and> is_letter (hd w) \<and> list_all (\<lambda>c. is_letter c \<or> is_digit c) w"

text \<open>The token of a printable string; words that the lexer skips cannot be printed.\<close>

definition lexeme :: "(string \<Rightarrow> token) \<Rightarrow> string \<Rightarrow> token option" where
  "lexeme kind w =
     (case map_of operators w of Some t \<Rightarrow> Some t
      | None \<Rightarrow> if is_number w then Some Constant
                else if is_word w \<and> kind w \<notin> {Ignore, ATTRIBUTE, EXTENSION, Ch LF} then Some (kind w) else None)"

definition spell :: "string list \<Rightarrow> string" where
  "spell ws = concat (map (\<lambda>w. w @ '' '') ws) @ [LF]"

section \<open>Reading one of them\<close>

definition placed :: "string \<Rightarrow> nat \<Rightarrow> string \<Rightarrow> bool" where
  "placed s tp w \<longleftrightarrow> tp + length w < length s \<and> take (length w) (drop tp s) = w \<and> s ! (tp + length w) = CHR '' ''"

lemma placed_nth: "placed s tp w \<Longrightarrow> k < length w \<Longrightarrow> s ! (tp + k) = w ! k"
  by (metis placed_def nth_take nth_drop add_leD1 less_imp_le)

lemma placed_hd: "placed s tp w \<Longrightarrow> w \<noteq> [] \<Longrightarrow> s ! tp = hd w \<and> tp < length s"
  using placed_nth [of s tp w 0] by (auto simp: hd_conv_nth placed_def)

lemma get_while_exact:
  assumes "good s" "i \<le> j" "j < length s" "\<not> P NUL" "\<forall>k. i \<le> k \<and> k < j \<longrightarrow> P (s ! k)" "\<not> P (s ! j)"
  shows "get_while P (at s i) = Inr (s ! j, at s (Suc j))"
proof -
  obtain l where l: "i \<le> l" "l \<le> length s" "get_while P (at s i) = Inr (read_at s l)" "\<forall>k. i \<le> k \<and> k < l \<longrightarrow> P (s ! k)"
    "l < length s \<longrightarrow> \<not> P (s ! l)" using get_while_at [of s i P] assms by auto
  then have "l = j" using assms(2,3,5,6) by (metis le_trans less_le_trans linorder_neqE_nat less_imp_le)
  then show ?thesis using l assms(3) by simp
qed

lemma get_while_placed:
  assumes "good s" "placed s tp w" "i \<le> length w" "\<not> P NUL" "\<not> P CHR '' ''" "list_all P (drop i w)"
  shows "get_while P (at s (tp + i)) = Inr (CHR '' '', at s (Suc (tp + length w)))"
proof -
  have "P (s ! k)" if "tp + i \<le> k" "k < tp + length w" for k
    using placed_nth [OF assms(2), of "k - tp"] that assms(6) by (auto simp: list_all_length dest: spec [of _ "k - tp - i"])
  then show ?thesis using get_while_exact [of s "tp + i" "tp + length w" P] assms by (auto simp: placed_def)
qed

lemma blank_classes [simp]:
  "\<not> is_digit CHR '' ''" "\<not> is_letter CHR '' ''" "\<not> is_int_suffix CHR '' ''" "\<not> is_eletter CHR '' ''" "\<not> is_xletter CHR '' ''" "is_blank CHR '' ''"
  by code_simp+

lemma number_at:
  assumes "good s" "placed s tp w" "is_number w"
  shows "ReadNumber (hd w) tp (at s (Suc tp)) = Inr (Constant, int (length w), at s (tp + length w))"
proof -
  note small = good_length [OF assms(1)]
  obtain c v where w: "w = c # v" "is_digit c" "list_all is_digit v" using assms(3) by (cases w) (auto simp: is_number_def)
  have get: "Get (at s (Suc tp)) = Inr (s ! Suc tp, at s (Suc (Suc tp)))" using assms(1,2) w(1) by (simp add: placed_def)
  have more: "(if is_digit (s ! Suc tp) then get_while is_digit (at s (Suc (Suc tp))) else Inr (s ! Suc tp, at s (Suc (Suc tp)))) =
      Inr (CHR '' '', at s (Suc (tp + length w)))"
  proof (cases v)
    case Nil
    then show ?thesis using assms(2) w by (simp add: placed_def)
  next
    case (Cons d u)
    then show ?thesis using get_while_placed [OF assms(1,2), of 2 is_digit] placed_nth [OF assms(2), of 1] w by simp
  qed
  have "\<not> is_xletter (s ! Suc tp)"
  proof (cases v)
    case Nil
    then show ?thesis using assms(2) w by (simp add: placed_def)
  next
    case (Cons d u)
    then have "s ! Suc tp = d" "is_digit d" using placed_nth [OF assms(2), of 1] w by simp_all
    moreover have "is_digit d \<Longrightarrow> \<not> is_xletter d" by (auto simp: is_xletter_def is_digit_def in_range_def scode_def ucode_def)
    ultimately show ?thesis by simp
  qed
  then show ?thesis using get more w(1) assms(2) small
    by (simp add: ReadNumber_def placed_def del: Get_at bindE_Inr split del: if_split)
qed

lemma identifier_at:
  assumes "good s" "placed s tp w" "is_word w" "i \<le> length w" "Screening lx w = Inr t"
  shows "ReadIdentifier tp lx (at s (tp + i)) = Inr (t, int (length w), at s (tp + length w))"
proof -
  let ?P = "\<lambda>c. is_letter c \<or> is_digit c"
  have "list_all ?P (drop i w)" using assms(3) by (auto simp: is_word_def list_all_iff dest: in_set_dropD)
  then have "get_while ?P (at s (tp + i)) = Inr (CHR '' '', at s (Suc (tp + length w)))"
    using get_while_placed [OF assms(1,2,4), of ?P] by simp
  then show ?thesis using assms(2,5) good_length [OF assms(1)]
    by (simp add: ReadIdentifier_def Let_def szsub_small as_int_def placed_def)
qed

lemma single_ops: "\<forall>c\<in>set single_chars. SingleCharOp c = Ch c \<and> c \<noteq> CHR '' ''"
  by (simp add: single_chars_def SingleCharOp_def ucode_def)

lemma long_op:
  assumes "(w, t) \<in> set long_operators" "Get p = Inr (w ! 1, p1)" "Get p1 = Inr ((w @ '' '') ! 2, p2)" "Unget p2 = p1"
  shows "ReadSeparator (hd w) tp p = Inr (t, int (length w), if length w = 2 then p1 else p2, None)"
  using assms(2-4) assms(1) [unfolded long_operators_def list.set]
  by (elim insertE emptyE; simp add: ReadSeparator_def)

lemma long_lengths: "(w, t) \<in> set long_operators \<Longrightarrow> length w = 2 \<or> length w = 3"
  by (auto simp: long_operators_def)

lemma operator_at:
  assumes "good s" "placed s tp w" "(w, t) \<in> set operators"
  shows "ReadSeparator (hd w) tp (at s (Suc tp)) = Inr (t, int (length w), at s (tp + length w), None)"
proof -
  have l1: "Suc tp < length s" if "w \<noteq> []" using assms(2) that by (cases w) (auto simp: placed_def)
  then have g: "w \<noteq> [] \<Longrightarrow> Get (at s (Suc tp)) = Inr (s ! Suc tp, at s (Suc (Suc tp)))" using assms(1) by simp
  consider (one) c where "w = [c]" "t = Ch c" "c \<in> set single_chars" | (assign) c where "w = [c, CHR ''='']" "t = AssignOp" "c \<in> set assign_chars"
    | (long) "(w, t) \<in> set long_operators" using assms(3) by (auto simp: operators_def)
  then show ?thesis
  proof cases
    case one
    moreover from one have "s ! Suc tp = CHR '' ''" using assms(2) by (simp add: placed_def)
    ultimately show ?thesis using g single_ops by (simp add: ReadSeparator_def single_def del: Get_at list.set)
  next
    case assign
    moreover from assign have "s ! Suc tp = CHR ''=''" using placed_nth [OF assms(2), of 1] by simp
    ultimately show ?thesis using g by (simp add: ReadSeparator_def assign_chars_def del: Get_at list.set)
  next
    case long
    then have len: "length w = 2 \<or> length w = 3" by (rule long_lengths)
    then have "w \<noteq> []" "Suc (Suc tp) < length s" using assms(2) by (auto simp: placed_def)
    moreover have "s ! Suc tp = w ! 1" "s ! Suc (Suc tp) = (w @ '' '') ! 2"
      using placed_nth [OF assms(2), of 1] placed_nth [OF assms(2), of 2] assms(2) len by (auto simp: placed_def nth_append numeral_2_eq_2)
    ultimately have "ReadSeparator (hd w) tp (at s (Suc tp)) =
        Inr (t, int (length w), if length w = 2 then at s (Suc (Suc tp)) else at s (Suc (Suc (Suc tp))), None)"
      using long g assms(1) by (intro long_op) simp_all
    then show ?thesis using len by auto
  qed
qed

text \<open>First characters.\<close>

definition plain :: "char \<Rightarrow> bool" where
  "plain c \<longleftrightarrow> \<not> is_blank c \<and> c \<noteq> BACKSLASH \<and> c \<noteq> LF \<and> c \<noteq> NUL \<and> c \<noteq> QUOTE \<and> c \<noteq> DQUOTE \<and> c \<noteq> CHR ''#''"

lemma operator_head:
  assumes "(w, t) \<in> set operators"
  shows "w \<noteq> [] \<and> plain (hd w) \<and> \<not> is_letter (hd w) \<and> \<not> is_digit (hd w) \<and> \<not> is_digit ((w @ '' '') ! 1) \<and> NUL \<notin> set w \<and>
    t \<notin> {Ignore, ATTRIBUTE, EXTENSION, Ch LF}"
proof -
  have "list_all (\<lambda>(w, t). w \<noteq> [] \<and> plain (hd w) \<and> \<not> is_letter (hd w) \<and> \<not> is_digit (hd w) \<and> \<not> is_digit ((w @ '' '') ! 1) \<and> NUL \<notin> set w \<and>
    t \<notin> {Ignore, ATTRIBUTE, EXTENSION, Ch LF}) operators" by code_simp
  then show ?thesis using assms by (auto simp: list_all_iff)
qed

lemma plain_classes: "is_letter c \<Longrightarrow> plain c" "is_digit c \<Longrightarrow> plain c" "is_letter c \<Longrightarrow> c \<noteq> CHR ''.''" "is_digit c \<Longrightarrow> c \<noteq> CHR ''.''"
  by (auto simp: plain_def is_blank_def is_letter_def is_digit_def in_range_def scode_def ucode_def)

lemma lexeme_cases:
  assumes "lexeme kind w = Some t"
  obtains (op) "(w, t) \<in> set operators" | (number) "is_number w" "t = Constant"
    | (word) "is_word w" "t = kind w" "t \<notin> {Ignore, ATTRIBUTE, EXTENSION, Ch LF}"
  using assms by (auto simp: lexeme_def split: option.splits if_splits dest: map_of_SomeD)

lemma lexeme_plain: "lexeme kind w = Some t \<Longrightarrow> w \<noteq> [] \<and> plain (hd w) \<and> NUL \<notin> set w \<and> t \<notin> {Ignore, ATTRIBUTE, EXTENSION, Ch LF}"
proof (erule lexeme_cases)
  assume "is_number w" "t = Constant"
  then show ?thesis by (cases w) (auto simp: is_number_def plain_classes list_all_iff)
next
  assume "is_word w" "t \<notin> {Ignore, ATTRIBUTE, EXTENSION, Ch LF}"
  then show ?thesis by (cases w) (auto simp: is_word_def plain_classes list_all_iff)
qed (use operator_head in blast)

lemma next_char:
  assumes "good s" "i \<le> tp" "\<forall>k. i \<le> k \<and> k < tp \<longrightarrow> is_blank (s ! k)" "tp < length s" "plain (s ! tp)"
  shows "GetNextNonWhiteChar (at s i) = Inr (s ! tp, at s (Suc tp))"
proof -
  have "get_while is_blank (at s i) = Inr (s ! tp, at s (Suc tp))"
    using get_while_exact [OF assms(1,2,4), of is_blank] assms(3,5) by (simp add: plain_def)
  then show ?thesis using assms(5) by (subst GetNextNonWhiteChar.simps) (simp add: plain_def)
qed

lemma lexeme_line:
  assumes "good s" "lx_file lx = at s i" "i \<le> tp" "\<forall>k. i \<le> k \<and> k < tp \<longrightarrow> is_blank (s ! k)" "placed s tp w"
    "lexeme kind w = Some t" "Screening lx w = Inr (kind w)"
  shows "ReadLine lx = Inr (t, lx\<lparr>lx_file := at s (tp + length w), tokenp := tp, token_len := int (length w)\<rparr>)"
proof -
  have hd: "s ! tp = hd w" "tp < length s" "w \<noteq> []" "plain (hd w)"
    using lexeme_plain [OF assms(6)] placed_hd [OF assms(5)] by auto
  have "GetNextNonWhiteChar (lx_file lx) = Inr (hd w, at s (Suc tp))" using next_char [OF assms(1,3,4) hd(2)] hd assms(2) by simp
  note u = ReadLine_def [of lx, unfolded this, simplified bindE.simps prod.case Let_def Unget_at]
  have l: "Suc tp < length s" using assms(5) hd(3) by (cases w) (auto simp: placed_def)
  then have get: "Get (at s (Suc tp)) = Inr (s ! Suc tp, at s (Suc (Suc tp)))" using assms(1) by simp
  from assms(6) show ?thesis
  proof (cases rule: lexeme_cases)
    case op
    note h = operator_head [OF op]
    have "set_separator lx tp (t, int (length w), at s (tp + length w), None) =
      (t, lx\<lparr>lx_file := at s (tp + length w), tokenp := tp, token_len := int (length w)\<rparr>)" by (simp add: set_separator_def)
    moreover have "s ! Suc tp = (w @ '' '') ! 1"
    proof (cases "length w = 1")
      case True
      then show ?thesis using assms(5) by (simp add: placed_def nth_append)
    next
      case False
      then have "1 < length w" using h by (cases w) auto
      then show ?thesis using placed_nth [OF assms(5), of 1] by (simp add: nth_append)
    qed
    ultimately show ?thesis using u h get operator_at [OF assms(1,5) op]
      by (cases "hd w = CHR ''.''") (simp_all add: plain_def del: Get_at bindE_Inr)
  next
    case number
    then have "is_digit (hd w)" by (cases w) (auto simp: is_number_def)
    then show ?thesis using u hd(4) number number_at [OF assms(1,5) number(1)] by (simp add: plain_def set_token_def)
  next
    case word
    then have "is_letter (hd w)" by (simp add: is_word_def)
    note h = this letter_not_digit [OF this] plain_classes(3) [OF this]
    show ?thesis
    proof (cases "hd w = CHR ''L''")
      case True
      have "s ! Suc tp \<noteq> QUOTE \<and> s ! Suc tp \<noteq> DQUOTE"
      proof (cases "length w = 1")
        case True
        then show ?thesis using assms(5) by (simp add: placed_def)
      next
        case False
        then have "1 < length w" using hd(3) by (cases w) auto
        then have "s ! Suc tp \<in> set w" using placed_nth [OF assms(5), of 1] by simp
        then show ?thesis using word(1) by (auto simp: is_word_def list_all_iff)
      qed
      then show ?thesis using u h hd(4) True get identifier_at [OF assms(1,5) word(1) _ assms(7), of 0] word(2)
        by (simp add: plain_def set_token_def del: Get_at)
    next
      case False
      then show ?thesis using u h hd(3,4) identifier_at [OF assms(1,5) word(1) _ assms(7), of 1] word(2)
        by (simp add: plain_def set_token_def Suc_le_eq)
    qed
  qed
qed

lemma Screening_state [simp]:
  "Screening (lx\<lparr>lx_file := p, tokenp := tp, token_len := l\<rparr>) = Screening lx" "Screening (lx\<lparr>last_token := t\<rparr>) = Screening lx"
  by (simp_all add: Screening_def fun_eq_iff)

lemma lexeme_token:
  assumes "good s" "lx_file lx = at s i" "i \<le> tp" "\<forall>k. i \<le> k \<and> k < tp \<longrightarrow> is_blank (s ! k)" "placed s tp w"
    "lexeme kind w = Some t" "Screening lx w = Inr (kind w)"
  shows "\<exists>lx'. read_token (Suc n) lx = Inr ((t, tp, int (length w)), lx') \<and> lx_file lx' = at s (tp + length w) \<and> Screening lx' = Screening lx"
  using lexeme_line [OF assms] lexeme_plain [OF assms(6)]
  by (auto simp: read_token_def simp flip: fun_eq_iff)

section \<open>Reading all of them\<close>

lemma spell_Cons: "spell (w # ws) = (w @ '' '') @ spell ws"
  by (simp add: spell_def)

lemma read_spelled:
  assumes "good s"
  shows "s = pre @ spell ws \<Longrightarrow> lx_file lx = at s i \<Longrightarrow> i \<le> length pre \<Longrightarrow> \<forall>k. i \<le> k \<and> k < length pre \<longrightarrow> is_blank (s ! k) \<Longrightarrow>
    \<forall>w\<in>set ws. lexeme kind w \<noteq> None \<Longrightarrow> \<forall>w. Screening lx w = Inr (kind w) \<Longrightarrow>
    \<exists>ts lx' j. read_n (read_token (Suc n)) (length ws) lx = Inr (ts, lx') \<and>
      map (\<lambda>(t, pos, len). (Some t, take (nat len) (drop pos s))) ts = map (\<lambda>w. (lexeme kind w, w)) ws \<and>
      lx_file lx' = at s j \<and> j < length s \<and> (\<forall>k. j \<le> k \<and> Suc k < length s \<longrightarrow> is_blank (s ! k))"
proof (induction ws arbitrary: pre lx i)
  case Nil
  then show ?case by (intro exI [of _ "[]"] exI [of _ lx] exI [of _ i]) (auto simp: spell_def)
next
  case (Cons w ws)
  let ?tp = "length pre"
  obtain t where t: "lexeme kind w = Some t" using Cons.prems(5) by auto
  have s: "s = (pre @ w @ '' '') @ spell ws" using Cons.prems(1) by (simp add: spell_Cons)
  then have p: "placed s ?tp w" by (auto simp: placed_def nth_append spell_def)
  obtain lx1 where lx1: "read_token (Suc n) lx = Inr ((t, ?tp, int (length w)), lx1)" "lx_file lx1 = at s (?tp + length w)" "Screening lx1 = Screening lx"
    using lexeme_token [OF assms Cons.prems(2,3,4) p t] Cons.prems(6) by blast
  have blank: "\<forall>k. ?tp + length w \<le> k \<and> k < length (pre @ w @ '' '') \<longrightarrow> is_blank (s ! k)"
  proof (intro allI impI)
    fix k
    assume "?tp + length w \<le> k \<and> k < length (pre @ w @ '' '')"
    then have "k = ?tp + length w" by simp
    then show "is_blank (s ! k)" using p by (simp add: placed_def)
  qed
  obtain ts lx' j where "read_n (read_token (Suc n)) (length ws) lx1 = Inr (ts, lx')"
      "map (\<lambda>(t, pos, len). (Some t, take (nat len) (drop pos s))) ts = map (\<lambda>w. (lexeme kind w, w)) ws"
      "lx_file lx' = at s j" "j < length s" "\<forall>k. j \<le> k \<and> Suc k < length s \<longrightarrow> is_blank (s ! k)"
    using Cons.IH [OF s lx1(2) _ blank] Cons.prems(5,6) lx1(3) by auto
  then show ?case using lx1(1) t p
    by (intro exI [of _ "(t, ?tp, int (length w)) # ts"] exI [of _ lx'] exI [of _ j]) (simp add: placed_def)
qed

text \<open>The end: the line end is skipped.\<close>

lemma read_end:
  assumes "good s" "lx_file lx = at s j" "j < length s" "\<forall>k. j \<le> k \<and> Suc k < length s \<longrightarrow> is_blank (s ! k)"
  shows "\<exists>pos len lx'. read_token (Suc (Suc n)) lx = Inr ((Ch NUL, pos, len), lx')"
proof -
  obtain l where l: "length s = Suc l" using assms(3) by (cases "length s") auto
  have "s ! l = LF" using last_LF [OF assms(1)] l by simp
  moreover have "get_while is_blank (at s j) = Inr (s ! l, at s (Suc l))"
    using get_while_exact [of s j l is_blank] assms l calculation by (auto simp: is_blank_def)
  ultimately have "GetNextNonWhiteChar (at s j) = Inr (LF, at s (length s))" using l by (subst GetNextNonWhiteChar.simps) simp
  moreover have "GetNextNonWhiteChar (at s (length s)) = Inr (NUL, at s (length s))"
    using assms(1) by (subst GetNextNonWhiteChar.simps) (simp add: get_while.simps)
  ultimately show ?thesis using assms(2) by (simp add: read_token_def ReadLine_def Let_def)
qed

text \<open>
  C26. Printing and reading are inverse: a sequence of words, decimal numbers and operators, written with a blank behind each
  and a line end behind all, is read as exactly this sequence, each with its token (that of the keyword tables for a word) and with its own
  text; then the lexer reports the end.
\<close>

theorem print_read:
  assumes "length (spell ws) < 2147483648" "\<forall>w\<in>set ws. lexeme (word_kind wchars (InitializeOtherKeywords ext) m) w \<noteq> None" "represents user m"
  shows "\<exists>ts lx' pos len lx''. read_n (read_token (Suc (Suc n))) (length ws) (new_Lex (spell ws) wchars ext user) = Inr (ts, lx') \<and>
    map (\<lambda>(t, pos, len). (Some t, take (nat len) (drop pos (spell ws)))) ts = map (\<lambda>w. (lexeme (word_kind wchars (InitializeOtherKeywords ext) m) w, w)) ws \<and>
    read_token (Suc (Suc n)) lx' = Inr ((Ch NUL, pos, len), lx'')"
proof -
  let ?lx = "new_Lex (spell ws) wchars ext user" and ?kind = "word_kind wchars (InitializeOtherKeywords ext) m"
  have "NUL \<notin> set w" if "w \<in> set ws" for w using that assms(2) lexeme_plain by blast
  then have good: "good (spell ws)" using assms(1) by (auto simp: good_def spell_def)
  have "Screening ?lx w = Inr (?kind w)" for w
    using Screening_word_kind [of ?lx m w] assms(3) keywords_ordered by (simp add: new_Lex_def)
  then obtain ts lx' j where r: "read_n (read_token (Suc (Suc n))) (length ws) ?lx = Inr (ts, lx')"
      "map (\<lambda>(t, pos, len). (Some t, take (nat len) (drop pos (spell ws)))) ts = map (\<lambda>w. (lexeme ?kind w, w)) ws"
      "lx_file lx' = at (spell ws) j" "j < length (spell ws)" "\<forall>k. j \<le> k \<and> Suc k < length (spell ws) \<longrightarrow> is_blank (spell ws ! k)"
    using read_spelled [OF good, of "[]" ws ?lx 0 ?kind "Suc n"] assms(2) by (auto simp: new_Lex_def)
  then show ?thesis using read_end [OF good r(3-5), of n] by blast
qed

theorem print_read_witness:
  "\<exists>ts lx'. read_n (read_token 2) 7 (new_Lex (spell [''while'', ''('', ''L1'', ''->'', ''x2'', ''<<='', ''042'']) False True new_HashTable) = Inr (ts, lx') \<and>
    map fst ts = [Keyword ''WHILE'', Ch CHR ''('', Identifier, ArrowOp, Identifier, AssignOp, Constant]"
proof -
  let ?ws = "[''while'', ''('', ''L1'', ''->'', ''x2'', ''<<='', ''042'']" and ?kind = "word_kind False (InitializeOtherKeywords True) Map.empty"
  have k: "?kind ''while'' = Keyword ''WHILE''" "?kind ''L1'' = Identifier" "?kind ''x2'' = Identifier"
    by (simp_all add: word_kind_def InitializeOtherKeywords_def table_def)
  have o: "map_of operators ''('' = Some (Ch CHR ''('')" "map_of operators ''->'' = Some ArrowOp" "map_of operators ''<<='' = Some AssignOp"
    "map_of operators ''while'' = None" "map_of operators ''L1'' = None" "map_of operators ''x2'' = None" "map_of operators ''042'' = None"
    by (simp_all add: operators_def single_chars_def assign_chars_def long_operators_def)
  have c: "is_number ''042''" "\<not> is_number ''while''" "\<not> is_number ''L1''" "\<not> is_number ''x2''" "is_word ''while''" "is_word ''L1''" "is_word ''x2''"
    by code_simp+
  have m: "map (lexeme ?kind) ?ws =
      map Some [Keyword ''WHILE'', Ch CHR ''('', Identifier, ArrowOp, Identifier, AssignOp, Constant]"
    by (simp add: lexeme_def k o c)
  then have "\<forall>w\<in>set ?ws. lexeme ?kind w \<noteq> None" by simp
  then obtain ts lx' where r: "read_n (read_token (Suc (Suc 0))) (length ?ws) (new_Lex (spell ?ws) False True new_HashTable) = Inr (ts, lx')"
    "map (\<lambda>(t, pos, len). (Some t, take (nat len) (drop pos (spell ?ws)))) ts = map (\<lambda>w. (lexeme ?kind w, w)) ?ws"
    using print_read [of ?ws False True Map.empty new_HashTable 0] empty_user by (auto simp add: spell_def simp del: read_n.simps)
  have "map Some (map fst ts) = map (lexeme ?kind) ?ws" using arg_cong [OF r(2), of "map fst"] by (simp add: comp_def split_beta)
  then have "map fst ts = [Keyword ''WHILE'', Ch CHR ''('', Identifier, ArrowOp, Identifier, AssignOp, Constant]"
    unfolding m by (rule map_injective) simp
  moreover have "length ?ws = 7" "Suc (Suc 0) = 2" by simp_all
  ultimately show ?thesis using r(1) by metis
qed

end
