(* ===== verification/Lex_Back.thy ===== *)
theory Lex_Back
  imports Lex_Safe
begin

text \<open>
  Going back: the parser saves a position and restores it to read the same tokens again.
\<close>

section \<open>What a line depends on\<close>

definition same_tables :: "Lex \<Rightarrow> Lex \<Rightarrow> bool" where
  "same_tables lx lx' \<longleftrightarrow> rw_table lx' = rw_table lx \<and> user_keywords lx' = user_keywords lx \<and> wcharSupport lx' = wcharSupport lx"

text \<open>Both results have the token at \<open>tp\<close>.\<close>

fun agree :: "nat \<Rightarrow> (token \<times> Lex) res \<Rightarrow> (token \<times> Lex) res \<Rightarrow> bool" where
  "agree tp (Inr (t, lx)) (Inr (t', lx')) \<longleftrightarrow>
     t = t' \<and> lx_file lx = lx_file lx' \<and> tokenp lx = tp \<and> tokenp lx' = tp \<and> (t = Ch NUL \<or> t = Ch LF \<or> token_len lx = token_len lx')"
| "agree tp (Inl e) (Inl e') \<longleftrightarrow> e = e'"
| "agree tp r r' \<longleftrightarrow> False"

lemma agree_bind: "(\<And>x. m = Inr x \<Longrightarrow> agree tp (f x) (g x)) \<Longrightarrow> agree tp (bindE m f) (bindE m g)"
  by (cases m) auto

lemma agree_if: "(b \<Longrightarrow> agree tp x x') \<Longrightarrow> (\<not> b \<Longrightarrow> agree tp y y') \<Longrightarrow> agree tp (if b then x else y) (if b then x' else y')"
  by simp

lemma agree_case:
  "(\<And>a b. agree tp (f a b) (f' a b)) \<Longrightarrow> agree tp (case z of (a, b) \<Rightarrow> f a b) (case z of (a, b) \<Rightarrow> f' a b)"
  "(\<And>a. agree tp (g a) (g' a)) \<Longrightarrow> (\<And>b. agree tp (h b) (h' b)) \<Longrightarrow>
    agree tp (case y of Inl a \<Rightarrow> g a | Inr b \<Rightarrow> h b) (case y of Inl a \<Rightarrow> g' a | Inr b \<Rightarrow> h' b)"
  by (auto split: prod.splits sum.splits)

lemma agree_set [simp]:
  "agree tp (Inr (set_token lx tp r)) (Inr (set_token lx' tp r))"
  "agree tp (Inr (set_separator lx tp r')) (Inr (set_separator lx' tp r'))"
  by (auto simp: set_token_def set_separator_def split: prod.splits)

lemma same_identifier: "same_tables lx lx' \<Longrightarrow> ReadIdentifier tp lx p = ReadIdentifier tp lx' p"
proof -
  assume "same_tables lx lx'"
  then have "Screening lx = Screening lx'" by (simp add: Screening_def same_tables_def fun_eq_iff)
  then show ?thesis by (simp add: ReadIdentifier_def)
qed

lemma ReadLine_agree:
  assumes "same_tables lx lx'" "GetNextNonWhiteChar (lx_file lx) = Inr (c, p)" "GetNextNonWhiteChar (lx_file lx') = Inr (c, p)"
    and "c \<noteq> CHR ''#'' \<or> last_token lx = last_token lx'"
  shows "agree (GetCurPos p) (ReadLine lx) (ReadLine lx')"
proof -
  have no: "(c = CHR ''#'' \<and> last_token lx = Ch LF) = (c = CHR ''#'' \<and> last_token lx' = Ch LF)" using assms(4) by auto
  show ?thesis unfolding ReadLine_def assms(2,3) bindE.simps prod.case Let_def same_identifier [OF assms(1)] no
    by (intro agree_if agree_bind agree_case; simp split: option.splits)
qed

lemma ReadLine_tokenp:
  assumes "GetNextNonWhiteChar (lx_file lx) = Inr (c, p)" "ReadLine lx = Inr (t, lx')"
  shows "tokenp lx' = GetCurPos p"
  using ReadLine_agree [of lx lx c p] assms by (simp add: same_tables_def)

lemma starts_again:
  assumes "good s" "starts s c j"
  shows "GetNextNonWhiteChar (at s j) = Inr (c, at s (Suc j))"
proof -
  have j: "j < length s" "\<not> is_blank (s ! j)" using assms(2) by (auto simp: starts_def is_blank_def)
  then have "get_while is_blank (at s j) = Inr (s ! j, at s (Suc j))" using assms(1) by (simp add: get_while.simps [of is_blank "at s j"])
  then show ?thesis using assms j by (subst GetNextNonWhiteChar.simps) (auto simp: starts_def)
qed

section \<open>The last turn\<close>

text \<open>The loop of \<^verbatim>\<open>ReadToken\<close> ends with a turn that begins somewhere in the text.\<close>

lemma last_turn:
  assumes "good s"
  shows "i \<le> length s \<Longrightarrow> lex_config lx \<Longrightarrow> lx_file lx = at s i \<Longrightarrow> ReadToken n lx = Inr r \<Longrightarrow>
    \<exists>lx0 i0. ReadToken 1 lx0 = Inr r \<and> same_tables lx lx0 \<and> lx_file lx0 = at s i0 \<and> i0 \<le> length s"
proof (induction n arbitrary: i lx)
  case (Suc n)
  obtain t lx' where r: "ReadLine lx = Inr (t, lx')" "line_ok s i lx t lx'"
    using ReadLine_at [OF assms Suc.prems(1-3)] Suc.prems(4) by (auto simp: line_result_def)
  then obtain j where j: "lx_file lx' = at s j" "j \<le> length s" by (auto simp: line_ok_def)
  have c: "lex_config (lx'\<lparr>last_token := t, lx_file := p\<rparr>)" "lex_config (lx'\<lparr>last_token := t\<rparr>)" "lex_config lx'" for p
    using r(2) Suc.prems(2) by (simp_all add: line_ok_def lex_config_def)
  have again: ?case if "ReadToken (Suc n) lx = ReadToken n lx1" "lex_config lx1" "lx_file lx1 = at s k" "k \<le> length s" "same_tables lx' lx1" for lx1 k
    using Suc.IH [OF that(4,2,3)] that(1,5) Suc.prems(4) r(2) by (auto simp: same_tables_def line_ok_def)
  have stop: ?case if "ReadToken (Suc n) lx = ReadToken 1 lx" 
    using that Suc.prems by (intro exI [of _ lx] exI [of _ i]) (simp add: same_tables_def del: ReadToken.simps)
  consider (ignore) "t = Ignore" | (attr) "t = ATTRIBUTE" | (ext) "t = EXTENSION" | (line) "t = Ch LF"
    | (token) "t \<noteq> Ignore" "t \<noteq> ATTRIBUTE" "t \<noteq> EXTENSION" "t \<noteq> Ch LF" by blast
  then show ?case
  proof cases
    case ignore
    then show ?thesis using again [of lx' j] r(1) c j by (simp add: same_tables_def)
  next
    case attr
    then obtain k where k: "SkipAttributeToken (at s j) = Inr (at s k)" "k \<le> length s" using SkipAttributeToken_at [OF assms j(2)] by blast
    then show ?thesis using again [of "lx'\<lparr>last_token := t, lx_file := at s k\<rparr>" k] r(1) c j attr by (simp add: same_tables_def)
  next
    case ext
    then have "j < length s" using r(2) j by (auto simp: line_ok_def)
    then obtain t' k where k: "SkipExtensionToken (at s j) = Inr (t', at s k)" "t' = Ignore \<or> t' = Identifier" "k \<le> length s"
      using SkipExtensionToken_at [OF assms, of j] by blast
    from k(2) show ?thesis
    proof
      assume "t' = Ignore"
      then show ?thesis using again [of "lx'\<lparr>last_token := t, lx_file := at s k\<rparr>" k] r(1) c j ext k by (simp add: same_tables_def)
    next
      assume "t' = Identifier"
      then show ?thesis using r(1) j ext k by (intro stop) simp
    qed
  next
    case line
    then show ?thesis using again [of "lx'\<lparr>last_token := t\<rparr>" j] r(1) c j by (simp add: same_tables_def)
  next
    case token
    then show ?thesis using r(1) by (intro stop) simp
  qed
qed simp

text \<open>A turn that ends the loop gives the same token in a lexer that agrees on the line.\<close>

lemma turn_agree:
  assumes "agree tp (ReadLine lx) (ReadLine lx1)" "ReadToken 1 lx = Inr (t, pos, len, lx')" "t \<noteq> Ch NUL"
  shows "\<exists>lx1'. ReadToken (Suc m) lx1 = Inr (t, pos, len, lx1') \<and> lx_file lx1' = lx_file lx'"
proof -
  obtain t0 l0 where l0: "ReadLine lx = Inr (t0, l0)" using assms(2) by (auto split: if_splits)
  then obtain l1 where l1: "ReadLine lx1 = Inr (t0, l1)" "lx_file l1 = lx_file l0" "tokenp l1 = tokenp l0"
    "t0 = Ch NUL \<or> t0 = Ch LF \<or> token_len l1 = token_len l0"
    using assms(1) by (cases "ReadLine lx1") auto
  then show ?thesis using l0 assms(2,3) by (auto split: if_splits simp: Let_def) force
qed

text \<open>
  C29. Backtracking reads the same token again.  If \<^verbatim>\<open>ReadToken\<close> returned a token at some position, then restoring this position, at any
  later time and whatever has been read or looked ahead since, makes the next \<^verbatim>\<open>GetToken\<close> return the same token, position and length, and
  leaves the lexer at the same place in the text.  (A token that begins with \<^verbatim>\<open>#\<close> would be taken for a directive, and the end
  of the text has no length.)
\<close>

theorem restore_rereads:
  assumes "good s" "lex_config lx" "lx_file lx = at s i" "i \<le> length s" "ReadToken n lx = Inr (t, pos, len, lx')" "t \<noteq> Ch NUL"
    and "s ! pos \<noteq> CHR ''#''" "\<not> (s ! pos = BACKSLASH \<and> s ! Suc pos = CHR ''#'')"
    and "same_tables lx lx1" "buf (lx_file lx1) = s" "0 < m"
  shows "\<exists>lx2. GetToken m (Restore pos (f, lx1)) = Inr ((t, pos, len), Clear f, lx2) \<and> lx_file lx2 = lx_file lx'"
proof -
  obtain lx0 i0 where lx0: "ReadToken 1 lx0 = Inr (t, pos, len, lx')" "same_tables lx lx0" "lx_file lx0 = at s i0" "i0 \<le> length s"
    using last_turn [OF assms(1,4,2,3,5)] by blast
  let ?lx = "snd (Restore pos (f, lx1))"
  have at_pos: "lx_file ?lx = at s pos" using assms(10) by (cases "lx_file lx1") (simp add: Restore_def Rewind_def)
  have same: "same_tables lx0 ?lx" using lx0(2) assms(9) by (simp add: same_tables_def Restore_def)
  have "agree pos (ReadLine lx0) (ReadLine ?lx)"
  proof -
    obtain t0 l0 where l0: "ReadLine lx0 = Inr (t0, l0)" "tokenp l0 = pos" "t0 = Ch NUL \<longrightarrow> t = Ch NUL"
      using lx0(1) by (auto split: if_splits simp: Let_def)
    consider "GetNextNonWhiteChar (at s i0) = Inr (NUL, at s (length s))"
      | c j where "starts s c j" "GetNextNonWhiteChar (at s i0) = Inr (c, at s (Suc j))"
      using GetNextNonWhiteChar_at [OF assms(1) lx0(4)] by blast
    then show ?thesis
    proof cases
      case 1
      then have "t0 = Ch NUL" using l0(1) lx0(3) by (auto simp: ReadLine_def Let_def)
      then show ?thesis using l0(3) assms(6) by simp
    next
      case 2
      then have "j = pos" using ReadLine_tokenp [of lx0 c "at s (Suc j)" t0 l0] l0 lx0(3) by simp
      then show ?thesis using 2 ReadLine_agree [OF same, of c "at s (Suc j)"] lx0(3) at_pos starts_again [OF assms(1) 2(1)] assms(7,8)
        by (auto simp: starts_def)
    qed
  qed
  then obtain lx2 where "ReadToken m ?lx = Inr (t, pos, len, lx2)" "lx_file lx2 = lx_file lx'"
    using turn_agree [OF _ lx0(1) assms(6), of pos ?lx "m - 1"] assms(11) by auto
  then show ?thesis by (auto simp: GetToken_def Restore_def Clear_def Pop_def read_token_def)
qed

theorem restore_rereads_witness:
  "\<exists>lx' lx2. ReadToken 1 (new_Lex ('' a+b'' @ [LF]) False True new_HashTable) = Inr (Identifier, 1, 1, lx') \<and>
    GetToken 1 (Restore 1 (new_TokenFifo, lx')) = Inr ((Identifier, 1, 1), Clear new_TokenFifo, lx2) \<and> lx_file lx2 = lx_file lx'"
proof -
  let ?s = "'' a+b'' @ [LF]"
  let ?lx = "new_Lex ?s False True new_HashTable"
  have g: "good ?s" by (simp add: good_def)
  have c: "lex_config ?lx" by (rule new_Lex_config [OF empty_user]) simp
  have f: "lx_file ?lx = at ?s 0" by (simp add: new_Lex_def)
  have "Screening ?lx ''a'' = Inr (word_kind False (InitializeOtherKeywords True) Map.empty ''a'')"
    using Screening_word_kind [of ?lx Map.empty] empty_user keywords_ordered by (simp add: new_Lex_def)
  then have "Screening ?lx ''a'' = Inr Identifier" by (simp add: word_kind_def InitializeOtherKeywords_def table_def)
  moreover have "GetNextNonWhiteChar (at ?s 0) = Inr (CHR ''a'', at ?s 2)"
    by (simp add: GetNextNonWhiteChar.simps get_while.simps Get_def Ref_def is_blank_def)
  moreover have "get_while (\<lambda>c. is_letter c \<or> is_digit c) (at ?s 2) = Inr (CHR ''+'', at ?s 3)"
    by (simp add: get_while.simps Get_def Ref_def is_letter_def is_digit_def in_range_def scode_def ucode_def)
  ultimately obtain lx' where r: "ReadToken 1 ?lx = Inr (Identifier, 1, 1, lx')" "same_tables ?lx lx'" "buf (lx_file lx') = ?s"
    using f by (auto simp: ReadLine_def Let_def ReadIdentifier_def GetCurPos_def dec_def szsub_def sz_def as_int_def set_token_def
      Unget_def same_tables_def is_letter_def is_digit_def in_range_def scode_def ucode_def)
  have "0 \<le> length ?s" "Identifier \<noteq> Ch NUL" "?s ! 1 \<noteq> CHR ''#''" "\<not> (?s ! 1 = BACKSLASH \<and> ?s ! Suc 1 = CHR ''#'')" "0 < (1 :: nat)" by simp_all
  from restore_rereads [OF g c f this(1) r(1) this(2-4) r(2,3) this(5), of new_TokenFifo] show ?thesis using r(1) by blast
qed

end
