(* ===== verification/Lex_Faults.thy ===== *)
theory Lex_Faults
  imports Lex_Safe
begin

text \<open>
  Inputs on which the lexer does not do what it means to do, by evaluation.
\<close>

lemmas eval_simps = ReadLine_def Let_def get_while.simps GetNextNonWhiteChar.simps ReadCharConst.simps Get_def Ref_def Unget_def GetCurPos_def Rewind_def dec_def
  len_from_def szsub_def sz_def as_int_def set_token_def set_separator_def is_blank_def is_letter_def is_digit_def in_range_def scode_def ucode_def new_Lex_def

text \<open>Without a line end at its end, the text loses its last character; the lexer then returns empty words forever.\<close>

lemma plain_identifier: "Screening (new_Lex s False True new_HashTable) [] = Inr Identifier" "Screening (new_Lex s False True new_HashTable) ''a'' = Inr Identifier"
proof -
  have "Screening (new_Lex s False True new_HashTable) w = Inr (word_kind False (InitializeOtherKeywords True) Map.empty w)" for w
    using Screening_word_kind [of "new_Lex s False True new_HashTable" Map.empty] empty_user keywords_ordered by (simp add: new_Lex_def)
  then show "Screening (new_Lex s False True new_HashTable) [] = Inr Identifier" "Screening (new_Lex s False True new_HashTable) ''a'' = Inr Identifier"
    by (simp_all add: word_kind_def InitializeOtherKeywords_def table_def)
qed

theorem last_character_lost:
  "\<exists>lx'. ReadToken 1 (new_Lex ''ab'' False True new_HashTable) = Inr (Identifier, 0, 1, lx') \<and> index (lx_file lx') = 1"
  "\<exists>lx'. ReadToken 1 (new_Lex ''a'' False True new_HashTable) = Inr (Identifier, 0, 0, lx') \<and> lx_file lx' = lx_file (new_Lex ''a'' False True new_HashTable)"
  using plain_identifier(2) [of "''ab''"] plain_identifier(1) [of "''a''"] by (simp_all add: ReadIdentifier_def eval_simps)

text \<open>The length of a wide character constant is one too small.\<close>

theorem wide_length:
  "\<exists>lx'. ReadToken 1 (new_Lex (''L'' @ [QUOTE] @ ''a'' @ [QUOTE, LF]) False True user) = Inr (WideCharConst, 0, 3, lx')"
  by (simp add: eval_simps)

text \<open>Two dots fail an assertion.\<close>

theorem two_dots: "ReadToken 1 (new_Lex (''..a'' @ [LF]) False True user) = Inl AssertFail"
  by (simp add: eval_simps ReadSeparator_def ReadComment_def)

end
