(* ===== verification/Lex_Values.thy ===== *)
theory Lex_Values
  imports Lex_Print
begin

text \<open>
  The values of constants (\<^verbatim>\<open>Lex::Reify\<close>) and the recorded comments.  A constant is given by the text of its leaf, \<open>None\<close> if
  the tree is null or no leaf; the result is \<open>None\<close> if the call returns false.  The text of a leaf is never empty.
\<close>

section \<open>Operations\<close>

definition code_from :: "char \<Rightarrow> char \<Rightarrow> 32 word" where
  "code_from a c = word_of_int (scode c - scode a)"

fun hex_loop :: "32 word \<Rightarrow> string \<Rightarrow> 32 word option" where
  "hex_loop value [] = Some value"
| "hex_loop value (c # cs) =
     (if is_digit c then hex_loop (value * 0x10 + code_from CHR ''0'' c) cs
      else if in_range CHR ''A'' CHR ''F'' c then hex_loop (value * 0x10 + (code_from CHR ''A'' c + 10)) cs
      else if in_range CHR ''a'' CHR ''f'' c then hex_loop (value * 0x10 + (code_from CHR ''a'' c + 10)) cs
      else if is_int_suffix c then Some value else None)"

fun dec_loop :: "32 word \<Rightarrow> string \<Rightarrow> 32 word option" where
  "dec_loop value [] = Some value"
| "dec_loop value (c # cs) =
     (if is_digit c then dec_loop (value * 10 + code_from CHR ''0'' c) cs
      else if is_int_suffix c then Some value else None)"

definition Reify_unsigned :: "string option \<Rightarrow> 32 word option" where
  "Reify_unsigned t = (case t of None \<Rightarrow> None
     | Some p \<Rightarrow> if length p > 2 \<and> p ! 0 = CHR ''0'' \<and> is_xletter (p ! 1) then hex_loop 0 (drop 2 p)
               else if length p > 0 \<and> is_digit (p ! 0) then dec_loop 0 p else None)"

definition Reify_bool :: "string option \<Rightarrow> bool option" where
  "Reify_bool t = (case t of None \<Rightarrow> None
     | Some p \<Rightarrow> if p = ''true'' then Some True else if p = ''false'' then Some False
               else map_option (\<lambda>v. v \<noteq> 0) (Reify_unsigned t))"

text \<open>The rest of a string constant; a closing quote and the text up to the next opening one are left out.\<close>

function (sequential) str_loop_from :: "string \<Rightarrow> string" where
  "str_loop_from [] = []"
| "str_loop_from (c # cs) =
     (if c \<noteq> DQUOTE then if c = BACKSLASH then c # (case cs of [] \<Rightarrow> [] | d # ds \<Rightarrow> d # str_loop_from ds) else c # str_loop_from cs
      else str_loop_from (tl (dropWhile (\<lambda>d. d \<noteq> DQUOTE) cs)))"
  by pat_completeness auto
termination
  by (relation "measure length") (auto simp: less_Suc_eq_le, meson diff_le_self le_trans length_dropWhile_le)

definition Reify_string :: "string option \<Rightarrow> string option" where
  "Reify_string t = (case t of None \<Rightarrow> None | Some [] \<Rightarrow> None | Some (c # cs) \<Rightarrow> if c \<noteq> DQUOTE then None else Some (str_loop_from cs))"

definition GetComments :: "Lex \<Rightarrow> (nat \<times> int) list \<times> Lex" where
  "GetComments lx = (comments lx, lx\<lparr>comments := []\<rparr>)"

definition GetComments2 :: "Lex \<Rightarrow> (nat \<times> int) list" where
  "GetComments2 lx = comments lx"

section \<open>Numbers\<close>

text \<open>The value of a digit sequence in a base.\<close>

definition number_value :: "nat \<Rightarrow> nat list \<Rightarrow> nat" where
  "number_value b ds = foldl (\<lambda>n d. n * b + d) 0 ds"

definition digit_char :: "nat \<Rightarrow> char" where
  "digit_char d = (if d < 10 then char_of (d + 48) else char_of (d + 55))"

lemma digit_codes: "d < 10 \<Longrightarrow> is_digit (digit_char d) \<and> code_from CHR ''0'' (digit_char d) = of_nat d"
  "10 \<le> d \<Longrightarrow> d < 16 \<Longrightarrow> \<not> is_digit (digit_char d) \<and> in_range CHR ''A'' CHR ''F'' (digit_char d) \<and> code_from CHR ''A'' (digit_char d) + 10 = of_nat d"
proof -
  have "list_all (\<lambda>d. is_digit (digit_char d) \<and> code_from CHR ''0'' (digit_char d) = of_nat d) [0,1,2,3,4,5,6,7,8,9]" by code_simp
  then show "d < 10 \<Longrightarrow> is_digit (digit_char d) \<and> code_from CHR ''0'' (digit_char d) = of_nat d"
    by (auto simp: numeral_eq_Suc less_Suc_eq)
  have "list_all (\<lambda>d. \<not> is_digit (digit_char d) \<and> in_range CHR ''A'' CHR ''F'' (digit_char d) \<and> code_from CHR ''A'' (digit_char d) + 10 = of_nat d) [10,11,12,13,14,15]" by code_simp
  then show "10 \<le> d \<Longrightarrow> d < 16 \<Longrightarrow> \<not> is_digit (digit_char d) \<and> in_range CHR ''A'' CHR ''F'' (digit_char d) \<and> code_from CHR ''A'' (digit_char d) + 10 = of_nat d"
    by (auto simp: numeral_eq_Suc less_Suc_eq le_Suc_eq)
qed

lemma suffix_chars: "is_int_suffix c \<Longrightarrow> \<not> is_digit c \<and> \<not> in_range CHR ''A'' CHR ''F'' c \<and> \<not> in_range CHR ''a'' CHR ''f'' c \<and> \<not> is_xletter c"
  by (auto simp: is_int_suffix_def is_digit_def in_range_def is_xletter_def scode_def ucode_def)

lemma digit_not_x: "is_digit c \<Longrightarrow> \<not> is_xletter c"
  by (auto simp: is_xletter_def is_digit_def in_range_def scode_def ucode_def)

lemma dec_loop_digits:
  "\<forall>d\<in>set ds. d < 10 \<Longrightarrow> \<forall>c\<in>set suf. is_int_suffix c \<Longrightarrow>
    dec_loop (of_nat n) (map digit_char ds @ suf) = Some (of_nat (foldl (\<lambda>n d. n * 10 + d) n ds))"
proof (induction ds arbitrary: n)
  case Nil
  then show ?case by (cases suf) (auto dest: suffix_chars)
next
  case (Cons d ds)
  then show ?case using Cons.IH [of "n * 10 + d"] by (simp add: digit_codes(1))
qed

lemma hex_loop_digits:
  "\<forall>d\<in>set ds. d < 16 \<Longrightarrow> \<forall>c\<in>set suf. is_int_suffix c \<Longrightarrow>
    hex_loop (of_nat n) (map digit_char ds @ suf) = Some (of_nat (foldl (\<lambda>n d. n * 16 + d) n ds))"
proof (induction ds arbitrary: n)
  case Nil
  then show ?case by (cases suf) (auto dest: suffix_chars)
next
  case (Cons d ds)
  then show ?case using Cons.IH [of "n * 16 + d"] digit_codes [of d] by (cases "d < 10") simp_all
qed



section \<open>Strings\<close>

text \<open>The inside of a string constant: every quote is escaped, and a backslash escapes something.\<close>

fun closed :: "string \<Rightarrow> bool" where
  "closed [] \<longleftrightarrow> True"
| "closed [c] \<longleftrightarrow> c \<noteq> DQUOTE \<and> c \<noteq> BACKSLASH"
| "closed (c # d # cs) \<longleftrightarrow> c \<noteq> DQUOTE \<and> (if c = BACKSLASH then closed cs else closed (d # cs))"

lemma str_loop_closed: "closed p \<Longrightarrow> str_loop_from (p @ DQUOTE # r) = p @ str_loop_from (tl (dropWhile (\<lambda>d. d \<noteq> DQUOTE) r))"
  by (induction p rule: closed.induct) auto

definition literal :: "(string \<times> string) list \<Rightarrow> string" where
  "literal ps = concat (map (\<lambda>(p, g). DQUOTE # p @ DQUOTE # g) ps)"

lemma str_loop_literal:
  "closed p \<Longrightarrow> DQUOTE \<notin> set g \<Longrightarrow> \<forall>(p, g)\<in>set ps. closed p \<and> DQUOTE \<notin> set g \<Longrightarrow>
    str_loop_from (p @ DQUOTE # g @ literal ps) = p @ concat (map fst ps)"
proof (induction ps arbitrary: p g)
  case Nil
  then have "dropWhile (\<lambda>d. d \<noteq> DQUOTE) g = []" unfolding dropWhile_eq_Nil_conv by auto
  from arg_cong [OF this, of tl] show ?case using Nil(1) by (simp add: str_loop_closed literal_def)
next
  case (Cons a ps)
  obtain p' g' where a: "a = (p', g')" by fastforce
  have "\<forall>c\<in>set g. c \<noteq> DQUOTE" using Cons.prems(2) by auto
  then have "dropWhile (\<lambda>d. d \<noteq> DQUOTE) (g @ literal (a # ps)) = DQUOTE # p' @ DQUOTE # g' @ literal ps"
    using a by (simp add: dropWhile_append2 literal_def)
  then show ?case using Cons.IH [of p' g'] Cons.prems a by (simp add: str_loop_closed)
qed

text \<open>
  The value of a sequence of adjacent string constants is their contents in order, escapes kept as they are; what is between
  them is left out.
\<close>

theorem reify_strings:
  assumes "ps \<noteq> []" "\<forall>(p, g)\<in>set ps. closed p \<and> DQUOTE \<notin> set g"
  shows "Reify_string (Some (literal ps)) = Some (concat (map fst ps))"
proof -
  obtain p g ps' where ps: "ps = (p, g) # ps'" using assms(1) by (cases ps) auto
  then show ?thesis using str_loop_literal [of p g ps'] assms(2) by (simp add: Reify_string_def literal_def)
qed

theorem reify_strings_witness:
  "Reify_string (Some (literal [(''a'' @ [BACKSLASH, DQUOTE] @ ''b'', '' ''), (''c'', [LF]), ([], [])])) = Some (''a'' @ [BACKSLASH, DQUOTE] @ ''bc'')"
  using reify_strings [of "[(''a'' @ [BACKSLASH, DQUOTE] @ ''b'', '' ''), (''c'', [LF]), ([], [])]"] by simp

end
