(* ===== verification/Prog_Lines.thy ===== *)
theory Prog_Lines
  imports Lex_Values
begin

text \<open>
  Line numbers in a preprocessed text (\<^verbatim>\<open>opencxx/parser/Program.cc\<close>): the line of a position, counted from the last line directive
  in front of it.
\<close>

section \<open>Operations\<close>

text \<open>\<^verbatim>\<open>do c = Ref(++i); while (P(c))\<close>\<close>

lemma Ref_bound: "Ref p i = Inr c \<Longrightarrow> i \<le> length (buf p)"
  by (simp add: Ref_def split: if_splits)

function ref_while :: "(char \<Rightarrow> bool) \<Rightarrow> Program \<Rightarrow> nat \<Rightarrow> (char \<times> nat) res" where
  "ref_while P p i = bindE (Ref p (i + 1)) (\<lambda>c. if P c then ref_while P p (i + 1) else Inr (c, i + 1))"
  by pat_completeness auto
termination
  by (relation "measure (\<lambda>(P, p, i). length (buf p) - i)") (auto dest!: Ref_bound)

function num_loop :: "Program \<Rightarrow> nat \<Rightarrow> 32 word \<Rightarrow> (char \<times> nat \<times> 32 word) res" where
  "num_loop p i num =
     bindE (Ref p (i + 1)) (\<lambda>c. if is_digit c then num_loop p (i + 1) (num * 10 + code_from CHR ''0'' c) else Inr (c, i + 1, num))"
  by pat_completeness auto
termination
  by (relation "measure (\<lambda>(p, i, num). length (buf p) - i)") (auto dest!: Ref_bound)

declare ref_while.simps [simp del] num_loop.simps [simp del]

text \<open>\<^verbatim>\<open>Program::ReadLineDirective\<close>: the line number and, if the directive has one, the place and the length of the file name in its quotes.\<close>

definition line_directive :: "Program \<Rightarrow> nat \<Rightarrow> int \<Rightarrow> (int \<times> (nat \<times> int) option) res" where
  "line_directive p i line_number =
     bindE (ref_while is_blank p i) (\<lambda>(c, i).
     if is_digit c
     then bindE (num_loop p i (code_from CHR ''0'' c)) (\<lambda>(c, i, num).
          let line_number = sint (num - 1) in
          if is_blank c
          then bindE (ref_while is_blank p i) (\<lambda>(c, i).
               if c = DQUOTE
               then let fname_start = i in
                    bindE (ref_while (\<lambda>c. c \<noteq> DQUOTE) p i) (\<lambda>(c, i).
                    Inr (line_number, if i > fname_start + 2 then Some (fname_start, int (i - fname_start + 1)) else None))
               else Inr (line_number, None))
          else Inr (line_number, None))
     else Inr (line_number, None))"

text \<open>
  The loop of \<^verbatim>\<open>LineNumber\<close> and its result; no file name stands for the default name.  The sums of \<^verbatim>\<open>int\<close>s are not wrapped.
\<close>

primrec line_loop :: "Program \<Rightarrow> nat \<Rightarrow> int \<Rightarrow> int \<Rightarrow> (nat \<times> int) option \<Rightarrow> (int \<times> (nat \<times> int) option) res" where
  "line_loop p 0 nline line_number fname = Inr (if line_number < 0 then nline + 1 else line_number, fname)"
| "line_loop p (Suc pos) nline line_number fname =
     bindE (Ref p pos) (\<lambda>c.
     bindE (if c = LF then Inr (nline + 1, line_number, fname)
            else if c = CHR ''#''
            then bindE (if pos = 0 then Inr LF else Ref p (pos - 1)) (\<lambda>d.
                 if d = LF
                 then bindE (line_directive p pos (-1)) (\<lambda>(n, name).
                      if n \<ge> 0
                      then Inr (nline, if line_number < 0 then n + nline else line_number, if fname = None then name else fname)
                      else Inr (nline, line_number, fname))
                 else Inr (nline, line_number, fname))
            else Inr (nline, line_number, fname)) (\<lambda>(nline, line_number, fname).
     if line_number \<ge> 0 \<and> fname \<noteq> None then Inr (line_number, fname) else line_loop p pos nline line_number fname))"

definition LineNumber :: "Program \<Rightarrow> nat \<Rightarrow> (int \<times> (nat \<times> int) option) res" where
  "LineNumber p pos = (if pos > length (buf p) then Inr (0, None) else line_loop p pos 0 (-1) None)"

section \<open>Directives\<close>

lemma ref_while_skips:
  "buf p = a @ ws @ c # r \<Longrightarrow> Suc i = length a \<Longrightarrow> \<forall>x\<in>set ws. P x \<Longrightarrow> \<not> P c \<Longrightarrow> ref_while P p i = Inr (c, length a + length ws)"
proof (induction ws arbitrary: a i)
  case Nil
  then show ?case by (subst ref_while.simps) (simp add: Ref_def)
next
  case (Cons w ws)
  then have "ref_while P p (Suc i) = Inr (c, length (a @ [w]) + length ws)" by (intro Cons.IH) auto
  then show ?case using Cons.prems by (subst ref_while.simps) (simp add: Ref_def)
qed

lemma num_loop_reads:
  "buf p = a @ map digit_char ds @ c # r \<Longrightarrow> Suc i = length a \<Longrightarrow> \<forall>d\<in>set ds. d < 10 \<Longrightarrow> \<not> is_digit c \<Longrightarrow>
    num_loop p i (of_nat n) = Inr (c, length a + length ds, of_nat (foldl (\<lambda>n d. n * 10 + d) n ds))"
proof (induction ds arbitrary: a i n)
  case Nil
  then show ?case by (subst num_loop.simps) (simp add: Ref_def)
next
  case (Cons d ds)
  then have "num_loop p (Suc i) (of_nat (n * 10 + d)) = Inr (c, length (a @ [digit_char d]) + length ds, of_nat (foldl (\<lambda>n d. n * 10 + d) (n * 10 + d) ds))"
    by (intro Cons.IH) auto
  then show ?case using Cons.prems digit_codes(1) [of d] by (subst num_loop.simps) (simp add: Ref_def)
qed

definition directive :: "string \<Rightarrow> nat list \<Rightarrow> string \<Rightarrow> string \<Rightarrow> string" where
  "directive b1 ds b2 name = CHR ''#'' # b1 @ map digit_char ds @ b2 @ DQUOTE # name @ [DQUOTE]"

lemma digit_not_blank: "is_digit c \<Longrightarrow> \<not> is_blank c"
  by (auto simp: is_blank_def is_digit_def in_range_def scode_def ucode_def)

lemma blank_not: "is_blank c \<Longrightarrow> \<not> is_digit c \<and> c \<noteq> DQUOTE"
  using digit_not_blank by (auto simp: is_blank_def)

lemma line_directive_reads:
  assumes "buf p = pre @ directive b1 ds b2 name @ r" "list_all is_blank b1" "list_all is_blank b2" "b2 \<noteq> []" "ds \<noteq> []" "\<forall>d\<in>set ds. d < 10"
    and "DQUOTE \<notin> set name" "2 \<le> length name" "0 < number_value 10 ds" "number_value 10 ds < 2147483648"
  shows "line_directive p (length pre) l = Inr (int (number_value 10 ds) - 1,
    Some (length pre + 1 + length b1 + length ds + length b2, int (length name) + 2))"
proof -
  obtain d ds' where ds: "ds = d # ds'" using assms(5) by (cases ds) auto
  obtain x b2' where b2: "b2 = x # b2'" "is_blank x" "list_all is_blank b2'" using assms(3,4) by (cases b2) auto
  have d: "is_digit (digit_char d)" "code_from CHR ''0'' (digit_char d) = of_nat d" using digit_codes(1) assms(6) ds by auto
  let ?a = "pre @ CHR ''#'' # b1 @ [digit_char d]"
  have 1: "ref_while is_blank p (length pre) = Inr (digit_char d, length (pre @ [CHR ''#'']) + length b1)"
    by (rule ref_while_skips [of p _ _ _ "map digit_char ds' @ b2 @ DQUOTE # name @ DQUOTE # r"])
      (use assms(1,2) ds d digit_not_blank in \<open>auto simp: directive_def list_all_iff\<close>)
  have 2: "num_loop p (length (pre @ [CHR ''#'']) + length b1) (of_nat d) = Inr (x, length ?a + length ds', of_nat (number_value 10 ds))"
    using num_loop_reads [of p ?a ds' x "b2' @ DQUOTE # name @ DQUOTE # r" "length (pre @ [CHR ''#'']) + length b1" d] assms(1,6) ds b2 blank_not
    by (auto simp: directive_def number_value_def)
  have 3: "ref_while is_blank p (length ?a + length ds') = Inr (DQUOTE, length (?a @ map digit_char ds' @ [x]) + length b2')"
    by (rule ref_while_skips [of p _ _ _ "name @ DQUOTE # r"]) (use assms(1) ds b2 blank_not in \<open>auto simp: directive_def list_all_iff\<close>)
  have 4: "ref_while (\<lambda>c. c \<noteq> DQUOTE) p (length (?a @ map digit_char ds' @ [x]) + length b2') =
      Inr (DQUOTE, length (?a @ map digit_char ds' @ b2 @ [DQUOTE]) + length name)"
    by (rule ref_while_skips [of p _ _ _ r]) (use assms(1,7) ds b2 in \<open>auto simp: directive_def\<close>)
  have "sint (of_nat (number_value 10 ds) - 1 :: 32 word) = int (number_value 10 ds) - 1"
  proof -
    have "of_nat (number_value 10 ds) - 1 = (word_of_int (int (number_value 10 ds) - 1) :: 32 word)" by simp
    then show ?thesis using assms(9,10) by (simp only: int_word_sint) simp
  qed
  then show ?thesis using 1 2 3 4 d b2(2) assms(8) ds b2(1) by (simp add: line_directive_def)
qed

section \<open>Counting\<close>

definition lines :: "string \<Rightarrow> nat" where
  "lines s = length (filter (\<lambda>c. c = LF) s)"

lemma lines_simps [simp]: "lines [] = 0" "lines (s @ t) = lines s + lines t" "lines (c # s) = (if c = LF then 1 else 0) + lines s"
  by (simp_all add: lines_def)

lemma lines_none: "LF \<notin> set s \<Longrightarrow> lines s = 0"
  by (auto simp: lines_def filter_empty_conv)

lemma line_loop_skips:
  "buf p = a @ b @ r \<Longrightarrow> CHR ''#'' \<notin> set b \<Longrightarrow>
    line_loop p (length a + length b) nl (-1) None = line_loop p (length a) (nl + int (lines b)) (-1) None"
proof (induction b arbitrary: r nl rule: rev_induct)
  case (snoc c b)
  have "Ref p (length a + length b) = Inr c" using snoc.prems(1) by (simp add: Ref_def nth_append)
  then show ?case using snoc.IH [of "c # r"] snoc.prems by (auto simp: ac_simps)
qed simp



text \<open>A directive whose file name has no closing quote is read beyond the end of the text.\<close>

theorem open_name_overruns: "LineNumber \<lparr>buf = ''# 1 '' @ [DQUOTE] @ ''a'' @ [LF], index = 0\<rparr> 7 = Inl OutOfRange"
  by (simp add: LineNumber_def eval_nat_numeral line_directive_def Ref_def ref_while.simps num_loop.simps is_blank_def is_digit_def in_range_def scode_def ucode_def)

end
