(* ===== verification/Spec2Isabelle.thy ===== *)
theory Spec2Isabelle
  imports Random_Props Call_Effects Chan_Results Chan_System Quantity_Energy Cord_Str Lex_Print Lex_Back Lex_Faults Prog_Lines
begin

text \<open>
  A verification library for the Plasma runtime: the discrete-event thread kernel of the Plasma
  language, its channels and its support classes (\<^verbatim>\<open>src/src/\<close>), the string library that comes with its
  garbage collector (\<^verbatim>\<open>src/gc/cord/\<close>), and the lexical analyser and hash tables of its source translator
  (\<^verbatim>\<open>src/opencxx/parser/\<close>).  File names below are relative to the first directory, those of cords to \<^verbatim>\<open>src/gc\<close>, those of the
  translator to \<^verbatim>\<open>src/opencxx\<close>.

  \<^bold>\<open>The program.\<close>  A Plasma program is a set of threads on simulated processors.  \<^verbatim>\<open>Interface.C\<close> holds
  the calls of user code; they go to the one \<^verbatim>\<open>Cluster\<close>, which chooses processors and
  threads, switches contexts through Quick Threads, and advances the simulated time kept by
  \<^verbatim>\<open>System\<close> when no processor has work.  A \<^verbatim>\<open>Proc\<close> owns (or shares) a vector of ready queues, one
  per priority; a queue links \<^verbatim>\<open>Thread\<close> objects through their own fields.  Channels exchange
  data between threads and are written on top of \<^verbatim>\<open>pSleep\<close>, \<^verbatim>\<open>pWake\<close>, \<^verbatim>\<open>pAddReady\<close> and \<^verbatim>\<open>pDelay\<close>.
  All objects are garbage collected; the collector calls back into \<^verbatim>\<open>System\<close> for the stacks of the threads.  Cords are immutable
  strings of any length on top of the collector, kept as trees.  The source translator turns Plasma syntax into C++; its lexer
  reads a preprocessed text, knows the reserved words and the keywords that were recorded, and gives its parser tokens with
  look-ahead and backtracking.

  \<^bold>\<open>Modelling.\<close>  Objects live in explicit stores indexed by identifiers, a pointer is an option of an
  identifier, and an operation that can follow a null pointer, fail an assertion, throw or
  leave an array returns a sum whose left side says so (theory Prelude); an exception that \<^verbatim>\<open>main\<close> or
  \<^verbatim>\<open>setupInternal\<close> catches ends the process by \<^verbatim>\<open>pPanic\<close>, with its message.  Machine words keep
  their width.  A call that gives up the processor ends where the next thread runs; what the
  caller still has to do afterwards is stored as its continuation (\<open>cont\<close> in Kernel_State) or,
  for channel operations, is a second piece of the operation (\<open>_resume\<close> definitions).

  \<^bold>\<open>Theories and source files.\<close>
  \<^item> Prelude: errors, sequencing, the shared types and generic lemmas.
  \<^item> Fifo_Spec: the first-in first-out contract as a locale; Queue_Impl: \<^verbatim>\<open>Queue.h\<close>, \<^verbatim>\<open>Queue.C\<close> over a
    heap of links, its representation invariant, and the interpretation of the contract.
  \<^item> Rand_Spec: \<^verbatim>\<open>Random.h\<close>, \<^verbatim>\<open>Random.C\<close> over an engine contract (locale); Lcg_Rand, Kiss_Rand, Mt_Rand:
    the engines \<^verbatim>\<open>LcgRand\<close>, \<^verbatim>\<open>KissRand\<close>, \<^verbatim>\<open>MtRand\<close> and their interpretations; Random_Props: the stream
    class over the engines.
  \<^item> Heap_PQ: the event queues of \<^verbatim>\<open>System.h\<close> and \<^verbatim>\<open>System.C\<close>, as the binary heap of \<^verbatim>\<open>std::priority_queue\<close> with the
    comparison of the source, and the priority-queue contract.
  \<^item> Kernel_State: the objects of \<^verbatim>\<open>Thread.h\<close>, \<^verbatim>\<open>ThreadQ.h\<close>, \<^verbatim>\<open>Proc.h\<close>, \<^verbatim>\<open>System.h\<close>, \<^verbatim>\<open>Cluster.h\<close> in one record;
    Thread_Ops: \<^verbatim>\<open>Thread.C\<close> and the list of active threads; Proc_Ops: \<^verbatim>\<open>Proc.C\<close>; System_Ops: \<^verbatim>\<open>System.C\<close>;
    Cluster_Ops: processor choice and the advance of time; Switch_Ops: context switches, the
    calls of \<^verbatim>\<open>Cluster.C\<close> and its scheduler loop; Interface_Ops: \<^verbatim>\<open>Interface.C\<close> and \<^verbatim>\<open>Init.C\<close>.
  \<^item> Ready_Inv: the ready queues represent one list per priority; Kernel_Inv: the kernel invariant;
    Sched_Inv, Call_Inv: the scheduler and each call keep it; Alarm_Off: programs without preemption keep
    the alarm blocked; Kernel_Steps: the kernel as a step relation, reachability, safety; Call_Effects: single calls in detail.
  \<^item> Chan_Ops: the unclocked channels of \<^verbatim>\<open>plasma.h\<close> and \<^verbatim>\<open>Timeout\<close> of \<^verbatim>\<open>ChanSupport.C\<close>; Clock_Chan: the
    clock, the wakers, \<^verbatim>\<open>ClockChan\<close> and \<^verbatim>\<open>Broadcaster\<close>; Chan_Props: the channel contract (locale) and
    its interpretations; Chan_Results: the properties of channels.
  \<^item> Chan_Kernel: programs without preemption whose threads use a channel while the kernel schedules them, and the contract
    of a blocking channel (locale) with its interpretation for \<^verbatim>\<open>Channel\<close>; Chan_System: the
    interpretation for \<^verbatim>\<open>QueueChan\<close> and the properties of such programs.
  \<^item> Quantity_Energy: the resource manager \<^verbatim>\<open>Quantity.h\<close>, and the accounts of \<^verbatim>\<open>Energy.h\<close>, \<^verbatim>\<open>Energy.C\<close>.
  \<^item> C_Types: unsigned integers and characters of C, shared by the cords and the translator.
  \<^item> Cord_Ops: representation, concatenation and balancing of cords (\<^verbatim>\<open>cord/cordbscs.c\<close>) for 32-bit pointers;
    Cord_Inv: their text and invariant, concatenation; Cord_Balance: balancing by the Fibonacci argument;
    Cord_Substr: function nodes and parts; Cord_Iter: traversal with the contract of its clients (locale),
    interpreted for conversion to C strings and for search (\<^verbatim>\<open>cord/cordxtra.c\<close>); Cord_Pos: positions and their cache
    (\<^verbatim>\<open>include/private/cord_pos.h\<close>); Cord_Xtra: extensible cords (\<^verbatim>\<open>include/ec.h\<close>) and files; Cord_Cmp: comparison;
    Cord_Str: search for a text with a sliding word.
  \<^item> Hash_Table: \<^verbatim>\<open>parser/HashTable.cc\<close>, \<^verbatim>\<open>parser/BigHashTable.cc\<close>, probing and growth; Hash_Map: tables as maps.
  \<^item> Lex_Ops: the program text (\<^verbatim>\<open>parser/Program.h\<close>), characters and the token readers of \<^verbatim>\<open>parser/Lex.cc\<close>; Lex_Fifo: the
    look-ahead buffer, over the contract of a token source (locale); Lex_Words: keyword tables; Lex_Text, Lex_Safe: reading
    returns and stays in the text, and the lexer as a token source; Lex_Print: printing and reading; Lex_Back: backtracking;
    Lex_Values: values of constants and recorded comments; Prog_Lines: line numbers and directives (\<^verbatim>\<open>parser/Program.cc\<close>);
    Lex_Faults: inputs on which the lexer goes wrong.

  \<^bold>\<open>What is shown.\<close>  Kernel: in every reachable state of a program that makes the calls of \<open>ucall\<close> and respects
  the calling rules (\<open>call_ok\<close> in Kernel_Steps) none of these calls, no preemption and no scheduler pass fails; every ready thread
  is in the queue of its priority on its processor, which is current or queued, with any number of processors the program
  made; the highest priority runs first; time moves to the earliest event; a bad configuration ends in a panic.  Queues and event heaps
  refine their abstract specifications.  Channels and kernel together, in programs without preemption: no operation of a
  \<^verbatim>\<open>Channel\<close> or single-consumer \<^verbatim>\<open>QueueChan\<close> fails, every registered thread sleeps, values are delivered once and in
  order, and no wake-up is lost; with preemption a value can be lost (\<open>preempted_write_lost\<close>).  Generators: exact
  ranges, reversibility, equality with the reference recurrence, and save/load round trips.  Cords: every operation is the list
  operation on the text it stands for (within the stated lengths), keeps the representation invariant and the bound on the depth,
  and stays inside its arrays.  Translator: hash tables are maps; the lexer returns and stays in its text, reads what was
  printed, classifies words as the tables say, and look-ahead and backtracking do not change what is read.  The calls whose
  behaviour may surprise a caller have a theorem with the exact behaviour.

  \<^bold>\<open>Loops.\<close>  Loops over data have termination proofs (the drain and time loops on the number of waiting
  events, the priority loop on the priority).  Loops that follow pointers, and the search of
  the resource manager, are \<^theory_text>\<open>partial_function (option)\<close>: not returning is a value, and the theorems
  say when they return.  Concatenation and balancing of cords call each other; \<open>cat_n\<close> bounds the nested calls, and two
  are shown to be enough.  The loops over cord positions (\<open>CORD_FOR_loop\<close>, \<open>cmp_loop\<close>, \<open>ncmp_loop\<close>) take a bound on their turns; one
  more than the number of characters is shown to be enough.  \<^verbatim>\<open>ReadToken\<close> takes a bound on the tokens it skips; more than the characters left
  are shown to be enough.  The growth of a hash table adds entries to a bigger one, which could grow again: \<open>add_n\<close> bounds the nesting,
  and with at most 1134 additions (2029 in a big table) one growth is shown to be enough.

  \<^bold>\<open>Bounds of the kernel invariant.\<close>  The step relation covers programs without \<^verbatim>\<open>pBusy\<close>, whose
  processors each have their own ready vector and which do not change priorities, kill threads or add waiters;
  those calls are modelled, and the ones with surprising effects have theorems in Call_Effects.

  \<^bold>\<open>Not modelled.\<close>  The alarm between two statements of a channel operation: a piece runs as a whole, which is what happens in a
  program without preemption (the channels take no lock, \<^verbatim>\<open>pTMutex\<close> is empty); rounding of doubles (energy is any
  additive type, samples are reals); the exponential and normal distributions (C library
  logarithm); stream output and the \<^verbatim>\<open>printf\<close> wrappers; the signal handler of \<^verbatim>\<open>Init.C\<close> that shuts the
  program down; the assembler of Quick Threads, of which only the stack layout and the order of
  the callback are used; the conservative garbage collector itself (the rest of \<^verbatim>\<open>src/gc\<close>) and \<^verbatim>\<open>src/libltdl\<close>,
  which are third-party packages; of cords formatted printing, \<^verbatim>\<open>CORD_put\<close>, the dump functions and the opening of files, and failing allocation; of the translator its parser and class walker,
  substitution in and writing of the program text, the branches for other compilers than GNU C, and the metaclasses in \<^verbatim>\<open>src/parser\<close>.
\<close>

end
